(* ===== verification/Prelude.thy ===== *)
theory Prelude
  imports Main "HOL-Library.Word" "HOL-Library.Monad_Syntax"
begin

unbundle bit_operations_syntax

text \<open>
  Shared ground of the development: the machine types, the collections of simp rules the
  component theories add to, and the generic lemmas on words, chains of links and arrays
  that more than one component needs.
\<close>

named_theorems kdefs \<open>definitions of small kernel helpers, unfolded together\<close>
named_theorems wsimps \<open>word facts shared by the address computations\<close>

type_synonym u8 = "8 word"
type_synonym u16 = "16 word"
type_synonym u32 = "32 word"
type_synonym u64 = "64 word"

section \<open>Words\<close>

lemma and_le_left: "(a :: 'a::len word) AND b \<le> a"
  by (simp add: word_and_le2)

lemma unat_and_mask: "unat ((a :: 'a::len word) AND mask n) = unat a mod 2 ^ n"
  by (metis take_bit_eq_mask take_bit_eq_mod unsigned_take_bit_eq)

lemma and_0xFFF: "(a :: u32) AND 0xFFF = take_bit 12 a"
  by (simp add: take_bit_eq_mask mask_numeral)

lemma and_0x3FF: "(a :: u32) AND 0x3FF = take_bit 10 a"
  by (simp add: take_bit_eq_mask mask_numeral)

lemma unat_take_bit: "unat (take_bit n (a :: 'a::len word)) = unat a mod 2 ^ n"
  by (metis take_bit_eq_mod unsigned_take_bit_eq)

lemma unat_and_0xFFF [wsimps]: "unat ((a :: u32) AND 0xFFF) = unat a mod 4096"
  by (simp add: and_0xFFF unat_take_bit)

lemma unat_and_0x3FF [wsimps]: "unat ((a :: u32) AND 0x3FF) = unat a mod 1024"
  by (simp add: and_0x3FF unat_take_bit)

lemma unat_drop_bit [wsimps]: "unat (drop_bit n (a :: 'a::len word)) = unat a div 2 ^ n"
  by (metis drop_bit_eq_div unat_drop_bit_eq)

lemma unat_mod_word [wsimps]: "unat ((a :: 'a::len word) mod b) = unat a mod unat b"
  by (rule unat_mod)

lemma unat_sub_mod [wsimps]:
  "unat ((a :: 'a::len word) - a mod b) = unat a - unat a mod unat b"
proof -
  have "a mod b \<le> a"
    by (simp add: word_le_nat_alt unat_mod)
  then show ?thesis
    by (simp add: unat_sub unat_mod)
qed

lemma unat_add_no_wrap:
  assumes "unat (a :: 'a::len word) + unat b < 2 ^ LENGTH('a)"
  shows "unat (a + b) = unat a + unat b"
  using assms by (simp add: unat_word_ariths)

lemma unat_of_nat32: "n < 2 ^ 32 \<Longrightarrow> unat (of_nat n :: u32) = n"
  by (simp add: unat_of_nat take_bit_eq_mod)

lemma sint_small: "unat (p :: u32) < 2 ^ 31 \<Longrightarrow> sint p = int (unat p)"
proof -
  assume "unat p < 2 ^ 31"
  then have a: "unat p < 2147483648" by simp
  have e: "uint p = int (unat p)" by simp
  have u: "uint p < 2147483648" unfolding e using a by linarith
  have "signed_take_bit 31 (uint p) = uint p"
    by (rule signed_take_bit_int_eq_self) (use u in \<open>simp_all add: order_trans [of _ 0]\<close>)
  then show ?thesis by (simp add: sint_uint)
qed

lemma page_split: "(n :: nat) = 4096 * (n div 4096) + n mod 4096" "n mod 4096 < 4096"
  by simp_all

lemma page_join: "(n :: nat) = 4096 * q + r \<Longrightarrow> r < 4096 \<Longrightarrow> n div 4096 = q \<and> n mod 4096 = r"
  by simp

lemma unat_less_32: "unat (x :: u32) < 4294967296"
  using unsigned_less [of x] by simp

lemma not_bit_small:
  assumes "unat (x :: 'a::len word) < 2 ^ n"
  shows "\<not> bit x n"
proof -
  have "unat (drop_bit n x) = 0" using assms by (simp add: unat_drop_bit)
  then have "drop_bit n x = 0" by (simp only: unat_eq_zero)
  then show ?thesis by (simp add: bit_iff_odd_drop_bit)
qed

lemma sint_pos_iff: "0 < sint (x :: u32) \<longleftrightarrow> x \<noteq> 0 \<and> \<not> bit x 31"
proof -
  have "bit x 31 \<longleftrightarrow> sint x < 0"
    using bit_last_iff [of x] by simp
  moreover have "sint x = 0 \<longleftrightarrow> x = 0" by (rule signed_eq_0_iff)
  ultimately show ?thesis by linarith
qed

text \<open>A word is put together again from its four bytes.\<close>

lemma join_bytes:
  "((ucast (ucast (v :: u32) :: u8) OR push_bit 8 (ucast (ucast (drop_bit 8 v) :: u8))
     OR push_bit 16 (ucast (ucast (drop_bit 16 v) :: u8))
     OR push_bit 24 (ucast (ucast (drop_bit 24 v) :: u8))) :: u32) = v"
  apply (rule bit_word_eqI)
  subgoal for n
    by (cases "n < 8"; cases "n < 16"; cases "n < 24") (auto simp: bit_simps)
  done

section \<open>Chains of links\<close>

text \<open>
  \<open>chain nxt p xs\<close>: following the links \<open>nxt\<close> from the pointer \<open>p\<close> visits exactly the
  cells \<open>xs\<close> and then reaches NULL.  Both free lists of the kernel (\<open>page_free_list\<close>
  through \<open>pp_link\<close>, \<open>env_free_list\<close> through \<open>env_link\<close>) are described by it.
\<close>

fun chain :: "('a \<Rightarrow> 'a option) \<Rightarrow> 'a option \<Rightarrow> 'a list \<Rightarrow> bool" where
  "chain nxt p [] \<longleftrightarrow> p = None"
| "chain nxt p (x # xs) \<longleftrightarrow> p = Some x \<and> chain nxt (nxt x) xs"

lemma chain_None [simp]: "chain nxt None xs \<longleftrightarrow> xs = []"
  by (cases xs) auto

lemma chain_Some: "chain nxt (Some x) xs \<longleftrightarrow> (\<exists>ys. xs = x # ys \<and> chain nxt (nxt x) ys)"
  by (cases xs) auto

lemma chain_cong:
  "(\<And>x. x \<in> set xs \<Longrightarrow> nxt' x = nxt x) \<Longrightarrow> chain nxt' p xs \<longleftrightarrow> chain nxt p xs"
  by (induction xs arbitrary: p) auto

lemma chain_upd [simp]: "x \<notin> set xs \<Longrightarrow> chain (nxt(x := y)) p xs \<longleftrightarrow> chain nxt p xs"
  by (rule chain_cong) auto

lemma chain_unique: "chain nxt p xs \<Longrightarrow> chain nxt p ys \<Longrightarrow> xs = ys"
  by (induction xs arbitrary: p ys) (auto simp: chain_Some)

lemma chain_append:
  "chain nxt p (xs @ ys) \<Longrightarrow> \<exists>q. chain nxt q ys"
  by (induction xs arbitrary: p) auto

lemma chain_distinct: "chain nxt p xs \<Longrightarrow> distinct xs"
proof (induction xs arbitrary: p)
  case Nil
  show ?case by simp
next
  case (Cons x xs)
  then have tl: "chain nxt (nxt x) xs" and d: "distinct xs" by auto
  have "x \<notin> set xs"
  proof
    assume "x \<in> set xs"
    then obtain as bs where xs: "xs = as @ x # bs" by (meson split_list)
    with tl obtain q where "chain nxt q (x # bs)" using chain_append by blast
    then have "chain nxt (nxt x) bs" by simp
    with tl have "bs = xs" using chain_unique by metis
    with xs show False by simp
  qed
  with d show ?case by simp
qed

lemma chain_link_None_iff:
  "chain nxt p xs \<Longrightarrow> x \<in> set xs \<Longrightarrow> nxt x = None \<longleftrightarrow> x = last xs"
proof (induction xs arbitrary: p)
  case Nil
  then show ?case by simp
next
  case (Cons a xs)
  have d: "distinct (a # xs)" using chain_distinct [OF Cons.prems(1)] .
  from Cons.prems(1) have c: "chain nxt (nxt a) xs" by simp
  show ?case
  proof (cases "x = a")
    case True
    with c d show ?thesis by (cases xs) auto
  next
    case False
    with Cons.prems have "x \<in> set xs" by simp
    with Cons.IH [OF c] show ?thesis by (cases xs) auto
  qed
qed

lemma chain_upd_prefix:
  "chain nxt q (as @ p # bs) \<Longrightarrow> p \<notin> set as \<Longrightarrow> chain (nxt(p := r)) q zs
   \<Longrightarrow> \<exists>us. zs = as @ p # us"
proof (induction as arbitrary: q zs)
  case Nil
  then show ?case by (auto simp: chain_Some)
next
  case (Cons a as)
  from Cons.prems have "p \<noteq> a" "q = Some a" "chain nxt (nxt a) (as @ p # bs)" by auto
  with Cons.prems(3) obtain zs' where zs: "zs = a # zs'" "chain (nxt(p := r)) (nxt a) zs'"
    by (auto simp: chain_Some simp del: fun_upd_apply) (simp add: fun_upd_def)
  from Cons.IH [OF \<open>chain nxt (nxt a) (as @ p # bs)\<close> _ zs(2)] Cons.prems(2) zs(1)
  show ?case by auto
qed

text \<open>
  An intrusive free list: the cells of an array carry the links, a global holds the head.
  The provider promises what pushing and popping a cell do to the head and to the links;
  the client sees a list of cells.
\<close>

locale link_pool =
  fixes head :: "'s \<Rightarrow> nat option"
    and nxt :: "'s \<Rightarrow> nat \<Rightarrow> nat option"
    and push :: "nat \<Rightarrow> 's \<Rightarrow> 's"
    and pop :: "'s \<Rightarrow> 's"
  assumes head_push: "head (push p s) = Some p"
    and nxt_push: "nxt (push p s) = (nxt s)(p := head s)"
    and head_pop: "head s = Some p \<Longrightarrow> head (pop s) = nxt s p"
    and nxt_pop: "head s = Some p \<Longrightarrow> q \<noteq> p \<Longrightarrow> nxt (pop s) q = nxt s q"
begin

lemma push_chain:
  "chain (nxt s) (head s) xs \<Longrightarrow> p \<notin> set xs
   \<Longrightarrow> chain (nxt (push p s)) (head (push p s)) (p # xs)"
  by (simp add: head_push nxt_push)

lemma pop_chain:
  assumes "chain (nxt s) (head s) (p # xs)"
  shows "chain (nxt (pop s)) (head (pop s)) xs"
proof -
  from assms have hd: "head s = Some p" and tl: "chain (nxt s) (nxt s p) xs"
    and ne: "p \<notin> set xs"
    using chain_distinct [OF assms] by auto
  have "chain (nxt (pop s)) (nxt s p) xs = chain (nxt s) (nxt s p) xs"
    by (rule chain_cong) (metis hd ne nxt_pop)
  with hd tl show ?thesis by (simp add: head_pop)
qed

lemma pop_push_chain:
  assumes "chain (nxt s) (head s) xs" "p \<notin> set xs"
  shows "chain (nxt (pop (push p s))) (head (pop (push p s))) xs"
  using pop_chain [OF push_chain [OF assms]] .

lemma push_member_breaks:
  assumes "chain (nxt s) (head s) xs" "p \<in> set xs"
  shows "\<not> chain (nxt (push p s)) (head (push p s)) ys"
proof
  assume c: "chain (nxt (push p s)) (head (push p s)) ys"
  from assms(2) obtain as bs where xs: "xs = as @ p # bs" and "p \<notin> set as"
    by (metis split_list_first)
  from c obtain zs where ys: "ys = p # zs" and zs: "chain (nxt (push p s)) (head s) zs"
    by (cases ys) (auto simp: head_push nxt_push)
  from chain_upd_prefix [OF assms(1) [unfolded xs] \<open>p \<notin> set as\<close>] zs
  have "\<exists>us. zs = as @ p # us" by (simp add: nxt_push)
  then have "p \<in> set zs" by auto
  with chain_distinct [OF c] ys show False by simp
qed

end

section \<open>Bounded queues\<close>

text \<open>
  A bounded buffer with a reader and a writer position.  The provider promises what one
  \<open>put\<close> and one \<open>get\<close> do to the sequence of waiting items, as long as there is room; the
  client gets the first-in first-out behaviour of whole sequences of operations.
\<close>

fun drain :: "('s \<Rightarrow> 'a \<times> 's) \<Rightarrow> nat \<Rightarrow> 's \<Rightarrow> 'a list \<times> 's" where
  "drain get 0 s = ([], s)"
| "drain get (Suc n) s = (let (x, s) = get s; (xs, s) = drain get n s in (x # xs, s))"

locale fifo =
  fixes ok :: "'s \<Rightarrow> bool"
    and items :: "'s \<Rightarrow> 'a list"
    and room :: "'s \<Rightarrow> nat"
    and put :: "'a \<Rightarrow> 's \<Rightarrow> 's"
    and get :: "'s \<Rightarrow> 'a \<times> 's"
  assumes put_items: "ok s \<Longrightarrow> 0 < room s \<Longrightarrow>
      ok (put x s) \<and> items (put x s) = items s @ [x] \<and> room s \<le> Suc (room (put x s))"
    and get_items: "ok s \<Longrightarrow> items s = x # xs \<Longrightarrow>
      fst (get s) = x \<and> ok (snd (get s)) \<and> items (snd (get s)) = xs"
begin

lemma puts_items:
  "ok s \<Longrightarrow> length xs \<le> room s \<Longrightarrow> ok (fold put xs s) \<and> items (fold put xs s) = items s @ xs"
proof (induction xs arbitrary: s)
  case (Cons x xs)
  then have "ok (put x s)" "items (put x s) = items s @ [x]" "length xs \<le> room (put x s)"
    using put_items [of s x] by auto
  with Cons.IH show ?case by simp
qed simp

lemma drain_items:
  "ok s \<Longrightarrow> items s = xs @ ys
   \<Longrightarrow> fst (drain get (length xs) s) = xs \<and> ok (snd (drain get (length xs) s)) \<and>
       items (snd (drain get (length xs) s)) = ys"
proof (induction xs arbitrary: s)
  case Nil
  then show ?case by simp
next
  case (Cons x xs)
  obtain s' where s': "get s = (x, s')" "ok s'" "items s' = xs @ ys"
    using get_items [of s x "xs @ ys"] Cons.prems by (cases "get s") auto
  obtain zs t where t: "drain get (length xs) s' = (zs, t)" by fastforce
  from Cons.IH [OF s'(2,3)] s'(1) t show ?case by simp
qed

lemma put_then_drain:
  assumes "ok s" "items s = []" "length xs \<le> room s"
  shows "fst (drain get (length xs) (fold put xs s)) = xs \<and>
    items (snd (drain get (length xs) (fold put xs s))) = []"
  using puts_items [of s xs] drain_items [of "fold put xs s" xs "[]"] assms by simp

end

end
