(* ===== verification/Mmu.thy ===== *)
theory Mmu
  imports Prelude
begin

text \<open>
  The memory-management constants and macros of \<open>inc/mmu.h\<close>, \<open>inc/memlayout.h\<close>,
  \<open>inc/types.h\<close> and \<open>inc/error.h\<close>: the three-part linear address, the page-table entry
  flags, the rounding macros and the layout of the address space.  Addresses are 32-bit
  words, so every computation wraps as it does in the code.
\<close>

section \<open>Constants\<close>

abbreviation (input) PGSIZE :: u32 where "PGSIZE \<equiv> 4096"
abbreviation (input) PTSIZE :: u32 where "PTSIZE \<equiv> 0x400000"
abbreviation (input) NPDENTRIES :: nat where "NPDENTRIES \<equiv> 1024"
abbreviation (input) NPTENTRIES :: nat where "NPTENTRIES \<equiv> 1024"

abbreviation (input) PTE_P :: u32 where "PTE_P \<equiv> 0x001"
abbreviation (input) PTE_W :: u32 where "PTE_W \<equiv> 0x002"
abbreviation (input) PTE_U :: u32 where "PTE_U \<equiv> 0x004"
abbreviation (input) PTE_PWT :: u32 where "PTE_PWT \<equiv> 0x008"
abbreviation (input) PTE_PCD :: u32 where "PTE_PCD \<equiv> 0x010"
abbreviation (input) PTE_A :: u32 where "PTE_A \<equiv> 0x020"
abbreviation (input) PTE_D :: u32 where "PTE_D \<equiv> 0x040"
abbreviation (input) PTE_AVAIL :: u32 where "PTE_AVAIL \<equiv> 0xE00"
abbreviation (input) PTE_SYSCALL :: u32 where "PTE_SYSCALL \<equiv> 0xE07"

text \<open>The error codes of \<open>inc/error.h\<close>; a function that returns \<open>-E_X\<close> yields \<open>Inl E_X\<close>.\<close>

datatype error =
    E_UNSPECIFIED | E_BAD_ENV | E_INVAL | E_NO_MEM | E_NO_FREE_ENV | E_FAULT
  | E_IPC_NOT_RECV | E_EOF
  | E_NO_DISK | E_MAX_OPEN | E_NOT_FOUND | E_BAD_PATH | E_FILE_EXISTS | E_NOT_EXEC | E_NOT_SUPP

primrec errno :: "error \<Rightarrow> int" where
  "errno E_UNSPECIFIED = 1"
| "errno E_BAD_ENV = 2"
| "errno E_INVAL = 3"
| "errno E_NO_MEM = 4"
| "errno E_NO_FREE_ENV = 5"
| "errno E_FAULT = 6"
| "errno E_IPC_NOT_RECV = 7"
| "errno E_EOF = 8"
| "errno E_NO_DISK = 9"
| "errno E_MAX_OPEN = 10"
| "errno E_NOT_FOUND = 11"
| "errno E_BAD_PATH = 12"
| "errno E_FILE_EXISTS = 13"
| "errno E_NOT_EXEC = 14"
| "errno E_NOT_SUPP = 15"

lemma errno_inject: "errno a = errno b \<Longrightarrow> a = b"
  by (cases a; cases b) simp_all

lemma errno_pos: "0 < errno e" and errno_less: "errno e < 16"
  by (cases e; simp)+

instantiation error :: linorder
begin

definition less_eq_error :: "error \<Rightarrow> error \<Rightarrow> bool" where
  "less_eq_error a b \<longleftrightarrow> errno a \<le> errno b"

definition less_error :: "error \<Rightarrow> error \<Rightarrow> bool" where
  "less_error a b \<longleftrightarrow> errno a < errno b"

instance
  by standard (auto simp: less_eq_error_def less_error_def dest: errno_inject)

end

section \<open>The layout of the address space\<close>

abbreviation (input) KERNBASE :: u32 where "KERNBASE \<equiv> 0xF0000000"
abbreviation (input) KSTACKTOP :: u32 where "KSTACKTOP \<equiv> 0xF0000000"
abbreviation (input) KSTKSIZE :: u32 where "KSTKSIZE \<equiv> 0x8000"
abbreviation (input) KSTKGAP :: u32 where "KSTKGAP \<equiv> 0x8000"
abbreviation (input) MMIOLIM :: u32 where "MMIOLIM \<equiv> 0xEFC00000"
abbreviation (input) MMIOBASE :: u32 where "MMIOBASE \<equiv> 0xEF800000"
abbreviation (input) ULIM :: u32 where "ULIM \<equiv> 0xEF800000"
abbreviation (input) UVPT :: u32 where "UVPT \<equiv> 0xEF400000"
abbreviation (input) UPAGES :: u32 where "UPAGES \<equiv> 0xEF000000"
abbreviation (input) UENVS :: u32 where "UENVS \<equiv> 0xEEC00000"
abbreviation (input) UTOP :: u32 where "UTOP \<equiv> 0xEEC00000"
abbreviation (input) UXSTACKTOP :: u32 where "UXSTACKTOP \<equiv> 0xEEC00000"
abbreviation (input) USTACKTOP :: u32 where "USTACKTOP \<equiv> 0xEEBFE000"
abbreviation (input) UTEXT :: u32 where "UTEXT \<equiv> 0x00800000"
abbreviation (input) UTEMP :: u32 where "UTEMP \<equiv> 0x00400000"
abbreviation (input) PFTEMP :: u32 where "PFTEMP \<equiv> 0x007FF000"

section \<open>Linear addresses\<close>

definition PGNUM :: "u32 \<Rightarrow> u32" where
  "PGNUM la = drop_bit 12 la"

definition PDX :: "u32 \<Rightarrow> u32" where
  "PDX la = drop_bit 22 la AND 0x3FF"

definition PTX :: "u32 \<Rightarrow> u32" where
  "PTX la = drop_bit 12 la AND 0x3FF"

definition PGOFF :: "u32 \<Rightarrow> u32" where
  "PGOFF la = la AND 0xFFF"

definition PGADDR :: "u32 \<Rightarrow> u32 \<Rightarrow> u32 \<Rightarrow> u32" where
  "PGADDR d t off = (push_bit 22 d OR push_bit 12 t) OR off"

definition PTE_ADDR :: "u32 \<Rightarrow> u32" where
  "PTE_ADDR pte = pte AND NOT 0xFFF"

definition ROUNDDOWN :: "u32 \<Rightarrow> u32 \<Rightarrow> u32" where
  "ROUNDDOWN a n = a - a mod n"

definition ROUNDUP :: "u32 \<Rightarrow> u32 \<Rightarrow> u32" where
  "ROUNDUP a n = ROUNDDOWN (a + n - 1) n"

section \<open>Their values\<close>

lemma unat_PGNUM [wsimps]: "unat (PGNUM la) = unat la div 4096"
  by (simp add: PGNUM_def wsimps)

lemma unat_PDX [wsimps]: "unat (PDX la) = unat la div 4194304"
proof -
  have "unat la < 2 ^ 32" using unsigned_less [of la] by simp
  then show ?thesis by (simp add: PDX_def wsimps)
qed

lemma unat_PTX [wsimps]: "unat (PTX la) = unat la div 4096 mod 1024"
  by (simp add: PTX_def wsimps)

lemma unat_PGOFF [wsimps]: "unat (PGOFF la) = unat la mod 4096"
  by (simp add: PGOFF_def wsimps)

lemma PDX_less: "unat (PDX la) < 1024"
  by (simp add: PDX_def wsimps)

lemma PTX_less: "unat (PTX la) < 1024"
  by (simp add: PTX_def wsimps)

lemma unat_ROUNDDOWN [wsimps]: "unat (ROUNDDOWN a n) = unat a - unat a mod unat n"
  by (simp add: ROUNDDOWN_def wsimps)

text \<open>The three indices of a linear address determine it.\<close>

theorem PGADDR_decompose: "PGADDR (PDX la) (PTX la) (PGOFF la) = la"
  unfolding PGADDR_def PDX_def PTX_def PGOFF_def and_0xFFF and_0x3FF
  by (rule bit_word_eqI) (auto simp: bit_simps not_le less_diff_conv2, metis add_diff_inverse_nat)

lemma PTE_ADDR_take_bit: "PTE_ADDR pte = push_bit 12 (drop_bit 12 pte)"
proof -
  have m: "(0xFFF :: u32) = mask 12" by (simp add: mask_numeral)
  show ?thesis unfolding PTE_ADDR_def m
    by (rule bit_word_eqI) (auto simp: bit_simps)
qed

lemma unat_PTE_ADDR [wsimps]: "unat (PTE_ADDR pte) = unat pte div 4096 * 4096"
proof -
  have "unat pte < 2 ^ 32" using unsigned_less [of pte] by simp
  then show ?thesis
    by (simp add: PTE_ADDR_take_bit push_bit_eq_mult unat_word_ariths wsimps)
qed

text \<open>A page-aligned address and flag bits below the page size do not interfere.\<close>

lemma PTE_ADDR_or_flags:
  assumes "PTE_ADDR pa = pa" "unat perm < 4096"
  shows "PTE_ADDR ((pa OR perm) OR PTE_P) = pa"
proof -
  have d: "drop_bit 12 perm = 0"
    using assms(2) unat_drop_bit [of 12 perm] by (simp flip: unat_eq_zero)
  have p: "drop_bit 12 (PTE_P :: u32) = 0" by simp
  have "PTE_ADDR ((pa OR perm) OR PTE_P) = PTE_ADDR pa"
    unfolding PTE_ADDR_take_bit by (simp add: drop_bit_or d p)
  then show ?thesis using assms(1) by simp
qed

lemma PTE_P_or [simp]: "((x :: u32) OR PTE_P) AND PTE_P = PTE_P"
  by (rule bit_word_eqI) (auto simp: bit_simps)

end
