(* ===== verification/Console.thy ===== *)
theory Console
  imports Prelude
begin

text \<open>
  The console (\<open>kern/console.c\<close>): output to the serial port, the parallel port and the
  CGA screen, the keyboard translation, and the circular input buffer that the device
  interrupts fill.  The devices are seen through their data: the bytes waiting in the
  receive register and in the keyboard controller, and the bytes sent out.  The busy-wait
  delays and the set-up of the ports are not modelled.
\<close>

record console =
  serial_exists :: bool
  com_in :: "u8 list"
  kbd_in :: "(bool \<times> u8) list"
  shift :: u32
  rebooted :: bool
  cbuf :: "nat \<Rightarrow> u8"
  rpos :: nat
  wpos :: nat
  crt_buf :: "nat \<Rightarrow> u16"
  crt_pos :: u16
  crt_cursor :: u16
  com_out :: "u8 list"
  lpt_out :: "u8 list"

definition console0 :: console where
  "console0 = \<lparr>serial_exists = True, com_in = [], kbd_in = [], shift = 0, rebooted = False,
     cbuf = (\<lambda>_. 0), rpos = 0, wpos = 0, crt_buf = (\<lambda>_. 0x0720), crt_pos = 0,
     crt_cursor = 0, com_out = [], lpt_out = []\<rparr>"

abbreviation (input) CONSBUFSIZE :: nat where "CONSBUFSIZE \<equiv> 512"
abbreviation (input) CRT_COLS :: nat where "CRT_COLS \<equiv> 80"
abbreviation (input) CRT_SIZE :: nat where "CRT_SIZE \<equiv> 2000"

section \<open>Output\<close>

definition serial_putc :: "u32 \<Rightarrow> console \<Rightarrow> console" where
  "serial_putc c s = s\<lparr>com_out := com_out s @ [ucast c]\<rparr>"

definition lpt_putc :: "u32 \<Rightarrow> console \<Rightarrow> console" where
  "lpt_putc c s = s\<lparr>lpt_out := lpt_out s @ [ucast c]\<rparr>"

text \<open>The switch of \<open>cga_putc\<close> on the characters other than the tab.\<close>

definition cga_switch :: "u32 \<Rightarrow> console \<Rightarrow> console" where
  "cga_switch c s =
     (let ch = c AND 0xFF in
      if ch = 0x08
      then if 0 < crt_pos s
           then let s = s\<lparr>crt_pos := crt_pos s - 1\<rparr>
                in s\<lparr>crt_buf := (crt_buf s)(unat (crt_pos s) := ucast ((c AND NOT 0xFF) OR 0x20))\<rparr>
           else s
      else if ch = 0x0A \<or> ch = 0x0D
      then let s = (if ch = 0x0A then s\<lparr>crt_pos := crt_pos s + 80\<rparr> else s)
           in s\<lparr>crt_pos := crt_pos s - crt_pos s mod 80\<rparr>
      else s\<lparr>crt_buf := (crt_buf s)(unat (crt_pos s) := ucast c), crt_pos := crt_pos s + 1\<rparr>)"

text \<open>The end of \<open>cga_putc\<close>: scrolling by one line when the cursor has left the screen.\<close>

definition cga_scroll :: "console \<Rightarrow> console" where
  "cga_scroll s =
     (let s = (if CRT_SIZE \<le> unat (crt_pos s)
               then s\<lparr>crt_buf := (\<lambda>i. if i < CRT_SIZE - CRT_COLS then crt_buf s (i + CRT_COLS)
                                  else if i < CRT_SIZE then 0x0720 else crt_buf s i),
                      crt_pos := crt_pos s - 80\<rparr>
               else s)
      in s\<lparr>crt_cursor := crt_pos s\<rparr>)"

definition with_attr :: "u32 \<Rightarrow> u32" where
  "with_attr c = (if c AND NOT 0xFF = 0 then c OR 0x0700 else c)"

definition cons_space :: "console \<Rightarrow> console" where
  "cons_space s = cga_scroll (cga_switch (with_attr 0x20) (lpt_putc 0x20 (serial_putc 0x20 s)))"

definition cga_putc :: "u32 \<Rightarrow> console \<Rightarrow> console" where
  "cga_putc c s =
     (let c = with_attr c;
          s = (if c AND 0xFF = 0x09
               then cons_space (cons_space (cons_space (cons_space (cons_space s))))
               else cga_switch c s)
      in cga_scroll s)"

definition cons_putc :: "u32 \<Rightarrow> console \<Rightarrow> console" where
  "cons_putc c s = cga_putc c (lpt_putc c (serial_putc c s))"

definition cputchar :: "u32 \<Rightarrow> console \<Rightarrow> console" where
  "cputchar c s = cons_putc c s"

text \<open>The tab case of \<open>cga_putc\<close> calls \<open>cons_putc(' ')\<close>.\<close>

lemma cons_putc_space: "cons_putc 0x20 s = cons_space s"
  by (simp add: cons_putc_def cga_putc_def cons_space_def with_attr_def)

section \<open>The keyboard\<close>

definition shiftcode :: "u8 \<Rightarrow> u8" where
  "shiftcode d = (if d = 0x1D \<or> d = 0x9D then 2 else if d = 0x2A \<or> d = 0x36 then 1
     else if d = 0x38 \<or> d = 0xB8 then 4 else 0)"

definition togglecode :: "u8 \<Rightarrow> u8" where
  "togglecode d = (if d = 0x3A then 8 else if d = 0x45 then 16 else if d = 0x46 then 32 else 0)"

definition normalmap_lo :: "u8 list" where
  "normalmap_lo = [
     0x00, 0x1B, 0x31, 0x32, 0x33, 0x34, 0x35, 0x36, 0x37, 0x38, 0x39, 0x30, 0x2D, 0x3D, 0x08, 0x09,
     0x71, 0x77, 0x65, 0x72, 0x74, 0x79, 0x75, 0x69, 0x6F, 0x70, 0x5B, 0x5D, 0x0A, 0x00, 0x61, 0x73,
     0x64, 0x66, 0x67, 0x68, 0x6A, 0x6B, 0x6C, 0x3B, 0x27, 0x60, 0x00, 0x5C, 0x7A, 0x78, 0x63, 0x76,
     0x62, 0x6E, 0x6D, 0x2C, 0x2E, 0x2F, 0x00, 0x2A, 0x00, 0x20, 0x00, 0x00, 0x00, 0x00, 0x00, 0x00,
     0x00, 0x00, 0x00, 0x00, 0x00, 0x00, 0x00, 0x37, 0x38, 0x39, 0x2D, 0x34, 0x35, 0x36, 0x2B, 0x31,
     0x32, 0x33, 0x30, 0x2E, 0x00, 0x00, 0x00, 0x00]"

definition normalmap :: "u8 \<Rightarrow> u8" where
  "normalmap d =
     (if unat d < length normalmap_lo then normalmap_lo ! unat d
      else if d = 0xC7 then 0xE0
      else if d = 0x9C then 0x0A
      else if d = 0xB5 then 0x2F
      else if d = 0xC8 then 0xE2
      else if d = 0xC9 then 0xE6
      else if d = 0xCB then 0xE4
      else if d = 0xCD then 0xE5
      else if d = 0xCF then 0xE1
      else if d = 0xD0 then 0xE3
      else if d = 0xD1 then 0xE7
      else if d = 0xD2 then 0xE8
      else if d = 0xD3 then 0xE9
      else 0)"

definition shiftmap_lo :: "u8 list" where
  "shiftmap_lo = [
     0x00, 0x1B, 0x21, 0x40, 0x23, 0x24, 0x25, 0x5E, 0x26, 0x2A, 0x28, 0x29, 0x5F, 0x2B, 0x08, 0x09,
     0x51, 0x57, 0x45, 0x52, 0x54, 0x59, 0x55, 0x49, 0x4F, 0x50, 0x7B, 0x7D, 0x0A, 0x00, 0x41, 0x53,
     0x44, 0x46, 0x47, 0x48, 0x4A, 0x4B, 0x4C, 0x3A, 0x22, 0x7E, 0x00, 0x7C, 0x5A, 0x58, 0x43, 0x56,
     0x42, 0x4E, 0x4D, 0x3C, 0x3E, 0x3F, 0x00, 0x2A, 0x00, 0x20, 0x00, 0x00, 0x00, 0x00, 0x00, 0x00,
     0x00, 0x00, 0x00, 0x00, 0x00, 0x00, 0x00, 0x37, 0x38, 0x39, 0x2D, 0x34, 0x35, 0x36, 0x2B, 0x31,
     0x32, 0x33, 0x30, 0x2E, 0x00, 0x00, 0x00, 0x00]"

definition shiftmap :: "u8 \<Rightarrow> u8" where
  "shiftmap d =
     (if unat d < length shiftmap_lo then shiftmap_lo ! unat d
      else if d = 0xC7 then 0xE0
      else if d = 0x9C then 0x0A
      else if d = 0xB5 then 0x2F
      else if d = 0xC8 then 0xE2
      else if d = 0xC9 then 0xE6
      else if d = 0xCB then 0xE4
      else if d = 0xCD then 0xE5
      else if d = 0xCF then 0xE1
      else if d = 0xD0 then 0xE3
      else if d = 0xD1 then 0xE7
      else if d = 0xD2 then 0xE8
      else if d = 0xD3 then 0xE9
      else 0)"

definition ctlmap_lo :: "u8 list" where
  "ctlmap_lo = [
     0x00, 0x00, 0x00, 0x00, 0x00, 0x00, 0x00, 0x00, 0x00, 0x00, 0x00, 0x00, 0x00, 0x00, 0x00, 0x00,
     0x11, 0x17, 0x05, 0x12, 0x14, 0x19, 0x15, 0x09, 0x0F, 0x10, 0x00, 0x00, 0x0D, 0x00, 0x01, 0x13,
     0x04, 0x06, 0x07, 0x08, 0x0A, 0x0B, 0x0C, 0x00, 0x00, 0x00, 0x00, 0x1C, 0x1A, 0x18, 0x03, 0x16,
     0x02, 0x0E, 0x0D, 0x00, 0x00, 0xEF, 0x00, 0x00]"

definition ctlmap :: "u8 \<Rightarrow> u8" where
  "ctlmap d =
     (if unat d < length ctlmap_lo then ctlmap_lo ! unat d
      else if d = 0x97 then 0xE0
      else if d = 0xB5 then 0xEF
      else if d = 0xC8 then 0xE2
      else if d = 0xC9 then 0xE6
      else if d = 0xCB then 0xE4
      else if d = 0xCD then 0xE5
      else if d = 0xCF then 0xE1
      else if d = 0xD0 then 0xE3
      else if d = 0xD1 then 0xE7
      else if d = 0xD2 then 0xE8
      else if d = 0xD3 then 0xE9
      else 0)"

definition charcode :: "u32 \<Rightarrow> u8 \<Rightarrow> u8" where
  "charcode i = (if i = 0 then normalmap else if i = 1 then shiftmap else ctlmap)"

definition kbd_char :: "u32 \<Rightarrow> u8 \<Rightarrow> u8" where
  "kbd_char sh data =
     (let c = charcode (sh AND 3) data in
      if sh AND 8 \<noteq> 0
      then if 0x61 \<le> c \<and> c \<le> 0x7A then c - 32
           else if 0x41 \<le> c \<and> c \<le> 0x5A then c + 32 else c
      else c)"

definition reboot_msg :: "u32 list" where
  "reboot_msg = [0x52, 0x65, 0x62, 0x6F, 0x6F, 0x74, 0x69, 0x6E, 0x67, 0x21, 0x0A]"

text \<open>A key press: the last character was an E0 escape, or not.\<close>

definition kbd_press :: "u8 \<Rightarrow> console \<Rightarrow> int \<times> console" where
  "kbd_press data s =
     (let (data, s) = (if shift s AND 0x40 \<noteq> 0
                       then (data OR 0x80, s\<lparr>shift := shift s AND NOT 0x40\<rparr>) else (data, s));
          s = s\<lparr>shift := shift s OR ucast (shiftcode data)\<rparr>;
          s = s\<lparr>shift := shift s XOR ucast (togglecode data)\<rparr>;
          c = kbd_char (shift s) data;
          s = (if NOT (shift s) AND 6 = 0 \<and> c = 0xE9
               then (fold cons_putc reboot_msg s)\<lparr>rebooted := True\<rparr> else s)
      in (uint c, s))"

definition kbd_release :: "u8 \<Rightarrow> console \<Rightarrow> int \<times> console" where
  "kbd_release data s =
     (let data = (if shift s AND 0x40 \<noteq> 0 then data else data AND 0x7F)
      in (0, s\<lparr>shift := shift s AND NOT (ucast (shiftcode data) OR 0x40)\<rparr>))"

text \<open>
  \<open>kbd_proc_data\<close> looks at one item of the controller: its status says whether it came from
  the mouse.  The result is the character, 0 when no character is complete, -1 when there
  is no data.
\<close>

definition kbd_proc_data :: "console \<Rightarrow> int \<times> console" where
  "kbd_proc_data s =
     (case kbd_in s of
        [] \<Rightarrow> (-1, s)
      | (mouse, data) # rest \<Rightarrow>
          if mouse then (-1, s)
          else let s = s\<lparr>kbd_in := rest\<rparr> in
            if data = 0xE0 then (0, s\<lparr>shift := shift s OR 0x40\<rparr>)
            else if data AND 0x80 \<noteq> 0 then kbd_release data s
            else kbd_press data s)"

definition serial_proc_data :: "console \<Rightarrow> int \<times> console" where
  "serial_proc_data s =
     (case com_in s of [] \<Rightarrow> (-1, s) | b # bs \<Rightarrow> (uint b, s\<lparr>com_in := bs\<rparr>))"

section \<open>The input buffer\<close>

definition cons_store :: "int \<Rightarrow> console \<Rightarrow> console" where
  "cons_store c s =
     (let s = s\<lparr>cbuf := (cbuf s)(wpos s := of_int c), wpos := wpos s + 1\<rparr>
      in if wpos s = CONSBUFSIZE then s\<lparr>wpos := 0\<rparr> else s)"

partial_function (option) cons_intr ::
  "(console \<Rightarrow> int \<times> console) \<Rightarrow> console \<Rightarrow> console option" where
  "cons_intr proc s =
     (let (c, s) = proc s in
      if c = -1 then Some s
      else if c = 0 then cons_intr proc s
      else cons_intr proc (cons_store c s))"

definition serial_intr :: "console \<Rightarrow> console option" where
  "serial_intr s = (if serial_exists s then cons_intr serial_proc_data s else Some s)"

definition kbd_intr :: "console \<Rightarrow> console option" where
  "kbd_intr s = cons_intr kbd_proc_data s"

definition cons_take :: "console \<Rightarrow> u32 \<times> console" where
  "cons_take s =
     (if rpos s \<noteq> wpos s
      then let c = cbuf s (rpos s);
               s = s\<lparr>rpos := rpos s + 1\<rparr>
           in (ucast c, if rpos s = CONSBUFSIZE then s\<lparr>rpos := 0\<rparr> else s)
      else (0, s))"

definition cons_getc :: "console \<Rightarrow> (u32 \<times> console) option" where
  "cons_getc s = do {
     s \<leftarrow> serial_intr s;
     s \<leftarrow> kbd_intr s;
     Some (cons_take s) }"

end
