(* ===== verification/Nic.thy ===== *)
theory Nic
  imports Prelude
begin

text \<open>
  The network card (\<open>kern/e1000.c\<close>, \<open>kern/e1000.h\<close>): the descriptor rings, the packet
  buffers and the memory-mapped registers, with the initialisation of both rings.  The
  registers are a map from offsets to words; a bit-field store changes only its bits.  The
  packet buffers are one flat array of bytes each, as they are in memory, so that a copy
  that runs past the end of one buffer runs into the next.  The operations that copy from
  and to an environment are in \<open>E1000\<close>.
\<close>

record tx_desc =
  td_addr :: u64
  td_length :: u16
  td_cmd :: u8
  td_status :: u8

record rx_desc =
  rd_addr :: u64
  rd_length :: u16
  rd_status :: u8
  rd_errors :: u8

record nic =
  reg :: "nat \<Rightarrow> u32"
  tx_desc_array :: "nat \<Rightarrow> tx_desc"
  tx_buffer_array :: "nat \<Rightarrow> u8"
  rx_desc_array :: "nat \<Rightarrow> rx_desc"
  rx_buffer_array :: "nat \<Rightarrow> u8"
  rx_next :: int

abbreviation (input) TXDESCS :: nat where "TXDESCS \<equiv> 32"
abbreviation (input) TX_PKT_SIZE :: nat where "TX_PKT_SIZE \<equiv> 1518"
abbreviation (input) RXDESCS :: nat where "RXDESCS \<equiv> 128"
abbreviation (input) RX_PKT_SIZE :: nat where "RX_PKT_SIZE \<equiv> 1518"

abbreviation (input) E1000_STATUS :: nat where "E1000_STATUS \<equiv> 0x00008"
abbreviation (input) E1000_TCTL :: nat where "E1000_TCTL \<equiv> 0x00400"
abbreviation (input) E1000_TIPG :: nat where "E1000_TIPG \<equiv> 0x00410"
abbreviation (input) E1000_TDBAL :: nat where "E1000_TDBAL \<equiv> 0x03800"
abbreviation (input) E1000_TDBAH :: nat where "E1000_TDBAH \<equiv> 0x03804"
abbreviation (input) E1000_TDLEN :: nat where "E1000_TDLEN \<equiv> 0x03808"
abbreviation (input) E1000_TDH :: nat where "E1000_TDH \<equiv> 0x03810"
abbreviation (input) E1000_TDT :: nat where "E1000_TDT \<equiv> 0x03818"
abbreviation (input) E1000_RCTL :: nat where "E1000_RCTL \<equiv> 0x00100"
abbreviation (input) E1000_RDBAL :: nat where "E1000_RDBAL \<equiv> 0x02800"
abbreviation (input) E1000_RDBAH :: nat where "E1000_RDBAH \<equiv> 0x02804"
abbreviation (input) E1000_RDLEN :: nat where "E1000_RDLEN \<equiv> 0x02808"
abbreviation (input) E1000_RDH :: nat where "E1000_RDH \<equiv> 0x02810"
abbreviation (input) E1000_RDT :: nat where "E1000_RDT \<equiv> 0x02818"
abbreviation (input) E1000_RA :: nat where "E1000_RA \<equiv> 0x05400"
abbreviation (input) E1000_TXD_STAT_DD :: u8 where "E1000_TXD_STAT_DD \<equiv> 1"
abbreviation (input) E1000_TXD_CMD_EOP :: u8 where "E1000_TXD_CMD_EOP \<equiv> 1"
abbreviation (input) E1000_TXD_CMD_RS :: u8 where "E1000_TXD_CMD_RS \<equiv> 8"
abbreviation (input) E1000_RXD_STAT_DD :: u8 where "E1000_RXD_STAT_DD \<equiv> 1"

text \<open>Storing \<open>v\<close> into the bit field of \<open>n\<close> bits that starts at bit \<open>lo\<close> of a register.\<close>

definition set_bits :: "nat \<Rightarrow> nat \<Rightarrow> u32 \<Rightarrow> u32 \<Rightarrow> u32" where
  "set_bits lo n v r = (r AND NOT (push_bit lo (mask n))) OR push_bit lo (take_bit n v)"

definition set_field :: "nat \<Rightarrow> nat \<Rightarrow> nat \<Rightarrow> u32 \<Rightarrow> nic \<Rightarrow> nic" where
  "set_field r lo n v s = s\<lparr>reg := (reg s)(r := set_bits lo n v (reg s r))\<rparr>"

definition set_reg :: "nat \<Rightarrow> u32 \<Rightarrow> nic \<Rightarrow> nic" where
  "set_reg r v s = s\<lparr>reg := (reg s)(r := v)\<rparr>"

definition tdt :: "nic \<Rightarrow> nat" where
  "tdt s = unat (take_bit 16 (reg s E1000_TDT))"

definition rdt :: "nic \<Rightarrow> nat" where
  "rdt s = unat (take_bit 16 (reg s E1000_RDT))"

section \<open>The transmit ring\<close>

text \<open>\<open>bufs\<close> and \<open>descs\<close> are the physical addresses of the two arrays.\<close>

fun tx_init_loop :: "nat list \<Rightarrow> u32 \<Rightarrow> nic \<Rightarrow> nic" where
  "tx_init_loop [] bufs s = s"
| "tx_init_loop (i # is) bufs s =
     tx_init_loop is bufs (s\<lparr>tx_desc_array := (tx_desc_array s)(i :=
       (tx_desc_array s i)\<lparr>td_addr := ucast (bufs + of_nat (i * TX_PKT_SIZE)), td_cmd := 0,
         td_status := td_status (tx_desc_array s i) OR E1000_TXD_STAT_DD\<rparr>)\<rparr>)"

definition e1000_transmit_init :: "u32 \<Rightarrow> u32 \<Rightarrow> nic \<Rightarrow> nic" where
  "e1000_transmit_init bufs descs s =
     (let s = tx_init_loop [0..<TXDESCS] bufs s;
          s = set_field E1000_TDLEN 7 13 (of_nat TXDESCS) s;
          s = set_reg E1000_TDBAL descs s;
          s = set_reg E1000_TDBAH 0 s;
          s = set_field E1000_TDH 0 16 0 s;
          s = set_field E1000_TDT 0 16 0 s;
          s = set_field E1000_TCTL 1 1 1 s;
          s = set_field E1000_TCTL 3 1 1 s;
          s = set_field E1000_TCTL 4 8 0x10 s;
          s = set_field E1000_TCTL 12 10 0x40 s;
          s = set_field E1000_TIPG 0 10 10 s;
          s = set_field E1000_TIPG 10 10 4 s
      in set_field E1000_TIPG 20 10 6 s)"

section \<open>The receive ring\<close>

text \<open>
  \<open>set_ra_address\<close> shifts by 32 and 40 for the last two bytes; the shift instruction of the
  machine takes the count modulo 32.
\<close>

definition set_ra_address :: "u32 list \<Rightarrow> u32 \<times> u32" where
  "set_ra_address mac =
     (let low = fold (\<lambda>i low. low OR push_bit (8 * i mod 32) (mac ! i)) [0..<4] 0;
          high = fold (\<lambda>i high. high OR push_bit (8 * i mod 32) (mac ! i)) [4..<6] 0
      in (low, high OR 0x80000000))"

definition E1000_MAC :: "u32 list" where
  "E1000_MAC = [0x52, 0x54, 0x00, 0x12, 0x34, 0x56]"

fun rx_init_loop :: "nat list \<Rightarrow> u32 \<Rightarrow> nic \<Rightarrow> nic" where
  "rx_init_loop [] bufs s = s"
| "rx_init_loop (i # is) bufs s =
     rx_init_loop is bufs (s\<lparr>rx_desc_array := (rx_desc_array s)(i :=
       (rx_desc_array s i)\<lparr>rd_addr := ucast (bufs + of_nat (i * RX_PKT_SIZE))\<rparr>)\<rparr>)"

definition e1000_receive_init :: "u32 \<Rightarrow> u32 \<Rightarrow> nic \<Rightarrow> nic" where
  "e1000_receive_init bufs descs s =
     (let s = set_reg E1000_RDBAL descs s;
          s = set_reg E1000_RDBAH 0 s;
          s = rx_init_loop [0..<RXDESCS] bufs s;
          s = set_field E1000_RDLEN 7 13 (of_nat RXDESCS) s;
          s = set_field E1000_RDH 0 16 0 s;
          s = set_field E1000_RDT 0 16 (of_nat (RXDESCS - 1)) s;
          s = set_reg E1000_RCTL ((0x2 OR 0x8000) OR 0x04000000) s;
          (ral, rah) = set_ra_address E1000_MAC;
          s = set_reg E1000_RA ral s
      in set_reg (E1000_RA + 4) rah s)"

definition nic0 :: nic where
  "nic0 = \<lparr>reg = (\<lambda>_. 0),
     tx_desc_array = (\<lambda>_. \<lparr>td_addr = 0, td_length = 0, td_cmd = 0, td_status = 0\<rparr>),
     tx_buffer_array = (\<lambda>_. 0),
     rx_desc_array = (\<lambda>_. \<lparr>rd_addr = 0, rd_length = 0, rd_status = 0, rd_errors = 0\<rparr>),
     rx_buffer_array = (\<lambda>_. 0), rx_next = 0\<rparr>"

end
