(* ===== verification/KState.thy ===== *)
theory KState
  imports Mmu Console Nic
begin

text \<open>
  The state of the kernel: the structures of \<open>inc/trap.h\<close>, \<open>inc/env.h\<close>,
  \<open>inc/memlayout.h\<close> and \<open>kern/cpu.h\<close> as records, and one record for the globals of
  \<open>kern/\<close>.  Pointers into the arrays \<open>pages\<close> and \<open>envs\<close> are indices, with \<open>None\<close> for
  NULL; physical memory is a function from physical byte addresses to bytes; a kernel
  virtual address above KERNBASE is represented by the physical address it maps.

  Every kernel function is a function of the state.  The result is an option: \<open>None\<close>
  stands for a run of the kernel that ends in \<open>panic()\<close> (or in a NULL dereference, which
  page-faults in kernel mode and panics in \<open>page_fault_handler\<close>).
\<close>

section \<open>Trap frames\<close>

record push_regs =
  reg_edi :: u32
  reg_esi :: u32
  reg_ebp :: u32
  reg_oesp :: u32
  reg_ebx :: u32
  reg_edx :: u32
  reg_ecx :: u32
  reg_eax :: u32

record trapframe =
  tf_regs :: push_regs
  tf_es :: u16
  tf_ds :: u16
  tf_trapno :: u32
  tf_err :: u32
  tf_eip :: u32
  tf_cs :: u16
  tf_eflags :: u32
  tf_esp :: u32
  tf_ss :: u16

definition regs0 :: push_regs where
  "regs0 = \<lparr>reg_edi = 0, reg_esi = 0, reg_ebp = 0, reg_oesp = 0,
            reg_ebx = 0, reg_edx = 0, reg_ecx = 0, reg_eax = 0\<rparr>"

definition tf0 :: trapframe where
  "tf0 = \<lparr>tf_regs = regs0, tf_es = 0, tf_ds = 0, tf_trapno = 0, tf_err = 0, tf_eip = 0,
          tf_cs = 0, tf_eflags = 0, tf_esp = 0, tf_ss = 0\<rparr>"

section \<open>Environments\<close>

datatype env_status = ENV_FREE | ENV_DYING | ENV_RUNNABLE | ENV_RUNNING | ENV_NOT_RUNNABLE
datatype env_type = ENV_TYPE_USER | ENV_TYPE_FS | ENV_TYPE_NS

record env =
  env_tf :: trapframe
  env_link :: "nat option"
  env_id :: u32
  env_parent_id :: u32
  env_type :: env_type
  env_status :: env_status
  env_runs :: u32
  env_cpunum :: nat
  env_pgdir :: "nat option"
  env_pgfault_upcall :: u32
  env_ipc_recving :: bool
  env_ipc_dstva :: u32
  env_ipc_value :: u32
  env_ipc_from :: u32
  env_ipc_perm :: u32

abbreviation (input) NENV :: nat where "NENV \<equiv> 1024"

definition env0 :: env where
  "env0 = \<lparr>env_tf = tf0, env_link = None, env_id = 0, env_parent_id = 0,
     env_type = ENV_TYPE_USER, env_status = ENV_FREE, env_runs = 0, env_cpunum = 0,
     env_pgdir = None, env_pgfault_upcall = 0, env_ipc_recving = False,
     env_ipc_dstva = 0, env_ipc_value = 0, env_ipc_from = 0, env_ipc_perm = 0\<rparr>"

section \<open>Pages, CPUs and the kernel\<close>

record page_info =
  pp_link :: "nat option"
  pp_ref :: u16

datatype cpu_status = CPU_UNUSED | CPU_STARTED | CPU_HALTED

record cpu_info =
  cpu_status :: cpu_status
  cpu_env :: "nat option"

record kern =
  npages :: nat
  npages_basemem :: nat
  pages :: "nat \<Rightarrow> page_info"
  page_free_list :: "nat option"
  nextfree :: u32
  kern_pgdir :: nat
  mmio_base :: u32
  user_mem_check_addr :: u32
  pmem :: "nat \<Rightarrow> u8"
  cr3 :: nat
  invlpg_log :: "u32 list"
  envs :: "nat \<Rightarrow> env"
  env_free_list :: "nat option"
  cpus :: "nat \<Rightarrow> cpu_info"
  cpunum :: nat
  kernel_locked :: bool
  ticks :: u32
  console :: console
  nic :: nic

text \<open>The zeroed bss of the kernel, with the MMIO region pointer at its initial value.\<close>

definition kern0 :: kern where
  "kern0 = \<lparr>npages = 0, npages_basemem = 0, pages = (\<lambda>_. \<lparr>pp_link = None, pp_ref = 0\<rparr>),
     page_free_list = None, nextfree = 0, kern_pgdir = 0, mmio_base = 0xEF800000,
     user_mem_check_addr = 0, pmem = (\<lambda>_. 0), cr3 = 0, invlpg_log = [],
     envs = (\<lambda>_. env0), env_free_list = None,
     cpus = (\<lambda>_. \<lparr>cpu_status = CPU_UNUSED, cpu_env = None\<rparr>), cpunum = 0,
     kernel_locked = False, ticks = 0, console = console0, nic = nic0\<rparr>"

definition curenv :: "kern \<Rightarrow> nat option" where
  "curenv s = cpu_env (cpus s (cpunum s))"

definition set_curenv :: "nat option \<Rightarrow> kern \<Rightarrow> kern" where
  "set_curenv e s = s\<lparr>cpus := (cpus s)(cpunum s := (cpus s (cpunum s))\<lparr>cpu_env := e\<rparr>)\<rparr>"

definition upd_page :: "nat \<Rightarrow> (page_info \<Rightarrow> page_info) \<Rightarrow> kern \<Rightarrow> kern" where
  "upd_page p f s = s\<lparr>pages := (pages s)(p := f (pages s p))\<rparr>"

definition upd_env :: "nat \<Rightarrow> (env \<Rightarrow> env) \<Rightarrow> kern \<Rightarrow> kern" where
  "upd_env e f s = s\<lparr>envs := (envs s)(e := f (envs s e))\<rparr>"

section \<open>Little-endian words in physical memory\<close>

definition rd32 :: "(nat \<Rightarrow> u8) \<Rightarrow> nat \<Rightarrow> u32" where
  "rd32 m a = ucast (m a) OR push_bit 8 (ucast (m (a + 1)))
     OR push_bit 16 (ucast (m (a + 2))) OR push_bit 24 (ucast (m (a + 3)))"

definition wr32 :: "nat \<Rightarrow> u32 \<Rightarrow> (nat \<Rightarrow> u8) \<Rightarrow> (nat \<Rightarrow> u8)" where
  "wr32 a v m = m(a := ucast v, a + 1 := ucast (drop_bit 8 v),
     a + 2 := ucast (drop_bit 16 v), a + 3 := ucast (drop_bit 24 v))"

definition fill :: "nat \<Rightarrow> nat \<Rightarrow> u8 \<Rightarrow> (nat \<Rightarrow> u8) \<Rightarrow> (nat \<Rightarrow> u8)" where
  "fill a n c m = (\<lambda>x. if a \<le> x \<and> x < a + n then c else m x)"

definition load32 :: "kern \<Rightarrow> nat \<Rightarrow> u32" where
  "load32 s a = rd32 (pmem s) a"

definition store32 :: "nat \<Rightarrow> u32 \<Rightarrow> kern \<Rightarrow> kern" where
  "store32 a v s = s\<lparr>pmem := wr32 a v (pmem s)\<rparr>"

lemma rd32_wr32_same [simp]: "rd32 (wr32 a v m) a = v"
  using join_bytes [of v] by (simp add: rd32_def wr32_def)

lemma rd32_wr32_other:
  "a + 4 \<le> b \<or> b + 4 \<le> a \<Longrightarrow> rd32 (wr32 a v m) b = rd32 m b"
  unfolding rd32_def wr32_def by auto

lemma rd32_fill_in:
  "a \<le> b \<Longrightarrow> b + 4 \<le> a + n \<Longrightarrow> rd32 (fill a n 0 m) b = 0"
  by (simp add: rd32_def fill_def)

lemma rd32_fill_out:
  "b + 4 \<le> a \<or> a + n \<le> b \<Longrightarrow> rd32 (fill a n c m) b = rd32 m b"
  by (auto simp: rd32_def fill_def)

lemma load32_store32_same [simp]: "load32 (store32 a v s) a = v"
  by (simp add: load32_def store32_def)

lemma load32_store32_other:
  "a + 4 \<le> b \<or> b + 4 \<le> a \<Longrightarrow> load32 (store32 a v s) b = load32 s b"
  by (simp add: load32_def store32_def rd32_wr32_other)

text \<open>The words of different page-table slots do not overlap.\<close>

lemma slot_disjoint:
  assumes "i < 1024" "j < 1024" "f \<noteq> g \<or> i \<noteq> j"
  shows "f * 4096 + 4 * i + 4 \<le> g * 4096 + 4 * j \<or> g * 4096 + 4 * j + 4 \<le> f * 4096 + 4 * (i::nat)"
proof (rule ccontr)
  assume "\<not> ?thesis"
  then have 1: "g * 4096 + 4 * j < f * 4096 + 4 * i + 4" and 2: "f * 4096 + 4 * i < g * 4096 + 4 * j + 4"
    by simp_all
  from 1 2 assms(1,2) have "f = g" by linarith
  with 1 2 assms show False by simp
qed

lemmas state_defs = upd_page_def upd_env_def set_curenv_def store32_def

end
