(* ===== verification/PageAlloc.thy ===== *)
theory PageAlloc
  imports KState
begin

text \<open>
  The physical page allocator of \<open>kern/pmap.c\<close>: the boot-time bump allocator, the array of
  page descriptors and its free list.
\<close>

section \<open>Addresses of pages (kern/pmap.h)\<close>

definition PADDR :: "u32 \<Rightarrow> u32 option" where
  "PADDR kva = (if kva < KERNBASE then None else Some (kva - KERNBASE))"

definition KADDR :: "kern \<Rightarrow> u32 \<Rightarrow> u32 option" where
  "KADDR s pa = (if npages s \<le> unat (PGNUM pa) then None else Some (pa + KERNBASE))"

definition page2pa :: "nat \<Rightarrow> u32" where
  "page2pa pp = push_bit 12 (of_nat pp)"

definition pa2page :: "kern \<Rightarrow> u32 \<Rightarrow> nat option" where
  "pa2page s pa = (if npages s \<le> unat (PGNUM pa) then None else Some (unat (PGNUM pa)))"

definition page2kva :: "kern \<Rightarrow> nat \<Rightarrow> u32 option" where
  "page2kva s pp = KADDR s (page2pa pp)"

section \<open>boot_alloc and page_init\<close>

definition boot_alloc :: "u32 \<Rightarrow> u32 \<Rightarrow> kern \<Rightarrow> u32 \<times> kern" where
  "boot_alloc end_sym n s =
     (let nf = (if nextfree s = 0 then ROUNDUP end_sym PGSIZE else nextfree s)
      in (nf, s\<lparr>nextfree := ROUNDUP (nf + n) PGSIZE\<rparr>))"

definition page_init_step :: "nat \<Rightarrow> nat \<Rightarrow> nat \<Rightarrow> nat \<Rightarrow> kern \<Rightarrow> kern" where
  "page_init_step io_hole_start_page kernel_used_page mpentry_used_page i s =
     (if i = 0 then upd_page i (\<lambda>p. p\<lparr>pp_ref := 1, pp_link := None\<rparr>) s
      else if i = mpentry_used_page then upd_page i (\<lambda>p. p\<lparr>pp_ref := 1, pp_link := None\<rparr>) s
      else if io_hole_start_page \<le> i \<and> i < kernel_used_page
        then upd_page i (\<lambda>p. p\<lparr>pp_ref := 1, pp_link := None\<rparr>) s
      else (upd_page i (\<lambda>p. p\<lparr>pp_ref := 0, pp_link := page_free_list s\<rparr>) s)
             \<lparr>page_free_list := Some i\<rparr>)"

definition page_init :: "u32 \<Rightarrow> kern \<Rightarrow> kern option" where
  "page_init end_sym s = do {
     let (nf, s) = boot_alloc end_sym 0 s;
     pa \<leftarrow> PADDR nf;
     let io_hole_start_page = unat ((0x0A0000 :: u32) div PGSIZE);
     let kernel_used_page = unat (pa div PGSIZE);
     let mpentry_used_page = unat ((0x7000 :: u32) div PGSIZE);
     Some (fold (page_init_step io_hole_start_page kernel_used_page mpentry_used_page)
             [0..<npages s] s)
   }"

section \<open>page_alloc, page_free, page_decref\<close>

definition page_alloc :: "bool \<Rightarrow> kern \<Rightarrow> (nat option \<times> kern) option" where
  "page_alloc alloc_zero s =
     (case page_free_list s of
        None \<Rightarrow> Some (None, s)
      | Some result \<Rightarrow>
          let s = s\<lparr>page_free_list := pp_link (pages s result)\<rparr>;
              s = upd_page result (\<lambda>p. p\<lparr>pp_link := None\<rparr>) s
          in if alloc_zero
             then do { _ \<leftarrow> page2kva s result;
                       Some (Some result, s\<lparr>pmem := fill (result * 4096) 4096 0 (pmem s)\<rparr>) }
             else Some (Some result, s))"

definition page_free :: "nat \<Rightarrow> kern \<Rightarrow> kern option" where
  "page_free pp s =
     (if pp_ref (pages s pp) \<noteq> 0 \<or> pp_link (pages s pp) \<noteq> None then None
      else Some ((upd_page pp (\<lambda>p. p\<lparr>pp_link := page_free_list s\<rparr>) s)
                   \<lparr>page_free_list := Some pp\<rparr>))"

definition page_decref :: "nat \<Rightarrow> kern \<Rightarrow> kern option" where
  "page_decref pp s =
     (let s = upd_page pp (\<lambda>p. p\<lparr>pp_ref := pp_ref p - 1\<rparr>) s
      in if pp_ref (pages s pp) = 0 then page_free pp s else Some s)"

definition page_incref :: "nat \<Rightarrow> kern \<Rightarrow> kern" where
  "page_incref pp s = upd_page pp (\<lambda>p. p\<lparr>pp_ref := pp_ref p + 1\<rparr>) s"

section \<open>The free list and its invariant\<close>

definition page_link :: "kern \<Rightarrow> nat \<Rightarrow> nat option" where
  "page_link s = (\<lambda>p. pp_link (pages s p))"

definition page_push :: "nat \<Rightarrow> kern \<Rightarrow> kern" where
  "page_push pp s =
     (upd_page pp (\<lambda>p. p\<lparr>pp_link := page_free_list s\<rparr>) s)\<lparr>page_free_list := Some pp\<rparr>"

definition page_pop :: "kern \<Rightarrow> kern" where
  "page_pop s =
     (case page_free_list s of
        None \<Rightarrow> s
      | Some p \<Rightarrow> upd_page p (\<lambda>p. p\<lparr>pp_link := None\<rparr>)
                    (s\<lparr>page_free_list := pp_link (pages s p)\<rparr>))"

interpretation page_pool: link_pool page_free_list page_link page_push page_pop
  by unfold_locales (auto simp: page_push_def page_pop_def page_link_def upd_page_def)

text \<open>
  \<open>pages_wf s fl\<close>: the free list is \<open>fl\<close>, every page on it is a page of the machine with
  no references, and every other page has a NULL link.
\<close>

definition pages_wf :: "kern \<Rightarrow> nat list \<Rightarrow> bool" where
  "pages_wf s fl \<longleftrightarrow>
     npages s \<le> 2 ^ 20 \<and>
     chain (page_link s) (page_free_list s) fl \<and>
     (\<forall>p \<in> set fl. p < npages s \<and> pp_ref (pages s p) = 0) \<and>
     (\<forall>p < npages s. p \<notin> set fl \<longrightarrow> pp_link (pages s p) = None)"

lemma pages_wf_distinct: "pages_wf s fl \<Longrightarrow> distinct fl"
  unfolding pages_wf_def using chain_distinct by blast

lemma pages_wf_free: "pages_wf s fl \<Longrightarrow> p \<in> set fl \<Longrightarrow> p < npages s \<and> pp_ref (pages s p) = 0"
  by (simp add: pages_wf_def)

lemma pages_wf_npages: "pages_wf s fl \<Longrightarrow> npages s \<le> 2 ^ 20"
  by (simp add: pages_wf_def)

lemma PGNUM_page2pa: "p < 2 ^ 20 \<Longrightarrow> unat (PGNUM (page2pa p)) = p"
proof -
  assume p: "p < 2 ^ 20"
  then have "unat (page2pa p) = p * 4096"
    by (simp add: page2pa_def push_bit_eq_mult unat_word_ariths unat_of_nat take_bit_eq_mod)
  then show ?thesis by (simp add: wsimps)
qed

lemma unat_page2pa: "p < 2 ^ 20 \<Longrightarrow> unat (page2pa p) = p * 4096"
  by (simp add: page2pa_def push_bit_eq_mult unat_word_ariths unat_of_nat take_bit_eq_mod)

lemma page2kva_ok:
  "p < npages s \<Longrightarrow> npages s \<le> 2 ^ 20 \<Longrightarrow> page2kva s p = Some (page2pa p + KERNBASE)"
  by (simp add: page2kva_def KADDR_def PGNUM_page2pa)

lemma pa2page_page2pa:
  "p < npages s \<Longrightarrow> npages s \<le> 2 ^ 20 \<Longrightarrow> pa2page s (page2pa p) = Some p"
  by (simp add: pa2page_def PGNUM_page2pa)

lemma pages_wf_cong:
  "npages s' = npages s \<Longrightarrow> pages s' = pages s \<Longrightarrow> page_free_list s' = page_free_list s
   \<Longrightarrow> pages_wf s' fl \<longleftrightarrow> pages_wf s fl"
  by (simp add: pages_wf_def page_link_def)

lemma page_push_sel [simp]:
  "npages (page_push p s) = npages s" "pmem (page_push p s) = pmem s"
  "envs (page_push p s) = envs s"
  "pp_ref (pages (page_push p s) q) = pp_ref (pages s q)"
  "page_free_list (page_push p s) = Some p"
  "pp_link (pages (page_push p s) q) = (if q = p then page_free_list s else pp_link (pages s q))"
  by (auto simp: page_push_def upd_page_def)

lemma page_pop_sel [simp]:
  "npages (page_pop s) = npages s" "pmem (page_pop s) = pmem s" "envs (page_pop s) = envs s"
  "pp_ref (pages (page_pop s) q) = pp_ref (pages s q)"
  by (auto simp: page_pop_def upd_page_def split: option.split)

lemma page_pop_link:
  "page_free_list s = Some p \<Longrightarrow>
   pp_link (pages (page_pop s) q) = (if q = p then None else pp_link (pages s q))"
  by (auto simp: page_pop_def upd_page_def)

text \<open>
  The memory operations change nothing but the page descriptors, the free list, physical
  memory and the TLB.
\<close>

definition mem_only :: "kern \<Rightarrow> kern \<Rightarrow> bool" where
  "mem_only s s' \<longleftrightarrow> s' = s\<lparr>pages := pages s', page_free_list := page_free_list s',
     pmem := pmem s', invlpg_log := invlpg_log s'\<rparr>"

lemma mem_only_refl [simp]: "mem_only s s"
  by (simp add: mem_only_def)

lemma mem_only_sel:
  assumes "mem_only s s'"
  shows "npages s' = npages s" "envs s' = envs s" "env_free_list s' = env_free_list s"
    "cpus s' = cpus s" "cpunum s' = cpunum s" "kern_pgdir s' = kern_pgdir s" "cr3 s' = cr3 s"
    "curenv s' = curenv s"
  by (subst assms [unfolded mem_only_def], simp add: curenv_def)+

lemma mem_only_trans: "mem_only s t \<Longrightarrow> mem_only t u \<Longrightarrow> mem_only s u"
proof -
  let ?f = "\<lambda>x. x\<lparr>pages := pages u, page_free_list := page_free_list u, pmem := pmem u,
    invlpg_log := invlpg_log u\<rparr>"
  assume a: "mem_only s t" and b: "mem_only t u"
  from b have "u = ?f t" by (simp add: mem_only_def)
  also have "\<dots> = ?f (s\<lparr>pages := pages t, page_free_list := page_free_list t, pmem := pmem t,
    invlpg_log := invlpg_log t\<rparr>)" using arg_cong [OF a [unfolded mem_only_def], of ?f] .
  finally show ?thesis by (simp add: mem_only_def)
qed

lemma mem_only_push [simp]: "mem_only s (page_push p s)"
  by (simp add: mem_only_def page_push_def upd_page_def)

lemma mem_only_pop [simp]: "mem_only s (page_pop s)"
  by (simp add: mem_only_def page_pop_def upd_page_def split: option.split)

lemma mem_only_upd_page [simp]: "mem_only s (upd_page p f s)"
  by (simp add: mem_only_def upd_page_def)

lemma mem_only_store [simp]: "mem_only s (store32 a v s)"
  by (simp add: mem_only_def store32_def)

lemma mem_only_pmem [simp]: "mem_only s (s\<lparr>pmem := m\<rparr>)"
  by (simp add: mem_only_def)

lemma pages_wf_pop:
  assumes "pages_wf s (p # fl)"
  shows "pages_wf (page_pop s) fl"
proof -
  from assms have c: "chain (page_link s) (page_free_list s) (p # fl)"
    by (simp add: pages_wf_def)
  then have "page_free_list s = Some p" by simp
  with assms page_pool.pop_chain [OF c] show ?thesis
    by (auto simp: pages_wf_def page_pop_link)
qed

lemma pages_wf_push:
  assumes "pages_wf s fl" "p < npages s" "p \<notin> set fl" "pp_ref (pages s p) = 0"
  shows "pages_wf (page_push p s) (p # fl)"
  using assms page_pool.push_chain [of s fl p]
  unfolding pages_wf_def by simp

lemma pages_wf_upd_ref:
  assumes "pages_wf s fl" "p \<notin> set fl"
  shows "pages_wf (upd_page p (\<lambda>q. q\<lparr>pp_ref := r (pp_ref q)\<rparr>) s) fl"
proof -
  have "page_link (upd_page p (\<lambda>q. q\<lparr>pp_ref := r (pp_ref q)\<rparr>) s) = page_link s"
    by (auto simp: page_link_def upd_page_def)
  with assms show ?thesis
    by (auto simp: pages_wf_def upd_page_def)
qed

lemma page_alloc_Nil: "pages_wf s [] \<Longrightarrow> page_alloc z s = Some (None, s)"
  by (simp add: pages_wf_def page_alloc_def)

lemma page_alloc_Cons:
  assumes "pages_wf s (p # fl)"
  shows "page_alloc z s = Some (Some p,
    (page_pop s)\<lparr>pmem := (if z then fill (p * 4096) 4096 0 (pmem s) else pmem s)\<rparr>)"
proof -
  from assms have fl: "page_free_list s = Some p" and p: "p < npages s" "npages s \<le> 2 ^ 20"
    by (auto simp: pages_wf_def)
  let ?s = "upd_page p (\<lambda>p. p\<lparr>pp_link := None\<rparr>) (s\<lparr>page_free_list := pp_link (pages s p)\<rparr>)"
  have k: "page2kva ?s p = Some (page2pa p + KERNBASE)"
    using p by (intro page2kva_ok) (auto simp: upd_page_def)
  have pop: "page_pop s = ?s" using fl by (simp add: page_pop_def)
  show ?thesis
    unfolding page_alloc_def pop using fl k by (simp add: upd_page_def)
qed

lemma page_free_unfold:
  "pp_ref (pages s p) = 0 \<Longrightarrow> pp_link (pages s p) = None \<Longrightarrow> page_free p s = Some (page_push p s)"
  by (simp add: page_free_def page_push_def)

lemma page_free_wf:
  assumes "pages_wf s fl" "p < npages s" "p \<notin> set fl" "pp_ref (pages s p) = 0"
  shows "page_free p s = Some (page_push p s) \<and> pages_wf (page_push p s) (p # fl)"
  using assms pages_wf_push [OF assms] page_free_unfold [of s p] by (auto simp: pages_wf_def)

lemma page_decref_wf:
  assumes wf: "pages_wf s fl" and p: "p < npages s" "p \<notin> set fl"
  shows "\<exists>s'. page_decref p s = Some s' \<and>
    pages_wf s' (if pp_ref (pages s p) = 1 then p # fl else fl) \<and>
    pp_ref (pages s' p) = pp_ref (pages s p) - 1 \<and>
    (\<forall>q. q \<noteq> p \<longrightarrow> pp_ref (pages s' q) = pp_ref (pages s q)) \<and>
    mem_only s s' \<and> pmem s' = pmem s"
proof -
  let ?s = "upd_page p (\<lambda>q. q\<lparr>pp_ref := pp_ref q - 1\<rparr>) s"
  have wf': "pages_wf ?s fl" by (rule pages_wf_upd_ref [OF wf p(2)])
  have ref: "pp_ref (pages ?s p) = pp_ref (pages s p) - 1"
    "\<And>q. q \<noteq> p \<Longrightarrow> pp_ref (pages ?s q) = pp_ref (pages s q)" by (simp_all add: upd_page_def)
  show ?thesis
  proof (cases "pp_ref (pages s p) = 1")
    case True
    then have "page_free p ?s = Some (page_push p ?s) \<and> pages_wf (page_push p ?s) (p # fl)"
      using page_free_wf [OF wf'] p ref by (simp add: upd_page_def)
    with True ref mem_only_trans [OF mem_only_upd_page mem_only_push] show ?thesis
      by (simp add: page_decref_def) (simp add: upd_page_def)
  next
    case False
    then have "pp_ref (pages ?s p) \<noteq> 0" using ref(1) by simp
    with False wf' ref show ?thesis
      by (simp add: page_decref_def) (simp add: upd_page_def mem_only_def)
  qed
qed

section \<open>What page_init leaves on the free list\<close>

definition page_reserved :: "nat \<Rightarrow> nat \<Rightarrow> bool" where
  "page_reserved kernel_used i \<longleftrightarrow> i = 0 \<or> i = 7 \<or> 160 \<le> i \<and> i < kernel_used"

lemma page_init_step_eq:
  "page_init_step 160 ku 7 i s =
     (if page_reserved ku i then upd_page i (\<lambda>p. p\<lparr>pp_ref := 1, pp_link := None\<rparr>) s
      else page_push i (upd_page i (\<lambda>p. p\<lparr>pp_ref := 0\<rparr>) s))"
  by (auto simp: page_init_step_def page_reserved_def page_push_def upd_page_def)

lemma page_init_fold:
  assumes "page_free_list s = None"
  shows "let s' = fold (page_init_step 160 ku 7) [0..<n] s; fl = rev (filter (Not \<circ> page_reserved ku) [0..<n])
     in chain (page_link s') (page_free_list s') fl \<and>
        (\<forall>p < n. pp_ref (pages s' p) = (if page_reserved ku p then 1 else 0)) \<and>
        (\<forall>p < n. page_reserved ku p \<longrightarrow> pp_link (pages s' p) = None) \<and> mem_only s s'"
proof (induction n)
  case 0
  with assms show ?case by simp
next
  case (Suc n)
  define t where "t = fold (page_init_step 160 ku 7) [0..<n] s"
  define fl where "fl = rev (filter (Not \<circ> page_reserved ku) [0..<n])"
  from Suc have c: "chain (page_link t) (page_free_list t) fl"
    and r: "\<forall>p < n. pp_ref (pages t p) = (if page_reserved ku p then 1 else 0)"
    and l: "\<forall>p < n. page_reserved ku p \<longrightarrow> pp_link (pages t p) = None" and m: "mem_only s t"
    unfolding t_def fl_def Let_def by blast+
  have step0: "fold (page_init_step 160 ku 7) [0..<Suc n] s = page_init_step 160 ku 7 n t"
    by (simp add: t_def)
  note step = trans [OF step0 page_init_step_eq]
  have fls: "rev (filter (Not \<circ> page_reserved ku) [0..<Suc n])
    = (if page_reserved ku n then fl else n # fl)" by (simp add: fl_def)
  have n: "n \<notin> set fl" by (simp add: fl_def)
  have link: "page_link (upd_page n f t) = (page_link t)(n := pp_link (f (pages t n)))" for f
    by (auto simp: page_link_def upd_page_def)
  have fl_eq: "page_free_list (upd_page n f t) = page_free_list t" for f
    by (simp add: upd_page_def)
  have c': "chain (page_link (upd_page n f t)) (page_free_list (upd_page n f t)) fl" for f
    using c n by (simp add: link fl_eq)
  show ?case
  proof (cases "page_reserved ku n")
    case True
    with c' [of "\<lambda>p. p\<lparr>pp_ref := 1, pp_link := None\<rparr>"] r l mem_only_trans [OF m mem_only_upd_page]
    show ?thesis
      unfolding step fls Let_def by (auto simp: upd_page_def less_Suc_eq)
  next
    case False
    let ?u = "upd_page n (\<lambda>p. p\<lparr>pp_ref := 0\<rparr>) t"
    have "mem_only s (page_push n ?u)"
      using m by (blast intro: mem_only_trans mem_only_upd_page mem_only_push)
    moreover have "\<forall>p < Suc n. pp_ref (pages ?u p) = (if page_reserved ku p then 1 else 0)"
      using r False by (auto simp: upd_page_def less_Suc_eq)
    moreover have "\<forall>p < Suc n. page_reserved ku p \<longrightarrow> p \<noteq> n \<and> pp_link (pages ?u p) = None"
      using l False by (auto simp: upd_page_def less_Suc_eq)
    ultimately show ?thesis
      using False page_pool.push_chain [OF c' n, of "\<lambda>p. p\<lparr>pp_ref := 0\<rparr>"]
      unfolding step fls Let_def by simp
  qed
qed

section \<open>Properties of the allocator\<close>

text \<open>
  C6: \<open>page_init\<close> builds a well-formed free list of exactly the pages that are not
  reserved: page 0, the application-processor boot page and the pages from the I/O hole to
  the end of the boot-time allocations are never on it.
\<close>

theorem page_init_free_list:
  assumes "page_init end_sym s = Some s'" and "page_free_list s = None" and "npages s \<le> 2 ^ 20"
  shows "pages_wf s' (rev (filter
    (Not \<circ> page_reserved (unat ((fst (boot_alloc end_sym 0 s) - KERNBASE) div PGSIZE)))
    [0..<npages s]))"
proof -
  let ?b = "snd (boot_alloc end_sym 0 s)"
  let ?ku = "unat ((fst (boot_alloc end_sym 0 s) - KERNBASE) div PGSIZE)"
  have b: "npages ?b = npages s" "page_free_list ?b = None"
    using assms(2) by (simp_all add: boot_alloc_def Let_def)
  from assms(1) have s': "s' = fold (page_init_step 160 ?ku 7) [0..<npages s] ?b"
    using b by (auto simp: page_init_def PADDR_def Let_def split: prod.splits if_splits)
  note f = page_init_fold [OF b(2), of ?ku "npages s", unfolded Let_def, folded s']
  from f have "npages s' = npages s" using mem_only_sel(1) b(1) by metis
  with f assms(3) show ?thesis by (auto simp: pages_wf_def)
qed

theorem page_init_free_list_witness:
  "\<exists>s'. page_init 0xF0100000 (kern0\<lparr>npages := 10\<rparr>) = Some s' \<and>
     pages_wf s' [9, 8, 6, 5, 4, 3, 2, 1]"
proof -
  let ?s = "kern0\<lparr>npages := 10\<rparr>"
  obtain s' where s': "page_init 0xF0100000 ?s = Some s'"
    by (simp add: page_init_def boot_alloc_def kern0_def ROUNDUP_def ROUNDDOWN_def PADDR_def)
  have fl: "rev (filter (Not \<circ> page_reserved 256) [0..<10]) = [9, 8, 6, 5, 4, 3, 2, 1]"
    by code_simp
  have "pages_wf s' [9, 8, 6, 5, 4, 3, 2, 1]"
    using page_init_free_list [OF s'] unfolding fl [symmetric]
    by (simp add: boot_alloc_def kern0_def ROUNDUP_def ROUNDDOWN_def)
  with s' show ?thesis by blast
qed

text \<open>
  C6: on a well-formed allocator \<open>page_alloc\<close> never panics; it returns NULL, and changes
  nothing, exactly when the free list is empty, and otherwise takes the first free page off
  the list, unlinked, unreferenced, and zeroed when ALLOC_ZERO asks for it, without
  touching any other page's contents.
\<close>

theorem page_alloc_spec:
  assumes "pages_wf s fl"
  shows "case fl of
      [] \<Rightarrow> page_alloc z s = Some (None, s)
    | p # fl' \<Rightarrow> \<exists>s'. page_alloc z s = Some (Some p, s') \<and> pages_wf s' fl' \<and> mem_only s s' \<and>
        p < npages s \<and> p \<notin> set fl' \<and> pages s' p = \<lparr>pp_link = None, pp_ref = 0\<rparr> \<and>
        (\<forall>a. pmem s' a = (if z \<and> p * 4096 \<le> a \<and> a < p * 4096 + 4096 then 0 else pmem s a))"
proof (cases fl)
  case Nil
  with assms show ?thesis by (simp add: page_alloc_Nil)
next
  case (Cons p fl')
  let ?s' = "(page_pop s)\<lparr>pmem := (if z then fill (p * 4096) 4096 0 (pmem s) else pmem s)\<rparr>"
  from assms Cons have fl: "page_free_list s = Some p" and ref: "pp_ref (pages s p) = 0"
    and "p < npages s" by (auto simp: pages_wf_def)
  moreover have "pages_wf ?s' fl'"
    using pages_wf_pop [OF assms [unfolded Cons]] pages_wf_cong [of ?s' "page_pop s"] by simp
  moreover have "mem_only s ?s'" by (rule mem_only_trans [OF mem_only_pop mem_only_pmem])
  moreover have "pages ?s' p = \<lparr>pp_link = None, pp_ref = 0\<rparr>"
    using fl ref page_pop_link [OF fl, of p] page_pop_sel(4) [of s p] by simp
  moreover have "p \<notin> set fl'" using pages_wf_distinct [OF assms] Cons by simp
  ultimately show ?thesis
    using page_alloc_Cons [OF assms [unfolded Cons]] by (simp add: Cons fill_def)
qed

theorem page_alloc_spec_witness:
  "\<exists>s'. page_alloc True (kern0\<lparr>npages := 2, page_free_list := Some 1\<rparr>) = Some (Some 1, s') \<and>
     pages_wf s' []"
proof -
  have "pages_wf (kern0\<lparr>npages := 2, page_free_list := Some 1\<rparr>) [1]"
    by (simp add: pages_wf_def page_link_def kern0_def)
  from page_alloc_spec [OF this, of True] show ?thesis by auto
qed

text \<open>
  A page that is allocated and unreferenced goes to the front of the free list, and the
  next allocation returns it: \<open>page_alloc\<close> undoes \<open>page_free\<close>.
\<close>

theorem page_free_alloc_roundtrip:
  assumes "pages_wf s fl" "p < npages s" "p \<notin> set fl" "pp_ref (pages s p) = 0"
  shows "\<exists>s1 s2. page_free p s = Some s1 \<and> pages_wf s1 (p # fl) \<and>
     page_alloc False s1 = Some (Some p, s2) \<and> s2 = s"
proof -
  let ?s1 = "page_push p s"
  have free: "page_free p s = Some ?s1" "pages_wf ?s1 (p # fl)"
    using page_free_wf [OF assms] by auto
  have link: "pp_link (pages s p) = None" using assms by (simp add: pages_wf_def)
  then have "(pages s p)\<lparr>pp_link := None\<rparr> = pages s p" by simp
  then have "page_pop ?s1 = s"
    by (simp add: page_pop_def page_push_def upd_page_def)
  then show ?thesis
    using free page_alloc_Cons [OF free(2), of False] by simp
qed

theorem page_free_alloc_roundtrip_witness:
  "\<exists>s1 s2. page_free 1 (kern0\<lparr>npages := 2\<rparr>) = Some s1 \<and> pages_wf s1 [1] \<and>
     page_alloc False s1 = Some (Some 1, s2) \<and> s2 = kern0\<lparr>npages := 2\<rparr>"
proof -
  have "pages_wf (kern0\<lparr>npages := 2\<rparr>) []" by (simp add: pages_wf_def kern0_def)
  from page_free_alloc_roundtrip [OF this, of 1] show ?thesis by (simp add: kern0_def)
qed

text \<open>
  The double-free check of \<open>page_free\<close> catches every page of the free list but the
  last, whose link is NULL too; freeing that one again is accepted and leaves a cyclic list.
\<close>

theorem page_free_double_free:
  assumes "pages_wf s fl" "p \<in> set fl"
  shows "if p = last fl
    then page_free p s = Some (page_push p s) \<and> (\<forall>fl'. \<not> pages_wf (page_push p s) fl')
    else page_free p s = None"
proof -
  have c: "chain (page_link s) (page_free_list s) fl" using assms(1) by (simp add: pages_wf_def)
  have ref: "pp_ref (pages s p) = 0" using assms by (simp add: pages_wf_def)
  have link: "pp_link (pages s p) = None \<longleftrightarrow> p = last fl"
    using chain_link_None_iff [OF c assms(2)] by (simp add: page_link_def)
  have "\<not> pages_wf (page_push p s) fl'" for fl'
    using page_pool.push_member_breaks [OF c assms(2)] by (simp add: pages_wf_def)
  with ref link show ?thesis
    by (auto simp: page_free_unfold) (simp add: page_free_def)
qed

theorem page_free_double_free_witness:
  "page_free 1 (page_push 1 (kern0\<lparr>npages := 2\<rparr>)) \<noteq> None"
proof -
  have "pages_wf (page_push 1 (kern0\<lparr>npages := 2\<rparr>)) [1]"
    by (simp add: pages_wf_def page_link_def kern0_def)
  from page_free_double_free [OF this, of 1] show ?thesis by simp
qed

end
