(* ===== verification/PageTable.thy ===== *)
theory PageTable
  imports PageAlloc
begin

text \<open>
  The two-level page tables of \<open>kern/pmap.c\<close>.  A page directory is named by the physical
  frame it occupies; a pointer to a page-table entry is the physical address of the entry.
\<close>

section \<open>The operations\<close>

definition pgdir_walk :: "nat \<Rightarrow> u32 \<Rightarrow> bool \<Rightarrow> kern \<Rightarrow> (nat option \<times> kern) option" where
  "pgdir_walk pgdir va create s =
     (let pde_ptr = pgdir * 4096 + 4 * unat (PDX va);
          finish = (\<lambda>s. do {
            _ \<leftarrow> KADDR s (PTE_ADDR (load32 s pde_ptr));
            Some (Some (unat (PTE_ADDR (load32 s pde_ptr)) + 4 * unat (PTX va)), s) })
      in if load32 s pde_ptr AND PTE_P = 0
         then if create
              then do {
                (pp, s) \<leftarrow> page_alloc True s;
                case pp of
                  None \<Rightarrow> Some (None, s)
                | Some pp \<Rightarrow>
                    let s = page_incref pp s;
                        s = store32 pde_ptr (((page2pa pp OR PTE_P) OR PTE_U) OR PTE_W) s
                    in finish s }
              else Some (None, s)
         else finish s)"

fun boot_map_loop :: "nat \<Rightarrow> nat \<Rightarrow> u32 \<Rightarrow> u32 \<Rightarrow> u32 \<Rightarrow> kern \<Rightarrow> kern option" where
  "boot_map_loop 0 pgdir va pa perm s = Some s"
| "boot_map_loop (Suc n) pgdir va pa perm s = do {
     (pte, s) \<leftarrow> pgdir_walk pgdir va True s;
     case pte of
       None \<Rightarrow> None
     | Some pte \<Rightarrow>
         boot_map_loop n pgdir (va + PGSIZE) (pa + PGSIZE) perm
           (store32 pte ((pa OR PTE_P) OR perm) s) }"

definition boot_map_region :: "nat \<Rightarrow> u32 \<Rightarrow> u32 \<Rightarrow> u32 \<Rightarrow> u32 \<Rightarrow> kern \<Rightarrow> kern option" where
  "boot_map_region pgdir va sz pa perm s =
     (let pgs = sz div PGSIZE;
          pgs = (if sz mod PGSIZE \<noteq> 0 then pgs + 1 else pgs)
      in boot_map_loop (unat pgs) pgdir va pa perm s)"

definition page_lookup :: "nat \<Rightarrow> u32 \<Rightarrow> kern \<Rightarrow> (nat \<times> nat) option option" where
  "page_lookup pgdir va s = do {
     (pte, _) \<leftarrow> pgdir_walk pgdir va False s;
     case pte of
       None \<Rightarrow> Some None
     | Some pte \<Rightarrow>
         if load32 s pte AND PTE_P = 0 then Some None
         else do {
           pp \<leftarrow> pa2page s (PTE_ADDR (load32 s pte));
           Some (Some (pp, pte)) } }"

definition tlb_invalidate :: "nat \<Rightarrow> u32 \<Rightarrow> kern \<Rightarrow> kern" where
  "tlb_invalidate pgdir va s =
     (case curenv s of
        None \<Rightarrow> s\<lparr>invlpg_log := va # invlpg_log s\<rparr>
      | Some e \<Rightarrow> if env_pgdir (envs s e) = Some pgdir
                  then s\<lparr>invlpg_log := va # invlpg_log s\<rparr> else s)"

definition page_remove :: "nat \<Rightarrow> u32 \<Rightarrow> kern \<Rightarrow> kern option" where
  "page_remove pgdir va s = do {
     r \<leftarrow> page_lookup pgdir va s;
     case r of
       None \<Rightarrow> Some s
     | Some (pp, pte_store) \<Rightarrow> do {
         s \<leftarrow> page_decref pp s;
         let s = store32 pte_store 0 s;
         Some (tlb_invalidate pgdir va s) } }"

definition page_insert :: "nat \<Rightarrow> nat \<Rightarrow> u32 \<Rightarrow> u32 \<Rightarrow> kern \<Rightarrow> ((error + unit) \<times> kern) option" where
  "page_insert pgdir pp va perm s = do {
     (pte, s) \<leftarrow> pgdir_walk pgdir va True s;
     case pte of
       None \<Rightarrow> Some (Inl E_NO_MEM, s)
     | Some pte \<Rightarrow> do {
         let s = page_incref pp s;
         s \<leftarrow> (if load32 s pte AND PTE_P \<noteq> 0 then page_remove pgdir va s else Some s);
         Some (Inr (), store32 pte ((page2pa pp OR perm) OR PTE_P) s) } }"

definition mmio_map_region :: "u32 \<Rightarrow> u32 \<Rightarrow> kern \<Rightarrow> (u32 \<times> kern) option" where
  "mmio_map_region pa sz s =
     (let end = ROUNDUP (pa + sz) PGSIZE;
          start = ROUNDDOWN pa PGSIZE;
          sz = end - start
      in if mmio_base s + sz \<ge> MMIOLIM then None
         else do {
           s \<leftarrow> boot_map_region (kern_pgdir s) (mmio_base s) sz start
                  ((PTE_PCD OR PTE_PWT) OR PTE_W) s;
           let s = s\<lparr>mmio_base := mmio_base s + sz\<rparr>;
           Some (mmio_base s - sz, s) })"

text \<open>
  The loop of \<open>user_mem_check\<close> counts an address up in page steps; \<open>None\<close> covers a loop
  that does not return.
\<close>

partial_function (option) user_mem_check_loop ::
  "nat \<Rightarrow> u32 \<Rightarrow> u32 \<Rightarrow> u32 \<Rightarrow> u32 \<Rightarrow> kern \<Rightarrow> ((error + unit) \<times> kern) option" where
  "user_mem_check_loop pgdir va perm end p s =
     (if p < end
      then do {
        (pte, _) \<leftarrow> pgdir_walk pgdir p False s;
        if ULIM \<le> p \<or> pte = None \<or> load32 s (the pte) AND PTE_P = 0
           \<or> load32 s (the pte) AND perm \<noteq> perm
        then Some (Inl E_FAULT, s\<lparr>user_mem_check_addr := (if p < va then va else p)\<rparr>)
        else user_mem_check_loop pgdir va perm end (p + PGSIZE) s }
      else Some (Inr (), s))"

definition user_mem_check :: "nat \<Rightarrow> u32 \<Rightarrow> u32 \<Rightarrow> u32 \<Rightarrow> kern \<Rightarrow> ((error + unit) \<times> kern) option" where
  "user_mem_check e va len perm s =
     (case env_pgdir (envs s e) of
        None \<Rightarrow> None
      | Some pgdir \<Rightarrow>
          let p = va;
              end = p + len;
              p = ROUNDDOWN p PGSIZE;
              end = ROUNDUP end PGSIZE
          in user_mem_check_loop pgdir va perm end p s)"

fun mem_init_mp_loop :: "(nat \<Rightarrow> u32) \<Rightarrow> nat list \<Rightarrow> kern \<Rightarrow> kern option" where
  "mem_init_mp_loop percpu_kstacks [] s = Some s"
| "mem_init_mp_loop percpu_kstacks (i # is) s = do {
     pa \<leftarrow> PADDR (percpu_kstacks i);
     s \<leftarrow> boot_map_region (kern_pgdir s)
            (KSTACKTOP - KSTKSIZE - of_nat i * (KSTKSIZE + KSTKGAP)) KSTKSIZE pa PTE_W s;
     mem_init_mp_loop percpu_kstacks is s }"

definition mem_init_mp :: "(nat \<Rightarrow> u32) \<Rightarrow> kern \<Rightarrow> kern option" where
  "mem_init_mp percpu_kstacks s = mem_init_mp_loop percpu_kstacks [0..<8] s"

end
