(* ===== verification/VmInv.thy ===== *)
theory VmInv
  imports PageTable
begin

text \<open>
  What the page-table operations do, seen from outside.  A page directory denotes a map
  from user page numbers to page-table entries (\<open>vmap\<close>); \<open>vm_inv\<close> ties the reference
  counts of the allocator to the mappings of a set \<open>D\<close> of page directories.
\<close>

section \<open>The view of an address space\<close>

definition slot :: "kern \<Rightarrow> nat \<Rightarrow> nat \<Rightarrow> u32" where
  "slot s f i = load32 s (f * 4096 + 4 * i)"

definition present :: "u32 \<Rightarrow> bool" where
  "present e \<longleftrightarrow> e AND PTE_P \<noteq> 0"

definition frame_of :: "u32 \<Rightarrow> nat" where
  "frame_of e = unat e div 4096"

definition vpn :: "u32 \<Rightarrow> nat" where
  "vpn va = unat va div 4096"

text \<open>User pages: 955 page tables of 1024 entries lie below UTOP.\<close>

abbreviation (input) UVPN :: nat where "UVPN \<equiv> 955 * 1024"

definition vmap :: "kern \<Rightarrow> nat \<Rightarrow> nat \<Rightarrow> u32 option" where
  "vmap s d v =
     (let e = slot s d (v div 1024) in
      if present e
      then (let p = slot s (frame_of e) (v mod 1024) in if present p then Some p else None)
      else None)"

definition table_at :: "kern \<Rightarrow> nat \<Rightarrow> nat \<Rightarrow> nat option" where
  "table_at s d i = (if present (slot s d i) then Some (frame_of (slot s d i)) else None)"

definition maps :: "kern \<Rightarrow> nat \<Rightarrow> nat \<Rightarrow> nat option" where
  "maps s d v = map_option frame_of (vmap s d v)"

lemma vmap_table_at:
  "vmap s d v = (case table_at s d (v div 1024) of None \<Rightarrow> None
     | Some f \<Rightarrow> if present (slot s f (v mod 1024)) then Some (slot s f (v mod 1024)) else None)"
  by (simp add: vmap_def table_at_def Let_def)

lemma vpn_split: "vpn va div 1024 = unat (PDX va)" "vpn va mod 1024 = unat (PTX va)"
  by (simp_all add: vpn_def wsimps div_mult2_eq [symmetric])

lemma vpn_user: "va < UTOP \<Longrightarrow> vpn va < UVPN"
  by (simp add: vpn_def word_less_nat_alt)

lemma pdx_user: "va < UTOP \<Longrightarrow> unat (PDX va) < 955"
  by (simp add: wsimps word_less_nat_alt)

lemma frame_PTE_ADDR: "unat (PTE_ADDR e) = frame_of e * 4096"
  by (simp add: wsimps frame_of_def)

lemma PGNUM_PTE_ADDR: "unat (PGNUM (PTE_ADDR e)) = frame_of e"
  by (simp add: wsimps frame_of_def)

lemma frame_of_entry:
  assumes "p < 2 ^ 20" "unat perm < 4096"
  shows "frame_of ((page2pa p OR perm) OR PTE_P) = p" "present ((page2pa p OR perm) OR PTE_P)"
proof -
  have "PTE_ADDR (page2pa p) = page2pa p"
    by (simp add: PTE_ADDR_take_bit page2pa_def) (rule bit_word_eqI, auto simp: bit_simps)
  from PTE_ADDR_or_flags [OF this assms(2)]
  have "frame_of ((page2pa p OR perm) OR PTE_P) * 4096 = p * 4096"
    using frame_PTE_ADDR [of "(page2pa p OR perm) OR PTE_P"] unat_page2pa [OF assms(1)] by simp
  then show "frame_of ((page2pa p OR perm) OR PTE_P) = p" by simp
  show "present ((page2pa p OR perm) OR PTE_P)" by (simp add: present_def)
qed

lemma frame_of_pde:
  assumes "p < 2 ^ 20"
  shows "frame_of (((page2pa p OR PTE_P) OR PTE_U) OR PTE_W) = p"
    "present (((page2pa p OR PTE_P) OR PTE_U) OR PTE_W)"
proof -
  have e: "((page2pa p OR PTE_P) OR PTE_U) OR PTE_W = (page2pa p OR 6) OR PTE_P"
    by (simp add: or.assoc)
  show "frame_of (((page2pa p OR PTE_P) OR PTE_U) OR PTE_W) = p"
    "present (((page2pa p OR PTE_P) OR PTE_U) OR PTE_W)"
    unfolding e using frame_of_entry [OF assms, of 6] by simp_all
qed

section \<open>Stores and walks in terms of slots\<close>

lemma slot_store:
  "i < 1024 \<Longrightarrow> j < 1024 \<Longrightarrow>
   slot (store32 (f * 4096 + 4 * i) e s) g j = (if f = g \<and> i = j then e else slot s g j)"
  using slot_disjoint [of i j f g] by (auto simp: slot_def load32_store32_other)

lemma slot_mem_cong: "pmem s' = pmem s \<Longrightarrow> slot s' f i = slot s f i"
  by (simp add: slot_def load32_def)

lemma slot_fill:
  assumes "i < 1024" "pmem s' = fill (p * 4096) 4096 0 (pmem s)"
  shows "slot s' f i = (if f = p then 0 else slot s f i)"
proof (cases "f = p")
  case True
  then show ?thesis using assms by (simp add: slot_def load32_def rd32_fill_in)
next
  case False
  then have "f * 4096 + 4 * i + 4 \<le> p * 4096 \<or> p * 4096 + 4096 \<le> f * 4096 + 4 * i"
    using assms(1) by linarith
  with False show ?thesis using assms by (simp add: slot_def load32_def rd32_fill_out)
qed

lemma walk_present:
  assumes "table_at s d (unat (PDX va)) = Some f" "f < npages s"
  shows "pgdir_walk d va c s = Some (Some (f * 4096 + 4 * unat (PTX va)), s)"
  using assms
  by (auto simp: pgdir_walk_def table_at_def slot_def present_def KADDR_def PGNUM_PTE_ADDR
      frame_PTE_ADDR Let_def split: if_splits)

lemma walk_absent:
  assumes "table_at s d (unat (PDX va)) = None"
  shows "pgdir_walk d va False s = Some (None, s)"
  using assms by (auto simp: pgdir_walk_def table_at_def slot_def present_def split: if_splits)

lemma walk_nomem:
  assumes "table_at s d (unat (PDX va)) = None" "pages_wf s []"
  shows "pgdir_walk d va True s = Some (None, s)"
  using assms by (auto simp: pgdir_walk_def table_at_def slot_def present_def page_alloc_Nil
      split: if_splits)

definition new_table :: "nat \<Rightarrow> nat \<Rightarrow> u32 \<Rightarrow> kern \<Rightarrow> kern" where
  "new_table p d va s =
     store32 (d * 4096 + 4 * unat (PDX va)) (((page2pa p OR PTE_P) OR PTE_U) OR PTE_W)
       (page_incref p ((page_pop s)\<lparr>pmem := fill (p * 4096) 4096 0 (pmem s)\<rparr>))"

lemma walk_new:
  assumes "table_at s d (unat (PDX va)) = None" "pages_wf s (p # fl)"
  shows "pgdir_walk d va True s = Some (Some (p * 4096 + 4 * unat (PTX va)), new_table p d va s)"
proof -
  let ?v = "((page2pa p OR PTE_P) OR PTE_U) OR PTE_W"
  from assms(2) have p: "p < npages s" "npages s \<le> 2 ^ 20" by (auto simp: pages_wf_def)
  then have f: "frame_of ?v = p" using frame_of_pde(1) by simp
  have np: "npages (new_table p d va s) = npages s"
    by (simp add: new_table_def page_incref_def upd_page_def store32_def)
  have l: "load32 (new_table p d va s) (d * 4096 + 4 * unat (PDX va)) = ?v"
    by (simp add: new_table_def)
  have "KADDR (new_table p d va s) (PTE_ADDR ?v) \<noteq> None"
    using p np by (simp add: KADDR_def PGNUM_PTE_ADDR f)
  with assms l f show ?thesis
    unfolding pgdir_walk_def Let_def page_alloc_Cons [OF assms(2)]
    by (auto simp: table_at_def slot_def present_def frame_PTE_ADDR new_table_def split: if_splits)
qed

section \<open>The invariant\<close>

text \<open>
  The frames that make up the page tables of \<open>D\<close>: each directory, and each table a user
  entry of a directory points to.
\<close>

fun struct_at :: "kern \<Rightarrow> nat + nat \<times> nat \<Rightarrow> nat option" where
  "struct_at s (Inl d) = Some d"
| "struct_at s (Inr (d, i)) = table_at s d i"

definition keys :: "nat set \<Rightarrow> (nat + nat \<times> nat) set" where
  "keys D = Inl ` D \<union> Inr ` (D \<times> {..<955})"

definition structs :: "kern \<Rightarrow> nat set \<Rightarrow> nat set" where
  "structs s D = {f. \<exists>k \<in> keys D. struct_at s k = Some f}"

definition data_refs :: "(nat \<Rightarrow> nat \<Rightarrow> nat option) \<Rightarrow> nat set \<Rightarrow> nat \<Rightarrow> (nat \<times> nat) set" where
  "data_refs m D p = {(d, v). d \<in> D \<and> v < UVPN \<and> m d v = Some p}"

text \<open>
  \<open>vm_inv s fl D ext\<close>: the free list is \<open>fl\<close>; page-table frames are allocated once and
  used for one purpose only; a user mapping never points to a page-table frame; and the
  reference count of every other page is the number of user mappings of it, plus the
  \<open>ext\<close> references the kernel holds itself.
\<close>

definition vm_inv :: "kern \<Rightarrow> nat list \<Rightarrow> nat set \<Rightarrow> (nat \<Rightarrow> nat) \<Rightarrow> bool" where
  "vm_inv s fl D ext \<longleftrightarrow>
     pages_wf s fl \<and> finite D \<and>
     (\<forall>k \<in> keys D. \<forall>f. struct_at s k = Some f \<longrightarrow> f < npages s \<and> pp_ref (pages s f) = 1) \<and>
     (\<forall>k \<in> keys D. \<forall>k' \<in> keys D. \<forall>f. struct_at s k = Some f \<and> struct_at s k' = Some f \<longrightarrow> k = k') \<and>
     (\<forall>d \<in> D. \<forall>v < UVPN. \<forall>p. maps s d v = Some p \<longrightarrow> p < npages s \<and> p \<notin> structs s D) \<and>
     (\<forall>p < npages s. p \<notin> structs s D \<longrightarrow>
        card (data_refs (maps s) D p) + ext p = unat (pp_ref (pages s p))) \<and>
     (\<forall>f \<in> structs s D. ext f = 0)"

lemma vm_invD:
  assumes "vm_inv s fl D ext"
  shows "pages_wf s fl" "finite D"
    "k \<in> keys D \<Longrightarrow> struct_at s k = Some f \<Longrightarrow> f < npages s \<and> pp_ref (pages s f) = 1"
    "k \<in> keys D \<Longrightarrow> k' \<in> keys D \<Longrightarrow> struct_at s k = Some f \<Longrightarrow> struct_at s k' = Some f \<Longrightarrow> k = k'"
    "d \<in> D \<Longrightarrow> v < UVPN \<Longrightarrow> maps s d v = Some p \<Longrightarrow> p < npages s \<and> p \<notin> structs s D"
    "p < npages s \<Longrightarrow> p \<notin> structs s D \<Longrightarrow>
       card (data_refs (maps s) D p) + ext p = unat (pp_ref (pages s p))"
    "f \<in> structs s D \<Longrightarrow> ext f = 0"
  using assms unfolding vm_inv_def by blast+

lemma vm_invI:
  assumes "pages_wf s fl" "finite D"
    "\<And>k f. k \<in> keys D \<Longrightarrow> struct_at s k = Some f \<Longrightarrow> f < npages s \<and> pp_ref (pages s f) = 1"
    "\<And>k k' f. k \<in> keys D \<Longrightarrow> k' \<in> keys D \<Longrightarrow> struct_at s k = Some f \<Longrightarrow> struct_at s k' = Some f
       \<Longrightarrow> k = k'"
    "\<And>d v p. d \<in> D \<Longrightarrow> v < UVPN \<Longrightarrow> maps s d v = Some p \<Longrightarrow> p < npages s \<and> p \<notin> structs s D"
    "\<And>p. p < npages s \<Longrightarrow> p \<notin> structs s D \<Longrightarrow>
       card (data_refs (maps s) D p) + ext p = unat (pp_ref (pages s p))"
    "\<And>f. f \<in> structs s D \<Longrightarrow> ext f = 0"
  shows "vm_inv s fl D ext"
  unfolding vm_inv_def using assms by (intro conjI ballI allI impI; (elim conjE)?; metis)

lemma keys_simps [simp]:
  "Inl d \<in> keys D \<longleftrightarrow> d \<in> D" "Inr (d, i) \<in> keys D \<longleftrightarrow> d \<in> D \<and> i < 955"
  by (auto simp: keys_def)

lemma finite_data_refs [simp]: "finite D \<Longrightarrow> finite (data_refs m D p)"
  by (rule finite_subset [of _ "D \<times> {..<UVPN}"]) (auto simp: data_refs_def)

lemma data_refs_cong:
  "(\<And>d v. d \<in> D \<Longrightarrow> v < UVPN \<Longrightarrow> m d v = m' d v) \<Longrightarrow> data_refs m D p = data_refs m' D p"
  by (auto simp: data_refs_def)

lemma structsI: "k \<in> keys D \<Longrightarrow> struct_at s k = Some f \<Longrightarrow> f \<in> structs s D"
  by (auto simp: structs_def)

lemma structsE:
  assumes "f \<in> structs s D"
  obtains k where "k \<in> keys D" "struct_at s k = Some f"
  using assms by (auto simp: structs_def)

lemma dir_structs: "d \<in> D \<Longrightarrow> d \<in> structs s D"
  by (rule structsI [of "Inl d"]) simp_all

lemma table_structs: "d \<in> D \<Longrightarrow> i < 955 \<Longrightarrow> table_at s d i = Some f \<Longrightarrow> f \<in> structs s D"
  by (rule structsI [of "Inr (d, i)"]) simp_all

lemma structs_free:
  assumes "vm_inv s fl D ext" "f \<in> structs s D"
  shows "f \<notin> set fl" "f < npages s"
  using assms(2) vm_invD(1,3) [OF assms(1)] pages_wf_free
  unfolding structs_def by fastforce+

text \<open>The state is well-formed as soon as its view is.\<close>

lemma vm_inv_cong:
  assumes "vm_inv s fl D ext" "pages_wf s' fl'" "npages s' = npages s"
    "\<And>k. k \<in> keys D \<Longrightarrow> struct_at s' k = struct_at s k"
    "\<And>d v. d \<in> D \<Longrightarrow> v < UVPN \<Longrightarrow> maps s' d v = maps s d v"
    "\<And>p. pp_ref (pages s' p) = pp_ref (pages s p)"
  shows "vm_inv s' fl' D ext"
proof -
  have st: "structs s' D = structs s D" using assms(4) by (auto simp: structs_def)
  have dr: "data_refs (maps s') D p = data_refs (maps s) D p" for p
    by (rule data_refs_cong) (rule assms(5))
  show ?thesis
    using assms(1) assms(2,3,6) assms(4,5) unfolding vm_inv_def st dr by auto
qed

section \<open>Installing a page table\<close>

lemma slot_new_table:
  assumes "i < 1024"
  shows "slot (new_table p d va s) f i =
    (if f = d \<and> i = unat (PDX va) then ((page2pa p OR PTE_P) OR PTE_U) OR PTE_W
     else if f = p then 0 else slot s f i)"
proof -
  let ?t = "page_incref p ((page_pop s)\<lparr>pmem := fill (p * 4096) 4096 0 (pmem s)\<rparr>)"
  have "slot ?t f i = (if f = p then 0 else slot s f i)"
    by (rule slot_fill [OF assms]) (simp add: page_incref_def upd_page_def)
  then show ?thesis
    unfolding new_table_def using slot_store [OF PDX_less assms] by auto
qed

lemma new_table_sel [simp]:
  "npages (new_table p d va s) = npages s"
  "pp_ref (pages (new_table p d va s) q) = (if q = p then pp_ref (pages s q) + 1 else pp_ref (pages s q))"
  "mem_only s (new_table p d va s)"
proof -
  show "npages (new_table p d va s) = npages s"
    "pp_ref (pages (new_table p d va s) q) = (if q = p then pp_ref (pages s q) + 1 else pp_ref (pages s q))"
    by (auto simp: new_table_def store32_def page_incref_def upd_page_def)
  show "mem_only s (new_table p d va s)"
    unfolding new_table_def page_incref_def
    by (rule mem_only_trans [OF mem_only_trans [OF mem_only_trans
          [OF mem_only_pop mem_only_pmem] mem_only_upd_page] mem_only_store])
qed

lemma pages_wf_new_table:
  assumes "pages_wf s (p # fl)"
  shows "pages_wf (new_table p d va s) fl"
proof -
  let ?t = "(page_pop s)\<lparr>pmem := fill (p * 4096) 4096 0 (pmem s)\<rparr>"
  have "pages_wf ?t fl"
    using pages_wf_pop [OF assms] pages_wf_cong [of ?t "page_pop s"] by simp
  moreover have "p \<notin> set fl" using pages_wf_distinct [OF assms] by simp
  ultimately have "pages_wf (page_incref p ?t) fl"
    unfolding page_incref_def by (rule pages_wf_upd_ref)
  then show ?thesis
    unfolding new_table_def using pages_wf_cong [of "store32 _ _ (page_incref p ?t)" "page_incref p ?t"]
    by (simp add: store32_def)
qed

lemma struct_at_new_table:
  assumes "p \<notin> structs s D" "p < 2 ^ 20" "k \<in> keys D" "d \<in> D" "va < UTOP"
  shows "struct_at (new_table p d va s) k =
    (if k = Inr (d, unat (PDX va)) then Some p else struct_at s k)"
proof (cases k)
  case (Inl d')
  then show ?thesis by simp
next
  case (Inr di)
  obtain d' i where di: "di = (d', i)" by (cases di)
  from assms(3) Inr di have d': "d' \<in> D" "i < 955" by simp_all
  have "d' \<noteq> p"
    using assms(1) dir_structs [OF d'(1)] by metis
  then show ?thesis
    using d' Inr di frame_of_pde [OF assms(2)] by (auto simp: table_at_def slot_new_table)
qed

lemma vmap_new_table:
  assumes inv: "vm_inv s (p # fl) D ext" and d: "d \<in> D" and va: "va < UTOP"
    and none: "table_at s d (unat (PDX va)) = None" and d': "d' \<in> D" "v < UVPN"
  shows "vmap (new_table p d va s) d' v = vmap s d' v"
proof -
  let ?s' = "new_table p d va s"
  have p: "p \<notin> structs s D" using structs_free(1) [OF inv] by auto
  have p20: "p < 2 ^ 20"
    using vm_invD(1) [OF inv] by (auto simp: pages_wf_def)
  have i: "v div 1024 < 955" "v mod 1024 < 1024" using d'(2) by auto
  have T: "table_at ?s' d' (v div 1024) =
     (if d' = d \<and> v div 1024 = unat (PDX va) then Some p else table_at s d' (v div 1024))"
    using struct_at_new_table [OF p p20 _ d va, of "Inr (d', v div 1024)"] d' i by simp
  show ?thesis
  proof (cases "d' = d \<and> v div 1024 = unat (PDX va)")
    case True
    have "p \<noteq> d" using p dir_structs [OF d] by metis
    then have "slot ?s' p (v mod 1024) = 0" using i by (simp add: slot_new_table)
    with True T none show ?thesis by (simp add: vmap_table_at present_def)
  next
    case False
    show ?thesis
    proof (cases "table_at s d' (v div 1024)")
      case None
      with T False show ?thesis by (simp add: vmap_table_at)
    next
      case (Some f)
      then have "f \<in> structs s D"
        using d' i table_structs by metis
      with p have "f \<noteq> p" by blast
      moreover have "f \<noteq> d"
        using vm_invD(4) [OF inv, of "Inr (d', v div 1024)" "Inl d" f] Some d d' i by auto
      ultimately have "slot ?s' f (v mod 1024) = slot s f (v mod 1024)"
        using i by (simp add: slot_new_table)
      with T False Some show ?thesis by (simp add: vmap_table_at)
    qed
  qed
qed

lemma vm_inv_new_table:
  assumes inv: "vm_inv s (p # fl) D ext" and d: "d \<in> D" and va: "va < UTOP"
    and none: "table_at s d (unat (PDX va)) = None"
  shows "vm_inv (new_table p d va s) fl D ext"
proof -
  let ?s' = "new_table p d va s" and ?k = "Inr (d, unat (PDX va))"
  have wf: "pages_wf s (p # fl)" by (rule vm_invD(1) [OF inv])
  then have p: "p < npages s" "npages s \<le> 2 ^ 20" "pp_ref (pages s p) = 0"
    by (auto simp: pages_wf_def)
  have nst: "p \<notin> structs s D" using structs_free(1) [OF inv] by auto
  have S: "struct_at ?s' k = (if k = ?k then Some p else struct_at s k)" if "k \<in> keys D" for k
    using struct_at_new_table [OF nst _ that d va] p by simp
  have M: "maps ?s' d' v = maps s d' v" if "d' \<in> D" "v < UVPN" for d' v
    using vmap_new_table [OF inv d va none that] by (simp add: maps_def)
  have D: "data_refs (maps ?s') D q = data_refs (maps s) D q" for q
    by (rule data_refs_cong) (rule M)
  have k: "?k \<in> keys D" using d pdx_user [OF va] by simp
  have st: "structs ?s' D = insert p (structs s D)"
  proof -
    have n: "struct_at s ?k = None" using none by simp
    have "f \<in> insert p (structs s D)" if "f \<in> structs ?s' D" for f
      using structsE [OF that] S structsI by (metis insert_iff option.inject)
    moreover have "f \<in> structs ?s' D" if "f \<in> structs s D" for f
      using structsE [OF that] S structsI n by (metis option.distinct(1))
    moreover have "p \<in> structs ?s' D" using S [OF k] structsI [OF k] by simp
    ultimately show ?thesis by blast
  qed
  have cp: "card (data_refs (maps s) D p) + ext p = 0"
    using vm_invD(6) [OF inv p(1) nst] p(3) by simp
  then have "data_refs (maps s) D p = {}"
    using finite_data_refs [OF vm_invD(2) [OF inv]] by simp
  then have np: "maps s d' v \<noteq> Some p" if "d' \<in> D" "v < UVPN" for d' v
    using that by (auto simp: data_refs_def)
  have A: "f < npages s \<and> pp_ref (pages ?s' f) = 1" if "k \<in> keys D" "struct_at ?s' k = Some f" for k f
  proof (cases "k = ?k")
    case True
    with S [OF that(1)] that p show ?thesis by simp
  next
    case False
    with S that have f: "struct_at s k = Some f" by simp
    then have "f \<noteq> p" using nst structsI [OF that(1)] by metis
    with vm_invD(3) [OF inv that(1) f] show ?thesis by simp
  qed
  have B: "k = k'" if "k \<in> keys D" "k' \<in> keys D" "struct_at ?s' k = Some f" "struct_at ?s' k' = Some f" for k k' f
  proof (rule ccontr)
    assume ne: "k \<noteq> k'"
    show False
    proof (cases "k = ?k \<or> k' = ?k")
      case True
      with S that ne have "f = p" "struct_at s k = Some p \<or> struct_at s k' = Some p"
        by (auto split: if_splits)
      with nst structsI that show False by metis
    next
      case False
      with S that have "struct_at s k = Some f" "struct_at s k' = Some f" by simp_all
      with vm_invD(4) [OF inv that(1,2)] ne show False by blast
    qed
  qed
  have C: "q < npages s \<and> q \<notin> insert p (structs s D)"
    if "d' \<in> D" "v < UVPN" "maps ?s' d' v = Some q" for d' v q
    using vm_invD(5) [OF inv that(1,2)] np [OF that(1,2)] M [OF that(1,2)] that(3) by auto
  have E: "card (data_refs (maps s) D q) + ext q = unat (pp_ref (pages ?s' q))"
    if "q < npages s" "q \<notin> insert p (structs s D)" for q
    using vm_invD(6) [OF inv that(1)] that(2) by simp
  show ?thesis
  proof (rule vm_invI)
    show "pages_wf ?s' fl" by (rule pages_wf_new_table [OF wf])
    show "finite D" by (rule vm_invD(2) [OF inv])
    show "f < npages ?s' \<and> pp_ref (pages ?s' f) = 1" if "k \<in> keys D" "struct_at ?s' k = Some f" for k f
      using A [OF that] unfolding new_table_sel(1) .
    show "k = k'" if "k \<in> keys D" "k' \<in> keys D" "struct_at ?s' k = Some f" "struct_at ?s' k' = Some f"
      for k k' f by (rule B [OF that])
    show "q < npages ?s' \<and> q \<notin> structs ?s' D" if "d' \<in> D" "v < UVPN" "maps ?s' d' v = Some q"
      for d' v q using C [OF that] unfolding st new_table_sel(1) .
    show "card (data_refs (maps ?s') D q) + ext q = unat (pp_ref (pages ?s' q))"
      if "q < npages ?s'" "q \<notin> structs ?s' D" for q
      unfolding D by (rule E [OF that [unfolded st new_table_sel(1)]])
    show "ext f = 0" if "f \<in> structs ?s' D" for f
      using that vm_invD(7) [OF inv, of f] cp unfolding st by auto
  qed
qed

section \<open>Writing an entry\<close>

lemma view_pmem:
  assumes "pmem s' = pmem s"
  shows "vmap s' = vmap s" "table_at s' = table_at s" "struct_at s' k = struct_at s k"
    "maps s' = maps s" "structs s' D = structs s D"
proof -
  have sl: "slot s' = slot s" using slot_mem_cong [OF assms] by blast
  show t: "table_at s' = table_at s" by (intro ext) (simp add: table_at_def sl)
  show "vmap s' = vmap s" by (intro ext) (simp add: vmap_def sl Let_def)
  then show "maps s' = maps s" by (intro ext) (simp add: maps_def)
  have st: "struct_at s' k = struct_at s k" for k
    using t by (cases k) auto
  then show "struct_at s' k = struct_at s k" "structs s' D = structs s D"
    by (simp_all add: structs_def)
qed

lemma vpn_eqI: "v div 1024 = unat (PDX va) \<Longrightarrow> v mod 1024 = unat (PTX va) \<Longrightarrow> v = vpn va"
  using vpn_split [of va] div_mult_mod_eq [of v 1024] div_mult_mod_eq [of "vpn va" 1024] by simp

lemma store_pte_view:
  fixes e :: u32 and s :: kern
  assumes inv: "vm_inv s fl D ext" and d: "d \<in> D" and va: "va < UTOP"
    and f: "table_at s d (unat (PDX va)) = Some f"
  defines "s' \<equiv> store32 (f * 4096 + 4 * unat (PTX va)) e s"
  shows "k \<in> keys D \<Longrightarrow> struct_at s' k = struct_at s k"
    and "d' \<in> D \<Longrightarrow> v < UVPN \<Longrightarrow> vmap s' d' v =
      (if d' = d \<and> v = vpn va then (if present e then Some e else None) else vmap s d' v)"
proof -
  have sl: "slot s' g i = (if f = g \<and> unat (PTX va) = i then e else slot s g i)" if "i < 1024" for g i
    unfolding s'_def by (rule slot_store [OF PTX_less that])
  have nd: "f \<noteq> d''" if "d'' \<in> D" for d''
    using vm_invD(4) [OF inv, of "Inr (d, unat (PDX va))" "Inl d''" f] f d that pdx_user [OF va] by auto
  have T: "table_at s' d'' i = table_at s d'' i" if "d'' \<in> D" "i < 955" for d'' i
    using nd [OF that(1)] that(2) by (simp add: table_at_def sl)
  show "struct_at s' k = struct_at s k" if "k \<in> keys D"
    using that T by (cases k) (auto simp: keys_def)
  assume d': "d' \<in> D" "v < UVPN"
  then have i: "v div 1024 < 955" "v mod 1024 < 1024" by auto
  show "vmap s' d' v =
      (if d' = d \<and> v = vpn va then (if present e then Some e else None) else vmap s d' v)"
  proof (cases "table_at s d' (v div 1024)")
    case None
    with T [OF d'(1) i(1)] f show ?thesis by (auto simp: vmap_table_at vpn_split)
  next
    case (Some g)
    have "f = g \<and> unat (PTX va) = v mod 1024 \<longleftrightarrow> d' = d \<and> v = vpn va"
      using vm_invD(4) [OF inv, of "Inr (d, unat (PDX va))" "Inr (d', v div 1024)" f]
        Some f d d' i pdx_user [OF va] vpn_eqI [of v va] vpn_split [of va] by auto
    then have "slot s' g (v mod 1024) = (if d' = d \<and> v = vpn va then e else slot s g (v mod 1024))"
      using sl [OF i(2), of g] by simp
    with Some T [OF d'(1) i(1)] show ?thesis
      by (cases "d' = d \<and> v = vpn va") (auto simp: vmap_table_at)
  qed
qed

lemma data_refs_upd:
  assumes "\<And>d' v. d' \<in> D \<Longrightarrow> v < UVPN \<Longrightarrow> m' d' v = (if d' = d \<and> v = v0 then x else m d' v)"
    "d \<in> D" "v0 < UVPN"
  shows "data_refs m' D p =
    (if x = Some p then insert (d, v0) (data_refs m D p) else data_refs m D p - {(d, v0)})"
  using assms by (auto simp: data_refs_def split: if_splits)

text \<open>Memory outside the page-table frames.\<close>

definition same_data :: "kern \<Rightarrow> kern \<Rightarrow> nat set \<Rightarrow> bool" where
  "same_data s s' F \<longleftrightarrow> (\<forall>a. a div 4096 \<notin> F \<longrightarrow> pmem s' a = pmem s a)"

lemma same_data_refl [simp]: "same_data s s F"
  by (simp add: same_data_def)

lemma same_data_trans:
  "same_data s t F \<Longrightarrow> same_data t u G \<Longrightarrow> F \<subseteq> H \<Longrightarrow> G \<subseteq> H \<Longrightarrow> same_data s u H"
  unfolding same_data_def by (metis subsetD)

lemma same_data_store:
  assumes "f \<in> F" "j < 1024"
  shows "same_data s (store32 (f * 4096 + 4 * j) e s) F"
proof -
  have "(f * 4096 + 4 * j + k) div 4096 = f" if "k < 4" for k
    using assms(2) that by (simp add: div_mult_self3 less_imp_diff_less)
  from this [of 0] this [of 1] this [of 2] this [of 3] assms(1) show ?thesis
    by (auto simp: same_data_def store32_def wr32_def)
qed

lemma same_data_slot:
  assumes "same_data s s' F" "f \<notin> F" "i < 1024"
  shows "slot s' f i = slot s f i"
proof -
  have "(f * 4096 + 4 * i + k) div 4096 = f" if "k < 4" for k
    using assms(3) that by (simp add: div_mult_self3 less_imp_diff_less)
  from this [of 0] this [of 1] this [of 2] this [of 3] assms show ?thesis
    by (simp add: same_data_def slot_def load32_def rd32_def)
qed

lemma same_data_pmem: "pmem s' = pmem t \<Longrightarrow> same_data s t F \<Longrightarrow> same_data s s' F"
  by (simp add: same_data_def)

lemma same_data_new_table:
  assumes "p \<in> F" "d \<in> F"
  shows "same_data s (new_table p d va s) F"
proof -
  let ?t = "page_incref p ((page_pop s)\<lparr>pmem := fill (p * 4096) 4096 0 (pmem s)\<rparr>)"
  have "same_data s ?t F"
    using assms(1) by (auto simp: same_data_def page_incref_def upd_page_def fill_def)
      (metis add_lessD1 div_nat_eqI less_add_Suc1 mult.commute mult_Suc add.commute)
  from same_data_trans [OF this same_data_store [OF assms(2) PDX_less]] show ?thesis
    unfolding new_table_def by blast
qed

section \<open>Looking up and removing a mapping\<close>

section \<open>Page directories only gain tables\<close>

definition user_dirs :: "kern \<Rightarrow> nat set \<Rightarrow> bool" where
  "user_dirs s D \<longleftrightarrow> (\<forall>d \<in> D. \<forall>i < 955. present (slot s d i) \<longrightarrow>
     slot s d i AND PTE_U \<noteq> 0 \<and> slot s d i AND PTE_W \<noteq> 0)"

definition dirs_grow :: "kern \<Rightarrow> kern \<Rightarrow> nat set \<Rightarrow> bool" where
  "dirs_grow s s' D \<longleftrightarrow> (\<forall>d \<in> D. \<forall>i < 1024. slot s' d i = slot s d i \<or>
     \<not> present (slot s d i) \<and> slot s' d i AND PTE_U \<noteq> 0 \<and> slot s' d i AND PTE_W \<noteq> 0)"

lemma dirs_grow_refl [simp]: "dirs_grow s s D"
  by (simp add: dirs_grow_def)

lemma dirs_grow_trans: "dirs_grow s t D \<Longrightarrow> dirs_grow t u D \<Longrightarrow> dirs_grow s u D"
  unfolding dirs_grow_def by metis

lemma dirs_grow_same:
  "(\<And>d i. d \<in> D \<Longrightarrow> i < 1024 \<Longrightarrow> slot s' d i = slot s d i) \<Longrightarrow> dirs_grow s s' D"
  by (simp add: dirs_grow_def)

lemma user_dirs_grow:
  assumes "user_dirs s D" "dirs_grow s s' D"
  shows "user_dirs s' D"
  unfolding user_dirs_def
proof (intro ballI allI impI)
  fix d i assume d: "d \<in> D" "i < (955::nat)" "present (slot s' d i)"
  then have "i < 1024" by simp
  with d assms(2) have "slot s' d i = slot s d i \<or>
     \<not> present (slot s d i) \<and> slot s' d i AND PTE_U \<noteq> 0 \<and> slot s' d i AND PTE_W \<noteq> 0"
    unfolding dirs_grow_def by blast
  with d assms(1) show "slot s' d i AND PTE_U \<noteq> 0 \<and> slot s' d i AND PTE_W \<noteq> 0"
    unfolding user_dirs_def by metis
qed

lemma dirs_grow_present:
  "dirs_grow s s' D \<Longrightarrow> d \<in> D \<Longrightarrow> i < 1024 \<Longrightarrow> present (slot s d i) \<Longrightarrow> slot s' d i = slot s d i"
  unfolding dirs_grow_def by blast

lemma table_not_dir:
  assumes "vm_inv s fl D ext" "d \<in> D" "i < 955" "table_at s d i = Some f"
  shows "f \<notin> D"
proof
  assume "f \<in> D"
  then have "struct_at s (Inl f) = struct_at s (Inr (d, i))" "struct_at s (Inl f) = Some f"
    "Inl f \<in> keys D" "Inr (d, i) \<in> keys D" using assms by simp_all
  with assms(1) show False unfolding vm_inv_def by (metis Inl_Inr_False)
qed

lemma dirs_grow_store:
  assumes "vm_inv s fl D ext" "d \<in> D" "i < 955" "table_at s d i = Some f" "j < 1024"
  shows "dirs_grow s (store32 (f * 4096 + 4 * j) e s) D"
  using table_not_dir [OF assms(1-4)] slot_store [OF assms(5)]
  by (intro dirs_grow_same) auto

lemma dirs_grow_pmem: "pmem t = pmem s \<Longrightarrow> dirs_grow s t D"
  using slot_mem_cong by (intro dirs_grow_same) blast

lemma table_bound:
  "vm_inv s fl D ext \<Longrightarrow> d \<in> D \<Longrightarrow> i < 955 \<Longrightarrow> table_at s d i = Some f \<Longrightarrow> f < npages s"
  using vm_invD(3) [of s fl D ext "Inr (d, i)" f] by simp

lemma dirs_grow_new_table:
  assumes d: "d \<in> D" and none: "table_at s d (unat (PDX va)) = None" and p: "p \<notin> structs s D"
  shows "dirs_grow s (new_table p d va s) D"
proof -
  let ?e = "((page2pa p OR PTE_P) OR PTE_U) OR PTE_W"
  have "\<not> present (slot s d (unat (PDX va)))" using none by (simp add: table_at_def split: if_splits)
  moreover have "?e AND PTE_U \<noteq> 0" "?e AND PTE_W \<noteq> 0"
    by (simp_all add: bit.conj_disj_distrib2 or_eq_0_iff)
  moreover have "g \<noteq> p" if "g \<in> D" for g using p dir_structs [OF that] by metis
  ultimately show ?thesis unfolding dirs_grow_def using slot_new_table [of _ p d va s] by simp
qed

lemma page_lookup_eq:
  assumes inv: "vm_inv s fl D ext" and d: "d \<in> D" and va: "va < UTOP"
  shows "page_lookup d va s = Some (case vmap s d (vpn va) of None \<Rightarrow> None
     | Some e \<Rightarrow> Some (frame_of e, the (table_at s d (unat (PDX va))) * 4096 + 4 * unat (PTX va)))"
proof (cases "table_at s d (unat (PDX va))")
  case None
  then show ?thesis
    by (simp add: page_lookup_def walk_absent vmap_table_at vpn_split)
next
  case (Some f)
  have f: "f < npages s"
    using vm_invD(3) [OF inv, of "Inr (d, unat (PDX va))" f] Some d pdx_user [OF va] by simp
  have l: "load32 s (f * 4096 + 4 * unat (PTX va)) = slot s f (unat (PTX va))"
    by (simp add: slot_def)
  show ?thesis
  proof (cases "present (slot s f (unat (PTX va)))")
    case False
    with Some f l show ?thesis
      by (simp add: page_lookup_def walk_present vmap_table_at vpn_split present_def)
  next
    case True
    then have m: "maps s d (vpn va) = Some (frame_of (slot s f (unat (PTX va))))"
      using Some by (simp add: maps_def vmap_table_at vpn_split)
    have "frame_of (slot s f (unat (PTX va))) < npages s"
      using vm_invD(5) [OF inv d vpn_user [OF va] m] by simp
    with True Some f l show ?thesis
      by (simp add: page_lookup_def walk_present vmap_table_at vpn_split present_def pa2page_def
          PGNUM_PTE_ADDR)
  qed
qed

lemma tlb_invalidate_sel [simp]:
  "pmem (tlb_invalidate d va s) = pmem s" "pages (tlb_invalidate d va s) = pages s"
  "npages (tlb_invalidate d va s) = npages s"
  "page_free_list (tlb_invalidate d va s) = page_free_list s"
  "mem_only s (tlb_invalidate d va s)"
  by (auto simp: tlb_invalidate_def mem_only_def split: option.split)

lemma page_remove_unmapped:
  assumes "vm_inv s fl D ext" "d \<in> D" "va < UTOP" "vmap s d (vpn va) = None"
  shows "page_remove d va s = Some s"
  using page_lookup_eq [OF assms(1-3)] assms(4) by (simp add: page_remove_def)

lemma page_remove_inv:
  assumes inv: "vm_inv s fl D ext" and d: "d \<in> D" and va: "va < UTOP"
  shows "\<exists>s' fl'. page_remove d va s = Some s' \<and> vm_inv s' fl' D ext \<and> mem_only s s' \<and>
    (\<forall>d' \<in> D. \<forall>v < UVPN. vmap s' d' v = (if d' = d \<and> v = vpn va then None else vmap s d' v)) \<and>
    (\<forall>k \<in> keys D. struct_at s' k = struct_at s k) \<and>
    fl' = (case maps s d (vpn va) of None \<Rightarrow> fl
           | Some q \<Rightarrow> if pp_ref (pages s q) = 1 then q # fl else fl) \<and>
    (\<forall>q. pp_ref (pages s' q) =
        (if maps s d (vpn va) = Some q then pp_ref (pages s q) - 1 else pp_ref (pages s q))) \<and>
    same_data s s' (structs s D) \<and> dirs_grow s s' D"
proof (cases "vmap s d (vpn va)")
  case None
  then show ?thesis
    using page_remove_unmapped [OF inv d va] inv by (auto simp: maps_def)
next
  case (Some e)
  let ?q = "frame_of e" and ?v = "vpn va"
  from Some obtain f where f: "table_at s d (unat (PDX va)) = Some f"
    by (auto simp: vmap_table_at vpn_split split: option.splits)
  let ?a = "f * 4096 + 4 * unat (PTX va)"
  have mq: "maps s d ?v = Some ?q" using Some by (simp add: maps_def)
  have v: "?v < UVPN" by (rule vpn_user [OF va])
  have q: "?q < npages s" "?q \<notin> structs s D" using vm_invD(5) [OF inv d v mq] by auto
  have "(d, ?v) \<in> data_refs (maps s) D ?q" using d v mq by (simp add: data_refs_def)
  then have pos: "0 < card (data_refs (maps s) D ?q)"
    using finite_data_refs [OF vm_invD(2) [OF inv]] card_gt_0_iff by blast
  then have ref: "pp_ref (pages s ?q) \<noteq> 0" using vm_invD(6) [OF inv q] by auto
  then have nfl: "?q \<notin> set fl" using pages_wf_free [OF vm_invD(1) [OF inv]] by blast
  obtain s1 where s1: "page_decref ?q s = Some s1"
    "pages_wf s1 (if pp_ref (pages s ?q) = 1 then ?q # fl else fl)"
    "pp_ref (pages s1 ?q) = pp_ref (pages s ?q) - 1"
    "\<forall>p. p \<noteq> ?q \<longrightarrow> pp_ref (pages s1 p) = pp_ref (pages s p)" "mem_only s s1" "pmem s1 = pmem s"
    using page_decref_wf [OF vm_invD(1) [OF inv] q(1) nfl] by blast
  define s' where "s' = tlb_invalidate d va (store32 ?a 0 s1)"
  let ?fl' = "if pp_ref (pages s ?q) = 1 then ?q # fl else fl"
  have run: "page_remove d va s = Some s'"
    using page_lookup_eq [OF inv d va] Some f s1(1) by (simp add: page_remove_def s'_def)
  have mo: "mem_only s s'"
    unfolding s'_def
    by (rule mem_only_trans [OF mem_only_trans [OF s1(5) mem_only_store] tlb_invalidate_sel(5)])
  have pm: "pmem s' = pmem (store32 ?a 0 s)"
    by (simp add: s'_def store32_def s1(6))
  note view = view_pmem [OF pm]
  have S: "struct_at s' k = struct_at s k" if "k \<in> keys D" for k
    using store_pte_view(1) [OF inv d va f that, of 0] view(3) by simp
  have V: "vmap s' d' v' = (if d' = d \<and> v' = ?v then None else vmap s d' v')"
    if "d' \<in> D" "v' < UVPN" for d' v'
    using store_pte_view(2) [OF inv d va f that, of 0] view(1) by (simp add: present_def)
  then have M: "maps s' d' v' = (if d' = d \<and> v' = ?v then None else maps s d' v')"
    if "d' \<in> D" "v' < UVPN" for d' v' using that by (simp add: maps_def)
  have st: "structs s' D = structs s D" using S by (auto simp: structs_def)
  have pg: "pages s' = pages s1" "npages s' = npages s" "page_free_list s' = page_free_list s1"
    using mem_only_sel(1) [OF mo] by (simp_all add: s'_def store32_def)
  have DR: "data_refs (maps s') D p = data_refs (maps s) D p - {(d, ?v)}" for p
    using data_refs_upd [OF M d v, of p] by simp
  have dr: "card (data_refs (maps s') D p) = card (data_refs (maps s) D p) - (if p = ?q then 1 else 0)" for p
  proof -
    have "(d, ?v) \<in> data_refs (maps s) D p \<longleftrightarrow> p = ?q"
      using mq d v by (auto simp: data_refs_def)
    then show ?thesis unfolding DR by (cases "p = ?q") (auto simp: card_Diff_singleton)
  qed
  have "vm_inv s' ?fl' D ext"
  proof (rule vm_invI)
    show "pages_wf s' ?fl'"
      using s1(2) pages_wf_cong [of s' s1] pg mem_only_sel(1) [OF s1(5)] by simp
    show "finite D" by (rule vm_invD(2) [OF inv])
    show "g < npages s' \<and> pp_ref (pages s' g) = 1" if k: "k \<in> keys D" "struct_at s' k = Some g" for k g
    proof -
      from S k have g: "struct_at s k = Some g" by simp
      then have "g \<noteq> ?q" using q(2) structsI [OF k(1)] by metis
      then show ?thesis using vm_invD(3) [OF inv k(1) g] pg s1(4) by simp
    qed
    show "k = k'" if "k \<in> keys D" "k' \<in> keys D" "struct_at s' k = Some g" "struct_at s' k' = Some g"
      for k k' g using vm_invD(4) [OF inv that(1,2)] S that by simp
    show "p < npages s' \<and> p \<notin> structs s' D" if "d' \<in> D" "v' < UVPN" "maps s' d' v' = Some p" for d' v' p
      using vm_invD(5) [OF inv that(1,2)] M [OF that(1,2)] that(3) st pg by (auto split: if_splits)
    show "card (data_refs (maps s') D p) + ext p = unat (pp_ref (pages s' p))"
      if p: "p < npages s'" "p \<notin> structs s' D" for p
    proof (cases "p = ?q")
      case True
      then show ?thesis
        using vm_invD(6) [OF inv q] pos ref s1(3) pg dr [of p]
        by (simp add: unat_minus_one)
    next
      case False
      then show ?thesis using vm_invD(6) [OF inv, of p] p pg st s1(4) dr [of p] by simp
    qed
    show "ext g = 0" if "g \<in> structs s' D" for g
      using that vm_invD(7) [OF inv, of g] unfolding st by blast
  qed
  moreover have "same_data s s' (structs s D)"
    using same_data_store [OF table_structs [OF d pdx_user [OF va] f] PTX_less]
    by (rule same_data_pmem [OF pm])
  moreover have "dirs_grow s s' D"
    using dirs_grow_trans [OF dirs_grow_store [OF inv d pdx_user [OF va] f PTX_less] dirs_grow_pmem [OF pm]] .
  ultimately show ?thesis
    using run mo V S s1(3,4) pg mq by (intro exI [of _ s'] exI [of _ ?fl']) auto
qed

section \<open>Inserting a mapping\<close>

lemma vm_inv_incref:
  assumes inv: "vm_inv s fl D ext" and p: "p < npages s" "p \<notin> structs s D" "p \<notin> set fl"
    and ref: "unat (pp_ref (pages s p)) + 1 < 65536"
  shows "vm_inv (page_incref p s) fl D (ext(p := ext p + 1))"
proof -
  let ?s' = "page_incref p s"
  have pm: "pmem ?s' = pmem s" and np: "npages ?s' = npages s"
    by (simp_all add: page_incref_def upd_page_def)
  note view = view_pmem [OF pm]
  have r: "pp_ref (pages ?s' q) = (if q = p then pp_ref (pages s p) + 1 else pp_ref (pages s q))" for q
    by (simp add: page_incref_def upd_page_def)
  have u: "unat (pp_ref (pages s p) + 1) = unat (pp_ref (pages s p)) + 1"
    using ref unat_add_no_wrap [of "pp_ref (pages s p)" 1] by simp
  show ?thesis
  proof (rule vm_invI)
    show "pages_wf ?s' fl"
      unfolding page_incref_def by (rule pages_wf_upd_ref [OF vm_invD(1) [OF inv] p(3)])
    show "finite D" by (rule vm_invD(2) [OF inv])
    show "g < npages ?s' \<and> pp_ref (pages ?s' g) = 1" if "k \<in> keys D" "struct_at ?s' k = Some g" for k g
      using vm_invD(3) [OF inv that(1)] that(2) structsI [OF that(1)] p(2) r np view(3) by auto
    show "k = k'" if "k \<in> keys D" "k' \<in> keys D" "struct_at ?s' k = Some g" "struct_at ?s' k' = Some g"
      for k k' g using vm_invD(4) [OF inv that(1,2)] that(3,4) view(3) by simp
    show "q < npages ?s' \<and> q \<notin> structs ?s' D" if "d \<in> D" "v < UVPN" "maps ?s' d v = Some q" for d v q
      using vm_invD(5) [OF inv that(1,2)] that(3) view(4,5) np by simp
    show "card (data_refs (maps ?s') D q) + (ext(p := ext p + 1)) q = unat (pp_ref (pages ?s' q))"
      if "q < npages ?s'" "q \<notin> structs ?s' D" for q
      using vm_invD(6) [OF inv, of q] that view(4,5) np r u by auto
    show "(ext(p := ext p + 1)) g = 0" if "g \<in> structs ?s' D" for g
      using that vm_invD(7) [OF inv, of g] p(2) view(5) by auto
  qed
qed

text \<open>Writing the entry of an unmapped page turns an external reference into a mapping.\<close>

lemma vm_inv_store_pte:
  assumes inv: "vm_inv s fl D (ext(p := ext p + 1))" and d: "d \<in> D" and va: "va < UTOP"
    and f: "table_at s d (unat (PDX va)) = Some f" and none: "vmap s d (vpn va) = None"
    and e: "present e" "frame_of e = p" and p: "p < npages s" "p \<notin> structs s D"
  defines "s' \<equiv> store32 (f * 4096 + 4 * unat (PTX va)) e s"
  shows "vm_inv s' fl D ext"
proof -
  let ?v = "vpn va"
  have v: "?v < UVPN" by (rule vpn_user [OF va])
  have S: "struct_at s' k = struct_at s k" if "k \<in> keys D" for k
    unfolding s'_def by (rule store_pte_view(1) [OF inv d va f that])
  then have st: "structs s' D = structs s D" by (auto simp: structs_def)
  have M: "maps s' d' v' = (if d' = d \<and> v' = ?v then Some p else maps s d' v')"
    if "d' \<in> D" "v' < UVPN" for d' v'
    unfolding s'_def maps_def using store_pte_view(2) [OF inv d va f that] e by simp
  have pg: "pages s' = pages s" "npages s' = npages s" "page_free_list s' = page_free_list s"
    by (simp_all add: s'_def store32_def)
  have DR: "data_refs (maps s') D q = (if p = q then insert (d, ?v) (data_refs (maps s) D q)
     else data_refs (maps s) D q - {(d, ?v)})" for q
    using data_refs_upd [OF M d v, of q] by simp
  have n: "(d, ?v) \<notin> data_refs (maps s) D q" for q
    using none by (simp add: data_refs_def maps_def)
  have dr: "card (data_refs (maps s') D q) = card (data_refs (maps s) D q) + (if q = p then 1 else 0)" for q
    using n finite_data_refs [OF vm_invD(2) [OF inv]] unfolding DR by simp
  show ?thesis
  proof (rule vm_invI)
    show "pages_wf s' fl" using vm_invD(1) [OF inv] pages_wf_cong [of s' s] pg by simp
    show "finite D" by (rule vm_invD(2) [OF inv])
    show "g < npages s' \<and> pp_ref (pages s' g) = 1" if "k \<in> keys D" "struct_at s' k = Some g" for k g
      using vm_invD(3) [OF inv that(1)] S that pg by simp
    show "k = k'" if "k \<in> keys D" "k' \<in> keys D" "struct_at s' k = Some g" "struct_at s' k' = Some g"
      for k k' g using vm_invD(4) [OF inv that(1,2)] S that by simp
    show "q < npages s' \<and> q \<notin> structs s' D" if "d' \<in> D" "v' < UVPN" "maps s' d' v' = Some q" for d' v' q
      using vm_invD(5) [OF inv that(1,2)] M [OF that(1,2)] that(3) p unfolding st pg
      by (auto split: if_splits)
    show "card (data_refs (maps s') D q) + ext q = unat (pp_ref (pages s' q))"
      if "q < npages s'" "q \<notin> structs s' D" for q
      using vm_invD(6) [OF inv, of q] that unfolding dr st pg by (auto split: if_splits)
    show "ext g = 0" if "g \<in> structs s' D" for g
      using that vm_invD(7) [OF inv, of g] p(2) unfolding st by (auto split: if_splits)
  qed
qed

text \<open>The walk that creates a missing table, as the client of the invariant sees it.\<close>

lemma pgdir_walk_inv:
  assumes inv: "vm_inv s fl D ext" and d: "d \<in> D" and va: "va < UTOP"
  shows "(fl = [] \<and> table_at s d (unat (PDX va)) = None \<and> pgdir_walk d va True s = Some (None, s)) \<or>
    (\<exists>s' fl' f. pgdir_walk d va True s = Some (Some (f * 4096 + 4 * unat (PTX va)), s') \<and>
       vm_inv s' fl' D ext \<and> mem_only s s' \<and> table_at s' d (unat (PDX va)) = Some f \<and>
       (\<forall>d' \<in> D. \<forall>v < UVPN. vmap s' d' v = vmap s d' v) \<and> set fl' \<subseteq> set fl \<and>
       structs s D \<subseteq> structs s' D \<and> structs s' D \<subseteq> structs s D \<union> set fl \<and>
       (\<forall>q. q \<notin> set fl \<longrightarrow> pp_ref (pages s' q) = pp_ref (pages s q)) \<and>
       same_data s s' (structs s' D) \<and> dirs_grow s s' D \<and>
       length fl \<le> length fl' + (if table_at s d (unat (PDX va)) = None then 1 else 0))"
proof (cases "table_at s d (unat (PDX va))")
  case (Some f)
  have "f < npages s"
    using vm_invD(3) [OF inv, of "Inr (d, unat (PDX va))" f] Some d pdx_user [OF va] by simp
  from walk_present [OF Some this, of True] Some inv show ?thesis
    by (intro disjI2 exI [of _ s] exI [of _ fl] exI [of _ f]) auto
next
  case None
  show ?thesis
  proof (cases fl)
    case Nil
    with walk_nomem [OF None] vm_invD(1) [OF inv] None show ?thesis by simp
  next
    case (Cons p fl')
    note inv' = inv [unfolded Cons]
    let ?s' = "new_table p d va s" and ?k = "Inr (d, unat (PDX va))"
    have nst: "p \<notin> structs s D" using structs_free(1) [OF inv] Cons by auto
    have p20: "p < 2 ^ 20" using vm_invD(1) [OF inv'] by (auto simp: pages_wf_def)
    have S: "struct_at ?s' k = (if k = ?k then Some p else struct_at s k)" if "k \<in> keys D" for k
      by (rule struct_at_new_table [OF nst p20 that d va])
    have k: "?k \<in> keys D" using d pdx_user [OF va] by simp
    have up: "structs ?s' D \<subseteq> structs s D \<union> set fl"
    proof
      fix f assume "f \<in> structs ?s' D"
      then obtain k where "k \<in> keys D" "struct_at ?s' k = Some f" by (rule structsE)
      with S structsI [of k] Cons show "f \<in> structs s D \<union> set fl" by (auto split: if_splits)
    qed
    have low: "structs s D \<subseteq> structs ?s' D"
    proof
      fix f assume "f \<in> structs s D"
      then obtain k' where "k' \<in> keys D" "struct_at s k' = Some f" by (rule structsE)
      with S None show "f \<in> structs ?s' D" by (intro structsI [of k']) auto
    qed
    have t: "table_at ?s' d (unat (PDX va)) = Some p" using S [OF k] by simp
    have "same_data s ?s' (structs ?s' D)"
      by (rule same_data_new_table [OF table_structs [OF d pdx_user [OF va] t] dir_structs [OF d]])
    with t walk_new [OF None, of p fl'] vm_inv_new_table [OF inv' d va None]
      vmap_new_table [OF inv' d va None] vm_invD(1) [OF inv'] up low Cons
      dirs_grow_new_table [OF d None nst] None show ?thesis
      by (intro disjI2 exI [of _ ?s'] exI [of _ fl'] exI [of _ p]) auto
  qed
qed

lemma page_insert_inv:
  assumes inv: "vm_inv s fl D ext" and d: "d \<in> D" and va: "va < UTOP"
    and perm: "unat perm < 4096" and pp: "pp < npages s" "pp \<notin> structs s D" "pp \<notin> set fl"
    and ref: "unat (pp_ref (pages s pp)) + 1 < 65536"
  shows "(page_insert d pp va perm s = Some (Inl E_NO_MEM, s) \<and> fl = [] \<and>
       table_at s d (unat (PDX va)) = None) \<or>
    (\<exists>s' fl'. page_insert d pp va perm s = Some (Inr (), s') \<and> vm_inv s' fl' D ext \<and>
       mem_only s s' \<and> structs s D \<subseteq> structs s' D \<and> structs s' D \<subseteq> structs s D \<union> set fl \<and>
       same_data s s' (structs s' D) \<and> dirs_grow s s' D \<and>
       length fl \<le> length fl' + (if table_at s d (unat (PDX va)) = None then 1 else 0) \<and>
       table_at s' d (unat (PDX va)) \<noteq> None \<and>
       (\<forall>d' \<in> D. \<forall>v < UVPN. vmap s' d' v =
          (if d' = d \<and> v = vpn va then Some ((page2pa pp OR perm) OR PTE_P) else vmap s d' v)))"
  using pgdir_walk_inv [OF inv d va]
proof (elim disjE exE conjE)
  assume "fl = []" "table_at s d (unat (PDX va)) = None" "pgdir_walk d va True s = Some (None, s)"
  then show ?thesis by (simp add: page_insert_def)
next
  fix s1 fl1 f
  let ?a = "f * 4096 + 4 * unat (PTX va)" and ?e = "(page2pa pp OR perm) OR PTE_P" and ?v = "vpn va"
  assume walk: "pgdir_walk d va True s = Some (Some ?a, s1)" and inv1: "vm_inv s1 fl1 D ext"
    and mo1: "mem_only s s1" and f: "table_at s1 d (unat (PDX va)) = Some f"
    and V1: "\<forall>d' \<in> D. \<forall>v < UVPN. vmap s1 d' v = vmap s d' v" and fl1: "set fl1 \<subseteq> set fl"
    and st1: "structs s D \<subseteq> structs s1 D" "structs s1 D \<subseteq> structs s D \<union> set fl"
    and ref1: "\<forall>q. q \<notin> set fl \<longrightarrow> pp_ref (pages s1 q) = pp_ref (pages s q)"
    and sd1: "same_data s s1 (structs s1 D)" and g1: "dirs_grow s s1 D"
    and len1: "length fl \<le> length fl1 + (if table_at s d (unat (PDX va)) = None then 1 else 0)"
  let ?s2 = "page_incref pp s1"
  have inv2: "vm_inv ?s2 fl1 D (ext(pp := ext pp + 1))"
    using pp st1 fl1 ref ref1 mem_only_sel(1) [OF mo1] by (intro vm_inv_incref [OF inv1]) auto
  have pm2: "pmem ?s2 = pmem s1" by (simp add: page_incref_def upd_page_def)
  note view2 = view_pmem [OF pm2]
  obtain s3 fl3 where rem: "page_remove d va ?s2 = Some s3" and inv3: "vm_inv s3 fl3 D (ext(pp := ext pp + 1))"
    and mo3: "mem_only ?s2 s3"
    and V3: "\<forall>d' \<in> D. \<forall>v < UVPN. vmap s3 d' v = (if d' = d \<and> v = ?v then None else vmap ?s2 d' v)"
    and S3: "\<forall>k \<in> keys D. struct_at s3 k = struct_at ?s2 k"
    and sd3: "same_data ?s2 s3 (structs ?s2 D)" and g3: "dirs_grow ?s2 s3 D"
    and fl3: "fl3 = (case maps ?s2 d ?v of None \<Rightarrow> fl1
           | Some q \<Rightarrow> if pp_ref (pages ?s2 q) = 1 then q # fl1 else fl1)"
    using page_remove_inv [OF inv2 d va] by blast
  have len3: "length fl1 \<le> length fl3" unfolding fl3 by (simp split: option.split)
 
  have v: "?v < UVPN" by (rule vpn_user [OF va])
  have mo: "mem_only s s3"
    by (rule mem_only_trans [OF mo1 mem_only_trans [OF _ mo3]]) (simp add: page_incref_def)
  then have np: "npages s3 = npages s" by (rule mem_only_sel)
  have k: "Inr (d, unat (PDX va)) \<in> keys D" using d pdx_user [OF va] by simp
  have f3: "table_at s3 d (unat (PDX va)) = Some f"
    using bspec [OF S3 k] f view2(2) by simp
  have st3: "structs s3 D = structs s1 D"
    using S3 view2(3) by (auto simp: structs_def)
  have pp20: "pp < 2 ^ 20" using pp(1) pages_wf_npages [OF vm_invD(1) [OF inv]] by simp
  have e: "present ?e" "frame_of ?e = pp" using frame_of_entry [OF pp20 perm] by simp_all
  let ?s4 = "store32 ?a ?e s3"
  have none: "vmap s3 d ?v = None" using V3 d v by simp
  have inv4: "vm_inv ?s4 fl3 D ext"
    using pp st1 np st3 by (intro vm_inv_store_pte [OF inv3 d va f3 none e]) auto
  have V4: "vmap ?s4 d' v' = (if d' = d \<and> v' = ?v then Some ?e else vmap s d' v')"
    if "d' \<in> D" "v' < UVPN" for d' v'
    using store_pte_view(2) [OF inv3 d va f3 that, of ?e] e(1) V3 V1 that view2(1) by simp
  have st4: "structs ?s4 D = structs s1 D"
    using store_pte_view(1) [OF inv3 d va f3, of _ ?e] st3 by (auto simp: structs_def)
  have sd4: "same_data s ?s4 (structs ?s4 D)"
  proof -
    have "same_data s ?s2 (structs s1 D)" using sd1 by (simp add: same_data_def pm2)
    then have "same_data s s3 (structs s1 D)" using sd3 view2(5) by (auto intro: same_data_trans)
    moreover have "same_data s3 ?s4 (structs s1 D)"
      using same_data_store [OF table_structs [OF d pdx_user [OF va] f] PTX_less] by blast
    ultimately show ?thesis unfolding st4 by (auto intro: same_data_trans)
  qed
  have g4: "dirs_grow s ?s4 D"
    using dirs_grow_trans [OF g1 dirs_grow_trans [OF dirs_grow_pmem [OF pm2] dirs_grow_trans [OF g3
      dirs_grow_store [OF inv3 d pdx_user [OF va] f3 PTX_less]]]] .
  have t4: "table_at ?s4 d (unat (PDX va)) \<noteq> None"
    using store_pte_view(1) [OF inv3 d va f3 k, of ?e] f3 by simp
  have len4: "length fl \<le> length fl3 + (if table_at s d (unat (PDX va)) = None then 1 else 0)"
    using len1 len3 by linarith
  have run: "page_insert d pp va perm s = Some (Inr (), ?s4)"
  proof (cases "load32 ?s2 ?a AND PTE_P = 0")
    case False
    then show ?thesis using walk rem by (simp add: page_insert_def)
  next
    case True
    then have "vmap ?s2 d ?v = None"
      using f view2(2) by (simp add: vmap_table_at vpn_split slot_def present_def)
    then have "s3 = ?s2" using page_remove_unmapped [OF inv2 d va] rem by simp
    with True show ?thesis using walk by (simp add: page_insert_def)
  qed
  show ?thesis
  proof (intro disjI2 exI conjI ballI allI impI)
    show "structs s D \<subseteq> structs ?s4 D" "structs ?s4 D \<subseteq> structs s D \<union> set fl"
      using st1 unfolding st4 .
  qed (fact run inv4 mem_only_trans [OF mo mem_only_store] sd4 g4 t4 len4 | erule (1) V4)+
qed

section \<open>Properties of the page tables\<close>

text \<open>
  A small machine for the witnesses: four pages, a directory in page 1, page 2 free, page 3
  allocated with \<open>r\<close> references held by the kernel.
\<close>

definition ex_vm :: "u16 \<Rightarrow> kern" where
  "ex_vm r = kern0\<lparr>npages := 4, page_free_list := Some 2,
     pages := (\<lambda>p. \<lparr>pp_link = None, pp_ref = (if p < 2 then 1 else if p = 3 then r else 0)\<rparr>)\<rparr>"

definition ex_ext :: "u16 \<Rightarrow> nat \<Rightarrow> nat" where
  "ex_ext r = (\<lambda>p. if p = 0 then 1 else if p = 3 then unat r else 0)"

lemma slot_ex_vm [simp]: "slot (ex_vm r) f i = 0"
  by (simp add: slot_def load32_def rd32_def ex_vm_def kern0_def)

lemma vmap_ex_vm [simp]: "vmap (ex_vm r) d v = None"
  by (simp add: vmap_def present_def)

lemma table_ex_vm [simp]: "table_at (ex_vm r) d i = None"
  by (simp add: table_at_def present_def)

lemma struct_ex_vm: "struct_at (ex_vm r) k = Some f \<Longrightarrow> k \<in> keys {d} \<Longrightarrow> k = Inl d \<and> f = d"
  by (cases k) (auto simp: keys_def)

lemma structs_ex_vm: "structs (ex_vm r) {d} = {d}"
proof (rule set_eqI)
  fix f
  show "f \<in> structs (ex_vm r) {d} \<longleftrightarrow> f \<in> {d}"
    using struct_ex_vm dir_structs [of d "{d}"] by (auto elim!: structsE)
qed

lemma vm_inv_ex_vm: "vm_inv (ex_vm r) [2] {1} (ex_ext r)"
proof (rule vm_invI)
  show "f < npages (ex_vm r) \<and> pp_ref (pages (ex_vm r) f) = 1"
    if "k \<in> keys {1}" "struct_at (ex_vm r) k = Some f" for k f
    using struct_ex_vm [OF that(2,1)] by (simp add: ex_vm_def)
  show "k = k'" if "k \<in> keys {1}" "k' \<in> keys {1}" "struct_at (ex_vm r) k = Some f"
    "struct_at (ex_vm r) k' = Some f" for k k' f
    using struct_ex_vm [OF that(3,1)] struct_ex_vm [OF that(4,2)] by simp
  show "card (data_refs (maps (ex_vm r)) {1} p) + ex_ext r p = unat (pp_ref (pages (ex_vm r) p))"
    if "p < npages (ex_vm r)" "p \<notin> structs (ex_vm r) {1}" for p
  proof -
    have "data_refs (maps (ex_vm r)) {1} p = {}" by (simp add: data_refs_def maps_def)
    then show ?thesis using that unfolding structs_ex_vm
    by (auto simp: ex_vm_def [of r] ex_ext_def)
  qed
  show "pages_wf (ex_vm r) [2]" by (auto simp: pages_wf_def page_link_def ex_vm_def kern0_def)
  show "ex_ext r f = 0" if "f \<in> structs (ex_vm r) {1}" for f
    using that unfolding structs_ex_vm by (simp add: ex_ext_def)
qed (auto simp: maps_def)

text \<open>Under the invariant no mapping points to a free page or a page-table page.\<close>

lemma mapped_page_ok:
  assumes "vm_inv s fl D ext" "d \<in> D" "v < UVPN" "maps s d v = Some p"
  shows "p < npages s \<and> p \<notin> set fl \<and> p \<notin> structs s D \<and> pp_ref (pages s p) \<noteq> 0"
proof -
  note p = vm_invD(5) [OF assms]
  have "(d, v) \<in> data_refs (maps s) D p" using assms by (simp add: data_refs_def)
  then have "0 < card (data_refs (maps s) D p)"
    using finite_data_refs [OF vm_invD(2) [OF assms(1)]] card_gt_0_iff by blast
  then have "unat (pp_ref (pages s p)) \<noteq> 0"
    using vm_invD(6) [OF assms(1) conjunct1 [OF p] conjunct2 [OF p]] by linarith
  then have "pp_ref (pages s p) \<noteq> 0" by auto
  moreover from this have "p \<notin> set fl" using pages_wf_free [OF vm_invD(1) [OF assms(1)]] by blast
  ultimately show ?thesis using p by simp
qed

text \<open>
  C1: \<open>page_insert\<close> either fails with E_NO_MEM, when a page table is missing and no page is
  free, and then changes nothing; or it makes the entry of \<open>va\<close> in that one address space
  point to the page with the given permissions, leaves every other user mapping of every
  address space as it was, and keeps the reference counts exact, also when the page was
  mapped there before.
\<close>

theorem page_insert_spec:
  assumes "vm_inv s fl D ext" and "d \<in> D" and "va < UTOP"
    and "unat perm < 4096" and "pp < npages s" "pp \<notin> structs s D" "pp \<notin> set fl"
    and "unat (pp_ref (pages s pp)) + 1 < 65536"
  shows "(page_insert d pp va perm s = Some (Inl E_NO_MEM, s) \<and> fl = [] \<and>
       table_at s d (unat (PDX va)) = None) \<or>
    (\<exists>s' fl'. page_insert d pp va perm s = Some (Inr (), s') \<and> vm_inv s' fl' D ext \<and>
       mem_only s s' \<and>
       (\<forall>d' \<in> D. \<forall>v < UVPN. vmap s' d' v =
          (if d' = d \<and> v = vpn va then Some ((page2pa pp OR perm) OR PTE_P) else vmap s d' v)))"
  using page_insert_inv [OF assms] by blast

lemma ex_vm_page3:
  "3 < npages (ex_vm r)" "3 \<notin> structs (ex_vm r) {1}" "pp_ref (pages (ex_vm r) 3) = r"
  unfolding structs_ex_vm by (simp_all add: ex_vm_def)

theorem page_insert_spec_witness:
  "\<exists>s' fl'. page_insert 1 3 0x00800000 7 (ex_vm 0) = Some (Inr (), s') \<and>
     vm_inv s' fl' {1} (ex_ext 0) \<and> maps s' 1 2048 = Some 3"
proof -
  have f: "frame_of ((page2pa 3 OR 7) OR PTE_P) = 3" using frame_of_entry(1) [of 3 7] by simp
  show ?thesis
    using page_insert_spec [OF vm_inv_ex_vm [of 0], of 1 "0x00800000" 7 3] ex_vm_page3 [of 0] f
    by (auto simp: maps_def vpn_def)
qed

text \<open>
  C4: \<open>page_remove\<close> never panics; it removes the mapping of \<open>va\<close> in that address space and no
  other, drops one reference, and puts the page on the free list exactly when that was its
  last reference.
\<close>

theorem page_remove_spec:
  assumes "vm_inv s fl D ext" and "d \<in> D" and "va < UTOP"
  shows "\<exists>s' fl'. page_remove d va s = Some s' \<and> vm_inv s' fl' D ext \<and> mem_only s s' \<and>
    (\<forall>d' \<in> D. \<forall>v < UVPN. vmap s' d' v = (if d' = d \<and> v = vpn va then None else vmap s d' v)) \<and>
    fl' = (case maps s d (vpn va) of None \<Rightarrow> fl
           | Some q \<Rightarrow> if pp_ref (pages s q) = 1 then q # fl else fl)"
  using page_remove_inv [OF assms] by blast

theorem page_remove_spec_witness:
  "\<exists>s'. page_remove 1 0x00800000 (ex_vm 0) = Some s' \<and> vm_inv s' [2] {1} (ex_ext 0)"
  using page_remove_spec [OF vm_inv_ex_vm [of 0], of 1 "0x00800000"] by (auto simp: maps_def)

text \<open>
  The reference count has 16 bits and is not checked: mapping a page that already has
  65535 references makes its count 0 while it is mapped, so the bound of the previous
  theorems is needed.
\<close>

theorem page_insert_ref_overflow:
  assumes inv: "vm_inv s fl D ext" and d: "d \<in> D" and va: "va < UTOP"
    and perm: "unat perm < 4096" and pp: "pp < npages s" "pp \<notin> structs s D"
    and ref: "pp_ref (pages s pp) = 0xFFFF" and none: "vmap s d (vpn va) = None"
    and mem: "fl \<noteq> []"
  shows "\<exists>s'. page_insert d pp va perm s = Some (Inr (), s') \<and>
     pp_ref (pages s' pp) = 0 \<and> maps s' d (vpn va) = Some pp"
proof -
  have nfl: "pp \<notin> set fl" using pages_wf_free [OF vm_invD(1) [OF inv], of pp] ref by auto
  obtain s1 fl1 f where walk: "pgdir_walk d va True s = Some (Some (f * 4096 + 4 * unat (PTX va)), s1)"
    and inv1: "vm_inv s1 fl1 D ext" and f: "table_at s1 d (unat (PDX va)) = Some f"
    and V1: "\<forall>d' \<in> D. \<forall>v < UVPN. vmap s1 d' v = vmap s d' v"
    and r1: "\<forall>q. q \<notin> set fl \<longrightarrow> pp_ref (pages s1 q) = pp_ref (pages s q)"
    using pgdir_walk_inv [OF inv d va] mem by blast
  let ?a = "f * 4096 + 4 * unat (PTX va)" and ?e = "(page2pa pp OR perm) OR PTE_P"
  let ?s' = "store32 ?a ?e (page_incref pp s1)"
  have pp20: "pp < 2 ^ 20" using pp(1) pages_wf_npages [OF vm_invD(1) [OF inv]] by simp
  have v: "vpn va < UVPN" by (rule vpn_user [OF va])
  have n: "vmap s1 d (vpn va) = None" using V1 none d v by simp
  then have z: "load32 (page_incref pp s1) ?a AND PTE_P = 0"
    using f by (simp add: vmap_table_at vpn_split slot_def present_def load32_def page_incref_def
        upd_page_def split: if_splits)
  have "pmem ?s' = pmem (store32 ?a ?e s1)" by (simp add: store32_def page_incref_def upd_page_def)
  from view_pmem(4) [OF this] have "maps ?s' d (vpn va) = Some pp"
    using store_pte_view(2) [OF inv1 d va f d v, of ?e] frame_of_entry [OF pp20 perm]
    by (simp add: maps_def)
  moreover have "pp_ref (pages ?s' pp) = 0"
    using r1 nfl ref by (simp add: store32_def page_incref_def upd_page_def)
  moreover have "page_insert d pp va perm s = Some (Inr (), ?s')"
    using walk z by (simp add: page_insert_def)
  ultimately show ?thesis by blast
qed

theorem page_insert_ref_overflow_witness:
  "\<exists>s'. page_insert 1 3 0x00800000 7 (ex_vm 0xFFFF) = Some (Inr (), s') \<and>
     pp_ref (pages s' 3) = 0 \<and> maps s' 1 2048 = Some 3"
  using page_insert_ref_overflow [OF vm_inv_ex_vm [of "0xFFFF"], of 1 "0x00800000" 7 3]
    ex_vm_page3 [of "0xFFFF"] by (auto simp: vpn_def)

end
