(* ===== verification/Env.thy ===== *)
theory Env
  imports VmInv
begin

text \<open>
  Environments (\<open>kern/env.c\<close>): looking an environment up by id, allocating and freeing
  environments and their address spaces, loading a program image and running an
  environment.  The MMU as the kernel uses it, when it copies into the address space that
  \<open>cr3\<close> selects, is at the start.
\<close>

section \<open>Memory through the current page directory\<close>

definition mmu_translate :: "kern \<Rightarrow> nat \<Rightarrow> u32 \<Rightarrow> nat option" where
  "mmu_translate s d va =
     (let pde = load32 s (d * 4096 + 4 * unat (PDX va)) in
      if pde AND PTE_P = 0 then None
      else (let pte = load32 s (unat (PTE_ADDR pde) + 4 * unat (PTX va)) in
            if pte AND PTE_P = 0 then None
            else Some (unat (PTE_ADDR pte) + unat (PGOFF va))))"

definition mmu_writable :: "kern \<Rightarrow> nat \<Rightarrow> u32 \<Rightarrow> bool" where
  "mmu_writable s d va \<longleftrightarrow>
     (let pde = load32 s (d * 4096 + 4 * unat (PDX va)) in
      pde AND PTE_W \<noteq> 0 \<and> load32 s (unat (PTE_ADDR pde) + 4 * unat (PTX va)) AND PTE_W \<noteq> 0)"

text \<open>
  A kernel access to an unmapped (or, with CR0_WP set, read-only) address is a kernel-mode
  page fault, on which \<open>page_fault_handler\<close> panics.
\<close>

definition load8 :: "u32 \<Rightarrow> kern \<Rightarrow> u8 option" where
  "load8 va s = map_option (pmem s) (mmu_translate s (cr3 s) va)"

definition store8 :: "u32 \<Rightarrow> u8 \<Rightarrow> kern \<Rightarrow> kern option" where
  "store8 va b s =
     (case mmu_translate s (cr3 s) va of
        None \<Rightarrow> None
      | Some pa \<Rightarrow> if mmu_writable s (cr3 s) va then Some (s\<lparr>pmem := (pmem s)(pa := b)\<rparr>) else None)"

fun load_bytes :: "u32 \<Rightarrow> nat \<Rightarrow> kern \<Rightarrow> u8 list option" where
  "load_bytes va 0 s = Some []"
| "load_bytes va (Suc n) s = do {
     b \<leftarrow> load8 va s;
     bs \<leftarrow> load_bytes (va + 1) n s;
     Some (b # bs) }"

fun store_bytes :: "u32 \<Rightarrow> u8 list \<Rightarrow> kern \<Rightarrow> kern option" where
  "store_bytes va [] s = Some s"
| "store_bytes va (b # bs) s = do { s \<leftarrow> store8 va b s; store_bytes (va + 1) bs s }"

definition word_bytes :: "u32 \<Rightarrow> u8 list" where
  "word_bytes v = [ucast v, ucast (drop_bit 8 v), ucast (drop_bit 16 v), ucast (drop_bit 24 v)]"

section \<open>envid2env\<close>

definition ENVX :: "u32 \<Rightarrow> nat" where
  "ENVX envid = unat (envid AND 0x3FF)"

text \<open>
  The result 0 with a NULL \<open>*env_store\<close> (id 0 asked for while no environment runs) is
  \<open>None\<close>: every caller dereferences the pointer.
\<close>

definition envid2env :: "u32 \<Rightarrow> bool \<Rightarrow> kern \<Rightarrow> (error + nat) option" where
  "envid2env envid checkperm s =
     (if envid = 0 then map_option Inr (curenv s)
      else let e = ENVX envid in
        if env_status (envs s e) = ENV_FREE \<or> env_id (envs s e) \<noteq> envid
        then Some (Inl E_BAD_ENV)
        else if checkperm \<and> curenv s \<noteq> Some e
        then (case curenv s of
                None \<Rightarrow> None
              | Some c \<Rightarrow> if env_parent_id (envs s e) \<noteq> env_id (envs s c)
                          then Some (Inl E_BAD_ENV) else Some (Inr e))
        else Some (Inr e))"

section \<open>env_init\<close>

fun env_init_loop :: "nat list \<Rightarrow> bool \<Rightarrow> nat \<Rightarrow> kern \<Rightarrow> kern" where
  "env_init_loop [] first tail s = s"
| "env_init_loop (p # ps) first tail s =
     (let s = upd_env p (\<lambda>e. e\<lparr>env_status := ENV_FREE, env_id := 0\<rparr>) s
      in if first then env_init_loop ps False tail s
         else env_init_loop ps first p (upd_env tail (\<lambda>e. e\<lparr>env_link := Some p\<rparr>) s))"

definition env_init :: "kern \<Rightarrow> kern" where
  "env_init s = env_init_loop [0..<NENV] True 0 (s\<lparr>env_free_list := Some 0\<rparr>)"

section \<open>env_setup_vm and env_alloc\<close>

definition copy_page :: "nat \<Rightarrow> nat \<Rightarrow> (nat \<Rightarrow> u8) \<Rightarrow> (nat \<Rightarrow> u8)" where
  "copy_page dst src m = (\<lambda>a. if dst * 4096 \<le> a \<and> a < dst * 4096 + 4096
                              then m (src * 4096 + (a - dst * 4096)) else m a)"

definition env_setup_vm :: "nat \<Rightarrow> kern \<Rightarrow> ((error + unit) \<times> kern) option" where
  "env_setup_vm e s = do {
     (p, s) \<leftarrow> page_alloc True s;
     case p of
       None \<Rightarrow> Some (Inl E_NO_MEM, s)
     | Some p \<Rightarrow> do {
         kva \<leftarrow> page2kva s p;
         let s = upd_env e (\<lambda>x. x\<lparr>env_pgdir := Some p\<rparr>) s;
         let s = page_incref p s;
         let s = s\<lparr>pmem := copy_page p (kern_pgdir s) (pmem s)\<rparr>;
         pa \<leftarrow> PADDR kva;
         Some (Inr (), store32 (p * 4096 + 4 * unat (PDX UVPT)) ((pa OR PTE_P) OR PTE_U) s) } }"

definition new_env_id :: "u32 \<Rightarrow> nat \<Rightarrow> u32" where
  "new_env_id old e =
     (let generation = (old + push_bit 12 1) AND NOT 0x3FF;
          generation = (if sint generation \<le> 0 then push_bit 12 1 else generation)
      in generation OR of_nat e)"

definition env_init_tf :: trapframe where
  "env_init_tf = tf0\<lparr>tf_ds := 0x20 OR 3, tf_es := 0x20 OR 3, tf_ss := 0x20 OR 3,
     tf_esp := USTACKTOP, tf_cs := 0x18 OR 3, tf_eflags := 0x200\<rparr>"

definition env_alloc :: "u32 \<Rightarrow> kern \<Rightarrow> ((error + nat) \<times> kern) option" where
  "env_alloc parent_id s =
     (case env_free_list s of
        None \<Rightarrow> Some (Inl E_NO_FREE_ENV, s)
      | Some e \<Rightarrow> do {
          (r, s) \<leftarrow> env_setup_vm e s;
          case r of
            Inl err \<Rightarrow> Some (Inl err, s)
          | Inr _ \<Rightarrow>
              let s = upd_env e (\<lambda>x. x\<lparr>env_id := new_env_id (env_id x) e,
                        env_parent_id := parent_id, env_type := ENV_TYPE_USER,
                        env_status := ENV_RUNNABLE, env_runs := 0, env_tf := env_init_tf,
                        env_pgfault_upcall := 0, env_ipc_recving := False\<rparr>) s;
                  s = s\<lparr>env_free_list := env_link (envs s e)\<rparr>
              in Some (Inr e, s) })"

section \<open>Loading a program\<close>

fun region_alloc_loop :: "nat list \<Rightarrow> nat \<Rightarrow> u32 \<Rightarrow> kern \<Rightarrow> kern option" where
  "region_alloc_loop [] pgdir start s = Some s"
| "region_alloc_loop (i # is) pgdir start s = do {
     (pp, s) \<leftarrow> page_alloc False s;
     case pp of
       None \<Rightarrow> None
     | Some pp \<Rightarrow> do {
         (r, s) \<leftarrow> page_insert pgdir pp (start + of_nat i * PGSIZE) (PTE_W OR PTE_U) s;
         case r of
           Inl _ \<Rightarrow> None
         | Inr _ \<Rightarrow> region_alloc_loop is pgdir start s } }"

definition region_alloc :: "nat \<Rightarrow> u32 \<Rightarrow> u32 \<Rightarrow> kern \<Rightarrow> kern option" where
  "region_alloc e va len s = do {
     pgdir \<leftarrow> env_pgdir (envs s e);
     let start = ROUNDDOWN va PGSIZE;
     let end = ROUNDUP (va + len) PGSIZE;
     let sz = end - start;
     let pgs = sz div PGSIZE;
     let pgs = (if sz mod PGSIZE \<noteq> 0 then pgs + 1 else pgs);
     region_alloc_loop [0..<unat pgs] pgdir start s }"

definition rd16 :: "(nat \<Rightarrow> u8) \<Rightarrow> nat \<Rightarrow> u16" where
  "rd16 m a = ucast (m a) OR push_bit 8 (ucast (m (a + 1)))"

record elf_hdr =
  e_magic :: u32
  e_entry :: u32
  e_phoff :: u32
  e_phnum :: u16

record prog_hdr =
  p_type :: u32
  p_offset :: u32
  p_va :: u32
  p_filesz :: u32
  p_memsz :: u32
  p_flags :: u32

definition read_elf :: "(nat \<Rightarrow> u8) \<Rightarrow> elf_hdr" where
  "read_elf bin = \<lparr>e_magic = rd32 bin 0, e_entry = rd32 bin 24, e_phoff = rd32 bin 28,
     e_phnum = rd16 bin 44\<rparr>"

definition read_ph :: "(nat \<Rightarrow> u8) \<Rightarrow> nat \<Rightarrow> prog_hdr" where
  "read_ph bin a = \<lparr>p_type = rd32 bin a, p_offset = rd32 bin (a + 4), p_va = rd32 bin (a + 8),
     p_filesz = rd32 bin (a + 16), p_memsz = rd32 bin (a + 20), p_flags = rd32 bin (a + 24)\<rparr>"

fun load_icode_loop :: "nat list \<Rightarrow> nat \<Rightarrow> (nat \<Rightarrow> u8) \<Rightarrow> nat \<Rightarrow> kern \<Rightarrow> kern option" where
  "load_icode_loop [] phoff bin e s = Some s"
| "load_icode_loop (i # is) phoff bin e s = (
     let ph = read_ph bin (phoff + 32 * i) in
     if p_type ph = 1
     then do {
       s \<leftarrow> region_alloc e (p_va ph) (p_memsz ph) s;
       s \<leftarrow> store_bytes (p_va ph) (replicate (unat (p_memsz ph)) 0) s;
       s \<leftarrow> store_bytes (p_va ph)
              (map (\<lambda>j. bin (unat (p_offset ph) + j)) [0..<unat (p_filesz ph)]) s;
       load_icode_loop is phoff bin e s }
     else load_icode_loop is phoff bin e s)"

definition load_icode :: "nat \<Rightarrow> (nat \<Rightarrow> u8) \<Rightarrow> kern \<Rightarrow> kern option" where
  "load_icode e bin s = (
     let elfhdr = read_elf bin in
     if e_magic elfhdr \<noteq> 0x464C457F then None
     else do {
       pgdir \<leftarrow> env_pgdir (envs s e);
       let s = s\<lparr>cr3 := pgdir\<rparr>;
       s \<leftarrow> load_icode_loop [0..<unat (e_phnum elfhdr)] (unat (e_phoff elfhdr)) bin e s;
       let s = s\<lparr>cr3 := kern_pgdir s\<rparr>;
       let s = upd_env e (\<lambda>x. x\<lparr>env_tf := (env_tf x)\<lparr>tf_eip := e_entry elfhdr\<rparr>\<rparr>) s;
       region_alloc e (USTACKTOP - PGSIZE) PGSIZE s })"

definition env_create :: "(nat \<Rightarrow> u8) \<Rightarrow> env_type \<Rightarrow> kern \<Rightarrow> kern option" where
  "env_create bin type s = do {
     (r, s) \<leftarrow> env_alloc 0 s;
     case r of
       Inl _ \<Rightarrow> None
     | Inr newenv \<Rightarrow> do {
         s \<leftarrow> load_icode newenv bin s;
         let s = upd_env newenv (\<lambda>x. x\<lparr>env_type := type\<rparr>) s;
         Some (if type = ENV_TYPE_FS
               then upd_env newenv (\<lambda>x. x\<lparr>env_tf := (env_tf x)\<lparr>tf_eflags :=
                      tf_eflags (env_tf x) OR 0x3000\<rparr>\<rparr>) s
               else s) } }"

section \<open>env_free\<close>

fun env_free_ptes :: "nat list \<Rightarrow> nat \<Rightarrow> nat \<Rightarrow> nat \<Rightarrow> kern \<Rightarrow> kern option" where
  "env_free_ptes [] pgdir pdeno pt s = Some s"
| "env_free_ptes (pteno # js) pgdir pdeno pt s = do {
     s \<leftarrow> (if load32 s (pt + 4 * pteno) AND PTE_P \<noteq> 0
           then page_remove pgdir (PGADDR (of_nat pdeno) (of_nat pteno) 0) s else Some s);
     env_free_ptes js pgdir pdeno pt s }"

fun env_free_pdes :: "nat list \<Rightarrow> nat \<Rightarrow> kern \<Rightarrow> kern option" where
  "env_free_pdes [] pgdir s = Some s"
| "env_free_pdes (pdeno # is) pgdir s =
     (let pde = load32 s (pgdir * 4096 + 4 * pdeno) in
      if pde AND PTE_P = 0 then env_free_pdes is pgdir s
      else do {
        let pa = PTE_ADDR pde;
        _ \<leftarrow> KADDR s pa;
        s \<leftarrow> env_free_ptes [0..<NPTENTRIES] pgdir pdeno (unat pa) s;
        let s = store32 (pgdir * 4096 + 4 * pdeno) 0 s;
        pp \<leftarrow> pa2page s pa;
        s \<leftarrow> page_decref pp s;
        env_free_pdes is pgdir s })"

definition env_free :: "nat \<Rightarrow> kern \<Rightarrow> kern option" where
  "env_free e s = do {
     let s = (if curenv s = Some e then s\<lparr>cr3 := kern_pgdir s\<rparr> else s);
     pgdir \<leftarrow> env_pgdir (envs s e);
     s \<leftarrow> env_free_pdes [0..<955] pgdir s;
     let s = upd_env e (\<lambda>x. x\<lparr>env_pgdir := None\<rparr>) s;
     pp \<leftarrow> pa2page s (page2pa pgdir);
     s \<leftarrow> page_decref pp s;
     let s = upd_env e (\<lambda>x. x\<lparr>env_status := ENV_FREE, env_link := env_free_list s\<rparr>) s;
     Some (s\<lparr>env_free_list := Some e\<rparr>) }"

section \<open>env_run\<close>

definition unlock_kernel :: "kern \<Rightarrow> kern" where
  "unlock_kernel s = s\<lparr>kernel_locked := False\<rparr>"

definition env_run :: "nat \<Rightarrow> kern \<Rightarrow> kern option" where
  "env_run e s = (
     let s = (case curenv s of
                None \<Rightarrow> s
              | Some c \<Rightarrow> if env_status (envs s c) = ENV_RUNNING
                          then upd_env c (\<lambda>x. x\<lparr>env_status := ENV_RUNNABLE\<rparr>) s else s);
         s = set_curenv (Some e) s;
         s = upd_env e (\<lambda>x. x\<lparr>env_status := ENV_RUNNING, env_runs := env_runs x + 1\<rparr>) s
     in case env_pgdir (envs s e) of
          None \<Rightarrow> None
        | Some pgdir \<Rightarrow>
            let s = unlock_kernel (s\<lparr>cr3 := pgdir\<rparr>)
            in Some (upd_env e (\<lambda>x. x\<lparr>env_cpunum := cpunum s\<rparr>) s))"

lemma env_run_some: "env_pgdir (envs s e) = Some d \<Longrightarrow> \<exists>s'. env_run e s = Some s'"
  by (cases "curenv s") (auto simp: env_run_def Let_def set_curenv_def upd_env_def)

end
