(* ===== verification/Sched.thy ===== *)
theory Sched
  imports Env
begin

text \<open>
  The scheduler (\<open>kern/sched.c\<close>), and the functions of \<open>env.c\<close> and \<open>pmap.c\<close> that may give
  up the CPU.  A kernel function that may not return has a \<open>ctl\<close> as its result: it returns
  to its caller, or leaves the kernel for user mode, or halts the CPU, or stays in the
  kernel monitor.
\<close>

datatype 'a ctl = Returned 'a | UserMode kern | Halted kern | InMonitor kern

primrec bind_ctl :: "'a ctl \<Rightarrow> ('a \<Rightarrow> 'b ctl option) \<Rightarrow> 'b ctl option" where
  "bind_ctl (Returned a) f = f a"
| "bind_ctl (UserMode s) f = Some (UserMode s)"
| "bind_ctl (Halted s) f = Some (Halted s)"
| "bind_ctl (InMonitor s) f = Some (InMonitor s)"

section \<open>sched_halt and sched_yield\<close>

definition sched_halt :: "kern \<Rightarrow> unit ctl option" where
  "sched_halt s =
     (if \<forall>i \<in> set [0..<NENV]. env_status (envs s i) \<noteq> ENV_RUNNABLE \<and>
           env_status (envs s i) \<noteq> ENV_RUNNING \<and> env_status (envs s i) \<noteq> ENV_DYING
      then Some (InMonitor s)
      else let s = set_curenv None s;
               s = s\<lparr>cr3 := kern_pgdir s\<rparr>;
               s = s\<lparr>cpus := (cpus s)(cpunum s := (cpus s (cpunum s))\<lparr>cpu_status := CPU_HALTED\<rparr>)\<rparr>
           in Some (Halted (unlock_kernel s)))"

fun sched_pick :: "nat list \<Rightarrow> nat \<Rightarrow> kern \<Rightarrow> nat option" where
  "sched_pick [] start s = None"
| "sched_pick (i # is) start s =
     (let j = (start + i) mod NENV in
      if env_status (envs s j) = ENV_RUNNABLE then Some j else sched_pick is start s)"

definition sched_yield :: "kern \<Rightarrow> unit ctl option" where
  "sched_yield s =
     (let start = (case curenv s of None \<Rightarrow> 0 | Some c \<Rightarrow> ENVX (env_id (envs s c)) + 1)
      in case sched_pick [0..<NENV] start s of
           Some j \<Rightarrow> map_option UserMode (env_run j s)
         | None \<Rightarrow>
             (case curenv s of
                Some c \<Rightarrow> if env_status (envs s c) = ENV_RUNNING
                          then map_option UserMode (env_run c s) else sched_halt s
              | None \<Rightarrow> sched_halt s))"

section \<open>env_destroy and user_mem_assert\<close>

definition env_destroy :: "nat \<Rightarrow> kern \<Rightarrow> kern ctl option" where
  "env_destroy e s =
     (if env_status (envs s e) = ENV_RUNNING \<and> curenv s \<noteq> Some e
      then Some (Returned (upd_env e (\<lambda>x. x\<lparr>env_status := ENV_DYING\<rparr>) s))
      else do {
        s \<leftarrow> env_free e s;
        if curenv s = Some e
        then do {
          r \<leftarrow> sched_yield (set_curenv None s);
          bind_ctl r (\<lambda>_. None) }
        else Some (Returned s) })"

definition user_mem_assert :: "nat \<Rightarrow> u32 \<Rightarrow> u32 \<Rightarrow> u32 \<Rightarrow> kern \<Rightarrow> kern ctl option" where
  "user_mem_assert e va len perm s = do {
     (r, s) \<leftarrow> user_mem_check e va len (perm OR PTE_U) s;
     case r of
       Inl _ \<Rightarrow> env_destroy e s
     | Inr _ \<Rightarrow> Some (Returned s) }"

end
