(* ===== verification/Printfmt.thy ===== *)
theory Printfmt
  imports Prelude
begin

text \<open>
  Formatted output (\<open>lib/printfmt.c\<close>, the user-side \<open>lib/printf.c\<close>).  \<open>putch\<close> is abstracted
  to the list of the characters it is called with, in order; the arguments are the words
  of the argument list; strings are read through a function from addresses to bytes that
  is undefined where a read faults.  \<open>None\<close> is a fault or a run that does not end.
\<close>

type_synonym reader = "u32 \<Rightarrow> u8 option"

definition digit_char :: "u64 \<Rightarrow> u32" where
  "digit_char d = [0x30, 0x31, 0x32, 0x33, 0x34, 0x35, 0x36, 0x37, 0x38, 0x39,
                   0x61, 0x62, 0x63, 0x64, 0x65, 0x66] ! unat d"

text \<open>The bases of the code are 8, 10 and 16; the equation is conditional on that.\<close>

function printnum :: "u64 \<Rightarrow> u64 \<Rightarrow> int \<Rightarrow> u32 \<Rightarrow> u32 list" where
  "printnum num base width padc =
     (if base \<le> 1 then []
      else (if base \<le> num then printnum (num div base) base (width - 1) padc
            else replicate (nat (width - 1)) padc) @ [digit_char (num mod base)])"
  by pat_completeness auto

termination
proof (relation "measure (\<lambda>(num, _). unat num)")
  fix num base :: u64 and width :: int and padc :: u32
  assume "\<not> base \<le> 1" "base \<le> num"
  then have "1 < unat base" "unat base \<le> unat num"
    by (simp_all add: word_le_nat_alt)
  then have "unat (num div base) < unat num" by (simp add: unat_div)
  then show "((num div base, base, width - 1, padc), num, base, width, padc)
      \<in> measure (\<lambda>(num, _). unat num)" by simp
qed simp

declare printnum.simps [simp del]

text \<open>The argument list as words: a \<open>long long\<close> takes two of them, the low one first.\<close>

definition getuint :: "u32 list \<Rightarrow> nat \<Rightarrow> u64 \<times> u32 list" where
  "getuint ap lflag =
     (if 2 \<le> lflag then (push_bit 32 (ucast (ap ! 1)) OR ucast (ap ! 0), drop 2 ap)
      else (ucast (ap ! 0), drop 1 ap))"

definition getint :: "u32 list \<Rightarrow> nat \<Rightarrow> u64 \<times> u32 list" where
  "getint ap lflag =
     (if 2 \<le> lflag then (push_bit 32 (ucast (ap ! 1)) OR ucast (ap ! 0), drop 2 ap)
      else (scast (ap ! 0), drop 1 ap))"

record spec =
  padc :: u32
  width :: int
  precision :: int
  lflag :: nat
  altflag :: bool

definition spec0 :: spec where
  "spec0 = \<lparr>padc = 0x20, width = -1, precision = -1, lflag = 0, altflag = False\<rparr>"

definition is_digit :: "u8 \<Rightarrow> bool" where
  "is_digit ch \<longleftrightarrow> 0x30 \<le> ch \<and> ch \<le> 0x39"

text \<open>The digits of a width or precision; the result is the value and the rest.\<close>

fun scan_digits :: "u8 list \<Rightarrow> int \<Rightarrow> int \<times> u8 list" where
  "scan_digits [] v = (v, [])"
| "scan_digits (ch # fmt) v =
     (if is_digit ch then scan_digits fmt (v * 10 + (uint ch - 0x30)) else (v, ch # fmt))"

lemma scan_digits_length: "length (snd (scan_digits fmt v)) \<le> length fmt"
  by (induction fmt v rule: scan_digits.induct) (auto intro: le_SucI)

lemma scan_digits_less [termination_simp]:
  "(v', fmt') = scan_digits fmt v \<Longrightarrow> length fmt' < Suc (length fmt)"
  using scan_digits_length [of fmt v] by (cases "scan_digits fmt v") (auto intro: le_imp_less_Suc)

definition process_precision :: "int \<Rightarrow> spec \<Rightarrow> spec" where
  "process_precision p sp =
     (if width sp < 0 then sp\<lparr>width := p, precision := -1\<rparr> else sp\<lparr>precision := p\<rparr>)"

text \<open>
  The flags between '%' and the conversion: the conversion character (0 at the end of the
  format), the rest of the format, the flags and the remaining arguments.
\<close>

fun scan_spec :: "u8 list \<Rightarrow> spec \<Rightarrow> u32 list \<Rightarrow> u8 \<times> u8 list \<times> spec \<times> u32 list" where
  "scan_spec [] sp ap = (0, [], sp, ap)"
| "scan_spec (ch # fmt) sp ap =
     (if ch = 0x2D then scan_spec fmt (sp\<lparr>padc := 0x2D\<rparr>) ap
      else if ch = 0x30 then scan_spec fmt (sp\<lparr>padc := 0x30\<rparr>) ap
      else if is_digit ch
      then let (p, fmt') = scan_digits fmt (uint ch - 0x30)
           in scan_spec fmt' (process_precision p sp) ap
      else if ch = 0x2A then scan_spec fmt (process_precision (sint (ap ! 0)) sp) (drop 1 ap)
      else if ch = 0x2E then scan_spec fmt (if width sp < 0 then sp\<lparr>width := 0\<rparr> else sp) ap
      else if ch = 0x23 then scan_spec fmt (sp\<lparr>altflag := True\<rparr>) ap
      else if ch = 0x6C then scan_spec fmt (sp\<lparr>lflag := lflag sp + 1\<rparr>) ap
      else (ch, fmt, sp, ap))"

lemma scan_spec_length:
  "length (fst (snd (scan_spec fmt sp ap))) \<le> length fmt"
proof (induction fmt sp ap rule: scan_spec.induct)
  case (1 sp ap)
  then show ?case by simp
next
  case (2 ch fmt sp ap)
  show ?case
  proof (cases "ch \<noteq> 0x2D \<and> ch \<noteq> 0x30 \<and> is_digit ch")
    case True
    obtain p fmt' where e: "scan_digits fmt (uint ch - 0x30) = (p, fmt')" by fastforce
    then have le: "length fmt' \<le> length fmt" using scan_digits_length [of fmt "uint ch - 0x30"] by simp
    have "length (fst (snd (scan_spec fmt' (process_precision p sp) ap))) \<le> length fmt'"
      using 2 True e by simp
    with True e le show ?thesis by simp
  next
    case False
    with 2 show ?thesis by (auto intro: le_SucI simp del: scan_spec.simps simp add: scan_spec.simps(2))
  qed
qed

section \<open>Strings\<close>

partial_function (option) strnlen_r :: "reader \<Rightarrow> u32 \<Rightarrow> u32 \<Rightarrow> int \<Rightarrow> int option" where
  "strnlen_r m p sz n =
     (if sz = 0 then Some n
      else do {
        c \<leftarrow> m p;
        if c \<noteq> 0 then strnlen_r m (p + 1) (sz - 1) (n + 1) else Some n })"

text \<open>
  The loop that prints the characters: it reads the next character before it looks at the
  precision.
\<close>

definition shown :: "bool \<Rightarrow> u8 \<Rightarrow> u32" where
  "shown alt b = (let ch = scast b :: u32
                  in if alt \<and> (sint ch < 0x20 \<or> 0x7E < sint ch) then 0x3F else ch)"

partial_function (option) str_chars :: "reader \<Rightarrow> u32 \<Rightarrow> int \<Rightarrow> bool \<Rightarrow> u32 list option" where
  "str_chars m p prec alt = do {
     b \<leftarrow> m p;
     if b = 0 \<or> 0 \<le> prec \<and> prec - 1 < 0 then Some []
     else do {
       cs \<leftarrow> str_chars m (p + 1) (if prec < 0 then prec else prec - 1) alt;
       Some (shown alt b # cs) } }"

definition null_reader :: reader where
  "null_reader p = Some (if unat p < 6 then [0x28, 0x6E, 0x75, 0x6C, 0x6C, 0x29] ! unat p else 0)"

definition print_str :: "reader \<Rightarrow> u32 \<Rightarrow> spec \<Rightarrow> u32 list option" where
  "print_str m p sp =
     (let (m, p) = (if p = 0 then (null_reader, 0) else (m, p)) in do {
        n \<leftarrow> (if 0 < width sp \<and> padc sp \<noteq> 0x2D
              then strnlen_r m p (of_int (precision sp)) 0 else Some 0);
        let padded = (0 < width sp \<and> padc sp \<noteq> 0x2D);
        let pads = (if padded then replicate (nat (width sp - n)) (padc sp) else []);
        let w = (if padded then min (width sp - n) 0 else width sp);
        cs \<leftarrow> str_chars m p (precision sp) (altflag sp);
        Some (pads @ cs @ replicate (nat (w - int (length cs))) 0x20) })"

section \<open>Conversions\<close>

definition error_string :: "nat \<Rightarrow> u32 list" where
  "error_string err = map of_char
     ([''unspecified error'', ''bad environment'', ''invalid parameter'', ''out of memory'',
       ''out of environments'', ''segmentation fault'', ''env is not recving'',
       ''unexpected end of file'', ''no free space on disk'', ''too many files are open'',
       ''file or block not found'', ''invalid path'', ''file already exists'',
       ''file is not a valid executable'', ''operation not supported''] ! (err - 1))"

text \<open>MAXERROR is 16, and the entry 0 of the table is NULL.\<close>

definition print_error :: "u32 \<Rightarrow> u32 list option" where
  "print_error arg =
     (let err = (if sint arg < 0 then - arg else arg) in
      if 16 \<le> sint err \<or> err = 0
      then Some (map of_char ''error '' @
             (if sint err < 0 then [0x2D] else []) @ printnum (ucast err) 10 (-1) 0x20)
      else if sint err < 0 then None
      else Some (error_string (unat err)))"

definition print_signed :: "u64 \<Rightarrow> spec \<Rightarrow> u32 list" where
  "print_signed num sp =
     (if sint num < 0 then 0x2D # printnum (- num) 10 (width sp) (padc sp)
      else printnum num 10 (width sp) (padc sp))"

text \<open>One conversion; \<open>None\<close> as the inner result is the unrecognised escape sequence.\<close>

definition convert ::
  "reader \<Rightarrow> u8 \<Rightarrow> spec \<Rightarrow> u32 list \<Rightarrow> (u32 list \<times> u32 list) option option" where
  "convert m ch sp ap =
     (if ch = 0x63 then Some (Some ([ap ! 0], drop 1 ap))
      else if ch = 0x65
      then map_option (\<lambda>cs. Some (cs, drop 1 ap)) (print_error (ap ! 0))
      else if ch = 0x73
      then map_option (\<lambda>cs. Some (cs, drop 1 ap)) (print_str m (ap ! 0) sp)
      else if ch = 0x64
      then let (num, ap) = getint ap (lflag sp) in Some (Some (print_signed num sp, ap))
      else if ch = 0x75
      then let (num, ap) = getuint ap (lflag sp) in Some (Some (printnum num 10 (width sp) (padc sp), ap))
      else if ch = 0x6F
      then let (num, ap) = getuint ap (lflag sp) in Some (Some (printnum num 8 (width sp) (padc sp), ap))
      else if ch = 0x70
      then Some (Some ([0x30, 0x78] @ printnum (ucast (ap ! 0)) 16 (width sp) (padc sp), drop 1 ap))
      else if ch = 0x78
      then let (num, ap) = getuint ap (lflag sp) in Some (Some (printnum num 16 (width sp) (padc sp), ap))
      else if ch = 0x25 then Some (Some ([0x25], ap))
      else Some None)"

text \<open>
  The main loop.  After an unrecognised sequence the code steps back to the character after
  the last '%', which is where the sequence began, and goes on printing from there.
\<close>

function (sequential) vprintfmt :: "reader \<Rightarrow> u8 list \<Rightarrow> u32 list \<Rightarrow> u32 list option" where
  "vprintfmt m [] ap = Some []"
| "vprintfmt m (ch # fmt) ap =
     (if ch = 0 then Some []
      else if ch \<noteq> 0x25 then map_option (Cons (ucast ch)) (vprintfmt m fmt ap)
      else let (c, fmt', sp, ap') = scan_spec fmt spec0 ap in
        case convert m c sp ap' of
          None \<Rightarrow> None
        | Some None \<Rightarrow> map_option (Cons 0x25) (vprintfmt m fmt ap')
        | Some (Some (out, ap'')) \<Rightarrow> map_option ((@) out) (vprintfmt m fmt' ap''))"
  by pat_completeness auto

termination
  apply (relation "measure (\<lambda>(_, fmt, _). length fmt)")
     apply simp_all
  subgoal for ch fmt ap by (metis fst_conv le_imp_less_Suc scan_spec_length snd_conv)
  done

declare vprintfmt.simps [simp del]

section \<open>Printing into a buffer\<close>

record sprintbuf =
  sbuf :: "u8 list"
  room :: nat
  scnt :: nat

definition sprintputch :: "u32 \<Rightarrow> sprintbuf \<Rightarrow> sprintbuf" where
  "sprintputch ch b =
     (let b = b\<lparr>scnt := scnt b + 1\<rparr>
      in if length (sbuf b) < room b then b\<lparr>sbuf := sbuf b @ [ucast ch]\<rparr> else b)"

text \<open>\<open>vsnprintf\<close>: the count and the bytes written to the buffer, or the error E_INVAL.\<close>

definition vsnprintf ::
  "reader \<Rightarrow> bool \<Rightarrow> int \<Rightarrow> u8 list \<Rightarrow> u32 list \<Rightarrow> (unit + (nat \<times> u8 list)) option" where
  "vsnprintf m buf_null n fmt ap =
     (if buf_null \<or> n < 1 then Some (Inl ())
      else do {
        out \<leftarrow> vprintfmt m fmt ap;
        let b = fold sprintputch out \<lparr>sbuf = [], room = nat (n - 1), scnt = 0\<rparr>;
        Some (Inr (scnt b, sbuf b @ [0])) })"

text \<open>The buffered \<open>cprintf\<close> of user programs: the strings passed to \<open>sys_cputs\<close>.\<close>

record printbuf =
  idx :: nat
  cnt :: nat
  pbuf :: "u8 list"
  cputs :: "u8 list list"

definition user_putch :: "u32 \<Rightarrow> printbuf \<Rightarrow> printbuf" where
  "user_putch ch b =
     (let b = b\<lparr>pbuf := (pbuf b)[idx b := ucast ch], idx := idx b + 1\<rparr>;
          b = (if idx b = 256 - 1
               then b\<lparr>cputs := cputs b @ [take (idx b) (pbuf b)], idx := 0\<rparr> else b)
      in b\<lparr>cnt := cnt b + 1\<rparr>)"

definition user_vcprintf :: "reader \<Rightarrow> u8 list \<Rightarrow> u32 list \<Rightarrow> (nat \<times> u8 list list) option" where
  "user_vcprintf m fmt ap = do {
     out \<leftarrow> vprintfmt m fmt ap;
     let b = fold user_putch out \<lparr>idx = 0, cnt = 0, pbuf = replicate 256 0, cputs = []\<rparr>;
     Some (cnt b, cputs b @ [take (idx b) (pbuf b)]) }"

end
