(* ===== verification/E1000.thy ===== *)
theory E1000
  imports Env Printfmt
begin

text \<open>
  The device operations that work on the whole kernel state: the clock (\<open>kern/time.c\<close>),
  printing to the console (\<open>kern/printf.c\<close>) and sending and receiving packets
  (\<open>kern/e1000.c\<close>), which copy from and to memory through the current page directory.
\<close>

section \<open>The clock\<close>

definition time_init :: "kern \<Rightarrow> kern" where
  "time_init s = s\<lparr>ticks := 0\<rparr>"

definition time_tick :: "kern \<Rightarrow> kern option" where
  "time_tick s = (let s = s\<lparr>ticks := ticks s + 1\<rparr> in if ticks s * 10 < ticks s then None else Some s)"

definition time_msec :: "kern \<Rightarrow> u32" where
  "time_msec s = ticks s * 10"

section \<open>cprintf in the kernel\<close>

text \<open>
  \<open>putch\<close> passes the character on; its \<open>*cnt++\<close> increments its own copy of the pointer, so
  the count that \<open>vcprintf\<close> returns is the 0 it started with.
\<close>

definition putch :: "u32 \<Rightarrow> u32 \<times> console \<Rightarrow> u32 \<times> console" where
  "putch ch cs = (let (cnt, c) = cs in (cnt, cputchar ch c))"

definition vcprintf :: "u8 list \<Rightarrow> u32 list \<Rightarrow> kern \<Rightarrow> (u32 \<times> kern) option" where
  "vcprintf fmt ap s = do {
     out \<leftarrow> vprintfmt (\<lambda>a. load8 a s) fmt ap;
     let (cnt, c) = fold putch out (0, console s);
     Some (cnt, s\<lparr>console := c\<rparr>) }"

section \<open>Packets\<close>

fun put_bytes :: "nat \<Rightarrow> u8 list \<Rightarrow> (nat \<Rightarrow> u8) \<Rightarrow> (nat \<Rightarrow> u8)" where
  "put_bytes a [] m = m"
| "put_bytes a (b # bs) m = put_bytes (a + 1) bs (m(a := b))"

definition e1000_transmit :: "u32 \<Rightarrow> u32 \<Rightarrow> kern \<Rightarrow> (u32 \<times> kern) option" where
  "e1000_transmit data len s =
     (let n = nic s; current = tdt n; d = tx_desc_array n current in
      if td_status d AND E1000_TXD_STAT_DD = 0 then Some (- 1, s)
      else let d = d\<lparr>td_length := ucast len\<rparr>;
               d = d\<lparr>td_status := td_status d AND NOT E1000_TXD_STAT_DD\<rparr>;
               d = d\<lparr>td_cmd := td_cmd d OR (E1000_TXD_CMD_EOP OR E1000_TXD_CMD_RS)\<rparr>;
               n = n\<lparr>tx_desc_array := (tx_desc_array n)(current := d)\<rparr>
           in do {
             bs \<leftarrow> load_bytes data (unat len) s;
             let n = n\<lparr>tx_buffer_array := put_bytes (current * TX_PKT_SIZE) bs (tx_buffer_array n)\<rparr>;
             let nxt = (current + 1) mod TXDESCS;
             Some (0, s\<lparr>nic := set_field E1000_TDT 0 16 (of_nat nxt) n\<rparr>) })"

text \<open>The message that \<open>e1000_receive\<close> prints for a bad packet is \<open>receive errors\<close>.\<close>

definition e1000_receive :: "u32 \<Rightarrow> u32 \<Rightarrow> kern \<Rightarrow> (u32 \<times> kern) option" where
  "e1000_receive addr len s =
     (let n = nic s; d = rx_desc_array n (nat (rx_next n)) in
      if rd_status d AND E1000_RXD_STAT_DD = 0 then Some (- 2, s)
      else if rd_errors d \<noteq> 0
      then do {
        (_, s) \<leftarrow> vcprintf (map of_char ''receive errors'' @ [0x0A]) [] s;
        Some (- 2, s) }
      else do {
        s \<leftarrow> store_bytes len (word_bytes (ucast (rd_length d))) s;
        s \<leftarrow> store_bytes addr
               (map (\<lambda>j. rx_buffer_array n (nat (rx_next n) * RX_PKT_SIZE + j))
                  [0..<unat (rd_length d)]) s;
        let n = set_field E1000_RDT 0 16 (of_nat ((rdt n + 1) mod RXDESCS)) n;
        let n = n\<lparr>rx_next := (rx_next n + 1) mod int RXDESCS\<rparr>;
        Some (0, s\<lparr>nic := n\<rparr>) })"

definition e1000_attachfn :: "u32 \<Rightarrow> u32 \<Rightarrow> u32 \<Rightarrow> u32 \<Rightarrow> u32 \<Rightarrow> u32 \<Rightarrow> kern \<Rightarrow> (u32 \<times> kern) option" where
  "e1000_attachfn reg_base reg_size tx_bufs tx_descs rx_bufs rx_descs s = do {
     (bar_va, s) \<leftarrow> mmio_map_region reg_base reg_size s;
     if reg (nic s) E1000_STATUS \<noteq> 0x80080783 then None
     else let n = e1000_transmit_init tx_bufs tx_descs (nic s);
              n = e1000_receive_init rx_bufs rx_descs n
          in Some (0, s\<lparr>nic := n\<rparr>) }"

end
