(* ===== verification/Syscall.thy ===== *)
theory Syscall
  imports Sched E1000
begin

text \<open>
  The system calls (\<open>kern/syscall.c\<close>).  A call returns its value or an error to its caller,
  or leaves the kernel (a \<open>ctl\<close>); \<open>None\<close> is a kernel panic.
\<close>

type_synonym sysres = "((error + u32) \<times> kern) ctl option"

abbreviation (input) ret :: "error + u32 \<Rightarrow> kern \<Rightarrow> sysres" where
  "ret r s \<equiv> Some (Returned (r, s))"

definition with_env :: "u32 \<Rightarrow> bool \<Rightarrow> kern \<Rightarrow> (nat \<Rightarrow> sysres) \<Rightarrow> sysres" where
  "with_env envid checkperm s f = do {
     r \<leftarrow> envid2env envid checkperm s;
     case r of Inl e \<Rightarrow> ret (Inl e) s | Inr e \<Rightarrow> f e }"

section \<open>Console\<close>

definition sys_cputs :: "u32 \<Rightarrow> u32 \<Rightarrow> kern \<Rightarrow> sysres" where
  "sys_cputs str len s = do {
     c \<leftarrow> curenv s;
     r \<leftarrow> user_mem_assert c str len (PTE_U OR PTE_P) s;
     bind_ctl r (\<lambda>s. do {
       (_, s) \<leftarrow> vcprintf [0x25, 0x2E, 0x2A, 0x73] [len, str] s;
       ret (Inr 0) s }) }"

definition sys_cgetc :: "kern \<Rightarrow> sysres" where
  "sys_cgetc s = do {
     (c, con) \<leftarrow> cons_getc (console s);
     ret (Inr c) (s\<lparr>console := con\<rparr>) }"

section \<open>Environments\<close>

definition sys_getenvid :: "kern \<Rightarrow> sysres" where
  "sys_getenvid s = do { c \<leftarrow> curenv s; ret (Inr (env_id (envs s c))) s }"

definition sys_env_destroy :: "u32 \<Rightarrow> kern \<Rightarrow> sysres" where
  "sys_env_destroy envid s = with_env envid True s (\<lambda>e. do {
     r \<leftarrow> env_destroy e s;
     bind_ctl r (\<lambda>s. ret (Inr 0) s) })"

definition sys_yield :: "kern \<Rightarrow> sysres" where
  "sys_yield s = do { r \<leftarrow> sched_yield s; bind_ctl r (\<lambda>_. ret (Inr 0) s) }"

definition sys_exofork :: "kern \<Rightarrow> sysres" where
  "sys_exofork s = do {
     c \<leftarrow> curenv s;
     (r, s) \<leftarrow> env_alloc (env_id (envs s c)) s;
     case r of
       Inl err \<Rightarrow> ret (Inl err) s
     | Inr e \<Rightarrow>
         let s = upd_env e (\<lambda>x. x\<lparr>env_tf := env_tf (envs s c)\<rparr>) s;
             s = upd_env e (\<lambda>x. x\<lparr>env_status := ENV_NOT_RUNNABLE\<rparr>) s;
             s = upd_env e (\<lambda>x. x\<lparr>env_tf := (env_tf x)\<lparr>tf_regs :=
                   (tf_regs (env_tf x))\<lparr>reg_eax := 0\<rparr>\<rparr>\<rparr>) s
         in ret (Inr (env_id (envs s e))) s }"

text \<open>The status argument is an \<open>int\<close>: ENV_RUNNABLE is 2 and ENV_NOT_RUNNABLE is 4.\<close>

definition sys_env_set_status :: "u32 \<Rightarrow> u32 \<Rightarrow> kern \<Rightarrow> sysres" where
  "sys_env_set_status envid status s =
     (if status \<noteq> 4 \<and> status \<noteq> 2 then ret (Inl E_INVAL) s
      else with_env envid True s (\<lambda>e.
        ret (Inr 0) (upd_env e (\<lambda>x. x\<lparr>env_status :=
          (if status = 2 then ENV_RUNNABLE else ENV_NOT_RUNNABLE)\<rparr>) s)))"

text \<open>The trap frame as it lies in memory: 68 bytes, the registers first.\<close>

definition bytes16 :: "u8 list \<Rightarrow> nat \<Rightarrow> u16" where
  "bytes16 bs i = ucast (bs ! i) OR push_bit 8 (ucast (bs ! (i + 1)))"

definition bytes32 :: "u8 list \<Rightarrow> nat \<Rightarrow> u32" where
  "bytes32 bs i = rd32 (\<lambda>j. bs ! j) i"

definition read_tf :: "u8 list \<Rightarrow> trapframe" where
  "read_tf bs =
     \<lparr>tf_regs = \<lparr>reg_edi = bytes32 bs 0, reg_esi = bytes32 bs 4, reg_ebp = bytes32 bs 8,
        reg_oesp = bytes32 bs 12, reg_ebx = bytes32 bs 16, reg_edx = bytes32 bs 20,
        reg_ecx = bytes32 bs 24, reg_eax = bytes32 bs 28\<rparr>,
      tf_es = bytes16 bs 32, tf_ds = bytes16 bs 36, tf_trapno = bytes32 bs 40,
      tf_err = bytes32 bs 44, tf_eip = bytes32 bs 48, tf_cs = bytes16 bs 52,
      tf_eflags = bytes32 bs 56, tf_esp = bytes32 bs 60, tf_ss = bytes16 bs 64\<rparr>"

definition sys_env_set_trapframe :: "u32 \<Rightarrow> u32 \<Rightarrow> kern \<Rightarrow> sysres" where
  "sys_env_set_trapframe envid tf s = with_env envid True s (\<lambda>e. do {
     s \<leftarrow> store_bytes (tf + 56) (word_bytes 0x200) s;
     bs \<leftarrow> load_bytes (tf + 56) 4 s;
     s \<leftarrow> store_bytes (tf + 56) (word_bytes (bytes32 bs 0 AND NOT 0x3000)) s;
     s \<leftarrow> store_bytes (tf + 52) (take 2 (word_bytes (0x18 OR 3))) s;
     bs \<leftarrow> load_bytes tf 68 s;
     ret (Inr 0) (upd_env e (\<lambda>x. x\<lparr>env_tf := read_tf bs\<rparr>) s) })"

definition sys_env_set_pgfault_upcall :: "u32 \<Rightarrow> u32 \<Rightarrow> kern \<Rightarrow> sysres" where
  "sys_env_set_pgfault_upcall envid func s = with_env envid True s (\<lambda>e.
     ret (Inr 0) (upd_env e (\<lambda>x. x\<lparr>env_pgfault_upcall := func\<rparr>) s))"

section \<open>Memory\<close>

definition bad_va :: "u32 \<Rightarrow> bool" where
  "bad_va va \<longleftrightarrow> UTOP \<le> va \<or> ROUNDDOWN va PGSIZE \<noteq> va"

definition bad_perm :: "u32 \<Rightarrow> bool" where
  "bad_perm perm \<longleftrightarrow> (let flag = PTE_U OR PTE_P in perm AND flag \<noteq> flag)"

definition sys_page_alloc :: "u32 \<Rightarrow> u32 \<Rightarrow> u32 \<Rightarrow> kern \<Rightarrow> sysres" where
  "sys_page_alloc envid va perm s = with_env envid True s (\<lambda>e.
     if bad_va va then ret (Inl E_INVAL) s
     else if bad_perm perm then ret (Inl E_INVAL) s
     else do {
       (pg, s) \<leftarrow> page_alloc True s;
       case pg of
         None \<Rightarrow> ret (Inl E_NO_MEM) s
       | Some pg \<Rightarrow> do {
           pgdir \<leftarrow> env_pgdir (envs s e);
           (r, s) \<leftarrow> page_insert pgdir pg va perm s;
           case r of
             Inl err \<Rightarrow> do { s \<leftarrow> page_free pg s; ret (Inl err) s }
           | Inr _ \<Rightarrow> ret (Inr 0) s } })"

definition sys_page_map :: "u32 \<Rightarrow> u32 \<Rightarrow> u32 \<Rightarrow> u32 \<Rightarrow> u32 \<Rightarrow> kern \<Rightarrow> sysres" where
  "sys_page_map srcenvid srcva dstenvid dstva perm s =
     with_env srcenvid True s (\<lambda>se. with_env dstenvid True s (\<lambda>de.
       if UTOP \<le> srcva \<or> UTOP \<le> dstva \<or> ROUNDDOWN srcva PGSIZE \<noteq> srcva
          \<or> ROUNDDOWN dstva PGSIZE \<noteq> dstva
       then ret (Inl E_INVAL) s
       else do {
         spgdir \<leftarrow> env_pgdir (envs s se);
         look \<leftarrow> page_lookup spgdir srcva s;
         case look of
           None \<Rightarrow> ret (Inl E_INVAL) s
         | Some (pg, pte) \<Rightarrow>
             if bad_perm perm then ret (Inl E_INVAL) s
             else if load32 s pte AND PTE_W = 0 \<and> perm AND PTE_W \<noteq> 0 then ret (Inl E_INVAL) s
             else do {
               dpgdir \<leftarrow> env_pgdir (envs s de);
               (r, s) \<leftarrow> page_insert dpgdir pg dstva perm s;
               case r of Inl err \<Rightarrow> ret (Inl err) s | Inr _ \<Rightarrow> ret (Inr 0) s } }))"

definition sys_page_unmap :: "u32 \<Rightarrow> u32 \<Rightarrow> kern \<Rightarrow> sysres" where
  "sys_page_unmap envid va s = with_env envid True s (\<lambda>e.
     if bad_va va then ret (Inl E_INVAL) s
     else do {
       pgdir \<leftarrow> env_pgdir (envs s e);
       s \<leftarrow> page_remove pgdir va s;
       ret (Inr 0) s })"

section \<open>IPC\<close>

text \<open>
  \<open>sys_ipc_try_send\<close> reads \<open>*pte\<close> before it looks at the result of \<open>page_lookup\<close>, which
  leaves \<open>pte\<close> unset when it finds no page: \<open>junk\<close> is what the read through the
  uninitialised pointer yields, \<open>None\<close> if it faults.
\<close>

definition ipc_deliver :: "nat \<Rightarrow> u32 \<Rightarrow> kern \<Rightarrow> sysres" where
  "ipc_deliver rcvenv value s = do {
     c \<leftarrow> curenv s;
     ret (Inr 0) (upd_env rcvenv (\<lambda>x. x\<lparr>env_ipc_recving := False,
       env_ipc_from := env_id (envs s c), env_ipc_value := value, env_status := ENV_RUNNABLE,
       env_tf := (env_tf x)\<lparr>tf_regs := (tf_regs (env_tf x))\<lparr>reg_eax := 0\<rparr>\<rparr>\<rparr>) s) }"

definition sys_ipc_try_send :: "u32 option \<Rightarrow> u32 \<Rightarrow> u32 \<Rightarrow> u32 \<Rightarrow> u32 \<Rightarrow> kern \<Rightarrow> sysres" where
  "sys_ipc_try_send junk envid value srcva perm s = with_env envid False s (\<lambda>rcvenv.
     if \<not> env_ipc_recving (envs s rcvenv) then ret (Inl E_IPC_NOT_RECV) s
     else if srcva < UTOP
     then do {
       c \<leftarrow> curenv s;
       cpgdir \<leftarrow> env_pgdir (envs s c);
       look \<leftarrow> page_lookup cpgdir srcva s;
       if srcva \<noteq> ROUNDDOWN srcva PGSIZE then ret (Inl E_INVAL) s
       else do {
         pte \<leftarrow> (case look of None \<Rightarrow> junk | Some (_, p) \<Rightarrow> Some (load32 s p));
         if (pte AND perm) AND 7 \<noteq> perm AND 7 then ret (Inl E_INVAL) s
         else case look of
           None \<Rightarrow> ret (Inl E_INVAL) s
         | Some (pg, _) \<Rightarrow>
             if perm AND PTE_W \<noteq> 0 \<and> pte AND PTE_W = 0 then ret (Inl E_INVAL) s
             else if env_ipc_dstva (envs s rcvenv) < UTOP
             then do {
               rpgdir \<leftarrow> env_pgdir (envs s rcvenv);
               (r, s) \<leftarrow> page_insert rpgdir pg (env_ipc_dstva (envs s rcvenv)) perm s;
               case r of
                 Inl err \<Rightarrow> ret (Inl err) s
               | Inr _ \<Rightarrow> ipc_deliver rcvenv value (upd_env rcvenv (\<lambda>x. x\<lparr>env_ipc_perm := perm\<rparr>) s) }
             else ipc_deliver rcvenv value s } }
     else ipc_deliver rcvenv value s)"

definition sys_ipc_recv :: "u32 \<Rightarrow> kern \<Rightarrow> sysres" where
  "sys_ipc_recv dstva s =
     (if dstva < UTOP \<and> dstva \<noteq> ROUNDDOWN dstva PGSIZE then ret (Inl E_INVAL) s
      else do {
        c \<leftarrow> curenv s;
        sys_yield (upd_env c (\<lambda>x. x\<lparr>env_ipc_recving := True, env_status := ENV_NOT_RUNNABLE,
                     env_ipc_dstva := dstva\<rparr>) s) })"

section \<open>Time and network\<close>

definition sys_time_msec :: "kern \<Rightarrow> sysres" where
  "sys_time_msec s = ret (Inr (time_msec s)) s"

text \<open>The driver's own error codes are returned as they are.\<close>

definition sys_pkt_try_send :: "u32 \<Rightarrow> u32 \<Rightarrow> kern \<Rightarrow> sysres" where
  "sys_pkt_try_send buf len s = do {
     c \<leftarrow> curenv s;
     r \<leftarrow> user_mem_assert c buf len PTE_U s;
     bind_ctl r (\<lambda>s. do { (v, s) \<leftarrow> e1000_transmit buf len s; ret (Inr v) s }) }"

definition sys_pkt_recv :: "u32 \<Rightarrow> u32 \<Rightarrow> kern \<Rightarrow> sysres" where
  "sys_pkt_recv addr len s = do { (v, s) \<leftarrow> e1000_receive addr len s; ret (Inr v) s }"

section \<open>The dispatcher\<close>

definition sys_value :: "error + u32 \<Rightarrow> u32" where
  "sys_value r = (case r of Inl e \<Rightarrow> of_int (- errno e) | Inr v \<Rightarrow> v)"

definition syscall_body ::
  "u32 option \<Rightarrow> u32 \<Rightarrow> u32 \<Rightarrow> u32 \<Rightarrow> u32 \<Rightarrow> u32 \<Rightarrow> u32 \<Rightarrow> kern \<Rightarrow> sysres" where
  "syscall_body junk syscallno a1 a2 a3 a4 a5 s =
     (if syscallno = 0 then sys_cputs a1 a2 s
      else if syscallno = 1 then sys_cgetc s
      else if syscallno = 2 then sys_getenvid s
      else if syscallno = 3 then sys_env_destroy a1 s
      else if syscallno = 11 then sys_yield s
      else if syscallno = 4 then sys_page_alloc a1 a2 a3 s
      else if syscallno = 5 then sys_page_map a1 a2 a3 a4 a5 s
      else if syscallno = 6 then sys_page_unmap a1 a2 s
      else if syscallno = 7 then sys_exofork s
      else if syscallno = 8 then sys_env_set_status a1 a2 s
      else if syscallno = 10 then sys_env_set_pgfault_upcall a1 a2 s
      else if syscallno = 12 then sys_ipc_try_send junk a1 a2 a3 a4 s
      else if syscallno = 13 then sys_ipc_recv a1 s
      else if syscallno = 9 then sys_env_set_trapframe a1 a2 s
      else if syscallno = 14 then sys_time_msec s
      else if syscallno = 15 then sys_pkt_try_send a1 a2 s
      else if syscallno = 16 then sys_pkt_recv a1 a2 s
      else ret (Inl E_INVAL) s)"

definition syscall ::
  "u32 option \<Rightarrow> u32 \<Rightarrow> u32 \<Rightarrow> u32 \<Rightarrow> u32 \<Rightarrow> u32 \<Rightarrow> u32 \<Rightarrow> kern \<Rightarrow> (u32 \<times> kern) ctl option" where
  "syscall junk syscallno a1 a2 a3 a4 a5 s = do {
     r \<leftarrow> syscall_body junk syscallno a1 a2 a3 a4 a5 s;
     bind_ctl r (\<lambda>(r, s). Some (Returned (sys_value r, s))) }"

end
