(* ===== verification/Trap.thy ===== *)
theory Trap
  imports Syscall
begin

text \<open>
  Traps (\<open>kern/trap.c\<close>): the interrupt descriptor table, the entry from user mode, the
  dispatch, and the page fault handler that builds a frame on the user exception stack.
  Printing the trap frame is not modelled, nor are the per-CPU task state segments.
\<close>

section \<open>The descriptor table\<close>

record gate =
  gd_sel :: u16
  gd_istrap :: bool
  gd_dpl :: nat

definition SETGATE :: "nat \<Rightarrow> bool \<Rightarrow> u16 \<Rightarrow> nat \<Rightarrow> (nat \<Rightarrow> gate option) \<Rightarrow> (nat \<Rightarrow> gate option)" where
  "SETGATE i istrap sel dpl idt = idt(i := Some \<lparr>gd_sel = sel, gd_istrap = istrap, gd_dpl = dpl\<rparr>)"

definition trap_init :: "nat \<Rightarrow> gate option" where
  "trap_init = fold (\<lambda>(i, dpl). SETGATE i False 0x08 dpl)
     [(0, 0), (1, 0), (3, 3), (4, 0), (5, 0), (6, 0), (7, 0), (8, 0), (9, 0), (10, 0), (11, 0),
      (12, 0), (13, 0), (14, 0), (16, 0), (48, 3), (32 + 0, 0), (32 + 1, 0), (32 + 4, 0),
      (32 + 7, 0), (32 + 14, 0), (32 + 19, 0)] (\<lambda>_. None)"

text \<open>The kernel stack on which CPU \<open>i\<close> enters the kernel (\<open>trap_init_percpu\<close>).\<close>

definition ts_esp0 :: "nat \<Rightarrow> u32" where
  "ts_esp0 i = KSTACKTOP - of_nat i * (KSTKSIZE + KSTKGAP)"

section \<open>Page faults\<close>

record utrapframe =
  utf_fault_va :: u32
  utf_err :: u32
  utf_regs :: push_regs
  utf_eip :: u32
  utf_eflags :: u32
  utf_esp :: u32

definition regs_bytes :: "push_regs \<Rightarrow> u8 list" where
  "regs_bytes r = concat (map word_bytes [reg_edi r, reg_esi r, reg_ebp r, reg_oesp r,
     reg_ebx r, reg_edx r, reg_ecx r, reg_eax r])"

definition utf_bytes :: "utrapframe \<Rightarrow> u8 list" where
  "utf_bytes u = word_bytes (utf_fault_va u) @ word_bytes (utf_err u) @ regs_bytes (utf_regs u)
     @ word_bytes (utf_eip u) @ word_bytes (utf_eflags u) @ word_bytes (utf_esp u)"

definition make_utf :: "u32 \<Rightarrow> trapframe \<Rightarrow> utrapframe" where
  "make_utf fault_va tf = \<lparr>utf_fault_va = fault_va, utf_err = tf_err tf, utf_regs = tf_regs tf,
     utf_eip = tf_eip tf, utf_eflags = tf_eflags tf, utf_esp = tf_esp tf\<rparr>"

definition exn_stacktop :: "u32 \<Rightarrow> u32" where
  "exn_stacktop esp = (if UXSTACKTOP - PGSIZE < esp \<and> esp < UXSTACKTOP then esp else UXSTACKTOP)"

text \<open>The upcall, in the current environment \<open>c\<close>; \<open>size\<close> is 52 + 4 bytes.\<close>

definition page_fault_upcall :: "u32 \<Rightarrow> trapframe \<Rightarrow> nat \<Rightarrow> kern \<Rightarrow> kern ctl option" where
  "page_fault_upcall fault_va tf c s =
     (let utr = exn_stacktop (tf_esp tf) - 56 in do {
        r \<leftarrow> user_mem_assert c utr 56 (PTE_U OR PTE_W) s;
        bind_ctl r (\<lambda>s. do {
          s \<leftarrow> store_bytes utr (utf_bytes (make_utf fault_va tf)) s;
          let s = upd_env c (\<lambda>x. x\<lparr>env_tf := (env_tf x)\<lparr>tf_eip := env_pgfault_upcall x,
                                                      tf_esp := utr\<rparr>\<rparr>) s;
          map_option UserMode (env_run c s) }) })"

definition page_fault_handler :: "u32 \<Rightarrow> trapframe \<Rightarrow> kern \<Rightarrow> kern ctl option" where
  "page_fault_handler fault_va tf s =
     (if tf_cs tf AND 3 = 0 then None
      else do {
        c \<leftarrow> curenv s;
        if env_pgfault_upcall (envs s c) \<noteq> 0 then page_fault_upcall fault_va tf c s
        else env_destroy c s })"

section \<open>Dispatch\<close>

text \<open>
  \<open>tf\<close> is the trap frame of the current environment, or the one on the kernel stack for a
  trap from kernel mode.  The result of a system call is stored into the frame: the frame
  of \<open>curenv\<close> when the trap came from user mode.
\<close>

definition trap_dispatch :: "u32 option \<Rightarrow> u32 \<Rightarrow> trapframe \<Rightarrow> kern \<Rightarrow> kern ctl option" where
  "trap_dispatch junk cr2 tf s =
     (let no = tf_trapno tf; r = tf_regs tf in
      if no = 14 then page_fault_handler cr2 tf s
      else if no = 3 then Some (InMonitor s)
      else if no = 48
      then do {
        v \<leftarrow> syscall junk (reg_eax r) (reg_edx r) (reg_ecx r) (reg_ebx r) (reg_edi r) (reg_esi r) s;
        bind_ctl v (\<lambda>(v, s'). if tf_cs tf AND 3 = 3
          then do {
            c \<leftarrow> curenv s;
            Some (Returned (upd_env c (\<lambda>x. x\<lparr>env_tf := (env_tf x)\<lparr>tf_regs :=
              (tf_regs (env_tf x))\<lparr>reg_eax := v\<rparr>\<rparr>\<rparr>) s')) }
          else Some (Returned s')) }
      else if no = 32 + 7 then Some (Returned s)
      else if no = 32 + 0
      then do {
        s \<leftarrow> time_tick s;
        y \<leftarrow> sched_yield s;
        bind_ctl y (\<lambda>_. Some (Returned s)) }
      else if no = 32 + 1
      then do { con \<leftarrow> kbd_intr (console s); Some (Returned (s\<lparr>console := con\<rparr>)) }
      else if no = 32 + 4
      then do { con \<leftarrow> serial_intr (console s); Some (Returned (s\<lparr>console := con\<rparr>)) }
      else if tf_cs tf = 0x08 then None
      else do { c \<leftarrow> curenv s; env_destroy c s })"

text \<open>
  \<open>trap\<close> never returns.  \<open>lock_kernel\<close> is the acquisition of the big lock, modelled in
  \<open>Spinlock\<close>: here it leaves the flag set, and the case that another CPU has panicked is a
  halt.
\<close>

definition trap :: "bool \<Rightarrow> u32 option \<Rightarrow> u32 \<Rightarrow> trapframe \<Rightarrow> kern \<Rightarrow> unit ctl option" where
  "trap panicked junk cr2 tf s =
     (if panicked then Some (Halted s)
      else let halted = (cpu_status (cpus s (cpunum s)) = CPU_HALTED);
          s = s\<lparr>cpus := (cpus s)(cpunum s := (cpus s (cpunum s))\<lparr>cpu_status := CPU_STARTED\<rparr>)\<rparr>;
          s = (if halted then s\<lparr>kernel_locked := True\<rparr> else s);
          after = (\<lambda>s. case curenv s of
             Some c \<Rightarrow> if env_status (envs s c) = ENV_RUNNING
                       then map_option UserMode (env_run c s) else sched_yield s
           | None \<Rightarrow> sched_yield s)
      in if tf_cs tf AND 3 = 3
         then let s = s\<lparr>kernel_locked := True\<rparr> in do {
           c \<leftarrow> curenv s;
           if env_status (envs s c) = ENV_DYING
           then do { s \<leftarrow> env_free c s; sched_yield (set_curenv None s) }
           else let s = upd_env c (\<lambda>x. x\<lparr>env_tf := tf\<rparr>) s in do {
             r \<leftarrow> trap_dispatch junk cr2 tf s;
             bind_ctl r after } }
         else do {
           r \<leftarrow> trap_dispatch junk cr2 tf s;
           bind_ctl r after })"

end
