(* ===== verification/UserAccess.thy ===== *)
theory UserAccess
  imports Env
begin

text \<open>
  Kernel accesses to user memory through the current page directory: under the page-table
  invariant a store to a user page changes that page only, leaves every translation as it
  is, and is read back.
\<close>

lemma translate_vmap:
  "mmu_translate s d va = map_option (\<lambda>e. frame_of e * 4096 + unat va mod 4096) (vmap s d (vpn va))"
  by (auto simp: mmu_translate_def vmap_def slot_def vpn_split present_def frame_PTE_ADDR Let_def wsimps)

definition user_page :: "kern \<Rightarrow> nat \<Rightarrow> u32 \<Rightarrow> bool" where
  "user_page s d va \<longleftrightarrow> va < UTOP \<and> maps s d (vpn va) \<noteq> None \<and> mmu_writable s d va"

definition phys :: "kern \<Rightarrow> nat \<Rightarrow> u32 \<Rightarrow> nat" where
  "phys s d va = the (maps s d (vpn va)) * 4096 + unat va mod 4096"

lemma translate_user: "user_page s d va \<Longrightarrow> mmu_translate s d va = Some (phys s d va)"
  by (auto simp: translate_vmap user_page_def phys_def maps_def)

text \<open>The state after one byte of the data page \<open>p\<close> has changed.\<close>

lemma data_write_slot:
  assumes "pmem t = (pmem s)(p * 4096 + off := b)" "off < 4096" "f \<noteq> p" "i < 1024"
  shows "slot t f i = slot s f i"
proof -
  have "f * 4096 + 4 * i + k \<noteq> p * 4096 + off" if "k < 4" for k
  proof
    assume e: "f * 4096 + 4 * i + k = p * 4096 + off"
    have "(f * 4096 + 4 * i + k) div 4096 = f" "(p * 4096 + off) div 4096 = p"
      using assms(2,4) that by (simp_all add: div_mult_self3 less_imp_diff_less)
    with e assms(3) show False by simp
  qed
  from this [of 0] this [of 1] this [of 2] this [of 3] show ?thesis
    by (simp add: slot_def load32_def rd32_def assms(1))
qed

lemma data_write_view:
  assumes inv: "vm_inv s fl D ext" and p: "p \<notin> structs s D"
    and t: "pmem t = (pmem s)(p * 4096 + off := b)" "off < 4096" and d: "d \<in> D"
  shows "i < 955 \<Longrightarrow> table_at t d i = table_at s d i"
    and "v < UVPN \<Longrightarrow> vmap t d v = vmap s d v"
    and "va < UTOP \<Longrightarrow> maps s d (vpn va) \<noteq> None \<Longrightarrow> mmu_writable t d va = mmu_writable s d va"
proof -
  have sl: "slot t f i = slot s f i" if "f \<noteq> p" "i < 1024" for f i
    using data_write_slot [OF t that] .
  have dp: "d \<noteq> p" using p dir_structs [OF d] by metis
  have tb: "table_at t d i = table_at s d i" if "i < 955" for i
    using sl [OF dp, of i] that by (simp add: table_at_def)
  then show "i < 955 \<Longrightarrow> table_at t d i = table_at s d i" .
  show "vmap t d v = vmap s d v" if "v < UVPN"
  proof (cases "table_at s d (v div 1024)")
    case None
    with tb [of "v div 1024"] that show ?thesis by (simp add: vmap_table_at)
  next
    case (Some f)
    then have "f \<noteq> p" using p table_structs [OF d _ Some] that by auto
    with tb [of "v div 1024"] that Some sl [of f "v mod 1024"] show ?thesis by (simp add: vmap_table_at)
  qed
  show "mmu_writable t d va = mmu_writable s d va" if va: "va < UTOP" and m: "maps s d (vpn va) \<noteq> None"
  proof -
    let ?i = "unat (PDX va)"
    have i: "?i < 955" by (rule pdx_user [OF va])
    obtain f where f: "table_at s d ?i = Some f"
      using m by (auto simp: maps_def vmap_table_at vpn_split split: option.splits)
    then have fp: "f \<noteq> p" using p table_structs [OF d i f] by auto
    have fr: "frame_of (slot s d ?i) = f" using f by (simp add: table_at_def split: if_splits)
    have "slot t d ?i = slot s d ?i" "slot t f (unat (PTX va)) = slot s f (unat (PTX va))"
      using sl [OF dp PDX_less] sl [OF fp PTX_less] by auto
    with fr show ?thesis unfolding mmu_writable_def Let_def frame_PTE_ADDR slot_def by simp
  qed
qed

lemma store8_user:
  assumes inv: "vm_inv s fl D ext" and d: "cr3 s \<in> D" and u: "user_page s (cr3 s) va"
  obtains t where "store8 va b s = Some t" "t = s\<lparr>pmem := (pmem s)(phys s (cr3 s) va := b)\<rparr>"
    "vm_inv t fl D ext"
    "\<And>d' v. d' \<in> D \<Longrightarrow> v < UVPN \<Longrightarrow> vmap t d' v = vmap s d' v"
    "\<And>va. user_page s (cr3 s) va \<Longrightarrow> user_page t (cr3 s) va"
proof -
  obtain p where p: "maps s (cr3 s) (vpn va) = Some p" using u by (auto simp: user_page_def)
  let ?t = "s\<lparr>pmem := (pmem s)(phys s (cr3 s) va := b)\<rparr>"
  have va: "va < UTOP" using u by (simp add: user_page_def)
  have ns: "p \<notin> structs s D" using vm_invD(5) [OF inv d vpn_user [OF va] p] by simp
  have pm: "pmem ?t = (pmem s)(p * 4096 + unat va mod 4096 := b)" using p by (simp add: phys_def)
  note V = data_write_view [OF inv ns pm]
  have st: "store8 va b s = Some ?t"
    using translate_user [OF u] u by (simp add: store8_def user_page_def)
  have "vm_inv ?t fl D ext"
  proof (rule vm_inv_cong [OF inv])
    show "pages_wf ?t fl" using vm_invD(1) [OF inv] pages_wf_cong [of ?t s fl] by simp
    show "struct_at ?t k = struct_at s k" if "k \<in> keys D" for k
      using that V(1) by (cases k) auto
    show "maps ?t d' v = maps s d' v" if "d' \<in> D" "v < UVPN" for d' v
      using V(2) that by (simp add: maps_def)
  qed simp_all
  moreover have "user_page ?t (cr3 s) va'" if "user_page s (cr3 s) va'" for va'
    using that V(2,3) [OF _ d] vpn_user by (auto simp: user_page_def maps_def)
  ultimately show ?thesis using that [OF st refl] V(2) by simp
qed

lemma phys_distinct:
  assumes "i < 4096" "j < 4096" "i \<noteq> j"
  shows "phys s d (va + of_nat i) \<noteq> phys s d (va + of_nat j)"
proof -
  have m: "unat (va + of_nat k) mod 4096 = (unat va + k) mod 4096" if "k < 4096" for k
    using that by (simp add: unat_word_ariths unat_of_nat32 mod_mod_cancel)
  have "(unat va + i) mod 4096 \<noteq> (unat va + j) mod 4096"
  proof
    assume "(unat va + i) mod 4096 = (unat va + j) mod 4096"
    then have "i mod 4096 = j mod 4096" by (simp add: nat_mod_eq_iff)
    with assms show False by simp
  qed
  then have "phys s d (va + of_nat i) mod 4096 \<noteq> phys s d (va + of_nat j) mod 4096"
    using m assms by (simp add: phys_def)
  then show ?thesis by auto
qed

lemma store_bytes_user:
  assumes "vm_inv s fl D ext" "cr3 s \<in> D" "length bs \<le> 4096"
    and "\<And>i. i < length bs \<Longrightarrow> user_page s (cr3 s) (va + of_nat i)"
  shows "\<exists>t. store_bytes va bs s = Some t \<and> t = s\<lparr>pmem := pmem t\<rparr> \<and> vm_inv t fl D ext \<and>
    (\<forall>d \<in> D. \<forall>v < UVPN. vmap t d v = vmap s d v) \<and>
    (\<forall>i < length bs. pmem t (phys s (cr3 s) (va + of_nat i)) = bs ! i) \<and>
    (\<forall>a. (\<forall>i < length bs. a \<noteq> phys s (cr3 s) (va + of_nat i)) \<longrightarrow> pmem t a = pmem s a)"
  using assms
proof (induction bs arbitrary: va s)
  case Nil
  then show ?case by simp
next
  case (Cons b bs)
  from Cons.prems(4) [of 0] have u0: "user_page s (cr3 s) va" by simp
  obtain u where u: "store8 va b s = Some u" "u = s\<lparr>pmem := (pmem s)(phys s (cr3 s) va := b)\<rparr>"
    "vm_inv u fl D ext" "\<And>d' v. d' \<in> D \<Longrightarrow> v < UVPN \<Longrightarrow> vmap u d' v = vmap s d' v"
    "\<And>va. user_page s (cr3 s) va \<Longrightarrow> user_page u (cr3 s) va"
    using store8_user [OF Cons.prems(1,2) u0, of b thesis] by blast
  have c: "cr3 u = cr3 s" using u(2) by simp
  have up: "user_page s (cr3 s) (va + 1 + of_nat i)" if "i < length bs" for i
    using Cons.prems(4) [of "Suc i"] that by (simp add: ac_simps)
  have ph: "phys u (cr3 s) va' = phys s (cr3 s) va'" if "user_page s (cr3 s) va'" for va'
    using u(4) [OF Cons.prems(2) vpn_user] that by (simp add: phys_def maps_def user_page_def)
  obtain t where t: "store_bytes (va + 1) bs u = Some t" "t = u\<lparr>pmem := pmem t\<rparr>" "vm_inv t fl D ext"
    "\<forall>d \<in> D. \<forall>v < UVPN. vmap t d v = vmap u d v"
    "\<forall>i < length bs. pmem t (phys u (cr3 u) (va + 1 + of_nat i)) = bs ! i"
    "\<forall>a. (\<forall>i < length bs. a \<noteq> phys u (cr3 u) (va + 1 + of_nat i)) \<longrightarrow> pmem t a = pmem u a"
    using Cons.IH [OF u(3), of "va + 1"] Cons.prems(2,3) u(5) up c by auto
  have ph': "phys u (cr3 u) (va + 1 + of_nat i) = phys s (cr3 s) (va + of_nat (Suc i))" if "i < length bs" for i
    using ph [OF up [OF that]] c by (simp add: ac_simps)
  have rest: "pmem t a = pmem u a" if "\<And>i. i < length bs \<Longrightarrow> a \<noteq> phys s (cr3 s) (va + of_nat (Suc i))" for a
    using t(6) that ph' by simp
  have "pmem t (phys s (cr3 s) va) = b"
  proof -
    have "phys s (cr3 s) va \<noteq> phys s (cr3 s) (va + of_nat (Suc i))" if "i < length bs" for i
      using phys_distinct [of 0 "Suc i" s "cr3 s" va] that Cons.prems(3) by simp
    then show ?thesis using rest [of "phys s (cr3 s) va"] u(2) by simp
  qed
  moreover have "pmem t (phys s (cr3 s) (va + of_nat (Suc i))) = bs ! i" if "i < length bs" for i
    using t(5) that unfolding ph' [OF that, symmetric] by simp
  ultimately have vals: "pmem t (phys s (cr3 s) (va + of_nat i)) = (b # bs) ! i" if "i < length (b # bs)" for i
    using that by (cases i) simp_all
  have out: "pmem t a = pmem s a" if "\<forall>i < length (b # bs). a \<noteq> phys s (cr3 s) (va + of_nat i)" for a
  proof -
    have "pmem t a = pmem u a" by (rule rest) (use that in \<open>simp only: list.size\<close>, auto)
    moreover have "a \<noteq> phys s (cr3 s) va" using that [rule_format, of 0] by simp
    ultimately show ?thesis using u(2) by simp
  qed
  have "t = s\<lparr>pmem := pmem t\<rparr>" using t(2) u(2) by simp
  moreover have "\<forall>d \<in> D. \<forall>v < UVPN. vmap t d v = vmap s d v" using t(4) u(4) by simp
  moreover have "store_bytes va (b # bs) s = Some t" using u(1) t(1) by simp
  ultimately show ?case using t(3) vals out by blast
qed

lemma load_bytes_map:
  "(\<And>i. i < n \<Longrightarrow> load8 (va + of_nat i) s = Some (f i)) \<Longrightarrow> load_bytes va n s = Some (map f [0..<n])"
proof (induction n arbitrary: va f)
  case 0
  then show ?case by simp
next
  case (Suc n)
  have "load8 (va + 1 + of_nat i) s = Some (f (Suc i))" if "i < n" for i
    using Suc.prems [of "Suc i"] that by (simp add: ac_simps)
  from Suc.IH [of "va + 1" "\<lambda>i. f (Suc i)", OF this] Suc.prems [of 0]
  show ?case by (simp add: upt_conv_Cons map_Suc_upt [symmetric] comp_def del: upt_Suc)
qed

lemma store_load_user:
  assumes inv: "vm_inv s fl D ext" and d: "cr3 s \<in> D" and len: "length bs \<le> 4096"
    and u: "\<And>i. i < length bs \<Longrightarrow> user_page s (cr3 s) (va + of_nat i)"
    and st: "store_bytes va bs s = Some t"
  shows "load_bytes va (length bs) t = Some bs"
proof -
  from store_bytes_user [OF inv d len u] st
  have t: "t = s\<lparr>pmem := pmem t\<rparr>" "\<forall>d \<in> D. \<forall>v < UVPN. vmap t d v = vmap s d v"
    "\<forall>i < length bs. pmem t (phys s (cr3 s) (va + of_nat i)) = bs ! i" by auto
  have "load8 (va + of_nat i) t = Some (bs ! i)" if "i < length bs" for i
  proof -
    have c: "cr3 t = cr3 s" using arg_cong [OF t(1), of cr3] by simp
    have "vmap t (cr3 s) (vpn (va + of_nat i)) = vmap s (cr3 s) (vpn (va + of_nat i))"
      using t(2) d vpn_user u [OF that] by (simp add: user_page_def)
    then have "mmu_translate t (cr3 t) (va + of_nat i) = Some (phys s (cr3 s) (va + of_nat i))"
      using translate_user [OF u [OF that]] c by (simp add: translate_vmap)
    then show ?thesis using t(3) that by (simp add: load8_def)
  qed
  from load_bytes_map [of "length bs" va t "\<lambda>i. bs ! i", OF this] show ?thesis by (simp add: map_nth)
qed

section \<open>Address spaces of one page\<close>

text \<open>The directory \<open>d\<close> has one table, \<open>t\<close>, in entry \<open>ti\<close>, and that maps one page, in entry \<open>tj\<close>.\<close>

lemma single_page:
  assumes t: "\<forall>i < 955. table_at s d i = (if i = ti then Some t else None)"
    and sl: "\<forall>j < 1024. slot s t j = (if j = tj then e else 0)" and e: "present e" and v: "v < UVPN" and ij: "ti < 955" "tj < 1024"
  shows "vmap s d v = (if v = ti * 1024 + tj then Some e else None)"
proof -
  have "v div 1024 < 955" using v by auto
  moreover have "v = ti * 1024 + tj \<longleftrightarrow> v div 1024 = ti \<and> v mod 1024 = tj"
  proof
    assume "v div 1024 = ti \<and> v mod 1024 = tj"
    then show "v = ti * 1024 + tj" using div_mod_decomp [of v 1024] by (simp only:)
  qed (use ij in simp)
  moreover have "\<not> present 0" by (simp add: present_def)
  moreover have "slot s t (v mod 1024) = (if v mod 1024 = tj then e else 0)" using sl by simp
  ultimately show ?thesis using e t by (cases "v mod 1024 = tj") (simp_all add: vmap_table_at)
qed

lemma single_page_structs:
  assumes "\<forall>i < 955. table_at s d i = (if i = ti then Some t else None)"
    and "ti < 955"
  shows "structs s {d} = {d, t}"
proof
  show "structs s {d} \<subseteq> {d, t}" using assms by (auto simp: structs_def keys_def split: if_splits)
  have "table_at s d ti = Some t" using assms by simp
  then show "{d, t} \<subseteq> structs s {d}" using dir_structs [of d "{d}" s] table_structs [of d "{d}" ti s t] assms(2) by simp
qed

lemma single_page_inv:
  assumes t: "\<forall>i < 955. table_at s d i = (if i = ti then Some t else None)"
    and sl: "\<forall>j < 1024. slot s t j = (if j = tj then e else 0)" and e: "present e" "frame_of e = p"
    and ij: "ti < 955" "tj < 1024" and wf: "pages_wf s fl" and bound: "d < npages s" "t < npages s" "p < npages s"
    and ne: "d \<noteq> t" "p \<noteq> d" "p \<noteq> t" and refs: "pp_ref (pages s d) = 1" "pp_ref (pages s t) = 1"
      "\<forall>q < npages s. q \<noteq> d \<and> q \<noteq> t \<longrightarrow> (if q = p then 1 else 0) + ext q = unat (pp_ref (pages s q))"
    and ext: "ext d = 0" "ext t = 0"
  shows "vm_inv s fl {d} ext"
proof (rule vm_invI)
  have T: "i = ti \<and> f = t" if "table_at s d i = Some f" "i < 955" for i f
    using t that by (metis option.distinct(1) option.inject)
  note V = single_page [OF t sl e(1) _ ij] and S = single_page_structs [OF t ij(1)]
  show "f < npages s \<and> pp_ref (pages s f) = 1" if "k \<in> keys {d}" "struct_at s k = Some f" for k f
    using structsI [OF that] bound refs(1,2) unfolding S by auto
  show "k = k'" if "k \<in> keys {d}" "k' \<in> keys {d}" "struct_at s k = Some f" "struct_at s k' = Some f" for k k' f
    using that ne(1) by (cases k; cases k') (auto, (use T in metis)+)
  show "q < npages s \<and> q \<notin> structs s {d}" if "d' \<in> {d}" "v < UVPN" "maps s d' v = Some q" for d' v q
    using that bound(3) ne e(2) V [OF that(2)] unfolding S by (auto simp: maps_def split: if_splits)
  show "card (data_refs (maps s) {d} q) + ext q = unat (pp_ref (pages s q))"
    if "q < npages s" "q \<notin> structs s {d}" for q
  proof -
    have M: "maps s d v = Some q \<longleftrightarrow> q = p \<and> v = ti * 1024 + tj" if "v < UVPN" for v
      using V [OF that] e(2) by (auto simp: maps_def)
    have "data_refs (maps s) {d} q = {(d, v) | v. v < UVPN \<and> q = p \<and> v = ti * 1024 + tj}"
      unfolding data_refs_def using M by blast
    also have "\<dots> = (if q = p then {(d, ti * 1024 + tj)} else {})"
    proof -
      have "ti * 1024 + tj < UVPN" using ij by linarith
      then show ?thesis by auto
    qed
    finally have "data_refs (maps s) {d} q = (if q = p then {(d, ti * 1024 + tj)} else {})" .
    with refs(3) that show ?thesis unfolding S by auto
  qed
qed (use wf ext in \<open>auto simp: single_page_structs [OF t ij(1)]\<close>)

section \<open>An example machine\<close>

text \<open>
  Four pages: the directory of the running environment 0 in page 1, one page table in page
  2, and page 3 mapped writable at the last page below UXSTACKTOP.
\<close>

definition ex_mapped :: kern where
  "ex_mapped = store32 (2 * 4096 + 4 * 1023) 0x3007 (store32 (1 * 4096 + 4 * 954) 0x2007
     (kern0\<lparr>npages := 4, pages := (\<lambda>p. \<lparr>pp_link = None, pp_ref = 1\<rparr>), cr3 := 1,
        envs := (envs kern0)(0 := env0\<lparr>env_status := ENV_RUNNING, env_id := 0x1000,
          env_pgdir := Some 1, env_pgfault_upcall := 0x00800020\<rparr>),
        cpus := (cpus kern0)(0 := \<lparr>cpu_status = CPU_STARTED, cpu_env = Some 0\<rparr>)\<rparr>))"

lemma ex_mapped_sel [simp]:
  "npages ex_mapped = 4" "cr3 ex_mapped = 1" "pages ex_mapped p = \<lparr>pp_link = None, pp_ref = 1\<rparr>"
  "page_free_list ex_mapped = None" "curenv ex_mapped = Some 0"
  "env_pgdir (envs ex_mapped 0) = Some 1" "env_pgfault_upcall (envs ex_mapped 0) = 0x00800020"
  "env_status (envs ex_mapped 0) = ENV_RUNNING" "env_id (envs ex_mapped 0) = 0x1000"
  by (simp_all add: ex_mapped_def store32_def curenv_def kern0_def)

lemma ex_mapped_slot:
  assumes "i < 1024"
  shows "slot ex_mapped f i = (if f = 2 \<and> i = 1023 then 0x3007
    else if f = 1 \<and> i = 954 then 0x2007 else 0)"
proof -
  let ?k = "kern0\<lparr>npages := 4, pages := (\<lambda>p. \<lparr>pp_link = None, pp_ref = 1\<rparr>), cr3 := 1,
        envs := (envs kern0)(0 := env0\<lparr>env_status := ENV_RUNNING, env_id := 0x1000,
          env_pgdir := Some 1, env_pgfault_upcall := 0x00800020\<rparr>),
        cpus := (cpus kern0)(0 := \<lparr>cpu_status = CPU_STARTED, cpu_env = Some 0\<rparr>)\<rparr>"
  have z: "slot ?k f i = 0" by (simp add: slot_def load32_def rd32_def kern0_def)
  show ?thesis
    unfolding ex_mapped_def using slot_store [OF _ assms, of 1023 2] slot_store [OF _ assms, of 954 1] z
    by auto
qed

lemma xpage_user: "unat va div 4096 = 954 * 1024 + 1023 \<Longrightarrow> va < UTOP"
  using dividend_less_div_times [of 4096 "unat va"] by (simp add: word_less_nat_alt)

declare One_nat_def [simp del]

lemma ex_mapped_table:
  "i < 955 \<Longrightarrow> table_at ex_mapped 1 i = (if i = 954 then Some 2 else None)"
  by (simp add: table_at_def ex_mapped_slot present_def frame_of_def)

lemma ex_mapped_vmap:
  assumes "v < UVPN"
  shows "vmap ex_mapped 1 v = (if v = 954 * 1024 + 1023 then Some 0x3007 else None)"
  by (rule single_page [where t = 2 and ti = 954 and tj = 1023]) (use assms in \<open>simp_all add: ex_mapped_table ex_mapped_slot present_def\<close>)

lemma ex_mapped_structs: "structs ex_mapped {1} = {1, 2}"
  by (rule single_page_structs [where ti = 954]) (simp_all add: ex_mapped_table)

lemma vm_inv_ex_mapped: "vm_inv ex_mapped [] {1} (\<lambda>p. if p = 0 then 1 else 0)"
  by (rule single_page_inv [where t = 2 and ti = 954 and tj = 1023 and e = "0x3007" and p = 3])
    (auto simp: ex_mapped_table ex_mapped_slot present_def frame_of_def pages_wf_def)

lemma ex_mapped_user_page:
  assumes "unat va div 4096 = 954 * 1024 + 1023"
  shows "user_page ex_mapped 1 va"
proof -
  have v: "vpn va = 954 * 1024 + 1023" using assms by (simp add: vpn_def)
  then have px: "unat (PDX va) = 954" "unat (PTX va) = 1023" using vpn_split [of va] by simp_all
  have "va < UTOP" by (rule xpage_user [OF assms])
  moreover have "maps ex_mapped 1 (vpn va) \<noteq> None" by (simp add: maps_def v ex_mapped_vmap)
  moreover have "mmu_writable ex_mapped 1 va"
    using ex_mapped_slot [of 954 1] ex_mapped_slot [of 1023 2]
    by (simp add: mmu_writable_def px Let_def slot_def frame_PTE_ADDR frame_of_def)
  ultimately show ?thesis by (simp add: user_page_def)
qed

declare One_nat_def [simp]

end
