(* ===== verification/UserMem.thy ===== *)
theory UserMem
  imports Sched
begin

text \<open>
  What \<open>user_mem_check\<close> decides.  For a range that does not wrap around the end of the
  address space it terminates and accepts exactly when every page the range touches is
  below ULIM and mapped with the permissions; for a range that wraps it accepts without
  looking at any page.
\<close>

definition tables_ok :: "kern \<Rightarrow> nat \<Rightarrow> bool" where
  "tables_ok s d \<longleftrightarrow> (\<forall>i < 1024. \<forall>f. table_at s d i = Some f \<longrightarrow> f < npages s)"

definition page_ok :: "kern \<Rightarrow> nat \<Rightarrow> u32 \<Rightarrow> nat \<Rightarrow> bool" where
  "page_ok s d perm v \<longleftrightarrow> v * 4096 < unat (ULIM :: u32) \<and> (\<exists>e. vmap s d v = Some e \<and> e AND perm = perm)"

lemma walk_lookup:
  assumes "tables_ok s d"
  shows "pgdir_walk d va False s = Some (case table_at s d (unat (PDX va)) of None \<Rightarrow> None
    | Some f \<Rightarrow> Some (f * 4096 + 4 * unat (PTX va)), s)"
  using assms walk_absent [of s d va] walk_present [of s d va] PDX_less [of va]
  by (auto simp: tables_ok_def split: option.splits)

text \<open>The test the loop makes at the page of \<open>p\<close>.\<close>

lemma page_test:
  assumes "tables_ok s d"
  shows "(\<exists>pte. pgdir_walk d p False s = Some (pte, s) \<and>
     ((ULIM \<le> p \<or> pte = None \<or> load32 s (the pte) AND PTE_P = 0 \<or> load32 s (the pte) AND perm \<noteq> perm)
        \<longleftrightarrow> \<not> (p < ULIM \<and> (\<exists>e. vmap s d (vpn p) = Some e \<and> e AND perm = perm))))"
proof (cases "table_at s d (unat (PDX p))")
  case None
  then show ?thesis using walk_lookup [OF assms, of p] by (auto simp: vmap_table_at vpn_split)
next
  case (Some f)
  then show ?thesis
    using walk_lookup [OF assms, of p]
    by (auto simp: vmap_table_at vpn_split slot_def present_def not_less)
qed

lemma user_mem_check_loop_run:
  assumes "tables_ok s d" "unat end = 4096 * n" "unat p = 4096 * k" "k \<le> n"
  shows "user_mem_check_loop d va perm end p s =
    (case find (\<lambda>v. \<not> page_ok s d perm v) [k..<n] of
       None \<Rightarrow> Some (Inr (), s)
     | Some v \<Rightarrow> Some (Inl E_FAULT, s\<lparr>user_mem_check_addr :=
                   (if of_nat (4096 * v) < va then va else of_nat (4096 * v))\<rparr>))"
  using assms(2-)
proof (induction "n - k" arbitrary: k p)
  case 0
  then have "\<not> p < end" by (simp add: word_less_nat_alt)
  with 0 show ?case by (simp add: user_mem_check_loop.simps)
next
  case (Suc j)
  then have kn: "k < n" by simp
  then have lt: "p < end" using Suc.prems by (simp add: word_less_nat_alt)
  have p: "p = of_nat (4096 * k)" using Suc.prems(2) by (metis of_nat_unat ucast_id)
  have v: "vpn p = k" using Suc.prems(2) by (simp add: vpn_def)
  have up: "[k..<n] = k # [Suc k..<n]" using kn by (rule upt_conv_Cons)
  obtain pte where w: "pgdir_walk d p False s = Some (pte, s)"
    and t: "(ULIM \<le> p \<or> pte = None \<or> load32 s (the pte) AND PTE_P = 0 \<or> load32 s (the pte) AND perm \<noteq> perm)
        \<longleftrightarrow> \<not> page_ok s d perm k"
    using page_test [OF assms(1), of p perm] Suc.prems(2)
    unfolding v page_ok_def word_less_nat_alt by (auto simp: mult.commute)
  have step: "user_mem_check_loop d va perm end p s =
      (if page_ok s d perm k then user_mem_check_loop d va perm end (p + PGSIZE) s
       else Some (Inl E_FAULT, s\<lparr>user_mem_check_addr := (if p < va then va else p)\<rparr>))"
    using lt w t by (subst user_mem_check_loop.simps) simp
  show ?case
  proof (cases "page_ok s d perm k")
    case True
    have "unat (p + PGSIZE) = 4096 * Suc k"
      using Suc.prems kn unat_less_32 [of "end"] by (subst unat_add_no_wrap) simp_all
    with Suc.hyps(1) [of "Suc k" "p + PGSIZE"] Suc.hyps(2) Suc.prems kn True show ?thesis
      unfolding step up by simp
  next
    case False
    then show ?thesis unfolding step up by (simp del: of_nat_mult of_nat_numeral flip: p)
  qed
qed

lemma unat_ROUNDUP:
  assumes "unat a + 4095 < 2 ^ 32"
  shows "unat (ROUNDUP a PGSIZE) = 4096 * ((unat a + 4095) div 4096)"
proof -
  have "unat (a + PGSIZE - 1) = unat a + 4095"
    using assms unat_add_no_wrap [of a 4095] by (simp add: add_diff_eq [symmetric])
  then show ?thesis
    by (simp add: ROUNDUP_def wsimps minus_mod_eq_mult_div)
qed

lemma user_mem_check_find:
  assumes "env_pgdir (envs s e) = Some d" "tables_ok s d" "unat va + unat len + 4095 < 2 ^ 32"
  shows "user_mem_check e va len perm s =
    (case find (\<lambda>v. \<not> page_ok s d perm v) [vpn va..<(unat va + unat len + 4095) div 4096] of
       None \<Rightarrow> Some (Inr (), s)
     | Some v \<Rightarrow> Some (Inl E_FAULT, s\<lparr>user_mem_check_addr :=
                   (if of_nat (4096 * v) < va then va else of_nat (4096 * v))\<rparr>))"
proof -
  let ?n = "(unat va + unat len + 4095) div 4096"
  have e: "unat (ROUNDUP (va + len) PGSIZE) = 4096 * ?n"
    using assms(3) by (subst unat_ROUNDUP) (simp_all add: unat_add_no_wrap)
  have p: "unat (ROUNDDOWN va PGSIZE) = 4096 * vpn va"
    by (simp add: wsimps vpn_def minus_mod_eq_mult_div)
  have le: "vpn va \<le> ?n" by (simp add: vpn_def div_le_mono)
  show ?thesis
    unfolding user_mem_check_def Let_def
    using user_mem_check_loop_run [OF assms(2) e p le] assms(1) by simp
qed

lemma user_mem_check_ok:
  assumes "env_pgdir (envs s e) = Some d" "tables_ok s d" "unat va + unat len + 4095 < 2 ^ 32"
    "\<And>v. vpn va \<le> v \<Longrightarrow> v < (unat va + unat len + 4095) div 4096 \<Longrightarrow> page_ok s d perm v"
  shows "user_mem_check e va len perm s = Some (Inr (), s)"
proof -
  have "find (\<lambda>v. \<not> page_ok s d perm v) [vpn va..<(unat va + unat len + 4095) div 4096] = None"
    using assms(4) by (simp add: find_None_iff)
  then show ?thesis unfolding user_mem_check_find [OF assms(1-3)] by simp
qed

text \<open>
  C15: for a range that does not wrap, \<open>user_mem_check\<close> returns, succeeds exactly when every
  page from the one of \<open>va\<close> up to the rounded end is mapped below ULIM with all of \<open>perm\<close>,
  and otherwise fails with E_FAULT and the first bad address, which lies in the range (or
  is \<open>va\<close> itself); nothing else of the state changes.
\<close>

theorem user_mem_check_decides:
  assumes "env_pgdir (envs s e) = Some d" "tables_ok s d" "unat va + unat len + 4095 < 2 ^ 32"
  shows "(if \<forall>v \<in> {vpn va..<(unat va + unat len + 4095) div 4096}. page_ok s d perm v
          then user_mem_check e va len perm s = Some (Inr (), s)
          else \<exists>v \<in> {vpn va..<(unat va + unat len + 4095) div 4096}.
            \<not> page_ok s d perm v \<and> (\<forall>w \<in> {vpn va..<v}. page_ok s d perm w) \<and>
            user_mem_check e va len perm s = Some (Inl E_FAULT, s\<lparr>user_mem_check_addr :=
              (if of_nat (4096 * v) < va then va else of_nat (4096 * v))\<rparr>))"
proof -
  let ?n = "(unat va + unat len + 4095) div 4096"
  note run = user_mem_check_find [OF assms, of perm]
  show ?thesis
  proof (cases "find (\<lambda>v. \<not> page_ok s d perm v) [vpn va..<?n]")
    case None
    have "user_mem_check e va len perm s = Some (Inr (), s)" using run unfolding None by simp
    moreover have ok: "\<forall>v \<in> {vpn va..<?n}. page_ok s d perm v" using None by (simp add: find_None_iff)
    ultimately show ?thesis unfolding if_P [OF ok] by blast
  next
    case (Some v)
    then obtain i where i: "i < ?n - vpn va" "\<not> page_ok s d perm v" "v = vpn va + i"
      "\<forall>j < i. page_ok s d perm (vpn va + j)"
      by (auto simp: find_Some_iff)
    have "page_ok s d perm w" if "w \<in> {vpn va..<v}" for w
    proof -
      from that i(3) have "w - vpn va < i" "vpn va + (w - vpn va) = w" by auto
      with i(4) show ?thesis by metis
    qed
    moreover have "v \<in> {vpn va..<?n}" using i(1,3) by simp
    moreover have "user_mem_check e va len perm s = Some (Inl E_FAULT, s\<lparr>user_mem_check_addr :=
         (if of_nat (4096 * v) < va then va else of_nat (4096 * v))\<rparr>)"
      using run unfolding Some by simp
    moreover from i(2) \<open>v \<in> {vpn va..<?n}\<close>
    have bad: "\<not> (\<forall>v \<in> {vpn va..<?n}. page_ok s d perm v)" by blast
    ultimately show ?thesis unfolding if_not_P [OF bad] using i(2) by blast
  qed
qed

text \<open>
  A range that wraps around the end of the address space is accepted without a look at
  any page: the end, computed modulo \<open>2 ^ 32\<close>, is below the start.
\<close>

theorem user_mem_check_wraps:
  assumes "env_pgdir (envs s e) = Some d" "2 ^ 32 \<le> unat va + unat len"
    "unat va + unat len - 2 ^ 32 \<le> 4096 * vpn va"
  shows "user_mem_check e va len perm s = Some (Inr (), s)"
proof -
  let ?stop = "unat va + unat len - 2 ^ 32"
  have "unat (va + len) = ?stop"
    using assms(2) unat_less_32 [of va] unat_less_32 [of len]
    by (simp add: unat_word_ariths le_mod_geq)
  then have "unat (ROUNDUP (va + len) PGSIZE) \<le> 4096 * vpn va"
  proof (cases "?stop + 4095 < 2 ^ 32")
    case True
    have "(?stop + 4095) div 4096 \<le> (4096 * vpn va + 4095) div 4096"
      using assms(3) by (intro div_le_mono) simp
    then show ?thesis
      using \<open>unat (va + len) = ?stop\<close> True by (subst unat_ROUNDUP) simp_all
  next
    case False
    moreover have "vpn va < 1048576"
      using unat_less_32 [of va] by (simp add: vpn_def div_less_iff_less_mult)
    ultimately show ?thesis using assms(3) by simp
  qed
  moreover have "unat (ROUNDDOWN va PGSIZE) = 4096 * vpn va"
    by (simp add: wsimps vpn_def minus_mod_eq_mult_div)
  ultimately have "\<not> ROUNDDOWN va PGSIZE < ROUNDUP (va + len) PGSIZE"
    by (simp add: word_less_nat_alt)
  then show ?thesis
    using assms(1) by (simp add: user_mem_check_def Let_def user_mem_check_loop.simps)
qed

definition ex_user :: kern where
  "ex_user = upd_env 0 (\<lambda>x. x\<lparr>env_status := ENV_RUNNING, env_pgdir := Some 1\<rparr>) kern0"

text \<open>The whole of the kernel's memory passes as user-readable and writable.\<close>

theorem user_mem_check_wraps_witness:
  "user_mem_check 0 0xF0000000 0x10000000 7 ex_user = Some (Inr (), ex_user)"
  using user_mem_check_wraps [of ex_user 0 1 "0xF0000000" "0x10000000" 7]
  by (simp add: ex_user_def upd_env_def vpn_def)

theorem user_mem_check_decides_witness:
  "user_mem_check 0 0x00800010 4 7 ex_user =
     Some (Inl E_FAULT, ex_user\<lparr>user_mem_check_addr := 0x00800010\<rparr>)"
proof -
  have t: "table_at ex_user 1 i = None" for i
    by (simp add: table_at_def slot_def load32_def rd32_def ex_user_def upd_env_def kern0_def present_def)
  then have "tables_ok ex_user 1" by (simp add: tables_ok_def)
  moreover have np: "\<not> page_ok ex_user 1 7 v" for v by (simp add: page_ok_def vmap_table_at t [unfolded One_nat_def])
  moreover have "env_pgdir (envs ex_user 0) = Some 1" by (simp add: ex_user_def upd_env_def)
  moreover have "{2048..<2049 :: nat} = {2048}" by auto
  ultimately show ?thesis
    using user_mem_check_decides [of ex_user 0 1 "0x00800010" 4 7] by (simp add: vpn_def)
qed

end
