(* ===== verification/TrapProps.thy ===== *)
theory TrapProps
  imports Trap UserAccess UserMem
begin

text \<open>
  The traps: which vectors user code may raise, the kernel stacks of the CPUs, and the
  frame the page fault handler builds on the user exception stack.
\<close>

text \<open>
  User code can enter the kernel by an \<open>int\<close> instruction only through the breakpoint and
  the system call vector, and every gate leads to the kernel code segment with interrupts
  disabled.
\<close>

theorem trap_init_gates:
  "((\<exists>g. trap_init i = Some g \<and> gd_dpl g = 3) \<longleftrightarrow> i \<in> {3, 48}) \<and>
   (trap_init i = Some g \<longrightarrow> gd_sel g = 0x08 \<and> \<not> gd_istrap g)"
  by (auto simp: trap_init_def SETGATE_def split: if_splits)

theorem trap_init_gates_witness: "gd_sel (the (trap_init 14)) = 0x08"
  using trap_init_gates [of 14 "the (trap_init 14)"] by (simp add: trap_init_def SETGATE_def)

text \<open>
  The kernel stacks of the eight CPUs, with their guard gaps, lie between MMIOLIM and
  KERNBASE and do not overlap.
\<close>

lemma unat_ts_esp0: "i < 8 \<Longrightarrow> unat (ts_esp0 i) = 0xF0000000 - i * 0x10000"
  by (simp add: ts_esp0_def unat_sub_if' unat_word_ariths unat_of_nat32)

theorem kernel_stacks_disjoint:
  assumes "i < 8" "j < 8" "i \<noteq> j"
  shows "{unat (ts_esp0 i - KSTKSIZE)..<unat (ts_esp0 i)} \<inter>
      {unat (ts_esp0 j - KSTKSIZE - KSTKGAP)..<unat (ts_esp0 j)} = {} \<and>
    unat (MMIOLIM :: u32) < unat (ts_esp0 i - KSTKSIZE) \<and> ts_esp0 i \<le> KERNBASE"
proof -
  have u: "unat (ts_esp0 k - KSTKSIZE) = 0xF0000000 - k * 0x10000 - 0x8000"
    "unat (ts_esp0 k - KSTKSIZE - KSTKGAP) = 0xF0000000 - k * 0x10000 - 0x10000" if "k < 8" for k
    using that unat_ts_esp0 [OF that] by (simp_all add: unat_sub word_le_nat_alt diff_diff_eq)
  show ?thesis
    using assms unat_ts_esp0 [OF assms(1)] unat_ts_esp0 [OF assms(2)] u [OF assms(1)] u [OF assms(2)]
    by (cases "i < j") (auto simp: word_le_nat_alt)
qed

theorem kernel_stacks_disjoint_witness:
  "{unat (ts_esp0 0 - KSTKSIZE)..<unat (ts_esp0 0)} \<inter>
      {unat (ts_esp0 1 - KSTKSIZE - KSTKGAP)..<unat (ts_esp0 1)} = {}"
  using kernel_stacks_disjoint [of 0 1] by simp

section \<open>The user exception stack\<close>

lemma length_word_bytes [simp]: "length (word_bytes v) = 4"
  by (simp add: word_bytes_def)

lemma length_regs_bytes [simp]: "length (regs_bytes r) = 32"
  by (simp add: regs_bytes_def word_bytes_def)

lemma length_utf_bytes [simp]: "length (utf_bytes u) = 52"
  by (simp add: utf_bytes_def)

text \<open>Reading the frame back, as the user-level return code does.\<close>

definition read_utf :: "u8 list \<Rightarrow> utrapframe" where
  "read_utf bs = \<lparr>utf_fault_va = bytes32 bs 0, utf_err = bytes32 bs 4,
     utf_regs = \<lparr>reg_edi = bytes32 bs 8, reg_esi = bytes32 bs 12, reg_ebp = bytes32 bs 16,
        reg_oesp = bytes32 bs 20, reg_ebx = bytes32 bs 24, reg_edx = bytes32 bs 28,
        reg_ecx = bytes32 bs 32, reg_eax = bytes32 bs 36\<rparr>,
     utf_eip = bytes32 bs 40, utf_eflags = bytes32 bs 44, utf_esp = bytes32 bs 48\<rparr>"

lemma bytes32_word: "bytes32 (word_bytes v @ rest) 0 = v"
  using join_bytes [of v] by (simp add: bytes32_def rd32_def word_bytes_def)

lemma bytes32_skip: "4 \<le> n \<Longrightarrow> bytes32 (word_bytes v @ rest) n = bytes32 rest (n - 4)"
proof -
  assume "4 \<le> n"
  then obtain k where n: "n = 4 + k" using le_Suc_ex by blast
  have "(word_bytes v @ rest) ! (4 + k + j) = rest ! (k + j)" for j
    by (simp add: nth_append)
  from this [of 0] this [of 1] this [of 2] this [of 3] show ?thesis
    unfolding n by (simp add: bytes32_def rd32_def add.assoc)
qed

lemma read_utf_bytes: "read_utf (utf_bytes u) = u"
  by (simp add: read_utf_def utf_bytes_def regs_bytes_def bytes32_skip bytes32_word
      bytes32_word [of _ "[]", simplified])

lemma load8_frame: "pmem s' = pmem s \<Longrightarrow> cr3 s' = cr3 s \<Longrightarrow> load8 va s' = load8 va s"
proof -
  assume a: "pmem s' = pmem s" "cr3 s' = cr3 s"
  then have "load32 s' = load32 s" by (intro ext) (simp add: load32_def)
  with a show ?thesis by (simp add: load8_def mmu_translate_def Let_def)
qed

lemma load_bytes_frame:
  "pmem s' = pmem s \<Longrightarrow> cr3 s' = cr3 s \<Longrightarrow> load_bytes va n s' = load_bytes va n s"
  by (induction n arbitrary: va) (simp_all add: load8_frame [of s' s])

text \<open>Running the current environment again.\<close>

lemma env_run_sel:
  assumes "env_pgdir (envs s e) = Some d" "env_run e s = Some s'"
  shows "pmem s' = pmem s" "cr3 s' = d" "curenv s' = Some e" "env_tf (envs s' e) = env_tf (envs s e)"
    "env_status (envs s' e) = ENV_RUNNING" "\<not> kernel_locked s'"
  using assms by (auto simp: env_run_def Let_def set_curenv_def upd_env_def unlock_kernel_def curenv_def
      split: option.splits if_splits)

text \<open>
  C14: when the user exception stack is mapped writable, a page fault in user mode ends in
  user mode again: the environment resumes in its upcall, with the stack pointer on a frame
  in its own memory that decodes to exactly the fault address, the error code and the
  trap-time registers.
\<close>

theorem page_fault_frame:
  fixes tf :: trapframe
  defines "utr \<equiv> exn_stacktop (tf_esp tf) - 56"
  assumes "vm_inv s fl D ext" "curenv s = Some c" "env_pgdir (envs s c) = Some (cr3 s)" "cr3 s \<in> D"
    and "env_pgfault_upcall (envs s c) \<noteq> 0" "tf_cs tf AND 3 \<noteq> 0"
    and "\<And>i. i < 52 \<Longrightarrow> user_page s (cr3 s) (utr + of_nat i)"
    and "user_mem_check c utr 56 (PTE_U OR PTE_W) s = Some (Inr (), s)"
  shows "\<exists>s' bs. page_fault_handler va tf s = Some (UserMode s') \<and> curenv s' = Some c \<and>
    tf_eip (env_tf (envs s' c)) = env_pgfault_upcall (envs s c) \<and>
    tf_esp (env_tf (envs s' c)) = utr \<and> cr3 s' = cr3 s \<and>
    load_bytes utr 52 s' = Some bs \<and>
    read_utf bs = \<lparr>utf_fault_va = va, utf_err = tf_err tf, utf_regs = tf_regs tf,
      utf_eip = tf_eip tf, utf_eflags = tf_eflags tf, utf_esp = tf_esp tf\<rparr>"
proof -
  let ?bs = "utf_bytes (make_utf va tf)"
  obtain t where t: "store_bytes utr ?bs s = Some t" "t = s\<lparr>pmem := pmem t\<rparr>"
    using store_bytes_user [OF assms(2,5), of ?bs utr] assms(8) by auto
  have ld: "load_bytes utr 52 t = Some ?bs"
    using store_load_user [OF assms(2,5) _ _ t(1)] assms(8) by simp
  let ?u = "upd_env c (\<lambda>x. x\<lparr>env_tf := (env_tf x)\<lparr>tf_eip := env_pgfault_upcall x, tf_esp := utr\<rparr>\<rparr>) t"
  have te: "envs t = envs s" "cr3 t = cr3 s" using arg_cong [OF t(2), of envs] arg_cong [OF t(2), of cr3] by simp_all
  have pg: "env_pgdir (envs ?u c) = Some (cr3 s)" using assms(4) te by (simp add: upd_env_def)
  obtain s' where s': "env_run c ?u = Some s'" using env_run_some [OF pg] by blast
  have "user_mem_assert c utr 56 (PTE_U OR PTE_W) s = Some (Returned s)"
    using assms(9) by (simp add: user_mem_assert_def)
  then have "page_fault_handler va tf s = Some (UserMode s')"
    using assms(3,6,7) t(1) s' unfolding page_fault_handler_def page_fault_upcall_def utr_def [symmetric]
    by simp
  moreover note R = env_run_sel [OF pg s']
  have "load_bytes utr 52 s' = Some ?bs"
    using load_bytes_frame [of s' t utr 52] R(1,2) te ld by (simp add: upd_env_def)
  ultimately show ?thesis
    using R te by (intro exI [of _ s'] exI [of _ ?bs])
      (simp add: upd_env_def read_utf_bytes, simp add: make_utf_def)
qed

lemma ex_mapped_tables_ok: "tables_ok ex_mapped 1"
  by (simp add: tables_ok_def table_at_def ex_mapped_slot frame_of_def)

definition ex_tf :: trapframe where
  "ex_tf = tf0\<lparr>tf_cs := 0x1B, tf_esp := 0xEEBFDFF0\<rparr>"

theorem page_fault_frame_witness:
  "\<exists>s' bs. page_fault_handler 0xDEAD000 ex_tf ex_mapped = Some (UserMode s') \<and>
     load_bytes 0xEEBFFFC8 52 s' = Some bs \<and> utf_fault_va (read_utf bs) = 0xDEAD000"
proof -
  have utr: "exn_stacktop (tf_esp ex_tf) - 56 = 0xEEBFFFC8" by (simp add: exn_stacktop_def ex_tf_def)
  have up: "user_page ex_mapped (cr3 ex_mapped) (0xEEBFFFC8 + of_nat i)" if "i < 52" for i
  proof -
    have "unat (0xEEBFFFC8 + of_nat i :: u32) = 0xEEBFFFC8 + i"
      using that by (subst unat_add_no_wrap) (simp_all add: unat_of_nat32)
    then have "unat (0xEEBFFFC8 + of_nat i :: u32) div 4096 = 954 * 1024 + 1023" using that by simp
    then show ?thesis using ex_mapped_user_page by simp
  qed
  have "user_mem_check 0 0xEEBFFFC8 56 (PTE_U OR PTE_W) ex_mapped = Some (Inr (), ex_mapped)"
  proof (rule user_mem_check_ok [OF _ ex_mapped_tables_ok])
    fix v assume "vpn 0xEEBFFFC8 \<le> v" "v < (unat (0xEEBFFFC8 :: u32) + unat (56 :: u32) + 4095) div 4096"
    then have "v = 954 * 1024 + 1023" by (simp add: vpn_def)
    then show "page_ok ex_mapped 1 (PTE_U OR PTE_W) v"
      using ex_mapped_vmap [of "954 * 1024 + 1023"] by (simp add: page_ok_def)
  qed simp_all
  from page_fault_frame [OF vm_inv_ex_mapped, of 0 ex_tf "0xDEAD000", unfolded utr, OF _ _ _ _ _ up this]
  show ?thesis by (auto simp: ex_tf_def)
qed

text \<open>
  Faults inside the upcall nest: the frame for a fault whose stack pointer is on the
  exception stack ends one word below that stack pointer, so it is disjoint from every
  outer frame, whose lowest address is at or above it.
\<close>

theorem nested_fault_frame:
  assumes "UXSTACKTOP - PGSIZE < esp" "esp < UXSTACKTOP" "esp \<le> outer"
    "unat outer + 52 \<le> unat (UXSTACKTOP :: u32)"
  shows "unat (exn_stacktop esp - 56) + 52 = unat esp - 4 \<and>
    {unat (exn_stacktop esp - 56)..<unat (exn_stacktop esp - 56) + 52} \<inter> {unat outer..<unat outer + 52} = {}"
proof -
  have "exn_stacktop esp = esp" using assms(1,2) by (simp add: exn_stacktop_def)
  moreover have "unat (esp - 56) = unat esp - 56"
    using assms(1) by (simp add: unat_sub word_le_nat_alt word_less_nat_alt)
  moreover have "4005556224 < unat esp" "unat esp \<le> unat outer"
    using assms(1,3) by (simp_all add: word_less_nat_alt word_le_nat_alt)
  ultimately show ?thesis by auto
qed

theorem nested_fault_frame_witness: "unat (exn_stacktop 0xEEBFFF00 - 56) + 52 = 0xEEBFFEFC"
  using nested_fault_frame [of "0xEEBFFF00" "0xEEBFFF80"] by simp

end
