(* ===== verification/SyscallProps.thy ===== *)
theory SyscallProps
  imports Syscall UserAccess UserMem
begin

text \<open>
  What the system calls guarantee: a failing call changes nothing, a shared page never gains
  write permission, a blocked receiver gets exactly one message; and the inputs for which a
  user program brings the kernel down.
\<close>

section \<open>Control flow\<close>

lemma bind_ctl_Returned:
  "bind_ctl r f = Some (Returned x) \<longleftrightarrow> (\<exists>a. r = Returned a \<and> f a = Some (Returned x))"
  by (cases r) auto

lemma with_env_Returned:
  "with_env envid chk s f = Some (Returned x) \<longleftrightarrow>
     (\<exists>e. envid2env envid chk s = Some (Inl e) \<and> x = (Inl e, s)) \<or>
     (\<exists>e. envid2env envid chk s = Some (Inr e) \<and> f e = Some (Returned x))"
  by (auto simp: with_env_def split: sum.splits Option.bind_splits)

lemma case_sum_eq:
  "(case r of Inl e \<Rightarrow> f e | Inr x \<Rightarrow> g x) = y \<longleftrightarrow>
     (\<exists>e. r = Inl e \<and> f e = y) \<or> (\<exists>x. r = Inr x \<and> g x = y)"
  by (cases r) auto

lemma case_option_eq:
  "(case r of None \<Rightarrow> f | Some x \<Rightarrow> g x) = y \<longleftrightarrow> r = None \<and> f = y \<or> (\<exists>x. r = Some x \<and> g x = y)"
  by (cases r) auto

lemma case_prod_eq: "(case r of (a, b) \<Rightarrow> f a b) = y \<longleftrightarrow> (\<exists>a b. r = (a, b) \<and> f a b = y)"
  by (cases r) auto

lemma if_eq: "(if b then x else y) = z \<longleftrightarrow> b \<and> x = z \<or> \<not> b \<and> y = z"
  by auto

lemmas result_eqs = case_sum_eq case_option_eq case_prod_eq if_eq Option.bind_eq_Some_conv

lemma page_alloc_None: "page_alloc z s = Some (None, s') \<Longrightarrow> s' = s"
  by (auto simp: page_alloc_def Let_def split: option.splits if_splits Option.bind_splits)

lemma pgdir_walk_None: "pgdir_walk d va c s = Some (None, s') \<Longrightarrow> s' = s"
  by (auto simp: pgdir_walk_def Let_def dest: page_alloc_None split: option.splits if_splits Option.bind_splits)

lemma page_insert_Inl: "page_insert d p va perm s = Some (Inl e, s') \<Longrightarrow> s' = s \<and> e = E_NO_MEM"
  by (auto simp: page_insert_def Let_def dest: pgdir_walk_None split: option.splits if_splits Option.bind_splits)

lemma env_alloc_Inl: "env_alloc parent s = Some (Inl e, s') \<Longrightarrow> s' = s"
  by (auto simp: env_alloc_def env_setup_vm_def Let_def dest: page_alloc_None
      split: option.splits if_splits Option.bind_splits sum.splits)

section \<open>Failing calls change nothing\<close>

lemmas sys_returns = with_env_Returned bind_ctl_Returned result_eqs

lemma sys_page_map_Inl:
  "sys_page_map a b c d e s = Some (Returned (Inl err, s')) \<Longrightarrow> s' = s"
  by (auto simp: sys_page_map_def sys_returns dest!: page_insert_Inl)

lemma sys_page_unmap_Inl: "sys_page_unmap a b s = Some (Returned (Inl err, s')) \<Longrightarrow> s' = s"
  by (auto simp: sys_page_unmap_def sys_returns)

lemma sys_ipc_try_send_Inl:
  "sys_ipc_try_send junk a b c d s = Some (Returned (Inl err, s')) \<Longrightarrow> s' = s"
  by (auto simp: sys_ipc_try_send_def ipc_deliver_def sys_returns dest!: page_insert_Inl)

lemma sys_exofork_Inl: "sys_exofork s = Some (Returned (Inl err, s')) \<Longrightarrow> s' = s"
  by (auto simp: sys_exofork_def sys_returns Let_def dest!: env_alloc_Inl)

lemma syscall_Inl:
  assumes "syscall_body junk no a1 a2 a3 a4 a5 s = Some (Returned (Inl err, s'))" "no \<noteq> 4"
  shows "s' = s"
  using assms
  by (auto simp: syscall_body_def sys_cputs_def sys_cgetc_def sys_getenvid_def sys_env_destroy_def
      sys_yield_def sys_env_set_status_def sys_env_set_pgfault_upcall_def sys_ipc_recv_def
      sys_env_set_trapframe_def sys_time_msec_def sys_pkt_try_send_def sys_pkt_recv_def sys_returns
      dest: sys_page_map_Inl sys_page_unmap_Inl sys_ipc_try_send_Inl sys_exofork_Inl)

section \<open>Sharing pages\<close>

lemma page2pa_low: "unat m < 4096 \<Longrightarrow> page2pa p AND m = 0"
proof (rule bit_word_eqI)
  fix n assume m: "unat m < 4096" and n: "n < LENGTH(32)"
  have "\<not> bit m n" if "12 \<le> n"
  proof -
    have "(2 :: nat) ^ 12 \<le> 2 ^ n" by (rule power_increasing [OF that]) simp
    then have "unat m < 2 ^ n" using m by simp
    then show ?thesis by (rule not_bit_small)
  qed
  then show "bit (page2pa p AND m) n \<longleftrightarrow> bit (0 :: u32) n"
    by (cases "12 \<le> n") (auto simp: page2pa_def bit_simps)
qed

lemma entry_writable: "((page2pa p OR perm) OR PTE_P) AND PTE_W = perm AND PTE_W"
  using page2pa_low [of "PTE_W" p] by (simp add: bit.conj_disj_distrib2)

lemma sys_page_map_rule:
  assumes inv: "vm_inv s fl D ext" and dirs: "\<forall>e d. env_pgdir (envs s e) = Some d \<longrightarrow> d \<in> D"
    and perm: "unat perm < 4096" and refs: "\<And>p. p < npages s \<Longrightarrow> unat (pp_ref (pages s p)) + 1 < 65536"
    and run: "sys_page_map srcid srcva dstid dstva perm s = Some (Returned (Inr v, s'))"
  shows "\<exists>se de sd dd e e' fl'. envid2env srcid True s = Some (Inr se) \<and> env_pgdir (envs s se) = Some sd \<and>
    envid2env dstid True s = Some (Inr de) \<and> env_pgdir (envs s de) = Some dd \<and>
    vmap s sd (vpn srcva) = Some e \<and> vmap s' dd (vpn dstva) = Some e' \<and> frame_of e' = frame_of e \<and>
    (e' AND PTE_W \<noteq> 0 \<longrightarrow> e AND PTE_W \<noteq> 0) \<and> vm_inv s' fl' D ext \<and>
    (\<forall>d \<in> D. \<forall>w < UVPN. (d, w) \<noteq> (dd, vpn dstva) \<longrightarrow> vmap s' d w = vmap s d w)"
proof -
  from run obtain se de sd pg pte dd where
    e: "envid2env srcid True s = Some (Inr se)" "envid2env dstid True s = Some (Inr de)"
    and sd: "env_pgdir (envs s se) = Some sd" and dd: "env_pgdir (envs s de) = Some dd"
    and va: "srcva < UTOP" "dstva < UTOP"
    and look: "page_lookup sd srcva s = Some (Some (pg, pte))"
    and w: "\<not> (load32 s pte AND PTE_W = 0 \<and> perm AND PTE_W \<noteq> 0)"
    and ins: "page_insert dd pg dstva perm s = Some (Inr (), s')"
    by (auto simp: sys_page_map_def sys_returns not_le)
  have d: "sd \<in> D" "dd \<in> D" using dirs sd dd by blast+
  obtain e where e': "vmap s sd (vpn srcva) = Some e" "pg = frame_of e"
    "pte = the (table_at s sd (unat (PDX srcva))) * 4096 + 4 * unat (PTX srcva)"
    using page_lookup_eq [OF inv d(1) va(1)] look by (auto split: option.splits)
  have ld: "load32 s pte = e"
    using e'(1,3) by (auto simp: vmap_table_at vpn_split slot_def split: option.splits if_splits)
  have mp: "maps s sd (vpn srcva) = Some pg" using e' by (simp add: maps_def)
  note ok = vm_invD(5) [OF inv d(1) vpn_user [OF va(1)] mp]
  have "pg \<notin> set fl"
  proof
    assume "pg \<in> set fl"
    then have "pp_ref (pages s pg) = 0" using vm_invD(1) [OF inv] pages_wf_free by blast
    then have "card (data_refs (maps s) D pg) = 0" using vm_invD(6) [OF inv, of pg] ok by simp
    moreover have "(sd, vpn srcva) \<in> data_refs (maps s) D pg"
      using mp d(1) vpn_user [OF va(1)] by (simp add: data_refs_def)
    ultimately show False using vm_invD(2) [OF inv] by (auto simp: card_eq_0_iff)
  qed
  from page_insert_inv [OF inv d(2) va(2) perm _ _ this refs] ok ins
  obtain fl' where V: "vm_inv s' fl' D ext"
    "\<forall>d' \<in> D. \<forall>v < UVPN. vmap s' d' v =
       (if d' = dd \<and> v = vpn dstva then Some ((page2pa pg OR perm) OR PTE_P) else vmap s d' v)"
    by auto
  have "pg < 2 ^ 20" using ok vm_invD(1) [OF inv] by (simp add: pages_wf_def)
  note fr = frame_of_entry(1) [OF this perm]
  let ?e' = "(page2pa pg OR perm) OR PTE_P"
  have "vmap s' dd (vpn dstva) = Some ?e'" using V(2) d(2) vpn_user [OF va(2)] by simp
  moreover have "frame_of ?e' = frame_of e" using fr e'(2) by simp
  moreover have "?e' AND PTE_W \<noteq> 0 \<longrightarrow> e AND PTE_W \<noteq> 0" using w ld entry_writable [of pg perm] by auto
  moreover have "\<forall>d \<in> D. \<forall>w < UVPN. (d, w) \<noteq> (dd, vpn dstva) \<longrightarrow> vmap s' d w = vmap s d w"
    using V(2) by simp
  ultimately show ?thesis using e sd dd e'(1) V(1) by blast
qed

text \<open>
  C12: when \<open>sys_page_map\<close> succeeds, for permissions without bits above bit 11 and pages with fewer than 65535
  references, the destination page is mapped to the frame of the source
  page, writable only if the source mapping is writable; every other mapping of every
  address space stays as it is, and the page-table invariant is kept.
\<close>

theorem sys_page_map_no_escalation:
  assumes inv: "vm_inv s fl D ext" and dirs: "\<forall>e d. env_pgdir (envs s e) = Some d \<longrightarrow> d \<in> D"
    and perm: "unat perm < 4096" and refs: "\<And>p. p < npages s \<Longrightarrow> unat (pp_ref (pages s p)) + 1 < 65536"
    and run: "sys_page_map srcid srcva dstid dstva perm s = Some (Returned (Inr v, s'))"
  shows "\<exists>se de sd dd e e' fl'. envid2env srcid True s = Some (Inr se) \<and> env_pgdir (envs s se) = Some sd \<and>
    envid2env dstid True s = Some (Inr de) \<and> env_pgdir (envs s de) = Some dd \<and>
    vmap s sd (vpn srcva) = Some e \<and> vmap s' dd (vpn dstva) = Some e' \<and> frame_of e' = frame_of e \<and>
    (e' AND PTE_W \<noteq> 0 \<longrightarrow> e AND PTE_W \<noteq> 0) \<and> vm_inv s' fl' D ext \<and>
    (\<forall>d \<in> D. \<forall>w < UVPN. (d, w) \<noteq> (dd, vpn dstva) \<longrightarrow> vmap s' d w = vmap s d w)"
  by (rule sys_page_map_rule [OF assms])

lemma ex_mapped_dirs: "\<forall>e d. env_pgdir (envs ex_mapped e) = Some d \<longrightarrow> d \<in> {1}"
  by (auto simp: ex_mapped_def store32_def kern0_def env0_def)

lemma ex_mapped_me: "envid2env 0 chk ex_mapped = Some (Inr 0)"
  by (simp add: envid2env_def)

lemma ex_map_look:
  "page_lookup 1 0xEEBFF000 ex_mapped =
     Some (Some (3, the (table_at ex_mapped 1 (unat (PDX 0xEEBFF000))) * 4096 + 4 * unat (PTX 0xEEBFF000)))"
  using page_lookup_eq [OF vm_inv_ex_mapped, of 1 "0xEEBFF000"] ex_mapped_vmap [of "vpn 0xEEBFF000"]
  by (simp add: frame_of_def vpn_def)

lemma ex_map_run:
  "\<exists>s'. sys_page_map 0 0xEEBFF000 0 0xEEBFE000 5 ex_mapped = Some (Returned (Inr 0, s'))"
proof -
  let ?src = "0xEEBFF000 :: u32" and ?dst = "0xEEBFE000 :: u32"
  have t: "table_at ex_mapped 1 (unat (PDX ?dst)) \<noteq> None"
    using ex_mapped_table [of 954] by (simp add: unat_PDX)
  have "3 \<notin> structs ex_mapped {1}" unfolding ex_mapped_structs by simp
  then obtain s1 where ins: "page_insert 1 3 ?dst 5 ex_mapped = Some (Inr (), s1)"
    using page_insert_inv [OF vm_inv_ex_mapped, of 1 ?dst 5 3] t by auto
  have rd: "ROUNDDOWN ?src 4096 = ?src" "ROUNDDOWN ?dst 4096 = ?dst"
    by (simp_all add: ROUNDDOWN_def)
  show ?thesis using ex_map_look ins
    by (simp add: sys_page_map_def with_env_def ex_mapped_me rd bad_perm_def)
qed

theorem sys_page_map_no_escalation_witness:
  "\<exists>s' e'. sys_page_map 0 0xEEBFF000 0 0xEEBFE000 5 ex_mapped = Some (Returned (Inr 0, s')) \<and>
     vmap s' 1 (vpn 0xEEBFE000) = Some e' \<and> frame_of e' = 3"
proof -
  obtain s1 where run: "sys_page_map 0 0xEEBFF000 0 0xEEBFE000 5 ex_mapped = Some (Returned (Inr 0, s1))"
    using ex_map_run by blast
  obtain dd e e' where "env_pgdir (envs ex_mapped 0) = Some dd" "vmap ex_mapped 1 (vpn 0xEEBFF000) = Some e"
    "vmap s1 dd (vpn 0xEEBFE000) = Some e'" "frame_of e' = frame_of e"
    using sys_page_map_no_escalation [OF vm_inv_ex_mapped ex_mapped_dirs _ _ run] ex_mapped_me by auto
  with run ex_mapped_vmap [of "vpn 0xEEBFF000"] show ?thesis by (auto simp: frame_of_def vpn_def)
qed

section \<open>Messages\<close>

lemma walk_envs:
  "pgdir_walk d va c s = Some (r, s') \<Longrightarrow> envs s' = envs s \<and> cpus s' = cpus s \<and> cpunum s' = cpunum s"
  by (auto simp: pgdir_walk_def page_alloc_def page_incref_def state_defs Let_def result_eqs)

lemma page_decref_envs:
  "page_decref p s = Some s' \<Longrightarrow> envs s' = envs s \<and> cpus s' = cpus s \<and> cpunum s' = cpunum s"
  by (auto simp: page_decref_def page_free_def state_defs Let_def result_eqs)

lemma page_remove_envs:
  "page_remove d va s = Some s' \<Longrightarrow> envs s' = envs s \<and> cpus s' = cpus s \<and> cpunum s' = cpunum s"
  by (auto simp: page_remove_def tlb_invalidate_def store32_def Let_def result_eqs dest!: page_decref_envs
      split: option.split)

lemma page_insert_envs:
  "page_insert d p va perm s = Some (r, s') \<Longrightarrow> envs s' = envs s \<and> cpus s' = cpus s \<and> cpunum s' = cpunum s"
  by (auto simp: page_insert_def page_incref_def state_defs Let_def result_eqs dest!: walk_envs page_remove_envs)

lemma ipc_send_cases:
  assumes "sys_ipc_try_send junk envid v srcva perm s = Some (Returned (Inr r, s'))"
  shows "\<exists>e t. envid2env envid False s = Some (Inr e) \<and> env_ipc_recving (envs s e) \<and>
    ipc_deliver e v t = Some (Returned (Inr r, s')) \<and>
    (t = s \<or> srcva < UTOP \<and> (\<exists>d p va s1. page_insert d p va perm s = Some (Inr (), s1) \<and>
                t = upd_env e (\<lambda>x. x\<lparr>env_ipc_perm := perm\<rparr>) s1))"
  using assms by (auto simp: sys_ipc_try_send_def sys_returns) blast+

text \<open>
  C13: a message is delivered to a blocked receiver only, and only once: a successful send
  stores the value and the sender's id, unblocks the receiver and makes it runnable with
  result 0, and a second send to it fails with E_IPC_NOT_RECV.  When no page is sent
  \<open>env_ipc_perm\<close> keeps its old value.
\<close>

theorem ipc_delivers_once:
  assumes "sys_ipc_try_send junk envid v srcva perm s = Some (Returned (Inr r, s'))" "curenv s = Some c"
    and "envid \<noteq> 0"
  shows "\<exists>e. envid2env envid False s = Some (Inr e) \<and> env_ipc_recving (envs s e) \<and>
    \<not> env_ipc_recving (envs s' e) \<and> env_status (envs s' e) = ENV_RUNNABLE \<and>
    env_ipc_value (envs s' e) = v \<and> env_ipc_from (envs s' e) = env_id (envs s c) \<and>
    reg_eax (tf_regs (env_tf (envs s' e))) = 0 \<and>
    (UTOP \<le> srcva \<longrightarrow> env_ipc_perm (envs s' e) = env_ipc_perm (envs s e)) \<and>
    sys_ipc_try_send junk' envid v' srcva' perm' s' = Some (Returned (Inl E_IPC_NOT_RECV, s'))"
proof -
  obtain e t where e: "envid2env envid False s = Some (Inr e)" "env_ipc_recving (envs s e)"
    and del: "ipc_deliver e v t = Some (Returned (Inr r, s'))"
    and t: "t = s \<or> srcva < UTOP \<and> (\<exists>d p va s1. page_insert d p va perm s = Some (Inr (), s1) \<and>
                     t = upd_env e (\<lambda>x. x\<lparr>env_ipc_perm := perm\<rparr>) s1)"
    using ipc_send_cases [OF assms(1)] by blast
  have t': "env_id (envs t x) = env_id (envs s x)" "env_status (envs t x) = env_status (envs s x)"
    "UTOP \<le> srcva \<longrightarrow> env_ipc_perm (envs t x) = env_ipc_perm (envs s x)" "curenv t = curenv s" for x
    using t by (auto simp: upd_env_def curenv_def dest!: page_insert_envs)
  have s': "s' = upd_env e (\<lambda>x. x\<lparr>env_ipc_recving := False,
       env_ipc_from := env_id (envs s c), env_ipc_value := v, env_status := ENV_RUNNABLE,
       env_tf := (env_tf x)\<lparr>tf_regs := (tf_regs (env_tf x))\<lparr>reg_eax := 0\<rparr>\<rparr>\<rparr>) t"
    using del assms(2) t' by (auto simp: ipc_deliver_def)
  have id: "ENVX envid = e" "env_id (envs s e) = envid"
    using e(1) assms(3) by (auto simp: envid2env_def Let_def if_eq split: option.splits if_splits)
  have "envid2env envid False s' = Some (Inr e)"
    using id assms(3) t' unfolding s' by (simp add: envid2env_def Let_def upd_env_def)
  then show ?thesis using e t' unfolding s'
    by (auto simp: sys_ipc_try_send_def with_env_def upd_env_def)
qed

definition ex_ipc :: kern where
  "ex_ipc = upd_env 1 (\<lambda>x. x\<lparr>env_id := 0x1001, env_status := ENV_NOT_RUNNABLE,
     env_ipc_recving := True, env_ipc_dstva := 0xFFFFFFFF, env_ipc_perm := 7\<rparr>) ex_mapped"

theorem ipc_delivers_once_witness:
  "\<exists>s'. sys_ipc_try_send None 0x1001 42 0xFFFFFFFF 0 ex_ipc = Some (Returned (Inr 0, s')) \<and>
     sys_ipc_try_send None 0x1001 43 0xFFFFFFFF 0 s' = Some (Returned (Inl E_IPC_NOT_RECV, s'))"
proof -
  have c: "curenv ex_ipc = Some 0" by (simp add: ex_ipc_def upd_env_def curenv_def ex_mapped_sel(5) [unfolded curenv_def])
  have "\<exists>s'. sys_ipc_try_send None 0x1001 42 0xFFFFFFFF 0 ex_ipc = Some (Returned (Inr 0, s'))"
    using c by (simp add: sys_ipc_try_send_def with_env_def envid2env_def Let_def ENVX_def ipc_deliver_def)
      (simp add: ex_ipc_def upd_env_def)
  then obtain s' where "sys_ipc_try_send None 0x1001 42 0xFFFFFFFF 0 ex_ipc = Some (Returned (Inr 0, s'))" ..
  with ipc_delivers_once [OF this c, of None 43 "0xFFFFFFFF" 0] show ?thesis by auto
qed

section \<open>Inputs that bring the kernel down\<close>

text \<open>
  C19: sending a page from an aligned address where nothing is mapped reads the page-table
  entry through a pointer that was never set: when that read faults the kernel panics,
  although the call should fail with E_INVAL.
\<close>

theorem ipc_send_unmapped_panics:
  assumes "envid2env envid False s = Some (Inr e)" "env_ipc_recving (envs s e)"
    and "curenv s = Some c" "env_pgdir (envs s c) = Some d"
    and "srcva < UTOP" "srcva = ROUNDDOWN srcva PGSIZE" "page_lookup d srcva s = Some None"
  shows "sys_ipc_try_send None envid v srcva perm s = None"
  using assms by (simp add: sys_ipc_try_send_def with_env_def)

theorem ipc_send_unmapped_panics_witness:
  "sys_ipc_try_send None 0x1001 42 0x00800000 7 ex_ipc = None"
proof (rule ipc_send_unmapped_panics [of _ _ 1 0 1])
  show "envid2env 0x1001 False ex_ipc = Some (Inr 1)"
    by (simp add: envid2env_def Let_def ENVX_def) (simp add: ex_ipc_def upd_env_def)
  have pm: "pmem ex_ipc = pmem ex_mapped" "npages ex_ipc = npages ex_mapped"
    by (simp_all add: ex_ipc_def upd_env_def)
  have "table_at ex_ipc 1 (unat (PDX 0x00800000)) = None"
    using ex_mapped_table [of 2] view_pmem(2) [OF pm(1)] by (simp add: unat_PDX)
  then show "page_lookup 1 0x00800000 ex_ipc = Some None"
    by (simp add: page_lookup_def walk_absent)
  show "curenv ex_ipc = Some 0" by (simp add: ex_ipc_def upd_env_def curenv_def ex_mapped_sel(5) [unfolded curenv_def])
qed (simp_all add: ex_ipc_def upd_env_def ROUNDDOWN_def)

lemma str_chars_overread:
  assumes "\<And>i. i < n \<Longrightarrow> \<exists>b. m (p + of_nat i) = Some b \<and> b \<noteq> 0" "m (p + of_nat n) = None"
  shows "str_chars m p (int n) alt = None"
  using assms
proof (induction n arbitrary: p)
  case 0
  then show ?case by (simp add: str_chars.simps)
next
  case (Suc n)
  obtain b where b: "m p = Some b" "b \<noteq> 0" using Suc.prems(1) [of 0] by auto
  have "str_chars m (p + 1) (int n) alt = None"
  proof (rule Suc.IH)
    show "\<exists>b. m (p + 1 + of_nat i) = Some b \<and> b \<noteq> 0" if "i < n" for i
      using Suc.prems(1) [of "Suc i"] that by (simp add: ac_simps)
    show "m (p + 1 + of_nat n) = None" using Suc.prems(2) by (simp add: ac_simps)
  qed
  then show ?case using b by (subst str_chars.simps) simp
qed

text \<open>
  C18: \<open>sys_cputs\<close> checks the user's \<open>len\<close> bytes but its printing loop reads one byte more: a
  string that ends at the end of a mapped page, with nothing mapped after it, passes the
  check and then faults in the kernel, which panics.
\<close>

theorem sys_cputs_overread:
  assumes "curenv s = Some c" "user_mem_check c str len ((PTE_U OR PTE_P) OR PTE_U) s = Some (Inr (), s)"
    and "str \<noteq> 0" "0 \<le> sint len"
    and "\<forall>i < unat len. \<exists>b. load8 (str + of_nat i) s = Some b \<and> b \<noteq> 0" "load8 (str + len) s = None"
  shows "sys_cputs str len s = None"
proof -
  have len: "sint len = int (unat len)"
  proof -
    have "\<not> bit len 31" using assms(4) bit_last_iff [of len] by simp
    then have "signed_take_bit 31 (uint len) = take_bit 31 (uint len)"
      by (simp add: signed_take_bit_eq_if_positive bit_uint_iff)
    moreover have "take_bit 31 (uint len) = uint len"
    proof -
      have "take_bit 31 len = len"
        by (rule bit_word_eqI) (use \<open>\<not> bit len 31\<close> in \<open>auto simp: bit_simps less_Suc_eq numeral_eq_Suc\<close>)
      then show ?thesis by (metis unsigned_take_bit_eq)
    qed
    ultimately show ?thesis by (simp add: sint_uint)
  qed
  have "str_chars (\<lambda>a. load8 a s) str (int (unat len)) False = None"
    using assms(5,6) by (intro str_chars_overread) simp_all
  then have "vprintfmt (\<lambda>a. load8 a s) [0x25, 0x2E, 0x2A, 0x73] [len, str] = None"
    using assms(3) len
    by (simp add: vprintfmt.simps is_digit_def spec0_def process_precision_def convert_def
        print_str_def Let_def)
  then have "vcprintf [0x25, 0x2E, 0x2A, 0x73] [len, str] s = None" by (simp add: vcprintf_def)
  then show ?thesis
    using assms(1,2) by (simp add: sys_cputs_def user_mem_assert_def)
qed

text \<open>The example machine with the letter A in the last byte of the mapped page.\<close>

definition ex_str :: kern where
  "ex_str = ex_mapped\<lparr>pmem := (pmem ex_mapped)(3 * 4096 + 4095 := 0x41)\<rparr>"

lemma ex_str_sel [simp]: "cr3 ex_str = 1" "npages ex_str = 4" "curenv ex_str = Some 0"
  "env_pgdir (envs ex_str 0) = Some 1"
  using ex_mapped_sel by (simp_all add: ex_str_def curenv_def)

lemma ex_str_slot: "f \<noteq> 3 \<Longrightarrow> i < 1024 \<Longrightarrow> slot ex_str f i = slot ex_mapped f i"
  by (rule data_write_slot [of _ _ 3 4095 "0x41"]) (simp_all add: ex_str_def)

lemma ex_str_vmap:
  "v < UVPN \<Longrightarrow> vmap ex_str 1 v = vmap ex_mapped 1 v"
  by (rule data_write_view(2) [OF vm_inv_ex_mapped, of 3 _ 4095 "0x41"])
     (simp_all add: ex_mapped_structs [unfolded One_nat_def] ex_str_def)

lemma ex_str_tables_ok: "tables_ok ex_str 1"
  by (auto simp: tables_ok_def table_at_def ex_str_slot ex_mapped_slot frame_of_def)

theorem sys_cputs_overread_witness: "sys_cputs 0xEEBFFFFF 1 ex_str = None"
proof (rule sys_cputs_overread [of _ 0])
  have v: "vpn 0xEEBFFFFF = 954 * 1024 + 1023" by (simp add: vpn_def)
  have m: "vmap ex_str 1 (954 * 1024 + 1023) = Some 0x3007"
    using ex_str_vmap [of "954 * 1024 + 1023"] ex_mapped_vmap [of "954 * 1024 + 1023"] by simp
  show "user_mem_check 0 0xEEBFFFFF 1 ((PTE_U OR PTE_P) OR PTE_U) ex_str = Some (Inr (), ex_str)"
  proof (rule user_mem_check_ok [OF _ ex_str_tables_ok])
    fix w assume "vpn 0xEEBFFFFF \<le> w" "w < (unat (0xEEBFFFFF :: u32) + unat (1 :: u32) + 4095) div 4096"
    then have "w = 954 * 1024 + 1023" by (simp add: vpn_def)
    then show "page_ok ex_str 1 ((PTE_U OR PTE_P) OR PTE_U) w" using m by (simp add: page_ok_def)
  qed simp_all
  have "load8 0xEEBFFFFF ex_str = Some 0x41"
  proof -
    have "mmu_translate ex_str 1 0xEEBFFFFF = Some (3 * 4096 + 4095)"
      using m unfolding translate_vmap v by (simp add: frame_of_def)
    then show ?thesis by (simp add: load8_def) (simp add: ex_str_def)
  qed
  then show "\<forall>i < unat 1. \<exists>b. load8 (0xEEBFFFFF + of_nat i) ex_str = Some b \<and> b \<noteq> 0" by simp
  have "vmap ex_str 1 (vpn 0xEEC00000) = None"
    using ex_str_slot [of 1 955] ex_mapped_slot [of 955 1] by (simp add: vmap_def vpn_def present_def)
  then show "load8 (0xEEBFFFFF + 1) ex_str = None"
    by (simp add: load8_def translate_vmap)
qed simp_all

lemma page_insert_simple:
  assumes "table_at s d (unat (PDX va)) = Some f" "f < npages s" "\<not> present (slot s f (unat (PTX va)))"
  shows "page_insert d p va perm s = Some (Inr (),
    store32 (f * 4096 + 4 * unat (PTX va)) ((page2pa p OR perm) OR PTE_P) (page_incref p s))"
  using walk_present [OF assms(1,2)] assms(3)
  by (simp add: page_insert_def present_def slot_def load32_def page_incref_def upd_page_def)

lemma frame_of_high_bits:
  assumes "p < 2 ^ 20"
  shows "frame_of ((page2pa p OR perm) OR PTE_P) = unat (of_nat p OR drop_bit 12 perm)"
proof -
  have "frame_of x = unat (drop_bit 12 x)" for x by (simp add: frame_of_def wsimps)
  moreover have "drop_bit 12 (page2pa p) = (of_nat p :: u32)"
  proof -
    have "unat (drop_bit 12 (page2pa p)) = p" using unat_page2pa [OF assms] by (simp add: wsimps)
    then show ?thesis by (metis of_nat_unat ucast_id)
  qed
  ultimately show ?thesis by (simp add: drop_bit_or)
qed

lemma sys_page_alloc_run:
  assumes "envid2env envid True s = Some (Inr e)" "env_pgdir (envs s e) = Some d"
    and "page_free_list s = Some p" "p < npages s" "npages s \<le> 2 ^ 20"
    and "table_at s d (unat (PDX va)) = Some f" "f < npages s" "f \<noteq> p" "d \<noteq> p"
    and "slot s f (unat (PTX va)) = 0" "\<not> bad_va va" "\<not> bad_perm perm"
    and "(f, unat (PTX va)) \<noteq> (d, unat (PDX va))"
  shows "\<exists>s'. sys_page_alloc envid va perm s = Some (Returned (Inr 0, s')) \<and>
    maps s' d (vpn va) = Some (unat (of_nat p OR drop_bit 12 perm))"
proof -
  let ?t = "(upd_page p (\<lambda>x. x\<lparr>pp_link := None\<rparr>) (s\<lparr>page_free_list := pp_link (pages s p)\<rparr>))
              \<lparr>pmem := fill (p * 4096) 4096 0 (pmem s)\<rparr>"
  let ?e = "(page2pa p OR perm) OR PTE_P" and ?a = "f * 4096 + 4 * unat (PTX va)"
  have kv: "page2kva s' p \<noteq> None" if "npages s' = npages s" for s'
    using assms(4,5) that by (simp add: page2kva_def KADDR_def unat_PGNUM unat_page2pa)
  have pa: "page_alloc True s = Some (Some p, ?t)"
    using assms(3) kv [of "upd_page p (\<lambda>x. x\<lparr>pp_link := None\<rparr>) (s\<lparr>page_free_list := pp_link (pages s p)\<rparr>)"]
    by (auto simp: page_alloc_def Let_def upd_page_def)
  have sl: "slot ?t g i = (if g = p then 0 else slot s g i)" if "i < 1024" for g i
    by (rule slot_fill [OF that]) (simp add: upd_page_def)
  have tt: "table_at ?t d (unat (PDX va)) = Some f"
    using assms(6,9) sl [OF PDX_less, of d va] by (simp add: table_at_def split: if_splits)
  have "slot ?t f (unat (PTX va)) = 0" using sl [OF PTX_less, of f va] assms(8,10) by simp
  then have ins: "page_insert d p va perm ?t = Some (Inr (), store32 ?a ?e (page_incref p ?t))"
    using page_insert_simple [OF tt] assms(7) by (simp add: upd_page_def present_def)
  let ?s' = "store32 ?a ?e (page_incref p ?t)"
  have pt: "env_pgdir (envs ?t e) = Some d" using assms(2) by (simp add: upd_page_def)
  have run: "sys_page_alloc envid va perm s = Some (Returned (Inr 0, ?s'))"
    using assms(1,11,12) pa pt ins by (simp add: sys_page_alloc_def with_env_def)
  have inc: "slot (page_incref p ?t) g i = slot ?t g i" for g i
    by (rule slot_mem_cong) (simp add: page_incref_def upd_page_def)
  have s1: "slot ?s' f (unat (PTX va)) = ?e"
    using slot_store [OF PTX_less PTX_less, of f va] by simp
  have "slot ?s' d (unat (PDX va)) = slot ?t d (unat (PDX va))"
    using slot_store [OF PTX_less PDX_less, of f va ?e "page_incref p ?t" d va] assms(13) inc by auto
  then have "table_at ?s' d (unat (PDX va)) = Some f" using tt unfolding table_at_def by (simp only:)
  then have "vmap ?s' d (vpn va) = Some ?e"
    using s1 by (simp add: vmap_table_at vpn_split present_def)
  then have "maps ?s' d (vpn va) = Some (unat (of_nat p OR drop_bit 12 perm))"
    using frame_of_high_bits [of p perm] assms(4,5) by (simp add: maps_def)
  with run show ?thesis by blast
qed

text \<open>
  C22: \<open>sys_page_alloc\<close> does not reject permission bits outside PTE_SYSCALL: bits 12 and up of
  \<open>perm\<close> go into the frame number of the entry, so the caller can map frames it was never
  given.
\<close>

theorem sys_page_alloc_perm_bits:
  assumes "envid2env envid True s = Some (Inr e)" "env_pgdir (envs s e) = Some d"
    and "page_free_list s = Some p" "p < npages s" "npages s \<le> 2 ^ 20"
    and "table_at s d (unat (PDX va)) = Some f" "f < npages s" "f \<noteq> p" "d \<noteq> p"
    and "slot s f (unat (PTX va)) = 0" "\<not> bad_va va" "\<not> bad_perm perm"
    and "(f, unat (PTX va)) \<noteq> (d, unat (PDX va))"
  shows "\<exists>s'. sys_page_alloc envid va perm s = Some (Returned (Inr 0, s')) \<and>
    maps s' d (vpn va) = Some (unat (of_nat p OR drop_bit 12 perm))"
  by (rule sys_page_alloc_run [OF assms])

definition ex_alloc :: kern where
  "ex_alloc = ex_mapped\<lparr>npages := 5, page_free_list := Some 4,
     pages := (\<lambda>p. \<lparr>pp_link = None, pp_ref = (if p = 4 then 0 else 1)\<rparr>)\<rparr>"

text \<open>The only free page is page 4, and the call maps frame 6, beyond the end of memory.\<close>

lemma ex_alloc_facts:
  "envid2env 0 True ex_alloc = Some (Inr 0)" "env_pgdir (envs ex_alloc 0) = Some 1"
  "table_at ex_alloc 1 (unat (PDX 0xEEBFE000)) = Some 2"
  "slot ex_alloc 2 (unat (PTX 0xEEBFE000)) = 0"
proof -
  have sl: "slot ex_alloc = slot ex_mapped" by (intro ext slot_mem_cong) (simp add: ex_alloc_def)
  have sel: "curenv ex_alloc = Some 0" "env_pgdir (envs ex_alloc 0) = Some 1"
    using ex_mapped_sel(5,6) by (simp_all add: ex_alloc_def curenv_def)
  then show "envid2env 0 True ex_alloc = Some (Inr 0)" "env_pgdir (envs ex_alloc 0) = Some 1"
    by (simp_all add: envid2env_def)
  show "table_at ex_alloc 1 (unat (PDX 0xEEBFE000)) = Some 2"
    using ex_mapped_slot [of 954 1] by (simp add: table_at_def sl unat_PDX present_def frame_of_def)
  show "slot ex_alloc 2 (unat (PTX 0xEEBFE000)) = 0"
    using ex_mapped_slot [of 1022 2] by (simp add: sl unat_PTX)
qed

theorem sys_page_alloc_perm_bits_witness:
  "\<exists>s'. sys_page_alloc 0 0xEEBFE000 0x2007 ex_alloc = Some (Returned (Inr 0, s')) \<and>
    maps s' 1 (vpn 0xEEBFE000) = Some 6"
  using sys_page_alloc_perm_bits [OF ex_alloc_facts(1,2) _ _ _ ex_alloc_facts(3) _ _ _ ex_alloc_facts(4),
      of 4 "0x2007"]
  by (simp add: ex_alloc_def bad_va_def bad_perm_def ROUNDDOWN_def drop_bit_eq_div)

end
