(* ===== verification/EnvProps.thy ===== *)
theory EnvProps
  imports Sched
begin

text \<open>
  Environment ids and the environment free list: ids name one slot and one lifetime of it,
  lookups honour the permission check, and \<open>env_init\<close> links the slots in order.
\<close>

section \<open>Environment ids\<close>

lemma ENVX_take: "ENVX x = unat (take_bit 10 x)"
  by (simp add: ENVX_def and_0x3FF)

lemma ENVX_less: "ENVX x < 1024"
  by (simp add: ENVX_def wsimps)

lemma not_0x3FF: "(x :: u32) AND NOT 0x3FF = push_bit 10 (drop_bit 10 x)"
proof -
  have m: "(0x3FF :: u32) = mask 10" by (simp add: mask_numeral)
  show ?thesis unfolding m by (rule bit_word_eqI) (auto simp: bit_simps)
qed

lemma unat_not_0x3FF: "unat ((x :: u32) AND NOT 0x3FF) = unat x div 1024 * 1024"
proof -
  have "unat x < 2 ^ 32" using unsigned_less [of x] by simp
  then show ?thesis
    unfolding not_0x3FF by (simp add: push_bit_eq_mult unat_word_ariths wsimps)
qed

lemma take_10_generation:
  assumes "e < 1024" "take_bit 10 g = (0 :: u32)"
  shows "ENVX (g OR of_nat e) = e"
proof -
  have "take_bit 10 (g OR of_nat e) = (take_bit 10 (of_nat e) :: u32)"
    by (simp only: take_bit_or assms(2) or.left_neutral)
  then have "ENVX (g OR of_nat e) = unat (of_nat e :: u32) mod 2 ^ 10"
    by (simp only: ENVX_take unat_take_bit)
  then show ?thesis using assms(1) by (simp add: unat_of_nat32)
qed

definition generation :: "u32 \<Rightarrow> u32" where
  "generation old = (let g = (old + push_bit 12 1) AND NOT 0x3FF
     in if sint g \<le> 0 then push_bit 12 1 else g)"

lemma new_env_id_eq: "new_env_id old e = generation old OR of_nat e"
  by (simp add: new_env_id_def generation_def Let_def)

lemma take_generation: "take_bit 10 (generation old) = 0"
  unfolding generation_def Let_def not_0x3FF
  by (auto intro!: bit_word_eqI simp: bit_simps)

lemma sint_generation: "0 < sint (generation old)"
  by (simp add: generation_def Let_def)

lemma new_env_id_slot: "e < 1024 \<Longrightarrow> ENVX (new_env_id old e) = e"
  unfolding new_env_id_eq by (rule take_10_generation [OF _ take_generation])

lemma new_env_id_pos:
  assumes "e < 1024"
  shows "0 < sint (new_env_id old e)"
proof -
  have g: "generation old \<noteq> 0" "\<not> bit (generation old) 31"
    using sint_generation [of old] sint_pos_iff by blast+
  have "\<not> bit (of_nat e :: u32) 31"
    using assms by (intro not_bit_small) (simp add: unat_of_nat32)
  with g have "\<not> bit (new_env_id old e) 31" by (simp add: new_env_id_eq bit_or_iff)
  moreover have "new_env_id old e \<noteq> 0" using g(1) by (auto simp: new_env_id_eq or_eq_0_iff)
  ultimately show ?thesis using sint_pos_iff by blast
qed

lemma new_env_id_fresh:
  assumes "e < 1024" "ENVX old = e"
  shows "new_env_id old e \<noteq> old"
proof
  assume eq: "new_env_id old e = old"
  have hi: "drop_bit 10 (of_nat e :: u32) = 0"
    using assms(1) unat_drop_bit [of 10 "of_nat e :: u32"]
    by (simp add: unat_of_nat32 flip: unat_eq_zero)
  have d: "drop_bit 10 (generation old) = drop_bit 10 old"
    using arg_cong [OF eq, of "drop_bit 10"] by (simp add: new_env_id_eq drop_bit_or hi)
  show False
  proof (cases "sint ((old + push_bit 12 1) AND NOT 0x3FF) \<le> 0")
    case False
    have "drop_bit 10 (push_bit 10 (drop_bit 10 (old + 4096))) = drop_bit 10 (old + 4096)"
      by (rule bit_word_eqI) (auto simp: bit_simps dest: bit_imp_le_length)
    moreover have "generation old = push_bit 10 (drop_bit 10 (old + 4096))"
      using False by (simp add: generation_def Let_def flip: not_0x3FF)
    ultimately have "drop_bit 10 (old + 4096) = drop_bit 10 old" using d by simp
    then have "unat (old + 4096) div 1024 = unat old div 1024"
      using unat_drop_bit [of 10 old] unat_drop_bit [of 10 "old + 4096"] by simp
    moreover have "unat (old + 4096) = (unat old + 4096) mod 2 ^ 32" by (simp add: unat_word_ariths)
    moreover have "unat old < 2 ^ 32" using unsigned_less [of old] by simp
    ultimately show False
    proof (cases "unat old + 4096 < 2 ^ 32")
      case True
      then have "unat (old + 4096) = unat old + 4096" by (simp add: unat_add_no_wrap)
      with \<open>unat (old + 4096) div 1024 = unat old div 1024\<close> show False by simp
    next
      case False
      then have "unat (old + 4096) = unat old + 4096 - 2 ^ 32"
        using \<open>unat old < 2 ^ 32\<close> \<open>unat (old + 4096) = (unat old + 4096) mod 2 ^ 32\<close>
        by (simp add: le_mod_geq)
      then have "unat (old + 4096) < 4096" using \<open>unat old < 2 ^ 32\<close> by linarith
      moreover have "4096 \<le> unat old" using False by simp
      ultimately have "unat (old + 4096) div 1024 < 4" "4 \<le> unat old div 1024"
        using div_le_mono [of 4096 "unat old" 1024] by (simp_all add: div_less_iff_less_mult)
      with \<open>unat (old + 4096) div 1024 = unat old div 1024\<close> show False by simp
    qed
  next
    case True
    then have "drop_bit 10 old = 4"
      using d by (simp add: generation_def Let_def push_bit_eq_mult drop_bit_eq_div)
    then have u: "unat old div 1024 = 4" using unat_drop_bit [of 10 old] by simp
    then have lt: "unat old < 5120" by linarith
    let ?g = "(old + push_bit 12 1) AND NOT 0x3FF"
    have "unat (old + 4096) = unat old + 4096" using lt by (simp add: unat_add_no_wrap)
    then have "unat ?g = 8192" unfolding unat_not_0x3FF using u by simp
    then have "unat ?g = unat (8192 :: u32)" by simp
    then have "?g = 8192" by (simp only: word_unat_eq_iff)
    with True show False by simp
  qed
qed

section \<open>The free list of environments\<close>

definition env_nxt :: "kern \<Rightarrow> nat \<Rightarrow> nat option" where
  "env_nxt s = (\<lambda>e. env_link (envs s e))"

definition env_push :: "nat \<Rightarrow> kern \<Rightarrow> kern" where
  "env_push e s = (upd_env e (\<lambda>x. x\<lparr>env_link := env_free_list s\<rparr>) s)\<lparr>env_free_list := Some e\<rparr>"

definition env_pop :: "kern \<Rightarrow> kern" where
  "env_pop s = (case env_free_list s of None \<Rightarrow> s
     | Some e \<Rightarrow> s\<lparr>env_free_list := env_link (envs s e)\<rparr>)"

interpretation env_pool: link_pool env_free_list env_nxt env_push env_pop
  by unfold_locales (auto simp: env_push_def env_pop_def env_nxt_def upd_env_def)

text \<open>
  \<open>env_inv s efl\<close>: the free list is \<open>efl\<close>, the environments on it are exactly the free
  ones, and an id that is in use (or was last in use) in a slot names that slot and is
  positive as an \<open>envid_t\<close>.
\<close>

definition env_inv :: "kern \<Rightarrow> nat list \<Rightarrow> bool" where
  "env_inv s efl \<longleftrightarrow>
     chain (env_nxt s) (env_free_list s) efl \<and> (\<forall>e \<in> set efl. e < NENV) \<and>
     (\<forall>e < NENV. e \<in> set efl \<longleftrightarrow> env_status (envs s e) = ENV_FREE) \<and>
     (\<forall>e < NENV. env_status (envs s e) \<noteq> ENV_FREE \<longrightarrow> env_id (envs s e) \<noteq> 0) \<and>
     (\<forall>e < NENV. env_id (envs s e) \<noteq> 0 \<longrightarrow>
        ENVX (env_id (envs s e)) = e \<and> 0 < sint (env_id (envs s e)))"

lemma env_inv_id:
  "env_inv s efl \<Longrightarrow> e < NENV \<Longrightarrow> env_status (envs s e) \<noteq> ENV_FREE
   \<Longrightarrow> ENVX (env_id (envs s e)) = e \<and> 0 < sint (env_id (envs s e)) \<and> env_id (envs s e) \<noteq> 0"
  by (auto simp: env_inv_def)

text \<open>
  C7: \<open>envid2env\<close> returns environment \<open>e\<close> exactly when \<open>e\<close> is the live environment whose id
  was asked for (the current one for id 0) and, if permission is checked, \<open>e\<close> is the current
  environment or a child of it; in every other case it returns E_BAD_ENV.  So an id is
  resolved to at most one environment.
\<close>

theorem envid2env_spec:
  assumes "env_inv s efl" "curenv s = Some c"
  shows "(\<forall>e. envid2env envid chk s = Some (Inr e) \<longleftrightarrow>
      (if envid = 0 then e = c
       else e < NENV \<and> env_status (envs s e) \<noteq> ENV_FREE \<and> env_id (envs s e) = envid \<and>
            (chk \<longrightarrow> e = c \<or> env_parent_id (envs s e) = env_id (envs s c)))) \<and>
    (envid2env envid chk s = Some (Inl E_BAD_ENV) \<or> (\<exists>e. envid2env envid chk s = Some (Inr e)))"
proof (cases "envid = 0")
  case True
  with assms(2) show ?thesis by (auto simp: envid2env_def)
next
  case False
  let ?x = "ENVX envid"
  let ?ok = "env_status (envs s ?x) \<noteq> ENV_FREE \<and> env_id (envs s ?x) = envid \<and>
     (chk \<longrightarrow> ?x = c \<or> env_parent_id (envs s ?x) = env_id (envs s c))"
  have run: "envid2env envid chk s = Some (if ?ok then Inr ?x else Inl E_BAD_ENV)"
    using False assms(2) by (cases chk) (auto simp: envid2env_def Let_def)
  let ?P = "\<lambda>e. e < NENV \<and> env_status (envs s e) \<noteq> ENV_FREE \<and> env_id (envs s e) = envid \<and>
     (chk \<longrightarrow> e = c \<or> env_parent_id (envs s e) = env_id (envs s c))"
  have u: "e = ?x" if "?P e" for e
    using env_inv_id [OF assms(1), of e] that by auto
  have P: "?P ?x \<longleftrightarrow> ?ok" using ENVX_less [of envid] by blast
  have eq: "Some (if ?ok then Inr ?x else Inl E_BAD_ENV) = Some (Inr e) \<longleftrightarrow> ?P e" for e
  proof (cases "e = ?x")
    case True
    then show ?thesis using ENVX_less [of envid] by (cases ?ok) simp_all
  next
    case False
    then have "\<not> ?P e" using u [of e] by fast
    with False show ?thesis by (cases ?ok) simp_all
  qed
  have "Some (if ?ok then Inr ?x else Inl E_BAD_ENV) = Some (Inl E_BAD_ENV) \<or>
      (\<exists>e. Some (if ?ok then Inr ?x else Inl E_BAD_ENV) = Some (Inr e))"
    by (cases ?ok) simp_all
  with eq False show ?thesis unfolding run by (simp only: if_False) blast
qed

section \<open>env_init\<close>

lemma env_init_loop_links:
  assumes "tail < a" "a \<le> n"
  shows "let s' = env_init_loop [a..<n] False tail s in
    (\<forall>e. env_link (envs s' e) = (if e = tail \<and> a < n then Some a
        else if a \<le> e \<and> Suc e < n then Some (Suc e) else env_link (envs s e))) \<and>
    (\<forall>e. env_status (envs s' e) = (if a \<le> e \<and> e < n then ENV_FREE else env_status (envs s e))) \<and>
    (\<forall>e. env_id (envs s' e) = (if a \<le> e \<and> e < n then 0 else env_id (envs s e))) \<and>
    env_free_list s' = env_free_list s"
  using assms
proof (induction "n - a" arbitrary: a tail s)
  case 0
  then show ?case by (auto simp: Let_def)
next
  case (Suc k)
  let ?t = "upd_env tail (\<lambda>e. e\<lparr>env_link := Some a\<rparr>)
     (upd_env a (\<lambda>e. e\<lparr>env_status := ENV_FREE, env_id := 0\<rparr>) s)"
  have lt: "a < n" using Suc.hyps(2) by simp
  then have l: "[a..<n] = a # [Suc a..<n]" by (rule upt_conv_Cons)
  have run: "env_init_loop [a..<n] False tail s = env_init_loop [Suc a..<n] False a ?t"
    by (simp add: l Let_def)
  have "k = n - Suc a" using Suc.hyps(2) by simp
  from Suc.hyps(1) [OF this, of a ?t] lt Suc.prems show ?case
    unfolding Let_def run by (auto simp: upd_env_def)
qed

lemma env_init_inv:
  assumes "env_link (envs s 1023) = None"
  shows "env_inv (env_init s) [0..<NENV]"
proof -
  let ?s0 = "upd_env 0 (\<lambda>e. e\<lparr>env_status := ENV_FREE, env_id := 0\<rparr>) (s\<lparr>env_free_list := Some 0\<rparr>)"
  have l: "[0..<1024] = 0 # [Suc 0..<1024]" by (rule upt_conv_Cons) simp
  have run: "env_init s = env_init_loop [Suc 0..<1024] False 0 ?s0"
    unfolding env_init_def l env_init_loop.simps Let_def by (simp only: if_True)
  note L = env_init_loop_links [of 0 "Suc 0" 1024 ?s0, unfolded Let_def, folded run, simplified]
  have lk0: "env_link (envs (env_init s) e) =
      (if e = 0 then Some (Suc 0) else if Suc 0 \<le> e \<and> Suc e < 1024 then Some (Suc e)
       else env_link (envs ?s0 e))" for e
    using L by blast
  have lk: "env_nxt (env_init s) e = (if Suc e < 1024 then Some (Suc e) else None)" if "e < 1024" for e
    using that assms unfolding env_nxt_def lk0 by (cases "e = 1023") (auto simp: upd_env_def)
  have "chain (env_nxt (env_init s)) (if a < 1024 then Some a else None) [a..<1024]" if "a \<le> 1024" for a
    using that
  proof (induction "1024 - a" arbitrary: a)
    case 0
    then show ?case by simp
  next
    case (Suc k)
    then have "a < 1024" by simp
    with Suc.hyps(1) [of "Suc a"] Suc.hyps(2) lk [of a] show ?case
      by (simp add: upt_conv_Cons)
  qed
  note ch = this [of 0]
  have hd: "env_free_list (env_init s) = Some 0"
    and st: "env_status (envs (env_init s) e) = ENV_FREE" "env_id (envs (env_init s) e) = 0"
    if "e < 1024" for e
    using L that by (auto simp: upd_env_def)
  from ch hd [of 0] have "chain (env_nxt (env_init s)) (env_free_list (env_init s)) [0..<1024]"
    by simp
  with st show ?thesis unfolding env_inv_def by (simp del: upt_rec_numeral)
qed

text \<open>
  C11: \<open>env_init\<close> marks every environment free and links all of them in the order of the
  array, so that the first allocation returns \<open>envs[0]\<close>.
\<close>

theorem env_init_order:
  assumes "env_link (envs s 1023) = None"
  shows "env_inv (env_init s) [0..<NENV]"
  using assms by (rule env_init_inv)

theorem env_init_order_witness: "env_inv (env_init kern0) [0..<NENV]"
  by (rule env_init_order) (simp add: kern0_def env0_def)

text \<open>Taking the first environment off the free list and giving it a new id.\<close>

lemma env_inv_take:
  assumes inv: "env_inv s (e # efl)"
    and f: "env_link (f (envs s e)) = env_link (envs s e)"
      "env_status (f (envs s e)) \<noteq> ENV_FREE" "ENVX (env_id (f (envs s e))) = e"
      "0 < sint (env_id (f (envs s e)))"
  shows "env_inv ((upd_env e f s)\<lparr>env_free_list := env_link (envs s e)\<rparr>) efl"
proof -
  let ?s = "(upd_env e f s)\<lparr>env_free_list := env_link (envs s e)\<rparr>"
  have c: "chain (env_nxt s) (env_free_list s) (e # efl)" using inv by (simp add: env_inv_def)
  then have c': "chain (env_nxt s) (env_link (envs s e)) efl" by (simp add: env_nxt_def)
  have ne: "e \<notin> set efl" using chain_distinct [OF c] by simp
  have "chain (env_nxt ?s) (env_link (envs s e)) efl \<longleftrightarrow> chain (env_nxt s) (env_link (envs s e)) efl"
    by (rule chain_cong) (use ne in \<open>auto simp: env_nxt_def upd_env_def\<close>)
  moreover have "env_id (f (envs s e)) \<noteq> 0" using f(4) by auto
  ultimately show ?thesis using inv c' ne f by (auto simp: env_inv_def upd_env_def)
qed

definition ex_env_machine :: kern where
  "ex_env_machine =
     (let s = env_init kern0
      in set_curenv (Some 0) ((upd_env 0 (\<lambda>x. x\<lparr>env_id := 0x1000, env_status := ENV_RUNNING,
             env_pgdir := Some 1\<rparr>) s)\<lparr>env_free_list := env_link (envs s 0)\<rparr>))"

lemma env_inv_set_curenv [simp]: "env_inv (set_curenv e s) efl \<longleftrightarrow> env_inv s efl"
  by (simp add: env_inv_def set_curenv_def env_nxt_def)

lemma env_inv_ex: "env_inv ex_env_machine [1..<NENV]"
proof -
  have l: "[0..<1024] = 0 # [1..<1024]" using upt_conv_Cons [of 0 1024] by simp
  have "env_inv (env_init kern0) [0..<1024]" by (rule env_init_inv) (simp add: kern0_def env0_def)
  then have i: "env_inv (env_init kern0) (0 # [1..<1024])" unfolding l .
  show ?thesis unfolding ex_env_machine_def Let_def env_inv_set_curenv
    by (rule env_inv_take [OF i]) (simp_all add: ENVX_def)
qed

theorem envid2env_spec_witness:
  "envid2env 0x1000 True ex_env_machine = Some (Inr 0)"
proof -
  have c: "curenv ex_env_machine = Some 0"
    by (simp add: ex_env_machine_def Let_def curenv_def set_curenv_def)
  have e: "env_status (envs ex_env_machine 0) = ENV_RUNNING" "env_id (envs ex_env_machine 0) = 0x1000"
    by (simp_all add: ex_env_machine_def Let_def set_curenv_def upd_env_def)
  from envid2env_spec [OF env_inv_ex c, of "0x1000" True, THEN conjunct1, THEN spec, of 0] e
  show ?thesis by simp
qed

end
