(* ===== verification/KernelSteps.thy ===== *)
theory KernelSteps
  imports TrapProps SyscallProps EnvProps
begin

text \<open>
  The kernel as a state machine: each step is one entry into the kernel by a trap on one CPU, from
  user mode or from the halted state, up to the point where that CPU leaves the kernel again.
  The big lock lets one CPU at a time into the kernel, so these steps interleave as wholes.
  Whatever the environments do, the table of environments stays well formed and no environment
  is current on two CPUs - if they do not change the status of an environment that is current or
  blocked, nor destroy one a second time.
\<close>

section \<open>What leaves the environments alone\<close>

definition env_frame :: "kern \<Rightarrow> kern \<Rightarrow> bool" where
  "env_frame s s' \<longleftrightarrow> envs s' = envs s \<and> env_free_list s' = env_free_list s \<and> cpus s' = cpus s \<and> cpunum s' = cpunum s"

named_theorems frames \<open>operations that leave the environments alone\<close>

lemma env_frame_refl [simp]: "env_frame s s"
  by (simp add: env_frame_def)

lemma env_frame_trans: "env_frame s t \<Longrightarrow> env_frame t u \<Longrightarrow> env_frame s u"
  by (simp add: env_frame_def)

lemma env_frame_upd [simp]:
  "env_frame s (upd_page p f t) = env_frame s t" "env_frame s (store32 a v t) = env_frame s t"
  "env_frame s (t\<lparr>pmem := m\<rparr>) = env_frame s t" "env_frame s (t\<lparr>cr3 := d\<rparr>) = env_frame s t"
  "env_frame s (t\<lparr>page_free_list := l\<rparr>) = env_frame s t" "env_frame s (t\<lparr>console := c\<rparr>) = env_frame s t"
  "env_frame s (t\<lparr>nic := n\<rparr>) = env_frame s t" "env_frame s (t\<lparr>ticks := k\<rparr>) = env_frame s t"
  "env_frame s (t\<lparr>invlpg_log := i\<rparr>) = env_frame s t" "env_frame s (t\<lparr>user_mem_check_addr := u\<rparr>) = env_frame s t"
  "env_frame s (t\<lparr>kernel_locked := b\<rparr>) = env_frame s t" "env_frame s (page_incref p t) = env_frame s t"
  "env_frame (upd_page p f s) t = env_frame s t" "env_frame (store32 a v s) t = env_frame s t"
  "env_frame (s\<lparr>pmem := m\<rparr>) t = env_frame s t" "env_frame (page_incref p s) t = env_frame s t"
  by (simp_all add: env_frame_def upd_page_def store32_def page_incref_def)

lemma frame_page_alloc: "page_alloc z s = Some (r, s') \<Longrightarrow> env_frame s s'"
  by (auto simp: page_alloc_def Let_def result_eqs)

lemma frame_page_free: "page_free p s = Some s' \<Longrightarrow> env_frame s s'"
  by (auto simp: page_free_def Let_def result_eqs)

lemma frame_page_decref: "page_decref p s = Some s' \<Longrightarrow> env_frame s s'"
  by (auto simp: page_decref_def Let_def result_eqs dest!: frame_page_free intro: env_frame_trans)

lemma frame_tlb: "env_frame s (tlb_invalidate d va t) = env_frame s t"
  by (simp add: tlb_invalidate_def split: option.split)

lemma frame_page_remove: "page_remove d va s = Some s' \<Longrightarrow> env_frame s s'"
  by (auto simp: page_remove_def frame_tlb Let_def result_eqs dest!: frame_page_decref)

lemma frame_walk: "pgdir_walk d va c s = Some (r, s') \<Longrightarrow> env_frame s s'"
  by (auto simp: pgdir_walk_def Let_def result_eqs dest!: frame_page_alloc)

lemma frame_page_insert: "page_insert d p va perm s = Some (r, s') \<Longrightarrow> env_frame s s'"
  by (auto simp: page_insert_def Let_def result_eqs dest!: frame_walk frame_page_remove intro: env_frame_trans)

lemma frame_store_bytes: "store_bytes va bs s = Some s' \<Longrightarrow> env_frame s s'"
  by (induction va bs s rule: store_bytes.induct)
    (auto simp: store8_def result_eqs intro: env_frame_trans split: option.splits if_splits)

lemma frame_vcprintf: "vcprintf fmt ap s = Some (v, s') \<Longrightarrow> env_frame s s'"
  by (auto simp: vcprintf_def Let_def result_eqs split: prod.splits)

lemma frame_transmit: "e1000_transmit b n s = Some (v, s') \<Longrightarrow> env_frame s s'"
  by (auto simp: e1000_transmit_def Let_def result_eqs)

lemma frame_receive: "e1000_receive a n s = Some (v, s') \<Longrightarrow> env_frame s s'"
  by (auto simp: e1000_receive_def Let_def result_eqs dest!: frame_vcprintf frame_store_bytes intro: env_frame_trans)

lemma frame_user_mem_check_loop: "user_mem_check_loop d va perm stop p s = Some rs \<Longrightarrow> env_frame s (snd rs)"
  by (erule user_mem_check_loop.raw_induct [where P = "\<lambda>d va perm stop p s rs. env_frame s (snd rs)", rotated])
    (auto simp: result_eqs)

lemma frame_user_mem_check: "user_mem_check e va len perm s = Some (r, s') \<Longrightarrow> env_frame s s'"
  by (auto simp: user_mem_check_def Let_def result_eqs dest: frame_user_mem_check_loop)

section \<open>The invariant\<close>

text \<open>
  The table of environments, and what every CPU but the one in the kernel has as its current
  environment; \<open>strict\<close> adds the same for the CPU in the kernel.
\<close>

definition recv_ok :: "kern \<Rightarrow> bool" where
  "recv_ok s \<longleftrightarrow> (\<forall>e < NENV. env_ipc_recving (envs s e) \<longrightarrow> env_status (envs s e) \<in> {ENV_FREE, ENV_NOT_RUNNABLE})"

definition cpus_ok :: "(nat \<Rightarrow> bool) \<Rightarrow> kern \<Rightarrow> bool" where
  "cpus_ok I s \<longleftrightarrow>
     (\<forall>i c. cpu_env (cpus s i) = Some c \<longrightarrow> c < NENV \<and> env_status (envs s c) \<noteq> ENV_FREE \<and>
        (I i \<longrightarrow> env_status (envs s c) \<in> {ENV_RUNNING, ENV_DYING})) \<and>
     (\<forall>i j c. cpu_env (cpus s i) = Some c \<longrightarrow> cpu_env (cpus s j) = Some c \<longrightarrow> i = j)"

definition kern_inv :: "kern \<Rightarrow> bool" where
  "kern_inv s \<longleftrightarrow> (\<exists>efl. env_inv s efl) \<and> recv_ok s \<and> cpus_ok (\<lambda>_. True) s"

definition entry_inv :: "kern \<Rightarrow> bool" where
  "entry_inv s \<longleftrightarrow> (\<exists>efl. env_inv s efl) \<and> recv_ok s \<and> cpus_ok (\<lambda>i. i \<noteq> cpunum s) s"

lemma entry_inv: "kern_inv s \<Longrightarrow> entry_inv s"
  by (auto simp: kern_inv_def entry_inv_def cpus_ok_def)

lemma env_inv_frame: "env_frame s s' \<Longrightarrow> env_inv s' efl = env_inv s efl"
  by (simp add: env_inv_def env_frame_def env_nxt_def)

lemma kern_inv_frame: "env_frame s s' \<Longrightarrow> kern_inv s' = kern_inv s" "env_frame s s' \<Longrightarrow> entry_inv s' = entry_inv s"
  by (auto simp: kern_inv_def entry_inv_def env_inv_frame) (auto simp: recv_ok_def cpus_ok_def env_frame_def)

lemma frame_env_free_ptes: "env_free_ptes js d k pt s = Some s' \<Longrightarrow> env_frame s s'"
  by (induction js arbitrary: s) (auto simp: result_eqs dest!: frame_page_remove intro: env_frame_trans split: if_splits)

lemma frame_env_free_pdes: "env_free_pdes is d s = Some s' \<Longrightarrow> env_frame s s'"
proof (induction "is" arbitrary: s)
  case (Cons i "is")
  show ?case
  proof (cases "load32 s (d * 4096 + 4 * i) AND PTE_P = 0")
    case False
    let ?pa = "PTE_ADDR (load32 s (d * 4096 + 4 * i))"
    obtain t p u where
      "env_free_ptes [0..<NPTENTRIES] d i (unat ?pa) s = Some t"
      "page_decref p (store32 (d * 4096 + 4 * i) 0 t) = Some u" "env_free_pdes is d u = Some s'"
      using Cons.prems False by (auto simp: Let_def result_eqs)
    then have "env_frame s t" "env_frame t u" "env_frame u s'"
      using Cons.IH frame_env_free_ptes frame_page_decref by fastforce+
    then show ?thesis by (blast intro: env_frame_trans)
  qed (use Cons in simp)
qed simp

text \<open>Changes to the environments that keep the ids, the links and which of them are free.\<close>

lemma env_inv_keep:
  assumes "env_inv s efl" "env_free_list s' = env_free_list s"
    and "\<And>x. env_link (envs s' x) = env_link (envs s x) \<and> env_id (envs s' x) = env_id (envs s x) \<and>
      (env_status (envs s' x) = ENV_FREE \<longleftrightarrow> env_status (envs s x) = ENV_FREE)"
  shows "env_inv s' efl"
  using assms by (simp add: env_inv_def env_nxt_def)

lemma cpus_okD:
  assumes "cpus_ok I s" "cpu_env (cpus s i) = Some c"
  shows "c < NENV" "env_status (envs s c) \<noteq> ENV_FREE" "I i \<Longrightarrow> env_status (envs s c) \<in> {ENV_RUNNING, ENV_DYING}"
    "cpu_env (cpus s j) = Some c \<Longrightarrow> j = i"
  using assms by (auto simp: cpus_ok_def)

lemma env_run_fields:
  assumes "env_run e s = Some s'"
  shows "env_link (envs s' x) = env_link (envs s x)" "env_id (envs s' x) = env_id (envs s x)"
    "env_ipc_recving (envs s' x) = env_ipc_recving (envs s x)"
    "env_status (envs s' x) = (if x = e then ENV_RUNNING
       else if curenv s = Some x \<and> env_status (envs s x) = ENV_RUNNING then ENV_RUNNABLE else env_status (envs s x))"
    "cpu_env (cpus s' i) = (if i = cpunum s then Some e else cpu_env (cpus s i))"
    "env_free_list s' = env_free_list s"
proof -
  let ?t = "case curenv s of None \<Rightarrow> s | Some c \<Rightarrow>
    if env_status (envs s c) = ENV_RUNNING then upd_env c (\<lambda>x. x\<lparr>env_status := ENV_RUNNABLE\<rparr>) s else s"
  have t: "env_link (envs ?t x) = env_link (envs s x)" "env_id (envs ?t x) = env_id (envs s x)"
    "env_ipc_recving (envs ?t x) = env_ipc_recving (envs s x)" "cpus ?t = cpus s" "cpunum ?t = cpunum s"
    "env_status (envs ?t x) = (if curenv s = Some x \<and> env_status (envs s x) = ENV_RUNNING then ENV_RUNNABLE
       else env_status (envs s x))" "env_free_list ?t = env_free_list s" for x
    by (auto simp: upd_env_def split: option.split)
  define v where "v = upd_env e (\<lambda>x. x\<lparr>env_status := ENV_RUNNING, env_runs := env_runs x + 1\<rparr>) (set_curenv (Some e) ?t)"
  have "env_run e s = (case env_pgdir (envs v e) of None \<Rightarrow> None | Some d \<Rightarrow>
      Some (upd_env e (\<lambda>x. x\<lparr>env_cpunum := cpunum (unlock_kernel (v\<lparr>cr3 := d\<rparr>))\<rparr>) (unlock_kernel (v\<lparr>cr3 := d\<rparr>))))"
    by (simp only: env_run_def Let_def v_def)
  then obtain d where s': "s' = upd_env e (\<lambda>x. x\<lparr>env_cpunum := cpunum (unlock_kernel (v\<lparr>cr3 := d\<rparr>))\<rparr>)
      (unlock_kernel (v\<lparr>cr3 := d\<rparr>))"
    using assms by (cases "env_pgdir (envs v e)") simp_all
  show "env_link (envs s' x) = env_link (envs s x)" "env_id (envs s' x) = env_id (envs s x)"
    "env_ipc_recving (envs s' x) = env_ipc_recving (envs s x)"
    "env_status (envs s' x) = (if x = e then ENV_RUNNING
       else if curenv s = Some x \<and> env_status (envs s x) = ENV_RUNNING then ENV_RUNNABLE else env_status (envs s x))"
    "cpu_env (cpus s' i) = (if i = cpunum s then Some e else cpu_env (cpus s i))"
    "env_free_list s' = env_free_list s"
    unfolding s' v_def using t by (simp_all add: upd_env_def [of e] set_curenv_def unlock_kernel_def)
qed

lemma env_run_entry:
  assumes inv: "entry_inv s" and e: "e < NENV"
    and st: "env_status (envs s e) = ENV_RUNNABLE \<or> curenv s = Some e \<and> env_status (envs s e) = ENV_RUNNING"
    and run: "env_run e s = Some s'"
  shows "kern_inv s'"
proof -
  obtain efl where I: "env_inv s efl" "recv_ok s" "cpus_ok (\<lambda>i. i \<noteq> cpunum s) s" using inv by (auto simp: entry_inv_def)
  note E = env_run_fields [OF run]
  have other: "x \<noteq> e" if "cpu_env (cpus s i) = Some x" "i \<noteq> cpunum s" for x i
  proof
    assume "x = e"
    with st that cpus_okD(3) [OF I(3) that(1)] have "curenv s = Some e" by auto
    then show False using cpus_okD(4) [OF I(3) that(1), of "cpunum s"] that(2) \<open>x = e\<close> by (simp add: curenv_def)
  qed
  have "env_inv s' efl"
    by (rule env_inv_keep [OF I(1) E(6)]) (use E st in auto)
  moreover have "recv_ok s'" using I(2) st E(3,4) e by (auto simp: recv_ok_def)
  moreover have "cpus_ok (\<lambda>_. True) s'"
    unfolding cpus_ok_def E(4,5) using e other cpus_okD [OF I(3)] by (auto simp: curenv_def split: if_splits)
  ultimately show ?thesis by (auto simp: kern_inv_def)
qed

text \<open>Ways out of the kernel: what holds of the state, or of the value a function returns.\<close>

primrec ctl_ok :: "('a \<Rightarrow> bool) \<Rightarrow> 'a ctl \<Rightarrow> bool" where
  "ctl_ok Q (Returned a) = Q a"
| "ctl_ok Q (UserMode s) = kern_inv s"
| "ctl_ok Q (Halted s) = kern_inv s"
| "ctl_ok Q (InMonitor s) = True"

lemma ctl_ok_bind:
  "ctl_ok Q r \<Longrightarrow> bind_ctl r f = Some r' \<Longrightarrow> (\<And>a. Q a \<Longrightarrow> f a = Some r' \<Longrightarrow> ctl_ok Q' r') \<Longrightarrow> ctl_ok Q' r'"
  by (cases r) auto

lemma ctl_ok_mono: "ctl_ok Q r \<Longrightarrow> (\<And>a. Q a \<Longrightarrow> Q' a) \<Longrightarrow> ctl_ok Q' r"
  by (cases r) auto

lemma sched_pick_env: "sched_pick is start s = Some j \<Longrightarrow> j < NENV \<and> env_status (envs s j) = ENV_RUNNABLE"
  by (induction "is") (auto simp: Let_def split: if_splits)

lemma sched_halt_ok:
  assumes inv: "entry_inv s" and halt: "sched_halt s = Some r"
  shows "ctl_ok (\<lambda>_. False) r"
proof -
  obtain efl where I: "env_inv s efl" "recv_ok s" "cpus_ok (\<lambda>i. i \<noteq> cpunum s) s" using inv by (auto simp: entry_inv_def)
  have "kern_inv t" if "r = Halted t" for t
  proof -
    have t: "envs t = envs s" "env_free_list t = env_free_list s"
      "cpu_env (cpus t i) = (if i = cpunum s then None else cpu_env (cpus s i))" for i
      using halt that by (auto simp: sched_halt_def Let_def set_curenv_def unlock_kernel_def split: if_splits)
    have "env_inv t efl" by (rule env_inv_keep [OF I(1)]) (simp_all add: t)
    moreover have "recv_ok t" using I(2) by (simp add: recv_ok_def t)
    moreover have "cpus_ok (\<lambda>_. True) t"
      unfolding cpus_ok_def t using cpus_okD [OF I(3)] by (auto split: if_splits)
    ultimately show ?thesis by (auto simp: kern_inv_def)
  qed
  then show ?thesis using halt by (auto simp: sched_halt_def Let_def split: if_splits)
qed

lemma sched_yield_ok:
  assumes inv: "entry_inv s" and run: "sched_yield s = Some r"
  shows "ctl_ok (\<lambda>_. False) r"
proof -
  have run_ok: "ctl_ok (\<lambda>_. False) r"
    if "map_option UserMode (env_run e s) = Some r" "e < NENV"
      "env_status (envs s e) = ENV_RUNNABLE \<or> curenv s = Some e \<and> env_status (envs s e) = ENV_RUNNING" for e
    using env_run_entry [OF inv that(2,3)] that(1) by auto
  have cur: "c < NENV" if "curenv s = Some c" for c
    using inv that by (auto simp: entry_inv_def cpus_ok_def curenv_def)
  show ?thesis
    using run run_ok sched_pick_env cur sched_halt_ok [OF inv] unfolding sched_yield_def Let_def
    by (auto split: option.splits if_splits)
qed

text \<open>Freeing an environment that no other CPU runs.\<close>

lemma env_free_fields:
  assumes "env_free e s = Some s'"
  shows "cpus s' = cpus s" "cpunum s' = cpunum s" "env_free_list s' = Some e"
    "x \<noteq> e \<Longrightarrow> envs s' x = envs s x" "env_id (envs s' e) = env_id (envs s e)"
    "env_status (envs s' e) = ENV_FREE" "env_link (envs s' e) = env_free_list s"
proof -
  let ?s = "if curenv s = Some e then s\<lparr>cr3 := kern_pgdir s\<rparr> else s"
  obtain d t p u where u: "env_free_pdes [0..<955] d ?s = Some t"
    "page_decref p (upd_env e (\<lambda>x. x\<lparr>env_pgdir := None\<rparr>) t) = Some u"
    "s' = (upd_env e (\<lambda>x. x\<lparr>env_status := ENV_FREE, env_link := env_free_list u\<rparr>) u)\<lparr>env_free_list := Some e\<rparr>"
    using assms by (auto simp: env_free_def Let_def result_eqs)
  have "env_frame s t" using frame_env_free_pdes [OF u(1)] by (auto simp: env_frame_def split: if_splits)
  moreover note frame_page_decref [OF u(2)]
  ultimately show "cpus s' = cpus s" "cpunum s' = cpunum s" "env_free_list s' = Some e"
    "x \<noteq> e \<Longrightarrow> envs s' x = envs s x" "env_id (envs s' e) = env_id (envs s e)"
    "env_status (envs s' e) = ENV_FREE" "env_link (envs s' e) = env_free_list s"
    unfolding u(3) by (auto simp: env_frame_def upd_env_def)
qed

lemma env_inv_free:
  assumes inv: "env_inv s efl" and e: "e < NENV" "env_status (envs s e) \<noteq> ENV_FREE" and run: "env_free e s = Some s'"
  shows "env_inv s' (e # efl)"
proof -
  note F = env_free_fields [OF run]
  have same: "envs s' x = envs s x" if "x \<noteq> e" for x using F(4) that by blast
  have ne: "e \<notin> set efl" using inv e by (auto simp: env_inv_def)
  have "chain (env_nxt s') (env_free_list s) efl = chain (env_nxt s) (env_free_list s) efl"
  proof (rule chain_cong)
    fix x assume "x \<in> set efl"
    then have "envs s' x = envs s x" using ne by (intro same) auto
    then show "env_nxt s' x = env_nxt s x" by (simp add: env_nxt_def)
  qed
  then have "chain (env_nxt s') (env_free_list s') (e # efl)"
    using inv F(3,7) by (simp add: env_inv_def env_nxt_def)
  moreover have "env_id (envs s' x) = env_id (envs s x)" "x \<in> set (e # efl) \<longleftrightarrow> env_status (envs s' x) = ENV_FREE"
    "env_status (envs s' x) \<noteq> ENV_FREE \<Longrightarrow> env_status (envs s x) \<noteq> ENV_FREE" if "x < NENV" for x
    using inv F(5,6) same that e by (cases "x = e"; force simp: env_inv_def)+
  ultimately show ?thesis
    using inv e(1) unfolding env_inv_def by (metis set_ConsD)
qed

text \<open>Changing one environment; \<open>alone e s\<close>: no other CPU is in it.\<close>

definition alone :: "nat \<Rightarrow> kern \<Rightarrow> bool" where
  "alone e s \<longleftrightarrow> (\<forall>i. i \<noteq> cpunum s \<longrightarrow> cpu_env (cpus s i) \<noteq> Some e)"

lemma alone_not_running:
  "entry_inv s \<Longrightarrow> env_status (envs s e) \<notin> {ENV_RUNNING, ENV_DYING} \<Longrightarrow> alone e s"
  by (auto simp: entry_inv_def alone_def dest: cpus_okD(3))

lemma alone_self: "entry_inv s \<Longrightarrow> curenv s = Some c \<Longrightarrow> alone c s"
  by (auto simp: entry_inv_def alone_def curenv_def dest: cpus_okD(4))

lemma entry_inv_upd:
  assumes inv: "entry_inv s" and e: "e < NENV" "env_status (envs s e) \<noteq> ENV_FREE"
    and f: "env_link (f (envs s e)) = env_link (envs s e)" "env_id (f (envs s e)) = env_id (envs s e)"
      "env_status (f (envs s e)) \<noteq> ENV_FREE"
      "env_ipc_recving (f (envs s e)) \<Longrightarrow> env_status (f (envs s e)) = ENV_NOT_RUNNABLE"
    and al: "alone e s \<or> env_status (f (envs s e)) \<in> {ENV_RUNNING, ENV_DYING}"
  shows "entry_inv (upd_env e f s)"
proof -
  obtain efl where I: "env_inv s efl" "recv_ok s" "cpus_ok (\<lambda>i. i \<noteq> cpunum s) s" using inv by (auto simp: entry_inv_def)
  have "env_inv (upd_env e f s) efl"
    by (rule env_inv_keep [OF I(1)]) (use e(2) f in \<open>auto simp: upd_env_def\<close>)
  moreover have "recv_ok (upd_env e f s)" using I(2) f(4) by (auto simp: recv_ok_def upd_env_def)
  moreover have "cpus_ok (\<lambda>i. i \<noteq> cpunum s) (upd_env e f s)"
    unfolding cpus_ok_def using cpus_okD [OF I(3)] f(3) al by (auto simp: upd_env_def alone_def)
  ultimately show ?thesis by (auto simp: entry_inv_def upd_env_def)
qed

lemma entry_inv_same:
  assumes inv: "entry_inv s"
    and f: "\<And>x. env_link (f x) = env_link x \<and> env_id (f x) = env_id x \<and> env_status (f x) = env_status x \<and>
      env_ipc_recving (f x) = env_ipc_recving x"
  shows "entry_inv (upd_env e f s)"
proof -
  obtain efl where I: "env_inv s efl" "recv_ok s" "cpus_ok (\<lambda>i. i \<noteq> cpunum s) s" using inv by (auto simp: entry_inv_def)
  have "env_inv (upd_env e f s) efl" by (rule env_inv_keep [OF I(1)]) (use f in \<open>auto simp: upd_env_def\<close>)
  moreover have "recv_ok (upd_env e f s)" using I(2) f by (auto simp: recv_ok_def upd_env_def)
  moreover have "cpus_ok (\<lambda>i. i \<noteq> cpunum s) (upd_env e f s)"
    unfolding cpus_ok_def using cpus_okD [OF I(3)] f by (auto simp: upd_env_def)
  ultimately show ?thesis by (auto simp: entry_inv_def upd_env_def)
qed

lemma env_free_ok:
  assumes inv: "entry_inv s" and e: "e < NENV" "env_status (envs s e) \<noteq> ENV_FREE" and al: "alone e s"
    and run: "env_free e s = Some s'"
  shows "entry_inv (if curenv s = Some e then set_curenv None s' else s')"
proof -
  obtain efl where I: "env_inv s efl" "recv_ok s" "cpus_ok (\<lambda>i. i \<noteq> cpunum s) s" using inv by (auto simp: entry_inv_def)
  note F = env_free_fields [OF run]
  let ?t = "if curenv s = Some e then set_curenv None s' else s'"
  have t: "envs ?t = envs s'" "env_free_list ?t = env_free_list s'" "cpunum ?t = cpunum s"
    "cpu_env (cpus ?t i) = (if i = cpunum s \<and> curenv s = Some e then None else cpu_env (cpus s i))" for i
    using F(1,2) by (auto simp: set_curenv_def)
  have same: "envs s' x = envs s x" if "x \<noteq> e" for x using F(4) that by blast
  have ne: "c \<noteq> e" if "cpu_env (cpus ?t i) = Some c" for i c
    using that al unfolding t(4) by (cases "i = cpunum s") (auto simp: alone_def curenv_def split: if_splits)
  have "env_inv s' (e # efl)" by (rule env_inv_free [OF I(1) e run])
  then have "env_inv ?t (e # efl)" by simp
  moreover have "recv_ok ?t" unfolding recv_ok_def t using I(2) F(6) same by (metis insert_iff recv_ok_def)
  moreover have "cpus_ok (\<lambda>i. i \<noteq> cpunum s) ?t"
  proof -
    have "cpu_env (cpus s i) = Some c \<and> envs s' c = envs s c" if "cpu_env (cpus ?t i) = Some c" for i c
      using that ne [OF that] same [of c] unfolding t(4) by (auto split: if_splits)
    then show ?thesis unfolding cpus_ok_def t(1) using cpus_okD [OF I(3)] by metis
  qed
  ultimately show ?thesis unfolding entry_inv_def t(3) by blast
qed

lemma env_destroy_ok:
  assumes inv: "entry_inv s" and e: "e < NENV" "env_status (envs s e) \<noteq> ENV_FREE"
    and al: "alone e s \<or> env_status (envs s e) = ENV_RUNNING"
    and run: "env_destroy e s = Some r"
  shows "ctl_ok entry_inv r"
proof (cases "env_status (envs s e) = ENV_RUNNING \<and> curenv s \<noteq> Some e")
  case True
  have "\<not> env_ipc_recving (envs s e)" using inv e True by (auto simp: entry_inv_def recv_ok_def)
  then have "entry_inv (upd_env e (\<lambda>x. x\<lparr>env_status := ENV_DYING\<rparr>) s)"
    using e by (intro entry_inv_upd [OF inv e]) auto
  then show ?thesis using run True by (auto simp: env_destroy_def)
next
  case False
  then have al: "alone e s" using al alone_self [OF inv] by blast
  obtain t where t: "env_free e s = Some t"
    "(if curenv t = Some e then sched_yield (set_curenv None t) \<bind> (\<lambda>r. bind_ctl r (\<lambda>_. None)) else Some (Returned t)) = Some r"
    using run False by (auto simp: env_destroy_def split: bind_splits)
  have c: "curenv t = curenv s" using env_free_fields(1,2) [OF t(1)] by (simp add: curenv_def)
  note I = env_free_ok [OF inv e al t(1)]
  show ?thesis
  proof (cases "curenv s = Some e")
    case True
    then obtain y where "sched_yield (set_curenv None t) = Some y" "bind_ctl y (\<lambda>_. None) = Some r"
      using t(2) c by (auto split: bind_splits)
    moreover then have "ctl_ok (\<lambda>_. False) y" using sched_yield_ok I True by auto
    ultimately show ?thesis by (blast intro: ctl_ok_bind)
  qed (use t(2) c I in auto)
qed

lemma cur_live: "entry_inv s \<Longrightarrow> curenv s = Some c \<Longrightarrow> c < NENV \<and> env_status (envs s c) \<noteq> ENV_FREE"
  by (auto simp: entry_inv_def cpus_ok_def curenv_def)

text \<open>Destroying the current environment does not return.\<close>

lemma env_destroy_current:
  assumes inv: "entry_inv s" and c: "curenv s = Some c" and run: "env_destroy c s = Some r"
  shows "ctl_ok Q r"
proof -
  have e: "c < NENV" "env_status (envs s c) \<noteq> ENV_FREE" using cur_live [OF inv c] by simp_all
  obtain t where t: "env_free c s = Some t"
    "(if curenv t = Some c then sched_yield (set_curenv None t) \<bind> (\<lambda>r. bind_ctl r (\<lambda>_. None)) else Some (Returned t)) = Some r"
    using run c by (auto simp: env_destroy_def split: bind_splits)
  have "curenv t = Some c" using env_free_fields(1,2) [OF t(1)] c by (simp add: curenv_def)
  then obtain y where y: "sched_yield (set_curenv None t) = Some y" "bind_ctl y (\<lambda>_. None) = Some r"
    using t(2) by (auto split: bind_splits)
  have "entry_inv (set_curenv None t)" using env_free_ok [OF inv e alone_self [OF inv c] t(1)] c by simp
  then show ?thesis using ctl_ok_bind [OF sched_yield_ok y(2)] y(1) by auto
qed

text \<open>When it returns, \<open>user_mem_assert\<close> has changed nothing but the address of the failure.\<close>

lemma user_mem_assert_ok:
  assumes inv: "entry_inv s" and c: "curenv s = Some c" and run: "user_mem_assert c va len perm s = Some r"
  shows "ctl_ok (env_frame s) r"
proof -
  obtain v t where t: "user_mem_check c va len (perm OR PTE_U) s = Some (v, t)"
    "case v of Inl _ \<Rightarrow> env_destroy c t = Some r | Inr _ \<Rightarrow> r = Returned t"
    using run by (auto simp: user_mem_assert_def split: bind_splits sum.splits)
  have f: "env_frame s t" by (rule frame_user_mem_check [OF t(1)])
  have "entry_inv t" "curenv t = Some c"
    using inv c kern_inv_frame(2) [OF f] f by (simp_all add: env_frame_def curenv_def)
  from env_destroy_current [OF this] show ?thesis using t(2) f by (cases v) simp_all
qed

end
