(* ===== verification/KernelRun.thy ===== *)
theory KernelRun
  imports KernelSteps
begin

text \<open>
  The kernel as a transition system: every system call, the page fault handler, the trap
  dispatcher and \<open>trap\<close> keep the table of environments well formed, whichever way they leave.
\<close>

section \<open>The system calls\<close>






lemma entry_inv_console [simp]: "entry_inv (s\<lparr>console := c\<rparr>) = entry_inv s"
  by (rule kern_inv_frame) simp




lemma frame_setup_vm:
  assumes "env_setup_vm e s = Some (v, s')"
  shows "cpus s' = cpus s" "cpunum s' = cpunum s" "env_free_list s' = env_free_list s"
    "\<exists>d. envs s' = (envs s)(e := (envs s e)\<lparr>env_pgdir := d\<rparr>)"
proof -
  obtain p t where t: "page_alloc True s = Some (p, t)" and f: "env_frame s t"
    using assms frame_page_alloc by (auto simp: env_setup_vm_def split: bind_splits)
  have e: "envs t = (envs t)(e := (envs t e)\<lparr>env_pgdir := env_pgdir (envs t e)\<rparr>)" by simp
  have "cpus s' = cpus t \<and> cpunum s' = cpunum t \<and> env_free_list s' = env_free_list t \<and>
    (\<exists>d. envs s' = (envs t)(e := (envs t e)\<lparr>env_pgdir := d\<rparr>))"
    using assms t by (cases p; auto simp: env_setup_vm_def Let_def state_defs page_incref_def split: bind_splits; metis e)
  then show "cpus s' = cpus s" "cpunum s' = cpunum s" "env_free_list s' = env_free_list s"
    "\<exists>d. envs s' = (envs s)(e := (envs s e)\<lparr>env_pgdir := d\<rparr>)"
    using f by (simp_all add: env_frame_def)
qed

lemma env_alloc_ok:
  assumes inv: "entry_inv s" and run: "env_alloc pid s = Some (v, s')"
  shows "entry_inv s'" "curenv s' = curenv s"
    "v = Inr e \<Longrightarrow> e < NENV \<and> env_status (envs s' e) = ENV_RUNNABLE \<and> \<not> env_ipc_recving (envs s' e) \<and> alone e s'"
proof -
  obtain efl where I: "env_inv s efl" "recv_ok s" "cpus_ok (\<lambda>i. i \<noteq> cpunum s) s" using inv by (auto simp: entry_inv_def)
  have "entry_inv s' \<and> curenv s' = curenv s \<and> (\<forall>e. v = Inr e \<longrightarrow> e < NENV \<and> env_status (envs s' e) = ENV_RUNNABLE \<and>
    \<not> env_ipc_recving (envs s' e) \<and> alone e s')"
  proof (cases "env_free_list s")
    case (Some e)
    obtain w t where t: "env_setup_vm e s = Some (w, t)"
      using run Some by (auto simp: env_alloc_def split: bind_splits)
    obtain d where d: "envs t = (envs s)(e := (envs s e)\<lparr>env_pgdir := d\<rparr>)" using frame_setup_vm(4) [OF t] ..
    note T = frame_setup_vm(1-3) [OF t] d
    obtain l where efl: "efl = e # l" using I(1) Some by (cases efl) (auto simp: env_inv_def)
    then have e: "e < NENV" "env_status (envs s e) = ENV_FREE" using I(1) by (auto simp: env_inv_def)
    have it: "env_inv t efl" "recv_ok t" "cpus_ok (\<lambda>i. i \<noteq> cpunum t) t"
      using env_inv_keep [OF I(1), of t] I(2,3) T by (auto simp: recv_ok_def cpus_ok_def)
    show ?thesis
    proof (cases w)
      case (Inl x)
      then have "s' = t" "v = Inl x" using run Some t by (auto simp: env_alloc_def)
      then show ?thesis using it T by (auto simp: entry_inv_def curenv_def)
    next
      case (Inr x)
      define f :: "env \<Rightarrow> env" where "f = (\<lambda>x. x\<lparr>env_id := new_env_id (env_id x) e,
                        env_parent_id := pid, env_type := ENV_TYPE_USER,
                        env_status := ENV_RUNNABLE, env_runs := 0, env_tf := env_init_tf,
                        env_pgfault_upcall := 0, env_ipc_recving := False\<rparr>)"
      have s': "s' = (upd_env e f t)\<lparr>env_free_list := env_link (envs t e)\<rparr>" "v = Inr e"
        using run Some t Inr by (auto simp: env_alloc_def f_def upd_env_def)
      have "env_inv s' l" unfolding s'(1)
        by (rule env_inv_take [OF it(1) [unfolded efl]])
          (use e(1) new_env_id_slot new_env_id_pos in \<open>auto simp: f_def\<close>)
      moreover have "recv_ok s'" using it(2) by (auto simp: s' recv_ok_def upd_env_def f_def)
      moreover have no: "cpu_env (cpus t i) \<noteq> Some e" for i
        using cpus_okD(2) [OF it(3), of i] T(4) e(2) by auto
      moreover have "cpus_ok (\<lambda>i. i \<noteq> cpunum s') s'"
        unfolding cpus_ok_def using cpus_okD [OF it(3)] no by (auto simp: s' upd_env_def)
      ultimately show ?thesis
        using e(1) T by (auto simp: entry_inv_def s' upd_env_def f_def alone_def curenv_def)
    qed
  qed (use run inv in \<open>auto simp: env_alloc_def\<close>)
  then show "entry_inv s'" "curenv s' = curenv s"
    "v = Inr e \<Longrightarrow> e < NENV \<and> env_status (envs s' e) = ENV_RUNNABLE \<and> \<not> env_ipc_recving (envs s' e) \<and> alone e s'"
    by blast+
qed














section \<open>Dispatching\<close>








section \<open>One entry into the kernel\<close>


text \<open>What \<open>trap\<close> does before it dispatches: the CPU is marked as started, the lock is held, the frame is saved.\<close>

definition trap_enter :: "kern \<Rightarrow> kern" where
  "trap_enter s = (let t = s\<lparr>cpus := (cpus s)(cpunum s := (cpus s (cpunum s))\<lparr>cpu_status := CPU_STARTED\<rparr>)\<rparr>
     in if cpu_status (cpus s (cpunum s)) = CPU_HALTED then t\<lparr>kernel_locked := True\<rparr> else t)"

lemma trap_enter_fields [simp]:
  "envs (trap_enter s) = envs s" "env_free_list (trap_enter s) = env_free_list s" "cpunum (trap_enter s) = cpunum s"
  "cpu_env (cpus (trap_enter s) i) = cpu_env (cpus s i)" "curenv (trap_enter s) = curenv s"
  by (simp_all add: trap_enter_def Let_def curenv_def)




definition after_trap :: "kern \<Rightarrow> unit ctl option" where
  "after_trap s = (case curenv s of
     Some c \<Rightarrow> if env_status (envs s c) = ENV_RUNNING then map_option UserMode (env_run c s) else sched_yield s
   | None \<Rightarrow> sched_yield s)"

lemma trap_eq:
  "trap False junk cr2 tf s =
     (if tf_cs tf AND 3 = 3
      then let s = (trap_enter s)\<lparr>kernel_locked := True\<rparr> in do {
        c \<leftarrow> curenv s;
        if env_status (envs s c) = ENV_DYING
        then do { s \<leftarrow> env_free c s; sched_yield (set_curenv None s) }
        else do {
          r \<leftarrow> trap_dispatch junk cr2 tf (upd_env c (\<lambda>x. x\<lparr>env_tf := tf\<rparr>) s);
          bind_ctl r after_trap } }
      else do { r \<leftarrow> trap_dispatch junk cr2 tf (trap_enter s); bind_ctl r after_trap })"
proof -
  have a: "after_trap = (\<lambda>s. case curenv s of
     Some c \<Rightarrow> if env_status (envs s c) = ENV_RUNNING then map_option UserMode (env_run c s) else sched_yield s
   | None \<Rightarrow> sched_yield s)" by (simp add: after_trap_def fun_eq_iff)
  show ?thesis unfolding a trap_def trap_enter_def Let_def by simp
qed




section \<open>The kernel as a transition system\<close>

inductive left_kernel :: "unit ctl \<Rightarrow> kern \<Rightarrow> bool" where
  to_user: "left_kernel (UserMode s) s"
| to_halt: "left_kernel (Halted s) s"

inductive_simps left_kernel_simps [simp]:
  "left_kernel (Returned u) s" "left_kernel (UserMode t) s" "left_kernel (Halted t) s" "left_kernel (InMonitor t) s"







text \<open>The invariant holds when the first CPU has run \<open>env_init\<close> and created its environments.\<close>

lemma recving_init_loop: "env_ipc_recving (envs (env_init_loop ps b t s) e) = env_ipc_recving (envs s e)"
  by (induction ps b t s rule: env_init_loop.induct) (auto simp: Let_def upd_env_def)

lemma cpus_init_loop: "cpus (env_init_loop ps b t s) = cpus s" "cpunum (env_init_loop ps b t s) = cpunum s"
  by (induction ps b t s rule: env_init_loop.induct) (auto simp: Let_def upd_env_def)

lemma kern_inv_init:
  assumes "env_link (envs s 1023) = None" "\<And>e. \<not> env_ipc_recving (envs s e)" "\<And>i. cpu_env (cpus s i) = None"
  shows "kern_inv (env_init s)"
  using env_init_inv [OF assms(1)] assms(2,3)
  by (auto simp: kern_inv_def recv_ok_def cpus_ok_def env_init_def recving_init_loop cpus_init_loop)

lemma frame_region_alloc_loop: "region_alloc_loop is d a s = Some s' \<Longrightarrow> env_frame s s'"
proof (induction "is" arbitrary: s)
  case (Cons i "is")
  then obtain p v t u where "page_alloc False s = Some (Some p, t)"
    "page_insert d p (a + of_nat i * PGSIZE) (PTE_W OR PTE_U) t = Some (v, u)" "region_alloc_loop is d a u = Some s'"
    by (auto split: bind_splits option.splits sum.splits)
  then have "env_frame s t" "env_frame t u" "env_frame u s'"
    using Cons.IH frame_page_alloc frame_page_insert by blast+
  then show ?case by (blast intro: env_frame_trans)
qed simp

lemma frame_region_alloc: "region_alloc e va len s = Some s' \<Longrightarrow> env_frame s s'"
  by (auto simp: region_alloc_def Let_def split: bind_splits dest: frame_region_alloc_loop)

lemma frame_load_icode_loop: "load_icode_loop is ph bin e s = Some s' \<Longrightarrow> env_frame s s'"
proof (induction "is" arbitrary: s)
  case (Cons i "is")
  show ?case
  proof (cases "p_type (read_ph bin (ph + 32 * i)) = 1")
    case True
    let ?p = "read_ph bin (ph + 32 * i)"
    obtain t u v where "region_alloc e (p_va ?p) (p_memsz ?p) s = Some t"
      "store_bytes (p_va ?p) (replicate (unat (p_memsz ?p)) 0) t = Some u"
      "store_bytes (p_va ?p) (map (\<lambda>j. bin (unat (p_offset ?p) + j)) [0..<unat (p_filesz ?p)]) u = Some v"
      "load_icode_loop is ph bin e v = Some s'"
      using Cons.prems True by (auto simp: Let_def split: bind_splits)
    then have "env_frame s t" "env_frame t u" "env_frame u v" "env_frame v s'"
      using Cons.IH frame_region_alloc frame_store_bytes by blast+
    then show ?thesis by (blast intro: env_frame_trans)
  qed (use Cons in simp)
qed simp

lemma load_icode_ok:
  assumes run: "load_icode e bin s = Some s'"
  shows "entry_inv s' = entry_inv s" "curenv s' = curenv s"
proof -
  obtain d t u where t: "load_icode_loop [0..<unat (e_phnum (read_elf bin))] (unat (e_phoff (read_elf bin))) bin e (s\<lparr>cr3 := d\<rparr>) = Some t"
    and u: "u = upd_env e (\<lambda>x. x\<lparr>env_tf := (env_tf x)\<lparr>tf_eip := e_entry (read_elf bin)\<rparr>\<rparr>) (t\<lparr>cr3 := kern_pgdir t\<rparr>)"
    and s': "region_alloc e (USTACKTOP - PGSIZE) PGSIZE u = Some s'"
    using run by (auto simp: load_icode_def Let_def split: bind_splits if_splits)
  have "env_frame (s\<lparr>cr3 := d\<rparr>) t" by (rule frame_load_icode_loop [OF t])
  then have f: "env_frame s t" by (simp add: env_frame_def)
  note g = frame_region_alloc [OF s']
  have upd: "env_link (envs u x) = env_link (envs t x)" "env_id (envs u x) = env_id (envs t x)"
    "env_status (envs u x) = env_status (envs t x)" "env_ipc_recving (envs u x) = env_ipc_recving (envs t x)"
    "env_free_list u = env_free_list t" "cpus u = cpus t" "cpunum u = cpunum t" for x
    by (simp_all add: u upd_env_def)
  have "entry_inv u = entry_inv t"
    by (simp add: entry_inv_def env_inv_def env_nxt_def recv_ok_def cpus_ok_def upd)
  then show "entry_inv s' = entry_inv s" using kern_inv_frame(2) [OF f] kern_inv_frame(2) [OF g] by simp
  show "curenv s' = curenv s" using f g upd(6,7) by (simp add: env_frame_def curenv_def)
qed

lemma kern_inv_no_cur: "curenv s = None \<Longrightarrow> kern_inv s = entry_inv s"
proof -
  assume "curenv s = None"
  then have "i \<noteq> cpunum s" if "cpu_env (cpus s i) = Some c" for i c using that by (auto simp: curenv_def)
  then have "cpus_ok (\<lambda>_. True) s = cpus_ok (\<lambda>i. i \<noteq> cpunum s) s" unfolding cpus_ok_def by (simp cong: imp_cong)
  then show ?thesis by (simp add: kern_inv_def entry_inv_def)
qed

lemma kern_inv_create:
  assumes "kern_inv s" "curenv s = None" "env_create bin ty s = Some s'"
  shows "kern_inv s' \<and> curenv s' = None"
proof -
  obtain e t u where t: "env_alloc 0 s = Some (Inr e, t)" and u: "load_icode e bin t = Some u"
    and s': "s' = (let s = upd_env e (\<lambda>x. x\<lparr>env_type := ty\<rparr>) u in if ty = ENV_TYPE_FS
               then upd_env e (\<lambda>x. x\<lparr>env_tf := (env_tf x)\<lparr>tf_eflags := tf_eflags (env_tf x) OR 0x3000\<rparr>\<rparr>) s else s)"
    using assms(3) by (auto simp: env_create_def Let_def split: bind_splits sum.splits)
  have "entry_inv u" "curenv u = None"
    using env_alloc_ok(1,2) [OF entry_inv [OF assms(1)] t] load_icode_ok [OF u] assms(2) by simp_all
  moreover have "entry_inv (upd_env e (\<lambda>x. x\<lparr>env_type := ty\<rparr>) u)" using \<open>entry_inv u\<close> by (rule entry_inv_same) simp
  ultimately have "entry_inv s'" "curenv s' = None"
    by (auto simp: s' Let_def curenv_def upd_env_def [of e "env_type_update (\<lambda>_. ty)"] intro: entry_inv_same) (simp_all add: upd_env_def)
  then show ?thesis using kern_inv_no_cur by simp
qed



text \<open>A system call trap, here for \<open>sys_getenvid\<close>, of the environment that \<open>CPU 0\<close> runs.\<close>

definition ex_tf :: "u32 \<Rightarrow> u32 \<Rightarrow> u32 \<Rightarrow> trapframe" where
  "ex_tf no a1 a2 = tf0\<lparr>tf_trapno := 48, tf_cs := 0x1B, tf_regs := regs0\<lparr>reg_eax := no, reg_edx := a1, reg_ecx := a2\<rparr>\<rparr>"

lemma ex_tf [simp]:
  "tf_trapno (ex_tf no a1 a2) = 48" "tf_cs (ex_tf no a1 a2) AND 3 = 3" "reg_eax (tf_regs (ex_tf no a1 a2)) = no"
  "reg_edx (tf_regs (ex_tf no a1 a2)) = a1" "reg_ecx (tf_regs (ex_tf no a1 a2)) = a2"
  by (simp_all add: ex_tf_def)

text \<open>Two environments on two CPUs, the second a child of the first.\<close>

definition ex_smp :: kern where
  "ex_smp = (let s = upd_env 1 (\<lambda>x. x\<lparr>env_id := 0x1001, env_parent_id := 0x1000, env_status := ENV_RUNNING,
               env_pgdir := Some 2\<rparr>) ex_env_machine
     in s\<lparr>env_free_list := env_link (envs s 1), cpus := (cpus s)(1 := \<lparr>cpu_status = CPU_STARTED, cpu_env = Some 1\<rparr>)\<rparr>)"

lemma ex_smp_facts:
  "env_status (envs ex_smp 0) = ENV_RUNNING" "env_status (envs ex_smp 1) = ENV_RUNNING" 
  "env_id (envs ex_smp 0) = 0x1000" "env_id (envs ex_smp 1) = 0x1001" "env_parent_id (envs ex_smp 1) = 0x1000"
  "env_pgdir (envs ex_smp 0) = Some 1" "env_pgdir (envs ex_smp 1) = Some 2" "cpunum ex_smp = 0"
  "cpu_env (cpus ex_smp i) = (if i = 0 then Some 0 else if i = 1 then Some 1 else None)"
  "\<not> env_ipc_recving (envs ex_smp e)"
  by (auto simp: ex_smp_def ex_env_machine_def Let_def set_curenv_def upd_env_def env_init_def cpus_init_loop
      recving_init_loop kern0_def env0_def)




text \<open>A system call that returns, from entry to exit.\<close>

lemma trap_syscall_returned:
  assumes c: "curenv s = Some c" "env_status (envs s c) = ENV_RUNNING"
    and tf: "tf_trapno tf = 48" "tf_cs tf AND 3 = 3"
    and t: "t = upd_env c (\<lambda>x. x\<lparr>env_tf := tf\<rparr>) ((trap_enter s)\<lparr>kernel_locked := True\<rparr>)"
    and call: "syscall junk (reg_eax (tf_regs tf)) (reg_edx (tf_regs tf)) (reg_ecx (tf_regs tf))
      (reg_ebx (tf_regs tf)) (reg_edi (tf_regs tf)) (reg_esi (tf_regs tf)) t = Some (Returned (v, u))"
  shows "trap False junk cr2 tf s = after_trap (upd_env c (\<lambda>x. x\<lparr>env_tf := (env_tf x)\<lparr>tf_regs :=
              (tf_regs (env_tf x))\<lparr>reg_eax := v\<rparr>\<rparr>\<rparr>) u)"
proof -
  let ?s = "(trap_enter s)\<lparr>kernel_locked := True\<rparr>"
  have cu: "curenv ?s = Some c" "curenv t = Some c" using c(1) by (simp_all add: t curenv_def upd_env_def)
  have "trap_dispatch junk cr2 tf t = Some (Returned (upd_env c (\<lambda>x. x\<lparr>env_tf := (env_tf x)\<lparr>tf_regs :=
              (tf_regs (env_tf x))\<lparr>reg_eax := v\<rparr>\<rparr>\<rparr>) u))"
    unfolding trap_dispatch_def Let_def tf(1) using call cu tf(2) by simp
  then show ?thesis unfolding trap_eq Let_def using tf(2) cu(1) c(2) by (simp add: t)
qed

lemma env_run_more:
  assumes "env_run e s = Some s'"
  shows "env_pgdir (envs s' x) = env_pgdir (envs s x)" "cpunum s' = cpunum s"
  using assms
  by (auto simp: env_run_def Let_def state_defs unlock_kernel_def split: option.splits if_splits)

definition ex_entered :: "u32 \<Rightarrow> u32 \<Rightarrow> u32 \<Rightarrow> kern" where
  "ex_entered no a1 a2 = upd_env 0 (\<lambda>x. x\<lparr>env_tf := ex_tf no a1 a2\<rparr>) ((trap_enter ex_smp)\<lparr>kernel_locked := True\<rparr>)"

lemma ex_entered [simp]:
  "curenv (ex_entered no a1 a2) = Some 0" "cpunum (ex_entered no a1 a2) = 0"
  "cpu_env (cpus (ex_entered no a1 a2) i) = (if i = 0 then Some 0 else if i = 1 then Some 1 else None)"
  "env_status (envs (ex_entered no a1 a2) 0) = ENV_RUNNING" "env_status (envs (ex_entered no a1 a2) 1) = ENV_RUNNING"
  "env_id (envs (ex_entered no a1 a2) 0) = 0x1000" "env_id (envs (ex_entered no a1 a2) 1) = 0x1001"
  "env_parent_id (envs (ex_entered no a1 a2) 1) = 0x1000"
  "env_pgdir (envs (ex_entered no a1 a2) 0) = Some 1" "env_pgdir (envs (ex_entered no a1 a2) 1) = Some 2"
  using ex_smp_facts by (simp_all add: ex_entered_def upd_env_def curenv_def)

lemma ex_trap:
  assumes "syscall None no a1 a2 0 0 0 (ex_entered no a1 a2) = Some (Returned (v, u))"
  shows "trap False None 0 (ex_tf no a1 a2) ex_smp = after_trap (upd_env 0 (\<lambda>x. x\<lparr>env_tf := (env_tf x)\<lparr>tf_regs :=
              (tf_regs (env_tf x))\<lparr>reg_eax := v\<rparr>\<rparr>\<rparr>) u)"
  using assms ex_smp_facts(1,8,9)
  by (intro trap_syscall_returned) (auto simp: ex_entered_def curenv_def ex_tf_def regs0_def tf0_def)



text \<open>
  The condition on \<open>sys_env_set_status\<close> is needed: a parent that makes its running child runnable again
  and then yields ends up with the child on both CPUs.
\<close>

lemma set_status_runs_twice:
  "\<exists>s1 s2. trap False None 0 (ex_tf 8 0x1001 2) ex_smp = Some (UserMode s1) \<and>
     trap False None 0 (ex_tf 11 0 0) s1 = Some (UserMode s2) \<and>
     cpu_env (cpus s2 0) = Some 1 \<and> cpu_env (cpus s2 1) = Some 1"
proof -
  let ?t = "ex_entered 8 0x1001 2"
  let ?v = "upd_env 1 (\<lambda>x. x\<lparr>env_status := ENV_RUNNABLE\<rparr>) ?t"
  let ?u = "upd_env 0 (\<lambda>x. x\<lparr>env_tf := (env_tf x)\<lparr>tf_regs := (tf_regs (env_tf x))\<lparr>reg_eax := 0\<rparr>\<rparr>\<rparr>) ?v"
  have "envid2env 0x1001 True ?t = Some (Inr 1)" by (simp add: envid2env_def ENVX_def del: One_nat_def)
  then have call: "syscall None 8 0x1001 2 0 0 0 ?t = Some (Returned (0, ?v))"
    by (simp add: syscall_def syscall_body_def sys_env_set_status_def with_env_def sys_value_def)
  have u: "curenv ?u = Some 0" "env_status (envs ?u 0) = ENV_RUNNING" "env_pgdir (envs ?u 0) = Some 1"
    "env_status (envs ?u 1) = ENV_RUNNABLE" "env_pgdir (envs ?u 1) = Some 2" "cpunum ?u = 0"
    "env_id (envs ?u 0) = 0x1000" "cpu_env (cpus ?u 1) = Some 1"
    using ex_entered [of 8 "0x1001" 2] by (simp_all add: upd_env_def curenv_def)
  obtain s1 where s1: "env_run 0 ?u = Some s1" using env_run_some [OF u(3)] by blast
  then have t1: "trap False None 0 (ex_tf 8 0x1001 2) ex_smp = Some (UserMode s1)"
    using u ex_trap [OF call] by (simp add: after_trap_def)
  note F = env_run_fields [OF s1] env_run_more [OF s1]
  have f: "env_status (envs s1 0) = ENV_RUNNING" "env_status (envs s1 1) = ENV_RUNNABLE" "cpunum s1 = 0"
    "cpu_env (cpus s1 0) = Some 0" "cpu_env (cpus s1 1) = Some 1" "env_id (envs s1 0) = 0x1000" "env_pgdir (envs s1 1) = Some 2"
    unfolding F using u by (simp_all del: upd_env_def)
  let ?w = "upd_env 0 (\<lambda>x. x\<lparr>env_tf := ex_tf 11 0 0\<rparr>) ((trap_enter s1)\<lparr>kernel_locked := True\<rparr>)"
  have w: "curenv ?w = Some 0" "env_status (envs ?w 1) = ENV_RUNNABLE" "env_id (envs ?w 0) = 0x1000"
    "env_pgdir (envs ?w 1) = Some 2" "cpunum ?w = 0" "cpu_env (cpus ?w 1) = Some 1"
    using f by (simp_all add: upd_env_def curenv_def)
  obtain s2 where s2: "env_run 1 ?w = Some s2" using env_run_some [OF w(4)] by blast
  have "[0..<1024] = 0 # [1..<1024]" using upt_conv_Cons [of 0 1024] by simp
  then have "sched_pick [0..<1024] 1 ?w = Some 1" using w(2) by (simp del: upt_rec_numeral)
  then have "sched_yield ?w = Some (UserMode s2)" using s2 w(1,3) by (simp add: sched_yield_def ENVX_def)
  then have "trap_dispatch None 0 (ex_tf 11 0 0) ?w = Some (UserMode s2)"
    by (simp add: trap_dispatch_def syscall_def syscall_body_def sys_yield_def)
  then have "trap False None 0 (ex_tf 11 0 0) s1 = Some (UserMode s2)"
    using f(1,3,4) by (simp add: trap_eq curenv_def)
  moreover have "cpu_env (cpus s2 0) = Some 1" "cpu_env (cpus s2 1) = Some 1"
    using env_run_fields(5) [OF s2] w(5,6) by simp_all
  ultimately show ?thesis using t1 by blast
qed

end
