(* ===== verification/SyscallErrors.thy ===== *)
theory SyscallErrors
  imports KernelSteps
begin

text \<open>Failing system calls change nothing, whichever way they report the failure in \<open>eax\<close>.\<close>

text \<open>
  The calls whose value is not an error code: only the network driver's are negative when they fail.
\<close>

lemma user_mem_check_loop_Inr: "user_mem_check_loop d va perm stop p s = Some rs \<Longrightarrow> fst rs = Inr () \<Longrightarrow> snd rs = s"
  by (erule user_mem_check_loop.raw_induct [where P = "\<lambda>d va perm stop p s rs. fst rs = Inr () \<longrightarrow> snd rs = s", rotated, THEN mp])
    (auto split: if_splits bind_splits)

lemma user_mem_check_loop_curenv: "user_mem_check_loop d va perm stop p s = Some rs \<Longrightarrow> curenv (snd rs) = curenv s"
  by (erule user_mem_check_loop.raw_induct [where P = "\<lambda>d va perm stop p s rs. curenv (snd rs) = curenv s", rotated])
    (auto simp: curenv_def split: if_splits bind_splits)

lemma frame_env_free: "env_free e s = Some s' \<Longrightarrow> curenv s' = curenv s"
proof -
  assume f: "env_free e s = Some s'"
  then obtain t u d where t: "env_free_pdes [0..<955] d (if curenv s = Some e then s\<lparr>cr3 := kern_pgdir s\<rparr> else s) = Some t"
    and u: "\<exists>pp. page_decref pp (upd_env e (\<lambda>x. x\<lparr>env_pgdir := None\<rparr>) t) = Some u"
    and s': "curenv s' = curenv u"
    by (auto simp: env_free_def Let_def curenv_def upd_env_def split: bind_splits) blast
  have "curenv t = curenv s" using frame_env_free_pdes [OF t] by (auto simp: env_frame_def curenv_def split: if_splits)
  moreover have "curenv u = curenv t" using u frame_page_decref by (fastforce simp: env_frame_def curenv_def upd_env_def)
  ultimately show ?thesis using s' by simp
qed

lemma user_mem_assert_current:
  assumes "user_mem_assert c va len perm s = Some (Returned s')" "curenv s = Some c"
  shows "s' = s"
proof -
  obtain r t where r: "user_mem_check c va len (perm OR PTE_U) s = Some (r, t)"
    using assms(1) by (auto simp: user_mem_assert_def split: bind_splits)
  show ?thesis
  proof (cases r)
    case (Inl e)
    have "curenv t = Some c"
      using r assms(2) user_mem_check_loop_curenv by (fastforce simp: user_mem_check_def Let_def split: option.splits)
    then have "env_destroy c t \<noteq> Some (Returned s')"
      using frame_env_free by (fastforce simp: env_destroy_def sys_returns)
    then show ?thesis using assms(1) r Inl by (simp add: user_mem_assert_def)
  next
    case (Inr u)
    then have "t = s" using r user_mem_check_loop_Inr by (fastforce simp: user_mem_check_def Let_def split: option.splits)
    then show ?thesis using assms(1) r Inr by (simp add: user_mem_assert_def)
  qed
qed

lemma sys_exofork_positive:
  assumes "sys_exofork s = Some (Returned (Inr v, s'))" "\<forall>e. env_free_list s = Some e \<longrightarrow> e < NENV"
  shows "0 < sint v"
proof -
  obtain c e t where e: "env_alloc (env_id (envs s c)) s = Some (Inr e, t)" and v: "v = env_id (envs t e)"
    using assms(1) by (auto simp: sys_exofork_def sys_returns Let_def upd_env_def)
  have "env_free_list s = Some e" "\<exists>old. env_id (envs t e) = new_env_id old e"
    using e by (auto simp: env_alloc_def Let_def upd_env_def split: option.splits sum.splits bind_splits) blast?
  then show ?thesis using assms(2) new_env_id_pos v by auto
qed

lemma cons_getc_positive: "cons_getc con = Some (v, con') \<Longrightarrow> 0 \<le> sint v"
proof -
  assume g: "cons_getc con = Some (v, con')"
  have u: "\<not> bit (ucast (c :: u8) :: u32) 31" for c by (auto simp: bit_simps dest: bit_imp_le_length)
  have "\<not> bit v 31" using g u by (auto simp: cons_getc_def cons_take_def Let_def split: bind_splits if_splits)
  then show ?thesis using sint_pos_iff [of v] by (cases "v = 0") auto
qed

text \<open>
  C10: a system call other than \<open>sys_page_alloc\<close> that returns a negative number in \<open>eax\<close>, an error of the kernel or of the
  network driver, leaves the kernel, the memory and every environment exactly as they were; only \<open>sys_pkt_recv\<close>,
  on a packet with errors, prints its message on the console.
\<close>

theorem syscall_error_unchanged:
  assumes "syscall junk no a1 a2 a3 a4 a5 s = Some (Returned (v, s'))" "sint v < 0" "no \<noteq> 4"
    and "\<forall>e. env_free_list s = Some e \<longrightarrow> e < NENV"
  shows "s' = s \<or> no = 16 \<and> v = - 2 \<and> rd_errors (rx_desc_array (nic s) (nat (rx_next (nic s)))) \<noteq> 0 \<and>
    map_option snd (vcprintf (map of_char ''receive errors'' @ [0x0A]) [] s) = Some s'"
proof -
  obtain r where b: "syscall_body junk no a1 a2 a3 a4 a5 s = Some (Returned (r, s'))" and v: "v = sys_value r"
    using assms(1) by (auto simp: syscall_def sys_returns)
  show ?thesis
  proof (cases r)
    case (Inl e)
    then show ?thesis using syscall_Inl b assms(3) by blast
  next
    case (Inr x)
    then have x: "x = v" using v by (simp add: sys_value_def)
    consider "no = 1" | "no = 7" | "no = 15" | "no = 16" | "no \<notin> {1, 7, 15, 16}" by blast
    then show ?thesis
    proof cases
      case 1
      then show ?thesis using b Inr x assms(2) cons_getc_positive by (fastforce simp: syscall_body_def sys_cgetc_def split: bind_splits)
    next
      case 2
      then show ?thesis using b Inr x assms(2,4) sys_exofork_positive by (fastforce simp: syscall_body_def)
    next
      case 3
      then obtain c t where c: "curenv s = Some c" "user_mem_assert c a1 a2 PTE_U s = Some (Returned t)"
        "e1000_transmit a1 a2 t = Some (v, s')"
        using b Inr x by (auto simp: syscall_body_def sys_pkt_try_send_def sys_returns)
      then show ?thesis using user_mem_assert_current [OF c(2,1)] assms(2)
        by (auto simp: e1000_transmit_def Let_def split: if_splits bind_splits)
    next
      case 4
      then show ?thesis using b Inr x assms(2)
        by (auto simp: syscall_body_def sys_pkt_recv_def e1000_receive_def Let_def split: if_splits bind_splits)
    next
      case 5
      then show ?thesis using b Inr x assms(2,3)
        by (auto simp: syscall_body_def sys_cputs_def sys_getenvid_def sys_env_destroy_def sys_page_map_def sys_page_unmap_def
          sys_yield_def sys_env_set_status_def sys_env_set_pgfault_upcall_def sys_ipc_recv_def sys_ipc_try_send_def ipc_deliver_def
          sys_env_set_trapframe_def sys_time_msec_def sys_returns Let_def split: if_splits)
    qed
  qed
qed

text \<open>Two calls that fail: there is no packet to receive, and the page to unmap lies above UTOP.\<close>

theorem syscall_error_unchanged_witness:
  "(\<exists>s'. syscall None 16 0x800000 0x800100 0 0 0 kern0 = Some (Returned (- 2, s')) \<and> s' = kern0) \<and>
   (\<exists>s'. syscall None 6 0 0xEEC00000 0 0 0 ex_env_machine = Some (Returned (- 3, s')) \<and> s' = ex_env_machine)"
proof
  have z: "rd_status (rx_desc_array (nic kern0) (nat (rx_next (nic kern0)))) = 0"
    "rd_errors (rx_desc_array (nic kern0) (nat (rx_next (nic kern0)))) = 0"
    by (simp_all add: kern0_def nic0_def)
  have "syscall None 16 0x800000 0x800100 0 0 0 kern0 = Some (Returned (- 2, kern0))"
    using z by (simp add: syscall_def syscall_body_def sys_pkt_recv_def e1000_receive_def Let_def sys_value_def)
  from this syscall_error_unchanged [OF this] z
  show "\<exists>s'. syscall None 16 0x800000 0x800100 0 0 0 kern0 = Some (Returned (- 2, s')) \<and> s' = kern0" by (auto simp: kern0_def)
  have f: "\<forall>e. env_free_list ex_env_machine = Some e \<longrightarrow> e < NENV"
  proof (intro allI impI)
    fix e
    assume "env_free_list ex_env_machine = Some e"
    then have "e \<in> set [1..<NENV]" using env_inv_ex by (force simp: env_inv_def chain_Some simp del: set_upt)
    then show "e < NENV" by simp
  qed
  have "curenv ex_env_machine = Some 0" by (simp add: ex_env_machine_def Let_def curenv_def set_curenv_def)
  then obtain t where t: "syscall None 6 0 0xEEC00000 0 0 0 ex_env_machine = Some (Returned (- 3, t))"
    by (simp add: syscall_def syscall_body_def sys_page_unmap_def with_env_def envid2env_def bad_va_def sys_value_def sys_returns)
  from this syscall_error_unchanged [OF this _ _ f]
  show "\<exists>s'. syscall None 6 0 0xEEC00000 0 0 0 ex_env_machine = Some (Returned (- 3, s')) \<and> s' = ex_env_machine" by auto
qed

end
