(* ===== verification/VmSteps.thy ===== *)
theory VmSteps
  imports SyscallProps
begin

text \<open>
  The memory system calls as steps: a page that \<open>sys_page_alloc\<close> maps is fresh and zero, and
  whatever sequence of \<open>sys_page_alloc\<close>, \<open>sys_page_map\<close> and \<open>sys_page_unmap\<close> the environments
  issue, with context switches in between, the page-table invariant holds.
\<close>

section \<open>Allocating a page\<close>

lemma page_alloc_inv:
  assumes inv: "vm_inv s (p # fl) D ext"
  shows "\<exists>s1. page_alloc True s = Some (Some p, s1) \<and> vm_inv s1 fl D ext \<and> mem_only s s1 \<and>
    (\<forall>d \<in> D. \<forall>v < UVPN. vmap s1 d v = vmap s d v) \<and> structs s1 D = structs s D \<and>
    (\<forall>q. pp_ref (pages s1 q) = pp_ref (pages s q)) \<and> (\<forall>a. a div 4096 = p \<longrightarrow> pmem s1 a = 0) \<and>
    (\<forall>a. a div 4096 \<noteq> p \<longrightarrow> pmem s1 a = pmem s a) \<and> dirs_grow s s1 D \<and>
    (\<forall>d \<in> D. \<forall>i < 955. table_at s1 d i = table_at s d i)"
proof -
  let ?s1 = "(page_pop s)\<lparr>pmem := fill (p * 4096) 4096 0 (pmem s)\<rparr>"
  have wf: "pages_wf s (p # fl)" by (rule vm_invD(1) [OF inv])
  have run: "page_alloc True s = Some (Some p, ?s1)" using page_alloc_Cons [OF wf] by simp
  have nst: "p \<notin> structs s D" using structs_free(1) [OF inv] by auto
  have sl: "slot ?s1 f i = slot s f i" if "f \<noteq> p" "i < 1024" for f i
    using slot_fill [OF that(2), of ?s1 p s f] that by simp
  have T: "table_at ?s1 d i = table_at s d i" if "d \<in> D" "i < 955" for d i
  proof -
    have "d \<noteq> p" using nst dir_structs [OF that(1)] by metis
    then show ?thesis using sl [of d i] that by (simp add: table_at_def)
  qed
  then have S: "struct_at ?s1 k = struct_at s k" if "k \<in> keys D" for k
    using that by (cases k) auto
  have V: "vmap ?s1 d v = vmap s d v" if "d \<in> D" "v < UVPN" for d v
  proof -
    have i: "v div 1024 < 955" "v mod 1024 < 1024" using that(2) by simp_all
    have "f \<noteq> p" if "table_at s d (v div 1024) = Some f" for f
      using nst table_structs [OF \<open>d \<in> D\<close> i(1) that] by metis
    then show ?thesis using T [OF that(1) i(1)] sl [OF _ i(2)]
      by (auto simp: vmap_table_at split: option.splits)
  qed
  have "pages_wf ?s1 fl"
    using pages_wf_pop [OF wf] pages_wf_cong [of ?s1 "page_pop s" fl] by simp
  then have inv1: "vm_inv ?s1 fl D ext"
    using S V by (intro vm_inv_cong [OF inv]) (simp_all add: maps_def)
  have m: "mem_only s ?s1" by (rule mem_only_trans [OF mem_only_pop mem_only_pmem])
  have z: "\<forall>a. a div 4096 = p \<longrightarrow> pmem ?s1 a = 0"
  proof (intro allI impI)
    fix a assume "a div 4096 = p"
    then have "p * 4096 \<le> a" "a < p * 4096 + 4096" by linarith+
    then show "pmem ?s1 a = 0" by (simp add: fill_def)
  qed
  have o: "\<forall>a. a div 4096 \<noteq> p \<longrightarrow> pmem ?s1 a = pmem s a"
    by (auto simp: fill_def)
  have g: "dirs_grow s ?s1 D"
    using sl nst dir_structs by (intro dirs_grow_same) metis
  show ?thesis
    using run inv1 m V z S T o g by (intro exI [of _ ?s1]) (auto simp: structs_def)
qed

lemma free_not_mapped:
  assumes inv: "vm_inv s fl D ext" and p: "p \<in> set fl" and d: "d \<in> D" and v: "v < UVPN"
  shows "maps s d v \<noteq> Some p"
proof
  assume m: "maps s d v = Some p"
  note ok = vm_invD(5) [OF inv d v m]
  have "pp_ref (pages s p) = 0" using vm_invD(1) [OF inv] pages_wf_free p by blast
  then have "card (data_refs (maps s) D p) = 0" using vm_invD(6) [OF inv, of p] ok by simp
  moreover have "(d, v) \<in> data_refs (maps s) D p" using m d v by (simp add: data_refs_def)
  ultimately show False using finite_data_refs [OF vm_invD(2) [OF inv]] by (auto simp: card_eq_0_iff)
qed

text \<open>The three calls keep the invariant, whether they succeed or fail.\<close>

definition dirs_in :: "nat set \<Rightarrow> kern \<Rightarrow> bool" where
  "dirs_in D s \<longleftrightarrow> (\<forall>e d. env_pgdir (envs s e) = Some d \<longrightarrow> d \<in> D)"

definition refs_ok :: "kern \<Rightarrow> bool" where
  "refs_ok s \<longleftrightarrow> (\<forall>p < npages s. unat (pp_ref (pages s p)) + 1 < 65536)"

lemma sys_page_alloc_inv:
  assumes inv: "vm_inv s fl D ext" and dirs: "dirs_in D s" and perm: "unat perm < 4096"
    and run: "sys_page_alloc envid va perm s = Some (Returned (r, s'))"
  shows "(\<exists>fl'. vm_inv s' fl' D ext) \<and> envs s' = envs s \<and> (r \<noteq> Inr 0 \<longrightarrow> (\<forall>d \<in> D. \<forall>v < UVPN. vmap s' d v = vmap s d v)) \<and>
    (\<forall>n. r = Inr n \<longrightarrow> n = 0 \<and> (\<exists>e d p fl'. envid2env envid True s = Some (Inr e) \<and> env_pgdir (envs s e) = Some d \<and>
       va < UTOP \<and> fl = p # fl' \<and> (\<forall>a. a div 4096 = p \<longrightarrow> pmem s' a = 0) \<and>
       (\<forall>d' \<in> D. \<forall>v < UVPN. vmap s' d' v =
          (if d' = d \<and> v = vpn va then Some ((page2pa p OR perm) OR PTE_P) else vmap s d' v))))"
proof (cases "s' = s \<and> (\<exists>err. r = Inl err)")
  case True
  then show ?thesis using inv by auto
next
  case False
  from run False obtain e p s1 d r2 s2 where e: "envid2env envid True s = Some (Inr e)"
    and va: "va < UTOP" and pa: "page_alloc True s = Some (Some p, s1)"
    and d: "env_pgdir (envs s1 e) = Some d" and ins: "page_insert d p va perm s1 = Some (r2, s2)"
    and r2: "case r2 of Inl err \<Rightarrow> r = Inl err \<and> page_free p s2 = Some s' | Inr _ \<Rightarrow> r = Inr 0 \<and> s' = s2"
    by (auto simp: sys_page_alloc_def sys_returns bad_va_def not_le dest: page_alloc_None)
  from pa obtain fl1 where fl: "fl = p # fl1"
    using page_alloc_Nil [of s] page_alloc_Cons [of s] vm_invD(1) [OF inv] by (cases fl) auto
  obtain S: "vm_inv s1 fl1 D ext" "mem_only s s1" "structs s1 D = structs s D"
    "\<forall>d \<in> D. \<forall>v < UVPN. vmap s1 d v = vmap s d v" "\<forall>q. pp_ref (pages s1 q) = pp_ref (pages s q)"
    "\<forall>a. a div 4096 = p \<longrightarrow> pmem s1 a = 0"
    using page_alloc_inv [of s p fl1 D ext] inv pa unfolding fl by auto
  have wf: "pages_wf s (p # fl1)" using vm_invD(1) [OF inv] fl by simp
  have np: "npages s1 = npages s" "envs s1 = envs s" using mem_only_sel [OF S(2)] by simp_all
  have p: "p < npages s1" "p \<notin> structs s1 D" "p \<notin> set fl1" "pp_ref (pages s1 p) = 0"
    using pages_wf_free [OF wf, of p] pages_wf_distinct [OF wf] structs_free(1) [OF inv, of p] S(3,5) np fl
    by auto
  have dD: "d \<in> D" using dirs d np(2) by (auto simp: dirs_in_def)
  show ?thesis
  proof (cases r2)
    case (Inl err)
    then have "s2 = s1" using page_insert_Inl ins by blast
    then have s': "s' = page_push p s1" "pages_wf (page_push p s1) (p # fl1)"
      using r2 Inl page_free_wf [OF vm_invD(1) [OF S(1)] p(1,3,4)] by auto
    have pm: "pmem s' = pmem s1" by (simp add: s'(1))
    have "vm_inv s' (p # fl1) D ext"
      using s' view_pmem [OF pm] by (intro vm_inv_cong [OF S(1)]) simp_all
    then show ?thesis using r2 Inl s'(1) np S(4) view_pmem(1) [OF pm] by (auto simp: page_push_def upd_page_def)
  next
    case (Inr u)
    have "unat (pp_ref (pages s1 p)) + 1 < 65536" using p(4) by simp
    from page_insert_inv [OF S(1) dD va perm p(1,2,3) this] ins Inr r2
    obtain fl2 where I: "vm_inv s' fl2 D ext" "mem_only s1 s'" "structs s' D \<subseteq> structs s1 D \<union> set fl1"
      "same_data s1 s' (structs s' D)" "\<forall>d' \<in> D. \<forall>v < UVPN. vmap s' d' v =
          (if d' = d \<and> v = vpn va then Some ((page2pa p OR perm) OR PTE_P) else vmap s1 d' v)"
      by auto
    have "p \<notin> structs s' D" using I(3) p by blast
    then have "\<forall>a. a div 4096 = p \<longrightarrow> pmem s' a = 0" using I(4) S(6) by (auto simp: same_data_def)
    moreover have "\<forall>d' \<in> D. \<forall>v < UVPN. vmap s' d' v =
        (if d' = d \<and> v = vpn va then Some ((page2pa p OR perm) OR PTE_P) else vmap s d' v)"
      using I(5) S(4) by simp
    moreover have "env_pgdir (envs s e) = Some d" "envs s' = envs s" "r = Inr 0"
      using d np mem_only_sel(2) [OF I(2)] r2 Inr by simp_all
    ultimately show ?thesis using I(1) e va fl by blast
  qed
qed

lemma sys_page_map_inv:
  assumes inv: "vm_inv s fl D ext" and dirs: "dirs_in D s" and refs: "refs_ok s"
    and perm: "unat perm < 4096"
    and run: "sys_page_map srcid srcva dstid dstva perm s = Some (Returned (r, s'))"
  shows "(\<exists>fl'. vm_inv s' fl' D ext) \<and> envs s' = envs s"
proof (cases r)
  case (Inl e)
  then show ?thesis using sys_page_map_Inl run inv by blast
next
  case (Inr v)
  have "envs s' = envs s"
    using run Inr by (auto simp: sys_page_map_def sys_returns dest!: page_insert_envs)
  with sys_page_map_rule [OF inv _ perm _ run [unfolded Inr]] dirs refs show ?thesis
    unfolding dirs_in_def refs_ok_def by blast
qed

lemma sys_page_unmap_inv:
  assumes inv: "vm_inv s fl D ext" and dirs: "dirs_in D s"
    and run: "sys_page_unmap envid va s = Some (Returned (r, s'))"
  shows "(\<exists>fl'. vm_inv s' fl' D ext) \<and> envs s' = envs s"
proof (cases r)
  case (Inl e)
  then show ?thesis using sys_page_unmap_Inl run inv by blast
next
  case (Inr v)
  with run obtain e d where d: "env_pgdir (envs s e) = Some d" "va < UTOP" "page_remove d va s = Some s'"
    by (auto simp: sys_page_unmap_def sys_returns bad_va_def not_le)
  have "d \<in> D" using dirs d(1) by (auto simp: dirs_in_def)
  from page_remove_inv [OF inv this d(2)] d(3) show ?thesis using mem_only_sel(2) by fastforce
qed

section \<open>Runs of memory calls\<close>

datatype memcall = Page_alloc u32 u32 u32 | Page_map u32 u32 u32 u32 u32 | Page_unmap u32 u32

fun memcall_run :: "memcall \<Rightarrow> kern \<Rightarrow> sysres" where
  "memcall_run (Page_alloc envid va perm) = sys_page_alloc envid va perm"
| "memcall_run (Page_map srcid srcva dstid dstva perm) = sys_page_map srcid srcva dstid dstva perm"
| "memcall_run (Page_unmap envid va) = sys_page_unmap envid va"

fun memcall_perm :: "memcall \<Rightarrow> u32" where
  "memcall_perm (Page_alloc envid va perm) = perm"
| "memcall_perm (Page_map srcid srcva dstid dstva perm) = perm"
| "memcall_perm (Page_unmap envid va) = 0"

text \<open>
  \<open>mem_reach s t\<close>: from \<open>s\<close> the environments reach \<open>t\<close> by memory calls whose permissions are
  flag bits, made while no reference count is full, and by switches to another environment.
\<close>

inductive mem_reach :: "kern \<Rightarrow> kern \<Rightarrow> bool" where
  start: "mem_reach s s"
| call: "mem_reach s t \<Longrightarrow> refs_ok t \<Longrightarrow> unat (memcall_perm c) < 4096 \<Longrightarrow>
    memcall_run c t = Some (Returned (r, u)) \<Longrightarrow> mem_reach s u"
| switch: "mem_reach s t \<Longrightarrow> env_run e t = Some u \<Longrightarrow> mem_reach s u"

lemma memcall_inv:
  assumes "vm_inv s fl D ext" "dirs_in D s" "refs_ok s" "unat (memcall_perm c) < 4096"
    and "memcall_run c s = Some (Returned (r, s'))"
  shows "(\<exists>fl'. vm_inv s' fl' D ext) \<and> dirs_in D s'"
proof -
  have "(\<exists>fl'. vm_inv s' fl' D ext) \<and> envs s' = envs s"
  proof (cases c)
    case (Page_alloc envid va perm)
    then show ?thesis using sys_page_alloc_inv [OF assms(1,2), of perm envid va r s'] assms(4,5) by simp
  next
    case (Page_map srcid srcva dstid dstva perm)
    then show ?thesis using sys_page_map_inv [OF assms(1-3)] assms(4,5) by simp
  next
    case (Page_unmap envid va)
    then show ?thesis using sys_page_unmap_inv [OF assms(1,2)] assms(5) by simp
  qed
  then show ?thesis using assms(2) by (simp add: dirs_in_def)
qed

lemma upd_env_mem:
  "pmem (upd_env c f s) = pmem s" "pages (upd_env c f s) = pages s"
  "page_free_list (upd_env c f s) = page_free_list s" "npages (upd_env c f s) = npages s"
  by (simp_all add: upd_env_def)

lemma upd_env_pgdir:
  "(\<And>x. env_pgdir (f x) = env_pgdir x) \<Longrightarrow> env_pgdir (envs (upd_env c f s) e) = env_pgdir (envs s e)"
  by (simp add: upd_env_def)

lemma env_run_mem:
  assumes "env_run e s = Some s'"
  shows "pmem s' = pmem s" "pages s' = pages s" "page_free_list s' = page_free_list s"
    "npages s' = npages s" "env_pgdir (envs s' x) = env_pgdir (envs s x)"
proof -
  define t where "t = (case curenv s of None \<Rightarrow> s
    | Some c \<Rightarrow> if env_status (envs s c) = ENV_RUNNING
                then upd_env c (\<lambda>x. x\<lparr>env_status := ENV_RUNNABLE\<rparr>) s else s)"
  define u where "u = upd_env e (\<lambda>x. x\<lparr>env_status := ENV_RUNNING, env_runs := env_runs x + 1\<rparr>)
    (set_curenv (Some e) t)"
  have "env_run e s = (case env_pgdir (envs u e) of None \<Rightarrow> None
      | Some pg \<Rightarrow> Some (upd_env e (\<lambda>x. x\<lparr>env_cpunum := cpunum (unlock_kernel (u\<lparr>cr3 := pg\<rparr>))\<rparr>)
                     (unlock_kernel (u\<lparr>cr3 := pg\<rparr>))))"
    unfolding env_run_def Let_def u_def t_def ..
  then obtain pg where s': "s' = upd_env e (\<lambda>x. x\<lparr>env_cpunum := cpunum (unlock_kernel (u\<lparr>cr3 := pg\<rparr>))\<rparr>)
      (unlock_kernel (u\<lparr>cr3 := pg\<rparr>))"
    using assms by (auto split: option.splits)
  have t: "pmem t = pmem s" "pages t = pages s" "page_free_list t = page_free_list s"
    "npages t = npages s" "env_pgdir (envs t x) = env_pgdir (envs s x)"
    by (simp_all add: t_def upd_env_mem upd_env_pgdir split: option.split)
  show "pmem s' = pmem s" "pages s' = pages s" "page_free_list s' = page_free_list s"
    "npages s' = npages s" "env_pgdir (envs s' x) = env_pgdir (envs s x)"
    by (simp_all add: s' u_def t upd_env_mem upd_env_pgdir set_curenv_def unlock_kernel_def)
qed

lemma vm_inv_same:
  assumes "vm_inv s fl D ext" "pmem s' = pmem s" "pages s' = pages s" "page_free_list s' = page_free_list s"
    "npages s' = npages s"
  shows "vm_inv s' fl D ext"
  using assms(2-) view_pmem [OF assms(2)] vm_invD(1) [OF assms(1)]
  by (intro vm_inv_cong [OF assms(1)]) (simp_all add: pages_wf_cong [of s' s])

lemma env_run_inv:
  assumes "vm_inv s fl D ext" "env_run e s = Some s'"
  shows "vm_inv s' fl D ext"
  by (rule vm_inv_same [OF assms(1)]) (rule env_run_mem [OF assms(2)])+

lemma mem_reach_inv:
  assumes "mem_reach s t" "vm_inv s fl D ext" "dirs_in D s"
  shows "(\<exists>fl'. vm_inv t fl' D ext) \<and> dirs_in D t"
  using assms
proof (induction rule: mem_reach.induct)
  case (call s t c r u)
  then show ?case using memcall_inv by blast
next
  case (switch s t e u)
  then show ?case using env_run_inv env_run_mem(5) unfolding dirs_in_def by metis
qed auto

text \<open>
  C2: safety of user memory over any run of memory calls and environment switches in which the permissions
  passed have no bits above bit 11 (the kernel does not check this, see \<open>sys_page_alloc_perm_bits\<close>) and no page
  has 65535 references: in every reachable state the free list is well formed, and a page that some address space maps is
  neither free nor a page directory or page table, and has a nonzero reference count.
\<close>

theorem memory_calls_safe:
  assumes "vm_inv s fl D ext" "dirs_in D s" "mem_reach s t"
  shows "\<exists>fl'. pages_wf t fl' \<and> (\<forall>d \<in> D. \<forall>v < UVPN. \<forall>p. maps t d v = Some p \<longrightarrow>
    p < npages t \<and> p \<notin> set fl' \<and> p \<notin> structs t D \<and> pp_ref (pages t p) \<noteq> 0)"
proof -
  from mem_reach_inv [OF assms(3,1,2)] obtain fl' where inv: "vm_inv t fl' D ext" by blast
  show ?thesis using mapped_page_ok [OF inv] vm_invD(1) [OF inv] by blast
qed

lemma ex_mapped_refs: "refs_ok ex_mapped" "dirs_in {1} ex_mapped"
  using ex_mapped_dirs by (simp_all add: refs_ok_def dirs_in_def)

theorem memory_calls_safe_witness:
  "\<exists>t fl'. mem_reach ex_mapped t \<and> maps t 1 (vpn 0xEEBFE000) = Some 3 \<and> pages_wf t fl' \<and> 3 \<notin> set fl'"
proof -
  obtain s1 where run: "sys_page_map 0 0xEEBFF000 0 0xEEBFE000 5 ex_mapped = Some (Returned (Inr 0, s1))"
    using ex_map_run by blast
  have r: "mem_reach ex_mapped s1"
    using mem_reach.call [OF mem_reach.start ex_mapped_refs(1), of "Page_map 0 0xEEBFF000 0 0xEEBFE000 5"] run
    by simp
  obtain dd e e' where m: "env_pgdir (envs ex_mapped 0) = Some dd" "vmap ex_mapped 1 (vpn 0xEEBFF000) = Some e"
    "vmap s1 dd (vpn 0xEEBFE000) = Some e'" "frame_of e' = frame_of e"
    using sys_page_map_rule [OF vm_inv_ex_mapped ex_mapped_dirs _ _ run] ex_mapped_me by auto
  have v: "maps s1 1 (vpn 0xEEBFE000) = Some 3"
    using m ex_mapped_vmap [of "vpn 0xEEBFF000"] by (auto simp: maps_def frame_of_def vpn_def)
  have "vpn 0xEEBFE000 < UVPN" by (simp add: vpn_def)
  with memory_calls_safe [OF vm_inv_ex_mapped ex_mapped_refs(2) r] v obtain fl' where
    "pages_wf s1 fl'" "3 \<notin> set fl'" by blast
  with r v show ?thesis by blast
qed

text \<open>
  C11: a successful \<open>sys_page_alloc\<close>, for permissions without bits above bit 11, maps a page that was free and that no address space
  mapped before; the page is all zero, and every other mapping stays as it was.
\<close>

theorem sys_page_alloc_fresh:
  assumes inv: "vm_inv s fl D ext" and dirs: "dirs_in D s" and perm: "unat perm < 4096"
    and run: "sys_page_alloc envid va perm s = Some (Returned (Inr n, s'))"
  shows "\<exists>e d p fl'. envid2env envid True s = Some (Inr e) \<and> env_pgdir (envs s e) = Some d \<and>
    p \<in> set fl \<and> (\<forall>d' \<in> D. \<forall>v < UVPN. maps s d' v \<noteq> Some p) \<and>
    vm_inv s' fl' D ext \<and> maps s' d (vpn va) = Some p \<and>
    (\<forall>a. a div 4096 = p \<longrightarrow> pmem s' a = 0) \<and>
    (\<forall>d' \<in> D. \<forall>v < UVPN. (d', v) \<noteq> (d, vpn va) \<longrightarrow> vmap s' d' v = vmap s d' v)"
proof -
  from sys_page_alloc_inv [OF inv dirs perm run] obtain e d p fl1 fl'
    where A: "vm_inv s' fl' D ext" "envid2env envid True s = Some (Inr e)" "env_pgdir (envs s e) = Some d"
      "va < UTOP" "fl = p # fl1" "\<forall>a. a div 4096 = p \<longrightarrow> pmem s' a = 0"
      "\<forall>d' \<in> D. \<forall>v < UVPN. vmap s' d' v =
          (if d' = d \<and> v = vpn va then Some ((page2pa p OR perm) OR PTE_P) else vmap s d' v)"
    by blast
  have dD: "d \<in> D" using dirs A(3) by (auto simp: dirs_in_def)
  have "p < 2 ^ 20" using vm_invD(1) [OF inv] A(5) by (auto simp: pages_wf_def)
  then have "maps s' d (vpn va) = Some p"
    using A(7) dD vpn_user [OF A(4)] frame_of_entry(1) [OF _ perm] by (simp add: maps_def)
  then show ?thesis using A free_not_mapped [OF inv, of p] by fastforce
qed

lemma vm_inv_ex_alloc: "vm_inv ex_alloc [4] {1} (\<lambda>p. if p = 0 then 1 else 0)"
proof -
  have "pmem ex_alloc = pmem ex_mapped" by (simp add: ex_alloc_def)
  note v = view_pmem [OF this]
  have "data_refs (maps ex_mapped) {1} 4 = {}"
    by (auto simp: data_refs_def maps_def ex_mapped_vmap frame_of_def simp del: One_nat_def split: if_splits)
  moreover have "pages_wf ex_alloc [4]"
    by (auto simp: pages_wf_def ex_alloc_def page_link_def)
  moreover have "p < 4 \<or> p = 4" if "p < npages ex_alloc" for p
    using that by (auto simp: ex_alloc_def)
  ultimately show ?thesis
    using vm_inv_ex_mapped unfolding vm_inv_def v ex_mapped_structs
    by (auto simp: ex_alloc_def)
qed

theorem sys_page_alloc_fresh_witness:
  "\<exists>s'. sys_page_alloc 0 0xEEBFE000 7 ex_alloc = Some (Returned (Inr 0, s')) \<and>
     maps s' 1 (vpn 0xEEBFE000) = Some 4 \<and> pmem s' 16384 = 0"
proof -
  obtain s' where run: "sys_page_alloc 0 0xEEBFE000 7 ex_alloc = Some (Returned (Inr 0, s'))"
    using sys_page_alloc_run [OF ex_alloc_facts(1,2) _ _ _ ex_alloc_facts(3) _ _ _ ex_alloc_facts(4),
      of 4 7] by (auto simp: ex_alloc_def bad_va_def bad_perm_def ROUNDDOWN_def)
  have "dirs_in {1} ex_alloc" using ex_mapped_refs(2) by (simp add: dirs_in_def ex_alloc_def)
  from sys_page_alloc_fresh [OF vm_inv_ex_alloc this _ run] run ex_alloc_facts(2) show ?thesis
    using ex_alloc_facts(1) by (auto simp del: One_nat_def)
qed

end
