(* ===== verification/CallRules.thy ===== *)
theory CallRules
  imports VmSteps
begin

text \<open>
  Rules for memory system calls that succeed: when they do, and what they leave alone, down
  to the entries of the page directories and the bytes of the data pages.
\<close>

definition effect :: "nat set \<Rightarrow> (nat \<Rightarrow> nat) \<Rightarrow> kern \<Rightarrow> nat list \<Rightarrow> kern \<Rightarrow> nat list \<Rightarrow> bool" where
  "effect D ext s fl s' fl' \<longleftrightarrow> vm_inv s' fl' D ext \<and> mem_only s s' \<and> dirs_grow s s' D \<and>
     structs s D \<subseteq> structs s' D \<and> structs s' D \<subseteq> structs s D \<union> set fl \<and>
     (\<forall>a. a div 4096 \<notin> structs s D \<union> set fl \<longrightarrow> pmem s' a = pmem s a)"

lemma effectD:
  assumes "effect D ext s fl s' fl'"
  shows "vm_inv s' fl' D ext" "mem_only s s'" "dirs_grow s s' D" "structs s D \<subseteq> structs s' D"
    "structs s' D \<subseteq> structs s D \<union> set fl"
    "a div 4096 \<notin> structs s D \<Longrightarrow> a div 4096 \<notin> set fl \<Longrightarrow> pmem s' a = pmem s a"
  using assms by (auto simp: effect_def)

lemma effectI:
  assumes "vm_inv s' fl' D ext" "mem_only s s'" "dirs_grow s s' D" "structs s D \<subseteq> structs s' D"
    "structs s' D \<subseteq> structs s D \<union> set fl" "same_data s s' (structs s' D)"
  shows "effect D ext s fl s' fl'"
  using assms unfolding effect_def same_data_def by blast

text \<open>A mapped page is neither free nor part of the page tables, so its bytes stay.\<close>

lemma mapped_data_stays:
  assumes "vm_inv s fl D ext" "effect D ext s fl s' fl'"
    and "d \<in> D" "v < UVPN" "maps s d v = Some p" "a div 4096 = p"
  shows "pmem s' a = pmem s a"
  using effectD(6) [OF assms(2), of a] mapped_page_ok [OF assms(1,3-5)] assms(6) by auto

lemma page_insert_rule:
  assumes inv: "vm_inv s fl D ext" and d: "d \<in> D" and va: "va < UTOP"
    and perm: "unat perm < 4096" and pp: "pp < npages s" "pp \<notin> structs s D" "pp \<notin> set fl"
    and ref: "unat (pp_ref (pages s pp)) + 1 < 65536"
    and mem: "table_at s d (unat (PDX va)) \<noteq> None \<or> fl \<noteq> []"
  shows "\<exists>s' fl'. page_insert d pp va perm s = Some (Inr (), s') \<and> effect D ext s fl s' fl' \<and>
    length fl \<le> length fl' + (if table_at s d (unat (PDX va)) = None then 1 else 0) \<and>
    table_at s' d (unat (PDX va)) \<noteq> None \<and>
    (\<forall>d' \<in> D. \<forall>v < UVPN. vmap s' d' v =
       (if d' = d \<and> v = vpn va then Some ((page2pa pp OR perm) OR PTE_P) else vmap s d' v))"
proof (rule disjE [OF page_insert_inv [OF inv d va perm pp ref]])
  assume "page_insert d pp va perm s = Some (Inl E_NO_MEM, s) \<and> fl = [] \<and>
    table_at s d (unat (PDX va)) = None"
  with mem show ?thesis by simp
qed (use effectI in blast)

section \<open>sys_page_map\<close>

lemma page_map_rule:
  assumes inv: "vm_inv s fl D ext" and dirs: "dirs_in D s"
    and e: "envid2env srcid True s = Some (Inr se)" "envid2env dstid True s = Some (Inr de)"
    and pd: "env_pgdir (envs s se) = Some sd" "env_pgdir (envs s de) = Some dd"
    and va: "\<not> bad_va srcva" "\<not> bad_va dstva" and perm: "unat perm < 4096" "\<not> bad_perm perm"
    and m: "vmap s sd (vpn srcva) = Some pte" and w: "perm AND PTE_W \<noteq> 0 \<longrightarrow> pte AND PTE_W \<noteq> 0"
    and ref: "unat (pp_ref (pages s (frame_of pte))) + 1 < 65536"
    and mem: "table_at s dd (unat (PDX dstva)) \<noteq> None \<or> fl \<noteq> []"
  shows "\<exists>s' fl'. sys_page_map srcid srcva dstid dstva perm s = Some (Returned (Inr 0, s')) \<and>
    effect D ext s fl s' fl' \<and>
    length fl \<le> length fl' + (if table_at s dd (unat (PDX dstva)) = None then 1 else 0) \<and>
    table_at s' dd (unat (PDX dstva)) \<noteq> None \<and>
    (\<forall>d' \<in> D. \<forall>v < UVPN. vmap s' d' v =
       (if d' = dd \<and> v = vpn dstva then Some ((page2pa (frame_of pte) OR perm) OR PTE_P) else vmap s d' v))"
proof -
  have d: "sd \<in> D" "dd \<in> D" using dirs pd by (auto simp: dirs_in_def)
  have va': "srcva < UTOP" "dstva < UTOP" using va by (auto simp: bad_va_def not_le)
  let ?p = "frame_of pte"
  let ?a = "the (table_at s sd (unat (PDX srcva))) * 4096 + 4 * unat (PTX srcva)"
  have look: "page_lookup sd srcva s = Some (Some (?p, ?a))"
    using page_lookup_eq [OF inv d(1) va'(1)] m by simp
  have ld: "load32 s ?a = pte"
    using m by (auto simp: vmap_table_at vpn_split slot_def split: option.splits if_splits)
  have mp: "maps s sd (vpn srcva) = Some ?p" using m by (simp add: maps_def)
  note ok = mapped_page_ok [OF inv d(1) vpn_user [OF va'(1)] mp]
  have P: "?p < npages s" "?p \<notin> structs s D" "?p \<notin> set fl" using ok by blast+
  from page_insert_rule [OF inv d(2) va'(2) perm(1) P ref mem] obtain s' fl' where
    ins: "page_insert dd ?p dstva perm s = Some (Inr (), s')" and I: "effect D ext s fl s' fl'"
      "length fl \<le> length fl' + (if table_at s dd (unat (PDX dstva)) = None then 1 else 0)"
      "table_at s' dd (unat (PDX dstva)) \<noteq> None"
      "\<forall>d' \<in> D. \<forall>v < UVPN. vmap s' d' v =
         (if d' = dd \<and> v = vpn dstva then Some ((page2pa ?p OR perm) OR PTE_P) else vmap s d' v)"
    by blast
  have "sys_page_map srcid srcva dstid dstva perm s = Some (Returned (Inr 0, s'))"
    using e pd va perm(2) w look ld ins by (auto simp add: sys_page_map_def with_env_def bad_va_def)
  with I show ?thesis by blast
qed

section \<open>sys_page_unmap\<close>

lemma page_unmap_rule:
  assumes inv: "vm_inv s fl D ext" and dirs: "dirs_in D s"
    and e: "envid2env envid True s = Some (Inr en)" "env_pgdir (envs s en) = Some d"
    and va: "\<not> bad_va va"
  shows "\<exists>s' fl'. sys_page_unmap envid va s = Some (Returned (Inr 0, s')) \<and>
    effect D ext s fl s' fl' \<and> (\<forall>a. a div 4096 \<notin> structs s D \<longrightarrow> pmem s' a = pmem s a) \<and>
    (\<forall>d' \<in> D. \<forall>v < UVPN. vmap s' d' v = (if d' = d \<and> v = vpn va then None else vmap s d' v))"
proof -
  have d: "d \<in> D" using dirs e by (auto simp: dirs_in_def)
  have va': "va < UTOP" using va by (auto simp: bad_va_def not_le)
  from page_remove_inv [OF inv d va'] obtain s' fl' where
    R: "page_remove d va s = Some s'" "vm_inv s' fl' D ext" "mem_only s s'"
      "\<forall>d' \<in> D. \<forall>v < UVPN. vmap s' d' v = (if d' = d \<and> v = vpn va then None else vmap s d' v)"
      "\<forall>k \<in> keys D. struct_at s' k = struct_at s k" "same_data s s' (structs s D)" "dirs_grow s s' D"
    by blast
  have st: "structs s' D = structs s D" using R(5) by (auto simp: structs_def)
  have "effect D ext s fl s' fl'" using effectI [OF R(2,3,7)] R(6) st by simp
  moreover have "sys_page_unmap envid va s = Some (Returned (Inr 0, s'))"
    using e va R(1) by (simp add: sys_page_unmap_def with_env_def)
  ultimately show ?thesis using R(4,6) unfolding same_data_def by blast
qed

section \<open>sys_page_alloc\<close>

lemma page_alloc_rule:
  assumes inv: "vm_inv s (p # fl) D ext" and dirs: "dirs_in D s"
    and e: "envid2env envid True s = Some (Inr en)" "env_pgdir (envs s en) = Some d"
    and va: "\<not> bad_va va" and perm: "unat perm < 4096" "\<not> bad_perm perm"
    and mem: "table_at s d (unat (PDX va)) \<noteq> None \<or> fl \<noteq> []"
  shows "\<exists>s' fl'. sys_page_alloc envid va perm s = Some (Returned (Inr 0, s')) \<and>
    effect D ext s (p # fl) s' fl' \<and> table_at s' d (unat (PDX va)) \<noteq> None \<and>
    (\<forall>d' \<in> D. \<forall>v < UVPN. vmap s' d' v =
       (if d' = d \<and> v = vpn va then Some ((page2pa p OR perm) OR PTE_P) else vmap s d' v))"
proof -
  have d: "d \<in> D" using dirs e by (auto simp: dirs_in_def)
  have va': "va < UTOP" using va by (auto simp: bad_va_def not_le)
  obtain s1 where S: "page_alloc True s = Some (Some p, s1)" "vm_inv s1 fl D ext" "mem_only s s1"
    "\<forall>d \<in> D. \<forall>v < UVPN. vmap s1 d v = vmap s d v" "structs s1 D = structs s D"
    "\<forall>q. pp_ref (pages s1 q) = pp_ref (pages s q)" "dirs_grow s s1 D"
    "\<forall>a. a div 4096 \<noteq> p \<longrightarrow> pmem s1 a = pmem s a"
    "\<forall>d \<in> D. \<forall>i < 955. table_at s1 d i = table_at s d i"
    using page_alloc_inv [OF inv] by blast
  note wf = vm_invD(1) [OF inv]
  have P: "p < npages s1" "p \<notin> structs s1 D" "p \<notin> set fl" "unat (pp_ref (pages s1 p)) + 1 < 65536"
    using pages_wf_free [OF wf, of p] pages_wf_distinct [OF wf] structs_free(1) [OF inv, of p] S(5,6)
      mem_only_sel(1) [OF S(3)] by auto
  have "table_at s1 d (unat (PDX va)) \<noteq> None \<or> fl \<noteq> []" using S(9) d pdx_user [OF va'] mem by simp
  from page_insert_rule [OF S(2) d va' perm(1) P this] obtain s' fl' where
    ins: "page_insert d p va perm s1 = Some (Inr (), s')" and I: "effect D ext s1 fl s' fl'"
      "table_at s' d (unat (PDX va)) \<noteq> None"
      "\<forall>d' \<in> D. \<forall>v < UVPN. vmap s' d' v =
         (if d' = d \<and> v = vpn va then Some ((page2pa p OR perm) OR PTE_P) else vmap s1 d' v)"
    by blast
  have "effect D ext s (p # fl) s' fl'"
    unfolding effect_def
    using effectD(1-5) [OF I(1)] mem_only_trans [OF S(3) effectD(2) [OF I(1)]]
      dirs_grow_trans [OF S(7) effectD(3) [OF I(1)]] S(5,8) effectD(6) [OF I(1)] by auto
  moreover have "sys_page_alloc envid va perm s = Some (Returned (Inr 0, s'))"
    using e va perm(2) S(1) ins mem_only_sel(2) [OF S(3)] by (simp add: sys_page_alloc_def with_env_def)
  ultimately show ?thesis using I(2,3) S(4) by (intro exI [of _ s'] exI [of _ fl']) simp
qed

end
