(* ===== verification/EnvMem.thy ===== *)
theory EnvMem
  imports CallRules
begin

text \<open>
  The address space of a new environment: \<open>env_setup_vm\<close> and \<open>env_alloc\<close> under the page-table
  invariant.  The new page directory is a copy of the kernel's, so the new environment maps
  no user page, and its page tables are visible to it at UVPT.
\<close>

lemma rd32_cong: "(\<And>j. j < 4 \<Longrightarrow> m (a + j) = m' (b + j)) \<Longrightarrow> rd32 m a = rd32 m' b"
proof -
  assume h: "\<And>j. j < 4 \<Longrightarrow> m (a + j) = m' (b + j)"
  show ?thesis using h [of 0] h [of 1] h [of 2] h [of 3] by (simp add: rd32_def)
qed

lemma slot_copy:
  assumes "i < 1024" "pmem t = copy_page p k (pmem s)"
  shows "slot t f i = (if f = p then slot s k i else slot s f i)"
proof (cases "f = p")
  case False
  have "pmem t (f * 4096 + 4 * i + j) = pmem s (f * 4096 + 4 * i + j)" if "j < 4" for j
  proof -
    have "\<not> (p * 4096 \<le> f * 4096 + 4 * i + j \<and> f * 4096 + 4 * i + j < p * 4096 + 4096)"
      using False assms(1) that by linarith
    then show ?thesis by (auto simp: assms(2) copy_page_def)
  qed
  then have "rd32 (pmem t) (f * 4096 + 4 * i) = rd32 (pmem s) (f * 4096 + 4 * i)" by (rule rd32_cong)
  with False show ?thesis by (simp add: slot_def load32_def)
next
  case True
  have "pmem t (p * 4096 + 4 * i + j) = pmem s (k * 4096 + 4 * i + j)" if "j < 4" for j
  proof -
    have "p * 4096 \<le> p * 4096 + 4 * i + j \<and> p * 4096 + 4 * i + j < p * 4096 + 4096"
      "k * 4096 + (p * 4096 + 4 * i + j - p * 4096) = k * 4096 + 4 * i + j"
      using assms(1) that by linarith+
    then show ?thesis by (simp add: assms(2) copy_page_def add.assoc)
  qed
  then have "rd32 (pmem t) (p * 4096 + 4 * i) = rd32 (pmem s) (k * 4096 + 4 * i)" by (rule rd32_cong)
  with True show ?thesis by (simp add: slot_def load32_def)
qed

lemma slot_agree:
  assumes "\<And>a. a div 4096 = g \<Longrightarrow> pmem t a = pmem s a" "i < 1024"
  shows "slot t g i = slot s g i"
proof -
  have "(g * 4096 + 4 * i + k) div 4096 = g" if "k < 4" for k
  proof -
    have "g * 4096 + 4 * i + k = 4096 * g + (4 * i + k)" "4 * i + k < 4096" using assms(2) that by simp_all
    then show ?thesis using page_join by blast
  qed
  from this [of 0] this [of 1] this [of 2] this [of 3] show ?thesis
    using assms(1) by (simp add: slot_def load32_def rd32_def)
qed

text \<open>The kernel's page directory has no entry below UTOP.\<close>

definition kern_dir_ok :: "kern \<Rightarrow> bool" where
  "kern_dir_ok s \<longleftrightarrow> (\<forall>i < 955. \<not> present (slot s (kern_pgdir s) i)) \<and> npages s \<le> 65536"

definition self_map :: "kern \<Rightarrow> nat \<Rightarrow> bool" where
  "self_map s d \<longleftrightarrow> present (slot s d 957) \<and> slot s d 957 AND PTE_U \<noteq> 0 \<and> frame_of (slot s d 957) = d"

text \<open>Adding a directory without tables to the address spaces.\<close>

lemma vm_inv_new_dir:
  assumes inv: "vm_inv s fl D ext" and p: "p < npages s" "p \<notin> structs s D" "ext p = 0"
    and free: "\<forall>d \<in> D. \<forall>v < UVPN. maps s d v \<noteq> Some p"
    and same: "npages t = npages s" "pages_wf t fl" "\<forall>q. pp_ref (pages t q) = (if q = p then 1 else pp_ref (pages s q))"
    and sl: "\<forall>f i. f \<noteq> p \<longrightarrow> i < 1024 \<longrightarrow> slot t f i = slot s f i" and new: "\<forall>i < 955. table_at t p i = None"
  shows "vm_inv t fl (insert p D) ext" "\<forall>d \<in> D. \<forall>v < UVPN. vmap t d v = vmap s d v"
    "\<forall>v < UVPN. vmap t p v = None" "structs t (insert p D) = insert p (structs s D)"
    "\<forall>d \<in> D. \<forall>i < 955. table_at t d i = table_at s d i"
proof -
  have dp: "d \<noteq> p" if "d \<in> D" for d using p(2) dir_structs [OF that] by metis
  have tb: "table_at t d i = table_at s d i" if "d \<in> D" "i < 955" for d i
    using sl dp [OF that(1)] that(2) by (simp add: table_at_def)
  then show "\<forall>d \<in> D. \<forall>i < 955. table_at t d i = table_at s d i" by blast
  have V: "vmap t d v = vmap s d v" if "d \<in> D" "v < UVPN" for d v
  proof -
    have i: "v div 1024 < 955" using that(2) by auto
    have "f \<noteq> p" if "table_at s d (v div 1024) = Some f" for f
      using p(2) table_structs [OF \<open>d \<in> D\<close> i that] by metis
    then show ?thesis using tb [OF that(1) i] sl by (auto simp: vmap_table_at split: option.splits)
  qed
  then show "\<forall>d \<in> D. \<forall>v < UVPN. vmap t d v = vmap s d v" by blast
  have N: "vmap t p v = None" if "v < UVPN" for v
  proof -
    have "v div 1024 < 955" using that by auto
    then show ?thesis using new by (simp add: vmap_table_at)
  qed
  then show "\<forall>v < UVPN. vmap t p v = None" by blast
  have K: "struct_at t k = Some f \<longleftrightarrow> k = Inl p \<and> f = p \<or> k \<in> keys D \<and> struct_at s k = Some f"
    if "k \<in> keys (insert p D)" for k f
    using that dp new tb by (cases k) auto
  show S: "structs t (insert p D) = insert p (structs s D)"
  proof -
    have "keys D \<subseteq> keys (insert p D)" "Inl p \<in> keys (insert p D)" by (auto simp: keys_def)
    then show ?thesis unfolding structs_def using K by blast
  qed
  have M: "maps t d v = Some q \<longleftrightarrow> d \<in> D \<and> maps s d v = Some q" if "d \<in> insert p D" "v < UVPN" for d v q
    using that V N dp by (auto simp: maps_def)
  have DR: "data_refs (maps t) (insert p D) q = data_refs (maps s) D q" for q
    unfolding data_refs_def using M by blast
  show "vm_inv t fl (insert p D) ext"
  proof (rule vm_invI)
    show "finite (insert p D)" using vm_invD(2) [OF inv] by simp
    show "f < npages t \<and> pp_ref (pages t f) = 1" if "k \<in> keys (insert p D)" "struct_at t k = Some f" for k f
      using that K [OF that(1), of f] vm_invD(3) [OF inv, of k f] p(1) same(1,3) by auto
    show "k = k'" if k: "k \<in> keys (insert p D)" "k' \<in> keys (insert p D)" "struct_at t k = Some f" "struct_at t k' = Some f"
      for k k' f
    proof -
      have "k = Inl p \<and> f = p \<or> k \<in> keys D \<and> struct_at s k = Some f" using K [OF k(1)] k(3) by blast
      moreover have "k' = Inl p \<and> f = p \<or> k' \<in> keys D \<and> struct_at s k' = Some f" using K [OF k(2)] k(4) by blast
      moreover have "x \<in> keys D \<Longrightarrow> struct_at s x \<noteq> Some p" for x using p(2) structsI by blast
      ultimately show ?thesis using vm_invD(4) [OF inv, of k k' f] by blast
    qed
    show "q < npages t \<and> q \<notin> structs t (insert p D)"
      if "d \<in> insert p D" "v < UVPN" "maps t d v = Some q" for d v q
    proof -
      have m: "d \<in> D" "maps s d v = Some q" using M [OF that(1,2)] that(3) by auto
      note ok = vm_invD(5) [OF inv m(1) that(2) m(2)]
      have "q \<noteq> p" using free m that(2) by blast
      then show ?thesis using ok S same(1) by simp
    qed
    show "card (data_refs (maps t) (insert p D) q) + ext q = unat (pp_ref (pages t q))"
      if "q < npages t" "q \<notin> structs t (insert p D)" for q
      using vm_invD(6) [OF inv, of q] that S same DR by simp
    show "ext f = 0" if "f \<in> structs t (insert p D)" for f
      using vm_invD(7) [OF inv, of f] that S p(3) by auto
  qed (rule same(2))
qed

lemma env_setup_vm_rule:
  assumes inv: "vm_inv s (p # fl) D ext" and k: "kern_dir_ok s" "kern_pgdir s \<noteq> p"
  shows "\<exists>t. env_setup_vm e s = Some (Inr (), t) \<and> vm_inv t fl (insert p D) ext \<and>
    envs t = (envs s)(e := (envs s e)\<lparr>env_pgdir := Some p\<rparr>) \<and> curenv t = curenv s \<and> cr3 t = cr3 s \<and>
    npages t = npages s \<and> env_free_list t = env_free_list s \<and>
    dirs_grow s t D \<and> self_map t p \<and> (\<forall>i < 955. table_at t p i = None) \<and>
    (\<forall>d \<in> D. \<forall>v < UVPN. vmap t d v = vmap s d v) \<and> (\<forall>v < UVPN. vmap t p v = None) \<and>
    (\<forall>a. a div 4096 \<noteq> p \<longrightarrow> pmem t a = pmem s a) \<and> (\<forall>q. q \<noteq> p \<longrightarrow> pp_ref (pages t q) = pp_ref (pages s q))"
proof -
  obtain s1 where a: "page_alloc True s = Some (Some p, s1)" "vm_inv s1 fl D ext" "mem_only s s1"
    "\<forall>d \<in> D. \<forall>v < UVPN. vmap s1 d v = vmap s d v" "structs s1 D = structs s D"
    "\<forall>q. pp_ref (pages s1 q) = pp_ref (pages s q)" "dirs_grow s s1 D"
    "\<forall>a. a div 4096 \<noteq> p \<longrightarrow> pmem s1 a = pmem s a"
    using page_alloc_inv [OF inv] by blast
  note m = mem_only_sel [OF a(3)]
  note wf = vm_invD(1) [OF inv]
  have p: "p < npages s" "p \<notin> structs s D" "p \<notin> set fl" "pp_ref (pages s p) = 0"
    using pages_wf_free [OF wf, of p] pages_wf_distinct [OF wf] structs_free(1) [OF inv, of p] by auto
  have p16: "p < 65536" "npages s \<le> 65536" using p(1) k(1) by (auto simp: kern_dir_ok_def)
  have free: "maps s d v \<noteq> Some p" if "d \<in> D" "v < UVPN" for d v
    using free_not_mapped [OF inv _ that] by simp
  have ext0: "ext p = 0" using vm_invD(6) [OF inv p(1,2)] p(4) by simp
  define s2 where "s2 = page_incref p (upd_env e (\<lambda>x. x\<lparr>env_pgdir := Some p\<rparr>) s1)"
  define s3 where "s3 = s2\<lparr>pmem := copy_page p (kern_pgdir s2) (pmem s2)\<rparr>"
  define t where "t = store32 (p * 4096 + 4 * unat (PDX UVPT)) ((page2pa p OR PTE_P) OR PTE_U) s3"
  have ux: "unat (PDX UVPT) = 957" by (simp add: unat_PDX)
  have kva: "page2kva s1 p = Some (page2pa p + KERNBASE)"
    using page2kva_ok [of p s1] p(1) p16(2) m(1) by simp
  have pa: "PADDR (page2pa p + KERNBASE) = Some (page2pa p)"
  proof -
    have "unat (page2pa p) = p * 4096" using unat_page2pa [of p] p16(1) by simp
    then have "unat (page2pa p + KERNBASE) = p * 4096 + 4026531840"
      using p16(1) by (simp add: unat_word_ariths)
    then have "\<not> page2pa p + KERNBASE < KERNBASE" by (simp add: word_less_nat_alt)
    then show ?thesis by (simp add: PADDR_def)
  qed
  have run: "env_setup_vm e s = Some (Inr (), t)"
    using a(1) kva pa by (simp add: env_setup_vm_def t_def s3_def s2_def Let_def)
  have sel: "npages t = npages s" "envs t = (envs s)(e := (envs s e)\<lparr>env_pgdir := Some p\<rparr>)"
    "curenv t = curenv s" "cr3 t = cr3 s" "env_free_list t = env_free_list s" "kern_pgdir s2 = kern_pgdir s"
    "pmem s2 = pmem s1" "page_free_list t = page_free_list s1"
    "pages t = (pages s1)(p := (pages s1 p)\<lparr>pp_ref := pp_ref (pages s1 p) + 1\<rparr>)"
    using m by (simp_all add: t_def s3_def s2_def page_incref_def upd_page_def upd_env_def store32_def curenv_def)
  have p1: "p < npages s1" "p \<notin> structs s1 D" "p \<notin> set fl" using p m(1) a(5) by auto
  have sl: "slot t f i = (if f = p \<and> i = 957 then (page2pa p OR PTE_P) OR PTE_U
      else if f = p then slot s (kern_pgdir s) i else slot s1 f i)" if "i < 1024" for f i
  proof -
    have "slot s1 (kern_pgdir s) i = slot s (kern_pgdir s) i"
      using a(8) k(2) by (intro slot_agree [OF _ that]) simp
    moreover have "slot s2 g i = slot s1 g i" for g by (rule slot_mem_cong [OF sel(7)])
    ultimately have "slot s3 f i = (if f = p then slot s (kern_pgdir s) i else slot s1 f i)"
      using slot_copy [OF that, of s3 p "kern_pgdir s2" s2 f] sel(6) by (simp add: s3_def)
    then show ?thesis using slot_store [OF PDX_less that, of p UVPT _ s3 f] by (auto simp: t_def ux)
  qed
  have new: "\<forall>i < 955. table_at t p i = None"
    using sl k(1) by (simp add: table_at_def kern_dir_ok_def)
  have refs: "\<forall>q. pp_ref (pages t q) = (if q = p then 1 else pp_ref (pages s1 q))"
    using a(6) p(4) by (simp add: sel(9))
  have wft: "pages_wf t fl"
  proof -
    have "pages_wf (upd_page p (\<lambda>x. x\<lparr>pp_ref := pp_ref x + 1\<rparr>) s1) fl"
      by (rule pages_wf_upd_ref [OF vm_invD(1) [OF a(2)] p1(3)])
    then show ?thesis
      using pages_wf_cong [of t "upd_page p (\<lambda>x. x\<lparr>pp_ref := pp_ref x + 1\<rparr>) s1" fl] sel(1,8,9) m(1)
      by (simp add: upd_page_def)
  qed
  have free1: "\<forall>d \<in> D. \<forall>v < UVPN. maps s1 d v \<noteq> Some p" using free a(4) by (simp add: maps_def)
  have slo: "\<forall>f i. f \<noteq> p \<longrightarrow> i < 1024 \<longrightarrow> slot t f i = slot s1 f i" using sl by simp
  have n1: "npages t = npages s1" using sel(1) m(1) by simp
  note N = vm_inv_new_dir [OF a(2) p1(1,2) ext0 free1 n1 wft refs slo new]
  have "d \<noteq> p" if "d \<in> D" for d using p(2) dir_structs [OF that] by metis
  then have "dirs_grow s1 t D" using slo by (intro dirs_grow_same) blast
  then have g: "dirs_grow s t D" by (rule dirs_grow_trans [OF a(7)])
  have self: "self_map t p"
  proof -
    have e: "(page2pa p OR PTE_P) OR PTE_U = (page2pa p OR PTE_U) OR PTE_P"
      by (simp only: ac_simps)
    have "frame_of ((page2pa p OR PTE_U) OR PTE_P) = p" "present ((page2pa p OR PTE_U) OR PTE_P)"
      using frame_of_entry [of p PTE_U] p16(1) by simp_all
    moreover have "((page2pa p OR PTE_U) OR PTE_P) AND PTE_U \<noteq> 0"
      by (simp add: bit.conj_disj_distrib2 or_eq_0_iff)
    ultimately show ?thesis unfolding self_map_def using sl [of 957 p] e by simp
  qed
  have mem: "pmem t b = pmem s b" if "b div 4096 \<noteq> p" for b
  proof -
    have "pmem t b = pmem s3 b"
      using that same_data_store [of p "{p}" "unat (PDX UVPT)" s3 "(page2pa p OR PTE_P) OR PTE_U"] PDX_less [of UVPT]
      by (simp add: t_def same_data_def)
    moreover have "\<not> (p * 4096 \<le> b \<and> b < p * 4096 + 4096)" using that by (simp add: div_nat_eqI) linarith
    ultimately show ?thesis using a(8) that sel(7) by (auto simp: s3_def copy_page_def)
  qed
  show ?thesis
    using run N(1,2,3) a(4) sel(1-5) g self new mem refs a(6) by (intro exI [of _ t]) auto
qed

end
