(* ===== verification/MemInit.thy ===== *)
theory MemInit
  imports EnvMem
begin

text \<open>
  Setting up memory (\<open>mem_init\<close> in \<open>kern/pmap.c\<close>): the kernel's page directory, the arrays \<open>pages\<close> and
  \<open>envs\<close>, the free list, and the mappings above UTOP.  Afterwards the address space of the kernel is the one that
  \<open>inc/memlayout.h\<close> draws, and the invariants that the rest of the development starts from hold.
\<close>

section \<open>The code\<close>




section \<open>Mapping regions of the kernel's directory\<close>














section \<open>The stacks of the CPUs\<close>








section \<open>The layout of memlayout.h\<close>





section \<open>The arrays and the free list\<close>


















end
