(* ===== verification/SchedProps.thy ===== *)
theory SchedProps
  imports Sched EnvProps
begin

text \<open>
  The scheduler is round robin: it runs the first runnable environment after the current
  one, in the circular order of the array, so a runnable environment is not passed over
  for ever.
\<close>

abbreviation (input) runnable :: "kern \<Rightarrow> nat \<Rightarrow> bool" where
  "runnable s e \<equiv> env_status (envs s e) = ENV_RUNNABLE"

lemma sched_pick_find:
  "sched_pick is start s =
     map_option (\<lambda>i. (start + i) mod NENV) (find (\<lambda>i. runnable s ((start + i) mod NENV)) is)"
  by (induction "is" start s rule: sched_pick.induct) (auto simp: Let_def)

text \<open>How far \<open>e\<close> is after \<open>c\<close> in the circular order.\<close>

definition ring_dist :: "nat \<Rightarrow> nat \<Rightarrow> nat" where
  "ring_dist c e = (e + NENV - 1 - c) mod NENV"

lemma ring_dist_reach:
  assumes "c < NENV" "e < NENV"
  shows "(c + 1 + ring_dist c e) mod NENV = e" "ring_dist c e < NENV"
proof -
  have "ring_dist c e = (if e \<le> c then e + 1023 - c else e - c - 1)"
  proof (cases "e \<le> c")
    case True
    then show ?thesis using assms by (simp add: ring_dist_def)
  next
    case False
    then have eq: "e + NENV - 1 - c = (e - c - 1) + 1024" by simp
    have "(e - c - 1 + 1024) mod 1024 = e - c - 1" using assms by (simp only: mod_add_self2) simp
    with False show ?thesis unfolding ring_dist_def eq by simp
  qed
  then show "(c + 1 + ring_dist c e) mod NENV = e" "ring_dist c e < NENV"
    using assms by (auto simp: mod_if)
qed

lemma ring_dist_of:
  assumes "c < NENV" "i < NENV"
  shows "ring_dist c ((c + 1 + i) mod NENV) = i"
proof (cases "c + 1 + i < NENV")
  case True
  then show ?thesis using assms by (simp add: ring_dist_def)
next
  case False
  then have "(c + 1 + i) mod NENV = c + 1 + i - NENV" using assms by (simp add: mod_if)
  with False show ?thesis using assms by (simp add: ring_dist_def)
qed

lemma sched_pick_Some:
  assumes "c < NENV"
  shows "sched_pick [0..<NENV] (c + 1) s = Some j \<longleftrightarrow>
    j < NENV \<and> runnable s j \<and> (\<forall>e < NENV. runnable s e \<longrightarrow> ring_dist c j \<le> ring_dist c e)"
    (is "?L \<longleftrightarrow> ?R")
proof
  assume ?L
  then obtain i where i: "i < NENV" "runnable s ((c + 1 + i) mod NENV)" "j = (c + 1 + i) mod NENV"
    "\<forall>k < i. \<not> runnable s ((c + 1 + k) mod NENV)"
    unfolding sched_pick_find by (auto simp: find_Some_iff simp del: upt_rec_numeral)
  have d: "ring_dist c j = i" unfolding i(3) by (rule ring_dist_of [OF assms i(1)])
  have "ring_dist c j \<le> ring_dist c e" if "e < NENV" "runnable s e" for e
  proof (rule ccontr)
    assume "\<not> ring_dist c j \<le> ring_dist c e"
    with i(4) d have "\<not> runnable s ((c + 1 + ring_dist c e) mod NENV)" by simp
    with that ring_dist_reach(1) [OF assms that(1)] show False by simp
  qed
  with i show ?R by simp
next
  assume R: ?R
  let ?i = "ring_dist c j"
  have r: "(c + 1 + ?i) mod NENV = j" "?i < NENV" using ring_dist_reach [OF assms] R by blast+
  have "\<not> runnable s ((c + 1 + k) mod NENV)" if "k < ?i" for k
  proof
    assume "runnable s ((c + 1 + k) mod NENV)"
    with R have "?i \<le> ring_dist c ((c + 1 + k) mod NENV)" by simp
    moreover have "ring_dist c ((c + 1 + k) mod NENV) = k"
      by (rule ring_dist_of [OF assms]) (use that r(2) in simp)
    ultimately show False using that by simp
  qed
  with r R have "find (\<lambda>i. runnable s ((c + 1 + i) mod NENV)) [0..<NENV] = Some ?i"
    unfolding find_Some_iff by (intro exI [of _ ?i]) (simp del: upt_rec_numeral)
  with r(1) show ?L unfolding sched_pick_find by simp
qed

lemma sched_pick_None:
  "sched_pick [0..<NENV] (c + 1) s = None \<longleftrightarrow> (\<forall>k < NENV. \<not> runnable s ((c + 1 + k) mod NENV))"
  unfolding sched_pick_find by (auto simp: find_None_iff simp del: upt_rec_numeral)

text \<open>
  C16: with a current environment \<open>c\<close>, \<open>sched_yield\<close> runs the runnable environment that comes
  first after \<open>c\<close> in the circular order; if none is runnable it runs \<open>c\<close> again when it is
  still running, and otherwise idles.
\<close>

theorem sched_yield_round_robin:
  assumes inv: "env_inv s efl" and cur: "curenv s = Some c" and c: "c < NENV"
    "env_status (envs s c) \<noteq> ENV_FREE"
  shows "(\<forall>j < NENV. runnable s j \<and> (\<forall>e < NENV. runnable s e \<longrightarrow> ring_dist c j \<le> ring_dist c e)
      \<longrightarrow> sched_yield s = map_option UserMode (env_run j s)) \<and>
    ((\<forall>e < NENV. \<not> runnable s e) \<longrightarrow>
      sched_yield s = (if env_status (envs s c) = ENV_RUNNING then map_option UserMode (env_run c s)
                       else sched_halt s))"
proof -
  have start: "(case curenv s of None \<Rightarrow> 0 | Some c \<Rightarrow> ENVX (env_id (envs s c)) + 1) = c + 1"
    using env_inv_id [OF inv c] cur by simp
  show ?thesis
  proof (intro conjI allI impI)
    fix j assume "j < NENV" "runnable s j \<and> (\<forall>e < NENV. runnable s e \<longrightarrow> ring_dist c j \<le> ring_dist c e)"
    with sched_pick_Some [OF c(1), of s j] have "sched_pick [0..<NENV] (c + 1) s = Some j" by blast
    then show "sched_yield s = map_option UserMode (env_run j s)"
      unfolding sched_yield_def start Let_def by simp
  next
    assume n: "\<forall>e < NENV. \<not> runnable s e"
    have "sched_pick [0..<NENV] (c + 1) s = None" unfolding sched_pick_None using n by auto
    then show "sched_yield s = (if env_status (envs s c) = ENV_RUNNING
        then map_option UserMode (env_run c s) else sched_halt s)"
      unfolding sched_yield_def start Let_def by (simp add: cur)
  qed
qed

text \<open>
  When a runnable environment \<open>e\<close> is passed over in favour of \<open>j\<close>, it is strictly closer after \<open>j\<close> than it was
  after the previous environment.
\<close>

lemma sched_yield_closer:
  assumes "env_inv s efl" "curenv s = Some c" "c < NENV" "env_status (envs s c) \<noteq> ENV_FREE"
    and "e < NENV" "runnable s e" "sched_yield s = Some (UserMode s')"
  shows "\<exists>j < NENV. curenv s' = Some j \<and> (j = e \<or> ring_dist j e < ring_dist c e) \<and> ring_dist c e < NENV"
proof -
  have start: "(case curenv s of None \<Rightarrow> 0 | Some c \<Rightarrow> ENVX (env_id (envs s c)) + 1) = c + 1"
    using env_inv_id [OF assms(1,3,4)] assms(2) by simp
  have "sched_pick [0..<NENV] (c + 1) s \<noteq> None"
  proof
    assume "sched_pick [0..<NENV] (c + 1) s = None"
    then have "\<not> runnable s ((c + 1 + ring_dist c e) mod NENV)"
      unfolding sched_pick_None using ring_dist_reach(2) [OF assms(3,5)] by blast
    with ring_dist_reach(1) [OF assms(3,5)] assms(6) show False by simp
  qed
  then obtain j where pick: "sched_pick [0..<NENV] (c + 1) s = Some j" by blast
  then have j: "j < NENV" "ring_dist c j \<le> ring_dist c e"
    using sched_pick_Some [OF assms(3), of s j] assms(5,6) by blast+
  have "env_run j s = Some s'"
    using assms(7) pick unfolding sched_yield_def start Let_def by simp
  then have cur: "curenv s' = Some j"
    by (auto simp: env_run_def Let_def set_curenv_def curenv_def unlock_kernel_def upd_env_def
        split: option.splits if_splits)
  have "ring_dist j e < ring_dist c e" if "j \<noteq> e"
  proof -
    have i: "(c + 1 + ring_dist c j) mod NENV = j" "(c + 1 + ring_dist c e) mod NENV = e"
      using ring_dist_reach [OF assms(3)] j(1) assms(5) by blast+
    with that j(2) have lt: "ring_dist c j < ring_dist c e" by (metis le_neq_implies_less)
    let ?k = "ring_dist c e - ring_dist c j - 1"
    have "(j + 1 + ?k) mod NENV = (c + 1 + ring_dist c j + (1 + ?k)) mod NENV"
      using i(1) mod_add_left_eq [of "c + 1 + ring_dist c j" NENV "1 + ?k"] by (simp add: add.assoc)
    also have "\<dots> = e" using lt i(2) by simp
    finally have "ring_dist j e = ?k"
      using ring_dist_of [OF j(1), of ?k] ring_dist_reach(2) [OF assms(3,5)] by simp
    with lt show ?thesis by simp
  qed
  with j(1) cur ring_dist_reach(2) [OF assms(3,5)] show ?thesis by blast
qed

text \<open>
  The \<open>n\<close> calls of \<open>sched_yield\<close> that one CPU makes in a row, from \<open>pre i\<close> to \<open>post i\<close>.  In between anything may happen
  as long as the CPU keeps its current environment: it is not destroyed.
\<close>

definition yields :: "(nat \<Rightarrow> kern) \<Rightarrow> (nat \<Rightarrow> kern) \<Rightarrow> nat \<Rightarrow> bool" where
  "yields pre post n \<longleftrightarrow>
     (\<forall>i < n. (\<exists>efl. env_inv (pre i) efl) \<and> sched_yield (pre i) = Some (UserMode (post i)) \<and>
        (\<exists>c < NENV. curenv (pre i) = Some c \<and> env_status (envs (pre i) c) \<noteq> ENV_FREE)) \<and>
     (\<forall>i. Suc i < n \<longrightarrow> curenv (pre (Suc i)) = curenv (post i))"

lemma passed_over:
  assumes "yields pre post n" "e < NENV" "\<forall>i < n. runnable (pre i) e \<and> curenv (post i) \<noteq> Some e" "i < n" "curenv (pre 0) = Some c"
  shows "\<exists>j < NENV. curenv (post i) = Some j \<and> ring_dist j e + i < ring_dist c e"
  using assms(4)
proof (induction i)
  case 0
  then obtain efl where "env_inv (pre 0) efl" "c < NENV" "env_status (envs (pre 0) c) \<noteq> ENV_FREE"
    "sched_yield (pre 0) = Some (UserMode (post 0))" "runnable (pre 0) e" "curenv (post 0) \<noteq> Some e"
    using assms(1,3,5) unfolding yields_def by fastforce
  then show ?case using sched_yield_closer [of "pre 0" efl c e "post 0"] assms(2,5) by auto
next
  case (Suc i)
  then obtain j where j: "j < NENV" "curenv (post i) = Some j" "ring_dist j e + i < ring_dist c e" by auto
  have cur: "curenv (pre (Suc i)) = Some j" using assms(1) Suc.prems j(2) unfolding yields_def by simp
  then obtain efl where "env_inv (pre (Suc i)) efl" "env_status (envs (pre (Suc i)) j) \<noteq> ENV_FREE"
    "sched_yield (pre (Suc i)) = Some (UserMode (post (Suc i)))" "runnable (pre (Suc i)) e" "curenv (post (Suc i)) \<noteq> Some e"
    using assms(1,3) Suc.prems unfolding yields_def by fastforce
  then show ?case using sched_yield_closer [of "pre (Suc i)" efl j e "post (Suc i)"] assms(2) cur j(1,3) by fastforce
qed

text \<open>
  C17: bounded waiting: on a CPU that keeps its current environment between its calls of \<open>sched_yield\<close>, an environment
  that stays runnable is passed over at most 1023 times in a row, whatever else happens in between.  (After the
  current environment was destroyed the search starts at the beginning of the array again, so these calls are left out.)
\<close>

theorem sched_yield_bounded_wait:
  assumes "yields pre post n" "e < NENV" "\<forall>i < n. runnable (pre i) e \<and> curenv (post i) \<noteq> Some e"
  shows "n \<le> 1023"
proof (cases n)
  case (Suc m)
  then obtain c where c: "c < NENV" "curenv (pre 0) = Some c" using assms(1) unfolding yields_def by auto
  from passed_over [OF assms _ c(2), of m] Suc have "m < ring_dist c e" by auto
  moreover have "ring_dist c e < NENV" using ring_dist_reach(2) [OF c(1) assms(2)] .
  ultimately show ?thesis using Suc by simp
qed simp

text \<open>An example with two environments: 0 is running and 1 can run.\<close>

definition ex_two :: kern where
  "ex_two = (let s = upd_env 1 (\<lambda>x. x\<lparr>env_id := 0x1001, env_status := ENV_RUNNABLE,
               env_pgdir := Some 2\<rparr>) ex_env_machine
     in s\<lparr>env_free_list := env_link (envs s 1)\<rparr>)"

lemma env_inv_ex_two: "env_inv ex_two [2..<NENV]"
proof -
  have l: "[1..<1024] = 1 # [2..<1024]" using upt_conv_Cons [of 1 1024] by (simp add: numeral_2_eq_2 del: upt_rec_numeral)
  have "env_inv ex_env_machine (1 # [2..<1024])" using env_inv_ex unfolding l .
  from env_inv_take [OF this, of "\<lambda>x. x\<lparr>env_id := 0x1001, env_status := ENV_RUNNABLE,
               env_pgdir := Some 2\<rparr>"]
  show ?thesis unfolding ex_two_def Let_def by (simp add: ENVX_def upd_env_def)
qed

lemma ex_two_facts:
  "curenv ex_two = Some 0" "env_status (envs ex_two 0) = ENV_RUNNING" "runnable ex_two 1"
  "env_pgdir (envs ex_two 1) = Some 2"
  by (simp_all add: ex_two_def ex_env_machine_def Let_def curenv_def set_curenv_def upd_env_def)

lemma ex_two_runnable:
  assumes "e < NENV" "runnable ex_two e"
  shows "e = 1"
proof -
  have "\<forall>e < NENV. e \<in> set [2..<NENV] \<longleftrightarrow> env_status (envs ex_two e) = ENV_FREE"
    using env_inv_ex_two unfolding env_inv_def by (elim conjE)
  then have "\<forall>e < NENV. 2 \<le> e \<and> e < NENV \<longleftrightarrow> env_status (envs ex_two e) = ENV_FREE"
    unfolding set_upt atLeastLessThan_iff .
  then have "e < 2" using assms by (metis env_status.distinct(3) not_le env_status.simps)
  moreover have "e \<noteq> 0" using assms(2) ex_two_facts(2) by (intro notI) (simp only: env_status.distinct simp_thms)
  ultimately show ?thesis by simp
qed

theorem sched_yield_round_robin_witness:
  "sched_yield ex_two = map_option UserMode (env_run 1 ex_two)"
proof -
  have "env_status (envs ex_two 0) \<noteq> ENV_FREE" using ex_two_facts by simp
  from sched_yield_round_robin [OF env_inv_ex_two ex_two_facts(1) _ this, THEN conjunct1,
      THEN spec, of 1] ex_two_facts(3) ex_two_runnable
  show ?thesis by auto
qed

text \<open>Three environments: 0 is running, 1 and 2 can run, and 2 is passed over.\<close>

definition ex_three :: kern where
  "ex_three = (let s = upd_env 2 (\<lambda>x. x\<lparr>env_id := 0x1002, env_status := ENV_RUNNABLE,
               env_pgdir := Some 2\<rparr>) ex_two
     in s\<lparr>env_free_list := env_link (envs s 2)\<rparr>)"

lemma env_inv_ex_three: "env_inv ex_three [3..<NENV]"
proof -
  have l: "[2..<1024] = 2 # [3..<1024]" using upt_conv_Cons [of 2 1024] by (simp add: numeral_3_eq_3 numeral_2_eq_2 del: upt_rec_numeral)
  have "env_inv ex_two (2 # [3..<1024])" using env_inv_ex_two unfolding l .
  from env_inv_take [OF this, of "\<lambda>x. x\<lparr>env_id := 0x1002, env_status := ENV_RUNNABLE,
               env_pgdir := Some 2\<rparr>"]
  show ?thesis unfolding ex_three_def Let_def by (simp add: ENVX_def upd_env_def)
qed

lemma ex_three_facts:
  "curenv ex_three = Some 0" "env_status (envs ex_three 0) = ENV_RUNNING" "runnable ex_three 1" "runnable ex_three 2"
  "env_pgdir (envs ex_three 1) = Some 2"
  using ex_two_facts by (simp_all add: ex_three_def Let_def curenv_def upd_env_def)

theorem sched_yield_bounded_wait_witness:
  "\<exists>t. yields (\<lambda>_. ex_three) (\<lambda>_. t) 1 \<and> curenv t = Some 1 \<and> runnable ex_three 2 \<and> (1 :: nat) \<le> 1023"
proof -
  have st: "(case curenv ex_three of None \<Rightarrow> 0 | Some c \<Rightarrow> ENVX (env_id (envs ex_three c)) + 1) = 0 + 1"
    using env_inv_id [OF env_inv_ex_three, of 0] ex_three_facts by simp
  have "ring_dist 0 1 \<le> ring_dist 0 e" for e by (simp add: ring_dist_def)
  then have pick: "sched_pick [0..<NENV] (0 + 1) ex_three = Some 1"
    using sched_pick_Some [of 0 ex_three 1] ex_three_facts(3) by simp
  obtain t where run: "env_run 1 ex_three = Some t"
    using env_run_some [OF ex_three_facts(5)] by blast
  have y: "sched_yield ex_three = Some (UserMode t)"
    using pick run unfolding sched_yield_def st Let_def by simp
  have cur: "curenv t = Some 1"
    using run by (auto simp: env_run_def Let_def set_curenv_def curenv_def unlock_kernel_def upd_env_def
        split: option.splits if_splits)
  have "env_status (envs ex_three 0) \<noteq> ENV_FREE" using ex_three_facts(2) by simp
  then have ys: "yields (\<lambda>_. ex_three) (\<lambda>_. t) 1"
    unfolding yields_def using env_inv_ex_three y ex_three_facts(1) by fastforce
  have "(1 :: nat) \<le> 1023"
    by (rule sched_yield_bounded_wait [OF ys, of 2]) (use cur ex_three_facts(4) in auto)
  then show ?thesis using ys cur ex_three_facts(4) by blast
qed

end
