(* ===== verification/ConsoleProps.thy ===== *)
theory ConsoleProps
  imports Console
begin

text \<open>
  The console: interrupts terminate and put the device's characters into the ring in order;
  the ring is a queue of at most 511 characters, and loses everything when 512 are stored;
  the screen is never written out of bounds.
\<close>

section \<open>The ring\<close>

definition ring_ok :: "console \<Rightarrow> bool" where
  "ring_ok s \<longleftrightarrow> rpos s < CONSBUFSIZE \<and> wpos s < CONSBUFSIZE"

definition waiting :: "console \<Rightarrow> nat" where
  "waiting s = (wpos s + CONSBUFSIZE - rpos s) mod CONSBUFSIZE"

definition ring_items :: "console \<Rightarrow> u8 list" where
  "ring_items s = map (\<lambda>i. cbuf s ((rpos s + i) mod CONSBUFSIZE)) [0..<waiting s]"

lemma ring_length [simp]: "length (ring_items s) = waiting s"
  by (simp add: ring_items_def)

lemma waiting_bound: "waiting s < CONSBUFSIZE"
  by (simp add: waiting_def)

lemma waiting_if:
  "ring_ok s \<Longrightarrow> waiting s = (if rpos s \<le> wpos s then wpos s - rpos s else wpos s + 512 - rpos s)"
  by (auto simp: waiting_def ring_ok_def mod_if)

definition put8 :: "u8 \<Rightarrow> console \<Rightarrow> console" where
  "put8 c s = cons_store (uint c) s"

lemma put8_sel:
  "cbuf (put8 c s) = (cbuf s)(wpos s := c)"
  "wpos (put8 c s) = (if Suc (wpos s) = 512 then 0 else Suc (wpos s))"
  "rpos (put8 c s) = rpos s"
  by (simp_all add: put8_def cons_store_def Let_def)

lemma put8_items:
  assumes "ring_ok s" "waiting s < 511"
  shows "ring_ok (put8 c s) \<and> ring_items (put8 c s) = ring_items s @ [c]"
proof -
  have ok: "ring_ok (put8 c s)" using assms(1) by (auto simp: ring_ok_def put8_sel)
  have w: "waiting (put8 c s) = Suc (waiting s)"
    using assms ok by (auto simp: waiting_if put8_sel split: if_splits) (auto simp: ring_ok_def)
  have at: "(rpos s + waiting s) mod 512 = wpos s"
    using assms(1) by (auto simp: waiting_if) (auto simp: ring_ok_def mod_if)
  have ne: "(rpos s + i) mod 512 \<noteq> wpos s" if "i < waiting s" for i
    using that assms(1) by (auto simp: waiting_if split: if_splits) (auto simp: ring_ok_def mod_if split: if_splits)
  show ?thesis using ok ne at by (simp add: ring_items_def w put8_sel)
qed

definition take8 :: "console \<Rightarrow> u8 \<times> console" where
  "take8 s = (let (c, s) = cons_take s in (ucast c, s))"

lemma take8_items:
  assumes "ring_ok s" "ring_items s = x # xs"
  shows "fst (take8 s) = x \<and> ring_ok (snd (take8 s)) \<and> ring_items (snd (take8 s)) = xs"
proof -
  let ?t = "snd (take8 s)"
  have w: "0 < waiting s" using arg_cong [OF assms(2), of length] by simp
  then have ne: "rpos s \<noteq> wpos s" using assms(1) by (auto simp: waiting_if)
  have up: "[0..<waiting s] = 0 # map Suc [0..<waiting s - 1]"
    using w by (simp add: map_Suc_upt upt_conv_Cons)
  have r: "rpos s mod 512 = rpos s" using assms(1) by (simp add: ring_ok_def)
  have x: "x = cbuf s (rpos s)" "xs = map (\<lambda>i. cbuf s ((rpos s + Suc i) mod 512)) [0..<waiting s - 1]"
    using assms(2) r unfolding ring_items_def up by (auto simp: comp_def)
  have sel: "fst (take8 s) = cbuf s (rpos s)" "cbuf ?t = cbuf s" "wpos ?t = wpos s"
    "rpos ?t = (if Suc (rpos s) = 512 then 0 else Suc (rpos s))"
    using ne by (simp_all add: take8_def cons_take_def Let_def ucast_up_ucast_id is_up)
  have ok: "ring_ok ?t" using assms(1) sel by (auto simp: ring_ok_def)
  have w': "waiting ?t = waiting s - 1"
    using assms(1) ok ne sel by (auto simp: waiting_if split: if_splits) (auto simp: ring_ok_def)
  have i: "(rpos ?t + i) mod 512 = (rpos s + Suc i) mod 512" for i
  proof (cases "Suc (rpos s) = 512")
    case True
    then have "rpos s + Suc i = 512 + i" by simp
    with True sel(4) show ?thesis by simp
  next
    case False
    then have "rpos ?t + i = rpos s + Suc i" using sel(4) by simp
    then show ?thesis by simp
  qed
  show ?thesis using ok sel x by (simp add: ring_items_def w' i)
qed

interpretation ring: fifo ring_ok ring_items "\<lambda>s. 511 - length (ring_items s)" put8 take8
  by unfold_locales (use put8_items take8_items in auto)

text \<open>
  C1: characters stored into the empty ring, at most 511 of them, are read back all and in
  order.
\<close>

theorem console_ring_fifo:
  assumes "ring_ok s" "ring_items s = []" "length xs \<le> 511"
  shows "fst (drain take8 (length xs) (fold put8 xs s)) = xs"
  using ring.put_then_drain [OF assms(1,2)] assms(2,3) by simp

theorem console_ring_fifo_witness:
  "fst (drain take8 (length [0x61, 0x62 :: u8]) (fold put8 [0x61, 0x62] console0)) = [0x61, 0x62]"
proof (rule console_ring_fifo)
  show "ring_ok console0" by (simp add: ring_ok_def console0_def)
  show "ring_items console0 = []" by (simp add: ring_items_def waiting_def console0_def)
qed simp

lemma fold_put8_wpos:
  "ring_ok s \<Longrightarrow> wpos (fold put8 xs s) = (wpos s + length xs) mod 512 \<and> rpos (fold put8 xs s) = rpos s
     \<and> ring_ok (fold put8 xs s)"
proof (induction xs arbitrary: s)
  case Nil
  then show ?case by (simp add: ring_ok_def)
next
  case (Cons x xs)
  have "ring_ok (put8 x s)" using Cons.prems by (auto simp: ring_ok_def put8_sel)
  from Cons.IH [OF this] show ?case
    by (auto simp: put8_sel mod_simps)
qed

text \<open>
  The ring has no protection against overflow: 512 characters stored without a read put
  the write position back where it was, so an empty ring is empty again and all of them
  are lost.
\<close>

theorem console_ring_overflow:
  assumes "ring_ok s" "ring_items s = []" "length xs = 512"
  shows "ring_items (fold put8 xs s) = [] \<and> cons_take (fold put8 xs s) = (0, fold put8 xs s)"
proof -
  have "waiting s = 0" using arg_cong [OF assms(2), of length] by simp
  then have "rpos s = wpos s" using assms(1) by (auto simp: waiting_if ring_ok_def split: if_splits)
  moreover have "wpos (fold put8 xs s) = wpos s" "rpos (fold put8 xs s) = rpos s"
    using fold_put8_wpos [OF assms(1), of xs] assms(1,3) by (auto simp: ring_ok_def)
  ultimately show ?thesis
    by (simp add: ring_items_def waiting_def cons_take_def)
qed

theorem console_ring_overflow_witness:
  "cons_take (fold put8 (replicate 512 0x61) console0) = (0, fold put8 (replicate 512 0x61) console0)"
proof -
  have "ring_ok console0" "ring_items console0 = []"
    by (simp_all add: ring_ok_def ring_items_def waiting_def console0_def)
  from console_ring_overflow [OF this, of "replicate 512 0x61", THEN conjunct2] show ?thesis
    by simp
qed

section \<open>Interrupts\<close>

text \<open>
  A device that \<open>cons_intr\<close> can drain: every character it delivers leaves fewer bytes
  pending, and it touches neither end of the ring.  \<open>stream\<close> is what it will deliver.
\<close>

locale input_device =
  fixes proc :: "console \<Rightarrow> int \<times> console"
    and pending :: "console \<Rightarrow> nat"
  assumes done_same: "fst (proc s) = -1 \<Longrightarrow> snd (proc s) = s"
    and progress: "fst (proc s) \<noteq> -1 \<Longrightarrow> pending (snd (proc s)) < pending s"
    and keeps_ring: "cbuf (snd (proc s)) = cbuf s" "rpos (snd (proc s)) = rpos s"
      "wpos (snd (proc s)) = wpos s"
    and is_char: "fst (proc s) \<noteq> -1 \<Longrightarrow> 0 \<le> fst (proc s) \<and> fst (proc s) < 256"
    and store_pending: "pending (cons_store c s) = pending s"
begin

lemma intr_terminates:
  assumes obs: "\<And>t. obs (snd (proc t)) = obs t" "\<And>c t. obs (cons_store c t) = obs t"
  shows "\<exists>s' xs. cons_intr proc s = Some s' \<and> length xs \<le> pending s \<and>
     (\<forall>x \<in> set xs. x \<noteq> 0) \<and> cbuf s' = cbuf (fold put8 xs s) \<and>
     rpos s' = rpos (fold put8 xs s) \<and> wpos s' = wpos (fold put8 xs s) \<and> obs s' = obs s"
proof (induction "pending s" arbitrary: s rule: less_induct)
  case less
  obtain c t where p: "proc s = (c, t)" by fastforce
  have ring: "cbuf (fold put8 xs u) = cbuf (fold put8 xs v) \<and> rpos (fold put8 xs u) = rpos (fold put8 xs v)
     \<and> wpos (fold put8 xs u) = wpos (fold put8 xs v)"
    if "cbuf u = cbuf v" "rpos u = rpos v" "wpos u = wpos v" for xs u v
    using that by (induction xs arbitrary: u v) (auto simp: put8_sel)
  show ?case
  proof (cases "c = -1")
    case True
    then have "t = s" using done_same [of s] p by simp
    with True p show ?thesis by (intro exI [of _ s] exI [of _ "[]"]) (simp add: cons_intr.simps)
  next
    case False
    note t = progress [of s] keeps_ring [of s] is_char [of s]
    have lt: "pending t < pending s" using t False p by simp
    show ?thesis
    proof (cases "c = 0")
      case True
      have run: "cons_intr proc s = cons_intr proc t"
        using p True by (subst cons_intr.simps) simp
      from less [OF lt] obtain s' xs where "cons_intr proc t = Some s'" "length xs \<le> pending t"
        "\<forall>x \<in> set xs. x \<noteq> 0" "cbuf s' = cbuf (fold put8 xs t)" "rpos s' = rpos (fold put8 xs t)"
        "wpos s' = wpos (fold put8 xs t)" "obs s' = obs t" by blast
      with lt ring [of t s xs] t p obs(1) [of s] show ?thesis unfolding run by (intro exI [of _ s'] exI [of _ xs]) simp
    next
      case nz: False
      let ?x = "of_int c :: u8"
      have ux: "uint ?x = c" using t(5) p False by (simp add: word_of_int_inverse [of c] uint_word_of_int)
      have run: "cons_intr proc s = cons_intr proc (put8 ?x t)"
        using p False nz ux by (subst cons_intr.simps) (simp add: put8_def)
      have "pending (put8 ?x t) = pending t" by (simp add: put8_def store_pending)
      with less [of "put8 ?x t"] lt obtain s' xs where "cons_intr proc (put8 ?x t) = Some s'"
        "length xs \<le> pending t" "\<forall>x \<in> set xs. x \<noteq> 0"
        "cbuf s' = cbuf (fold put8 xs (put8 ?x t))" "rpos s' = rpos (fold put8 xs (put8 ?x t))"
        "wpos s' = wpos (fold put8 xs (put8 ?x t))" "obs s' = obs (put8 ?x t)" by (metis (no_types, lifting))
      moreover have "?x \<noteq> 0" using ux nz by auto
      moreover have "cbuf (fold put8 (?x # xs) t) = cbuf (fold put8 (?x # xs) s) \<and>
         rpos (fold put8 (?x # xs) t) = rpos (fold put8 (?x # xs) s) \<and>
         wpos (fold put8 (?x # xs) t) = wpos (fold put8 (?x # xs) s)"
        by (rule ring) (use t p in simp_all)
      moreover have "obs (put8 ?x t) = obs s" using obs(1) [of s] obs(2) p by (simp add: put8_def)
      ultimately show ?thesis using lt unfolding run
        by (intro exI [of _ s'] exI [of _ "?x # xs"]) simp
    qed
  qed
qed

end

lemma cons_store_sel [simp]:
  "com_in (cons_store c s) = com_in s" "kbd_in (cons_store c s) = kbd_in s"
  by (simp_all add: cons_store_def Let_def)

lemma uint_bounded8: "uint (x :: u8) < 256" and uint_lt_0: "uint (x :: u8) \<noteq> -1"
  using uint_bounded [of x] uint_ge_0 [of x] by (simp, linarith)

interpretation serial: input_device serial_proc_data "\<lambda>s. length (com_in s)"
proof unfold_locales
  fix s
  show "snd (serial_proc_data s) = s" if "fst (serial_proc_data s) = -1"
    using that uint_lt_0 [of "hd (com_in s)"] by (cases "com_in s") (auto simp: serial_proc_data_def)
qed (auto simp: serial_proc_data_def uint_bounded8 split: list.splits)

definition input_view :: "console \<Rightarrow> (nat \<Rightarrow> u8) \<times> nat \<times> nat \<times> (bool \<times> u8) list \<times> u8 list" where
  "input_view s = (cbuf s, rpos s, wpos s, kbd_in s, com_in s)"

lemma output_view_parts:
  "input_view (serial_putc c s) = input_view s" "input_view (lpt_putc c s) = input_view s"
  "input_view (cga_switch c s) = input_view s" "input_view (cga_scroll s) = input_view s"
  by (auto simp: input_view_def serial_putc_def lpt_putc_def cga_switch_def cga_scroll_def Let_def)

lemma output_view [simp]: "input_view (cons_putc c s) = input_view s"
  by (simp add: cons_putc_def cga_putc_def cons_space_def Let_def output_view_parts)

lemma output_view_fold [simp]: "input_view (fold cons_putc cs s) = input_view s"
  by (induction cs arbitrary: s) simp_all

lemma kbd_press_facts:
  "0 \<le> fst (kbd_press d s) \<and> fst (kbd_press d s) < 256 \<and> input_view (snd (kbd_press d s)) = input_view s"
proof -
  have r: "input_view (t\<lparr>rebooted := b\<rparr>) = input_view t" "input_view (t\<lparr>shift := sh\<rparr>) = input_view t"
    for t b sh by (simp_all add: input_view_def)
  show ?thesis by (simp add: kbd_press_def Let_def r uint_bounded8 split: if_split)
qed

lemma kbd_proc_facts:
  "fst (kbd_proc_data s) = -1 \<and> snd (kbd_proc_data s) = s \<or>
   0 \<le> fst (kbd_proc_data s) \<and> fst (kbd_proc_data s) < 256 \<and>
     length (kbd_in (snd (kbd_proc_data s))) < length (kbd_in s) \<and>
     cbuf (snd (kbd_proc_data s)) = cbuf s \<and> rpos (snd (kbd_proc_data s)) = rpos s \<and>
     wpos (snd (kbd_proc_data s)) = wpos s"
proof (cases "kbd_in s")
  case Nil
  then show ?thesis by (simp add: kbd_proc_data_def)
next
  case (Cons md rest)
  obtain m d where md: "md = (m, d)" by (cases md)
  show ?thesis
    using kbd_press_facts [of d "s\<lparr>kbd_in := rest\<rparr>"] Cons md
    by (auto simp: kbd_proc_data_def kbd_release_def Let_def input_view_def)
qed

interpretation kbd: input_device kbd_proc_data "\<lambda>s. length (kbd_in s)"
proof unfold_locales
  fix s c
  note f = kbd_proc_facts [of s]
  show "snd (kbd_proc_data s) = s" if "fst (kbd_proc_data s) = -1" using f that by auto
  show "length (kbd_in (snd (kbd_proc_data s))) < length (kbd_in s)" if "fst (kbd_proc_data s) \<noteq> -1"
    using f that by auto
  show "cbuf (snd (kbd_proc_data s)) = cbuf s" "rpos (snd (kbd_proc_data s)) = rpos s"
    "wpos (snd (kbd_proc_data s)) = wpos s" using f by auto
  show "0 \<le> fst (kbd_proc_data s) \<and> fst (kbd_proc_data s) < 256" if "fst (kbd_proc_data s) \<noteq> -1"
    using f that by auto
qed simp

text \<open>
  Polling the console always returns: draining the serial port and the keyboard ends,
  and if the ring was empty and at most 511 bytes were pending, the call returns the first
  non-zero character the devices delivered (0 if there was none) and keeps the others.
\<close>

theorem cons_getc_returns:
  assumes "ring_ok s" "ring_items s = []" "length (com_in s) + length (kbd_in s) \<le> 511"
  shows "\<exists>xs c s'. cons_getc s = Some (c, s') \<and> length xs \<le> length (com_in s) + length (kbd_in s) \<and>
    c = (if xs = [] then 0 else ucast (hd xs)) \<and> ring_items s' = tl xs \<and> ring_ok s'"
proof -
  have same: "ring_items u = ring_items v \<and> (ring_ok u \<longleftrightarrow> ring_ok v)"
    if "cbuf u = cbuf v" "rpos u = rpos v" "wpos u = wpos v" for u v
    using that by (simp add: ring_items_def waiting_def ring_ok_def)
  have "\<exists>s1 xs. serial_intr s = Some s1 \<and> length xs \<le> length (com_in s) \<and>
      ring_items s1 = xs \<and> ring_ok s1 \<and> kbd_in s1 = kbd_in s"
  proof (cases "serial_exists s")
    case True
    have "kbd_in (snd (serial_proc_data t)) = kbd_in t" for t
      by (simp add: serial_proc_data_def split: list.split)
    from serial.intr_terminates [of kbd_in, OF this, of s]
    obtain s1 xs where s1: "cons_intr serial_proc_data s = Some s1" "length xs \<le> length (com_in s)"
      "cbuf s1 = cbuf (fold put8 xs s)" "rpos s1 = rpos (fold put8 xs s)"
      "wpos s1 = wpos (fold put8 xs s)" "kbd_in s1 = kbd_in s"
      by auto
    have "ring_items (fold put8 xs s) = xs \<and> ring_ok (fold put8 xs s)"
      using ring.puts_items [OF assms(1), of xs] s1(2) assms(2,3) by simp
    with same [OF s1(3-5)] s1 True show ?thesis
      by (intro exI [of _ s1] exI [of _ xs]) (simp add: serial_intr_def)
  next
    case False
    with assms show ?thesis by (intro exI [of _ s] exI [of _ "[]"]) (simp add: serial_intr_def)
  qed
  then obtain s1 xs where s1: "serial_intr s = Some s1" "length xs \<le> length (com_in s)"
    "ring_items s1 = xs" "ring_ok s1" "kbd_in s1 = kbd_in s" by blast
  from kbd.intr_terminates [of "\<lambda>_. ()" s1]
  obtain s2 ys where s2: "kbd_intr s1 = Some s2" "length ys \<le> length (kbd_in s)"
    "cbuf s2 = cbuf (fold put8 ys s1)" "rpos s2 = rpos (fold put8 ys s1)"
    "wpos s2 = wpos (fold put8 ys s1)" using s1(5) by (auto simp: kbd_intr_def)
  have "ring_items (fold put8 ys s1) = xs @ ys \<and> ring_ok (fold put8 ys s1)"
    using ring.puts_items [OF s1(4), of ys] s1(2,3) s2(2) assms(3) by (simp flip: ring_length)
  with same [OF s2(3-5)] have r2: "ring_items s2 = xs @ ys" "ring_ok s2" by simp_all
  have run: "cons_getc s = Some (cons_take s2)" by (simp add: cons_getc_def s1(1) s2(1))
  show ?thesis
  proof (cases "xs @ ys")
    case Nil
    then have "waiting s2 = 0" using r2(1) by (metis ring_length list.size(3))
    then have "rpos s2 = wpos s2" using r2(2) by (auto simp: waiting_if ring_ok_def split: if_splits)
    then have "cons_take s2 = (0, s2)" by (simp add: cons_take_def)
    with run r2 Nil show ?thesis by (intro exI [of _ "[]"]) simp
  next
    case (Cons z zs)
    have ne: "rpos s2 \<noteq> wpos s2"
    proof
      assume "rpos s2 = wpos s2"
      then have "ring_items s2 = []" by (simp add: ring_items_def waiting_def)
      with r2(1) Cons show False by simp
    qed
    have "fst (cons_take s2) = ucast (fst (take8 s2))" "snd (cons_take s2) = snd (take8 s2)"
      using ne by (simp_all add: take8_def cons_take_def Let_def ucast_up_ucast_id is_up)
    moreover have "fst (take8 s2) = z" "ring_ok (snd (take8 s2))" "ring_items (snd (take8 s2)) = zs"
      using take8_items [OF r2(2), of z zs] r2(1) Cons by auto
    ultimately have "cons_take s2 = (ucast z, snd (take8 s2))" by (simp add: prod_eq_iff)
    with run \<open>ring_ok (snd (take8 s2))\<close> \<open>ring_items (snd (take8 s2)) = zs\<close> s1(2) s2(2)
      arg_cong [OF Cons, of length]
    show ?thesis
      by (intro exI [of _ "z # zs"] exI [of _ "ucast z"] exI [of _ "snd (take8 s2)"]) simp
  qed
qed

definition ex_console :: console where
  "ex_console = console0\<lparr>com_in := [0x61, 0x62]\<rparr>"

theorem cons_getc_returns_witness:
  "\<exists>xs c s'. cons_getc ex_console = Some (c, s') \<and>
    length xs \<le> length (com_in ex_console) + length (kbd_in ex_console) \<and>
    c = (if xs = [] then 0 else ucast (hd xs)) \<and> ring_items s' = tl xs \<and> ring_ok s'"
proof (rule cons_getc_returns)
  show "ring_ok ex_console" by (simp add: ex_console_def ring_ok_def console0_def)
  show "ring_items ex_console = []" by (simp add: ex_console_def ring_items_def waiting_def console0_def)
  show "length (com_in ex_console) + length (kbd_in ex_console) \<le> 511"
    by (simp add: ex_console_def console0_def)
qed

section \<open>The screen\<close>

lemma with_attr_low: "with_attr c AND 0xFF = c AND 0xFF"
proof -
  have "(c OR 0x700) AND 0xFF = c AND 0xFF"
  proof -
    have "(0x700 :: u32) AND 0xFF = 0" by simp
    then show ?thesis by (simp add: bit.conj_disj_distrib2)
  qed
  then show ?thesis by (simp add: with_attr_def)
qed

definition on_screen :: "console \<Rightarrow> bool" where
  "on_screen s \<longleftrightarrow> unat (crt_pos s) < CRT_SIZE"

lemma switch_scroll_screen:
  assumes "on_screen s"
  shows "on_screen (cga_scroll (cga_switch c s)) \<and>
    (\<forall>i \<ge> CRT_SIZE. crt_buf (cga_scroll (cga_switch c s)) i = crt_buf s i)"
proof -
  have lt: "unat (crt_pos s) < 2000" using assms by (simp add: on_screen_def)
  have dec: "unat (crt_pos s - 1) = unat (crt_pos s) - 1" if "0 < crt_pos s"
    using that by (simp add: unat_minus_one word_neq_0_conv)
  have inc: "unat (crt_pos s + 80) = unat (crt_pos s) + 80" "unat (crt_pos s + 1) = unat (crt_pos s) + 1"
    using lt by (simp_all add: unat_add_no_wrap)
  have rows: "unat (p - p mod 80) = unat p - unat p mod 80" for p :: u16 by (simp add: wsimps)
  have less80: "unat (p - 80) = unat p - 80" if "2000 \<le> unat p" for p :: u16
    using that by (simp add: unat_sub word_le_nat_alt)
  show ?thesis
    using lt dec inc unfolding on_screen_def cga_scroll_def cga_switch_def Let_def
    by (auto simp: rows less80)
qed

lemma scroll_screen:
  assumes "on_screen s"
  shows "on_screen (cga_scroll s)" "crt_buf (cga_scroll s) = crt_buf s"
    "crt_cursor (cga_scroll s) = crt_pos (cga_scroll s)"
  using assms by (simp_all add: on_screen_def cga_scroll_def Let_def)

lemma port_screen [simp]:
  "on_screen (serial_putc c s) = on_screen s" "on_screen (lpt_putc c s) = on_screen s"
  "crt_buf (serial_putc c s) = crt_buf s" "crt_buf (lpt_putc c s) = crt_buf s"
  by (simp_all add: on_screen_def serial_putc_def lpt_putc_def)

lemma space_screen:
  "on_screen s \<Longrightarrow> on_screen (cons_space s) \<and> (\<forall>i \<ge> CRT_SIZE. crt_buf (cons_space s) i = crt_buf s i)"
  using switch_scroll_screen [of "lpt_putc 0x20 (serial_putc 0x20 s)"] by (simp add: cons_space_def)

text \<open>
  Whatever character is printed, the cursor stays on the screen and no cell beyond the
  25 by 80 cells of the screen is written.
\<close>

theorem cons_putc_on_screen:
  assumes "on_screen s"
  shows "on_screen (cons_putc c s) \<and> (\<forall>i \<ge> CRT_SIZE. crt_buf (cons_putc c s) i = crt_buf s i)"
proof -
  let ?t = "lpt_putc c (serial_putc c s)"
  have t: "on_screen ?t" "crt_buf ?t = crt_buf s" using assms by simp_all
  note sp = space_screen
  have tab: "on_screen (cons_space (cons_space (cons_space (cons_space (cons_space ?t))))) \<and>
     (\<forall>i \<ge> CRT_SIZE. crt_buf (cons_space (cons_space (cons_space (cons_space (cons_space ?t))))) i = crt_buf s i)"
    using sp [OF t(1)] sp [of "cons_space ?t"] sp [of "cons_space (cons_space ?t)"]
      sp [of "cons_space (cons_space (cons_space ?t))"]
      sp [of "cons_space (cons_space (cons_space (cons_space ?t)))"] t(2) by simp
  show ?thesis
    using tab scroll_screen switch_scroll_screen [OF t(1), of "with_attr c"] t(2)
    by (simp add: cons_putc_def cga_putc_def Let_def)
qed

theorem cons_putc_on_screen_witness: "on_screen (cons_putc 0x09 console0)"
  using cons_putc_on_screen [of console0 "0x09"] by (simp add: on_screen_def console0_def)

section \<open>The keyboard\<close>

lemma output_shift [simp]: "shift (cons_putc c s) = shift s"
proof -
  have p: "shift (serial_putc c s) = shift s" "shift (lpt_putc c s) = shift s"
    "shift (cga_switch c s) = shift s" "shift (cga_scroll s) = shift s" for c s
    by (auto simp: serial_putc_def lpt_putc_def cga_switch_def cga_scroll_def Let_def)
  show ?thesis by (simp add: cons_putc_def cga_putc_def cons_space_def Let_def p)
qed

lemma output_shift_fold [simp]: "shift (fold cons_putc cs s) = shift s"
  by (induction cs arbitrary: s) simp_all

lemma press_no_esc:
  fixes d :: u8
  assumes "shift s AND 0x40 = 0"
  defines "sh \<equiv> (shift s OR ucast (shiftcode d)) XOR ucast (togglecode d)"
  shows "shift (snd (kbd_press d s)) = sh" "fst (kbd_press d s) = uint (kbd_char sh d)"
    "kbd_in (snd (kbd_press d s)) = kbd_in s" "sh AND 0x40 = 0"
proof -
  show "shift (snd (kbd_press d s)) = sh" "fst (kbd_press d s) = uint (kbd_char sh d)"
    using assms(1) by (simp_all add: kbd_press_def sh_def Let_def)
  show "kbd_in (snd (kbd_press d s)) = kbd_in s"
    using kbd_press_facts [of d s] by (simp add: input_view_def)
  have "sh AND 0x40 = ((shift s AND 0x40) OR (ucast (shiftcode d) AND 0x40)) XOR (ucast (togglecode d) AND 0x40)"
    unfolding sh_def by (simp add: bit.conj_xor_distrib2 bit.conj_disj_distrib2)
  moreover have "(ucast (shiftcode d) :: u32) AND 0x40 = 0" "(ucast (togglecode d) :: u32) AND 0x40 = 0"
    by (simp_all add: shiftcode_def togglecode_def)
  ultimately show "sh AND 0x40 = 0" using assms(1) by simp
qed

text \<open>
  The control and shift state follows the keys: after a key without an E0 escape is
  pressed and released again, the modifiers are what they were, except that the modifier of
  this key is off and its lock is toggled; and the character is the one of the key under
  the modifiers while it was down.
\<close>

theorem kbd_press_release:
  assumes "kbd_in s = (False, d) # (False, d OR 0x80) # rest" "d AND 0x80 = 0" "d \<noteq> 0x60"
    and "shift s AND 0x40 = 0"
  shows "shift (snd (kbd_proc_data (snd (kbd_proc_data s)))) =
      (shift s XOR ucast (togglecode d)) AND NOT (ucast (shiftcode d) OR 0x40) \<and>
    fst (kbd_proc_data s) = uint (kbd_char ((shift s OR ucast (shiftcode d)) XOR ucast (togglecode d)) d)"
proof -
  let ?s = "s\<lparr>kbd_in := (False, d OR 0x80) # rest\<rparr>"
  let ?sh = "(shift s OR ucast (shiftcode d)) XOR ucast (togglecode d)"
  have e: "shift ?s AND 0x40 = 0" using assms(4) by simp
  have d: "d \<noteq> 0xE0" using assms(2) by auto
  have first: "kbd_proc_data s = kbd_press d ?s"
    using assms(1,2) d by (simp add: kbd_proc_data_def)
  note P = press_no_esc [OF e, of d, simplified]
  have b: "(d OR 0x80) AND 0x7F = d" "(d OR 0x80) AND 0x80 \<noteq> 0" "d OR 0x80 \<noteq> 0xE0"
  proof -
    have m: "d = take_bit 7 d"
    proof (rule bit_word_eqI)
      fix n assume n: "n < LENGTH(8)"
      have "\<not> bit d 7"
      proof
        assume "bit d 7"
        then have "bit (d AND 0x80) 7" by (simp add: bit_simps)
        with assms(2) show False by simp
      qed
      with n show "bit d n \<longleftrightarrow> bit (take_bit 7 d) n"
        by (cases "n = 7") (auto simp: bit_simps)
    qed
    have k: "(0x7F :: u8) = mask 7" by (simp add: mask_numeral)
    have "(d OR 0x80) AND 0x7F = take_bit 7 d OR take_bit 7 0x80"
      unfolding k by (simp add: take_bit_eq_mask bit.conj_disj_distrib2)
    also have "take_bit 7 (0x80 :: u8) = 0" by simp
    finally show x: "(d OR 0x80) AND 0x7F = d" using m by simp
    show "(d OR 0x80) AND 0x80 \<noteq> 0" by (simp add: bit.conj_disj_distrib2 assms(2))
    show "d OR 0x80 \<noteq> 0xE0"
    proof
      assume "d OR 0x80 = 0xE0"
      with x have "d = 0xE0 AND 0x7F" by simp
      with assms(3) show False by simp
    qed
  qed
  have "shift (snd (kbd_proc_data (snd (kbd_press d ?s)))) = ?sh AND NOT (ucast (shiftcode d) OR 0x40)"
    using P b by (simp add: kbd_proc_data_def kbd_release_def Let_def)
  moreover have "?sh AND NOT (ucast (shiftcode d) OR 0x40) =
      (shift s XOR ucast (togglecode d)) AND NOT (ucast (shiftcode d) OR 0x40)"
    by (rule bit_word_eqI) (auto simp: bit_simps)
  ultimately show ?thesis unfolding first using P(2) by simp
qed

theorem kbd_press_release_witness:
  "fst (kbd_proc_data (console0\<lparr>kbd_in := [(False, 0x1E), (False, 0x9E)], shift := 1\<rparr>)) = 0x41"
  using kbd_press_release [of "console0\<lparr>kbd_in := [(False, 0x1E), (False, 0x9E)], shift := 1\<rparr>" "0x1E" "[]"]
  by (simp add: shiftcode_def togglecode_def kbd_char_def charcode_def shiftmap_def shiftmap_lo_def)

end
