(* ===== verification/Ustring.thy ===== *)
theory Ustring
  imports Prelude
begin

text \<open>
  The string library (\<open>lib/string.c\<close>), shared by the kernel and by user programs, over a
  flat 32-bit address space: a pointer is an address, and the functions read and write the
  memory they are given.  A loop that looks for a terminating NUL is a partial function:
  \<open>None\<close> is a run that never meets one.
\<close>

type_synonym mem = "u32 \<Rightarrow> u8"

section \<open>Lengths and copies\<close>

partial_function (option) strlen_from :: "mem \<Rightarrow> u32 \<Rightarrow> u32 \<Rightarrow> u32 option" where
  "strlen_from m s n = (if m s \<noteq> 0 then strlen_from m (s + 1) (n + 1) else Some n)"

definition strlen :: "mem \<Rightarrow> u32 \<Rightarrow> u32 option" where
  "strlen m s = strlen_from m s 0"

fun strnlen_from :: "mem \<Rightarrow> u32 \<Rightarrow> nat \<Rightarrow> u32 \<Rightarrow> u32" where
  "strnlen_from m s 0 n = n"
| "strnlen_from m s (Suc k) n = (if m s \<noteq> 0 then strnlen_from m (s + 1) k (n + 1) else n)"

definition strnlen :: "mem \<Rightarrow> u32 \<Rightarrow> u32 \<Rightarrow> u32" where
  "strnlen m s sz = strnlen_from m s (unat sz) 0"

partial_function (option) strcpy :: "mem \<Rightarrow> u32 \<Rightarrow> u32 \<Rightarrow> mem option" where
  "strcpy m dst src =
     (let c = m src; m = m(dst := c)
      in if c \<noteq> 0 then strcpy m (dst + 1) (src + 1) else Some m)"

definition strcat :: "mem \<Rightarrow> u32 \<Rightarrow> u32 \<Rightarrow> mem option" where
  "strcat m dst src = do { n \<leftarrow> strlen m dst; strcpy m (dst + n) src }"

fun strncpy_loop :: "mem \<Rightarrow> u32 \<Rightarrow> u32 \<Rightarrow> nat \<Rightarrow> mem" where
  "strncpy_loop m dst src 0 = m"
| "strncpy_loop m dst src (Suc k) =
     (let m = m(dst := m src)
      in strncpy_loop m (dst + 1) (if m src \<noteq> 0 then src + 1 else src) k)"

definition strncpy :: "mem \<Rightarrow> u32 \<Rightarrow> u32 \<Rightarrow> u32 \<Rightarrow> mem" where
  "strncpy m dst src sz = strncpy_loop m dst src (unat sz)"

text \<open>The loop of \<open>strlcpy\<close>: the counter is the value of \<open>size\<close> after its decrement.\<close>

fun strlcpy_loop :: "mem \<Rightarrow> u32 \<Rightarrow> u32 \<Rightarrow> nat \<Rightarrow> u32 \<times> mem" where
  "strlcpy_loop m dst src 0 = (dst, m(dst := 0))"
| "strlcpy_loop m dst src (Suc k) =
     (if m src \<noteq> 0 then strlcpy_loop (m(dst := m src)) (dst + 1) (src + 1) k
      else (dst, m(dst := 0)))"

definition strlcpy :: "mem \<Rightarrow> u32 \<Rightarrow> u32 \<Rightarrow> u32 \<Rightarrow> u32 \<times> mem" where
  "strlcpy m dst src sz =
     (if sz = 0 then (0, m)
      else let (d, m) = strlcpy_loop m dst src (unat sz - 1) in (d - dst, m))"

section \<open>Comparison and search\<close>

partial_function (option) strcmp :: "mem \<Rightarrow> u32 \<Rightarrow> u32 \<Rightarrow> int option" where
  "strcmp m p q =
     (if m p \<noteq> 0 \<and> m p = m q then strcmp m (p + 1) (q + 1)
      else Some (uint (m p) - uint (m q)))"

fun strncmp_loop :: "mem \<Rightarrow> u32 \<Rightarrow> u32 \<Rightarrow> nat \<Rightarrow> int" where
  "strncmp_loop m p q 0 = 0"
| "strncmp_loop m p q (Suc n) =
     (if m p \<noteq> 0 \<and> m p = m q then strncmp_loop m (p + 1) (q + 1) n
      else uint (m p) - uint (m q))"

definition strncmp :: "mem \<Rightarrow> u32 \<Rightarrow> u32 \<Rightarrow> u32 \<Rightarrow> int" where
  "strncmp m p q n = strncmp_loop m p q (unat n)"

partial_function (option) strchr :: "mem \<Rightarrow> u32 \<Rightarrow> u8 \<Rightarrow> u32 option" where
  "strchr m s c =
     (if m s \<noteq> 0 then if m s = c then Some s else strchr m (s + 1) c else Some 0)"

partial_function (option) strfind :: "mem \<Rightarrow> u32 \<Rightarrow> u8 \<Rightarrow> u32 option" where
  "strfind m s c = (if m s \<noteq> 0 \<and> m s \<noteq> c then strfind m (s + 1) c else Some s)"

fun memcmp_loop :: "mem \<Rightarrow> u32 \<Rightarrow> u32 \<Rightarrow> nat \<Rightarrow> int" where
  "memcmp_loop m p q 0 = 0"
| "memcmp_loop m p q (Suc n) =
     (if m p \<noteq> m q then uint (m p) - uint (m q) else memcmp_loop m (p + 1) (q + 1) n)"

definition memcmp :: "mem \<Rightarrow> u32 \<Rightarrow> u32 \<Rightarrow> u32 \<Rightarrow> int" where
  "memcmp m p q n = memcmp_loop m p q (unat n)"

text \<open>\<open>memfind\<close> compares the pointer with \<open>s + n\<close>; the difference of the two counts down.\<close>

fun memfind_loop :: "mem \<Rightarrow> u32 \<Rightarrow> u8 \<Rightarrow> nat \<Rightarrow> u32" where
  "memfind_loop m s c 0 = s"
| "memfind_loop m s c (Suc n) = (if m s = c then s else memfind_loop m (s + 1) c n)"

definition memfind :: "mem \<Rightarrow> u32 \<Rightarrow> u32 \<Rightarrow> u32 \<Rightarrow> u32" where
  "memfind m s c n =
     (let ends = s + n in if s < ends then memfind_loop m s (ucast c) (unat (ends - s)) else s)"

section \<open>memset and memmove\<close>

text \<open>The string instructions, with the direction flag as the sign of the step.\<close>

definition put4 :: "u32 \<Rightarrow> u8 \<Rightarrow> u8 \<Rightarrow> u8 \<Rightarrow> u8 \<Rightarrow> mem \<Rightarrow> mem" where
  "put4 d a b c e m = m(d := a, d + 1 := b, d + 2 := c, d + 3 := e)"

fun stosb :: "mem \<Rightarrow> u32 \<Rightarrow> u32 \<Rightarrow> nat \<Rightarrow> mem" where
  "stosb m d c 0 = m"
| "stosb m d c (Suc n) = stosb (m(d := ucast c)) (d + 1) c n"

fun stosl :: "mem \<Rightarrow> u32 \<Rightarrow> u32 \<Rightarrow> nat \<Rightarrow> mem" where
  "stosl m d c 0 = m"
| "stosl m d c (Suc n) =
     stosl (put4 d (ucast c) (ucast (drop_bit 8 c)) (ucast (drop_bit 16 c))
              (ucast (drop_bit 24 c)) m) (d + 4) c n"

fun movsb :: "u32 \<Rightarrow> mem \<Rightarrow> u32 \<Rightarrow> u32 \<Rightarrow> nat \<Rightarrow> mem" where
  "movsb step m d s 0 = m"
| "movsb step m d s (Suc n) = movsb step (m(d := m s)) (d + step) (s + step) n"

fun movsl :: "u32 \<Rightarrow> mem \<Rightarrow> u32 \<Rightarrow> u32 \<Rightarrow> nat \<Rightarrow> mem" where
  "movsl step m d s 0 = m"
| "movsl step m d s (Suc n) =
     movsl step (put4 d (m s) (m (s + 1)) (m (s + 2)) (m (s + 3)) m) (d + step) (s + step) n"

definition memset :: "mem \<Rightarrow> u32 \<Rightarrow> u32 \<Rightarrow> u32 \<Rightarrow> mem" where
  "memset m v c n =
     (if n = 0 then m
      else if v mod 4 = 0 \<and> n mod 4 = 0
      then let c = c AND 0xFF;
               c = ((push_bit 24 c OR push_bit 16 c) OR push_bit 8 c) OR c
           in stosl m v c (unat (n div 4))
      else stosb m v c (unat n))"

definition memmove :: "mem \<Rightarrow> u32 \<Rightarrow> u32 \<Rightarrow> u32 \<Rightarrow> mem" where
  "memmove m dst src n =
     (let s = src; d = dst in
      if s < d \<and> s + n > d
      then let s = s + n; d = d + n in
           if s mod 4 = 0 \<and> d mod 4 = 0 \<and> n mod 4 = 0
           then movsl (- 4) m (d - 4) (s - 4) (unat (n div 4))
           else movsb (- 1) m (d - 1) (s - 1) (unat n)
      else if s mod 4 = 0 \<and> d mod 4 = 0 \<and> n mod 4 = 0
           then movsl 4 m d s (unat (n div 4))
           else movsb 1 m d s (unat n))"

definition memcpy :: "mem \<Rightarrow> u32 \<Rightarrow> u32 \<Rightarrow> u32 \<Rightarrow> mem" where
  "memcpy m dst src n = memmove m dst src n"

section \<open>strtol\<close>

partial_function (option) skip_blanks :: "mem \<Rightarrow> u32 \<Rightarrow> u32 option" where
  "skip_blanks m s = (if m s = 0x20 \<or> m s = 0x09 then skip_blanks m (s + 1) else Some s)"

definition digit_value :: "u8 \<Rightarrow> int option" where
  "digit_value c =
     (if 0x30 \<le> c \<and> c \<le> 0x39 then Some (uint c - 0x30)
      else if 0x61 \<le> c \<and> c \<le> 0x7A then Some (uint c - 0x61 + 10)
      else if 0x41 \<le> c \<and> c \<le> 0x5A then Some (uint c - 0x41 + 10)
      else None)"

text \<open>The value is a 32-bit \<open>long\<close> that wraps on overflow.\<close>

partial_function (option) strtol_digits :: "mem \<Rightarrow> u32 \<Rightarrow> int \<Rightarrow> u32 \<Rightarrow> (u32 \<times> u32) option" where
  "strtol_digits m s base val =
     (case digit_value (m s) of
        None \<Rightarrow> Some (val, s)
      | Some dig \<Rightarrow> if base \<le> dig then Some (val, s)
                    else strtol_digits m (s + 1) base (val * of_int base + of_int dig))"

definition strtol :: "mem \<Rightarrow> u32 \<Rightarrow> int \<Rightarrow> (u32 \<times> u32) option" where
  "strtol m s base = do {
     s \<leftarrow> skip_blanks m s;
     let (s, neg) = (if m s = 0x2B then (s + 1, False)
                     else if m s = 0x2D then (s + 1, True) else (s, False));
     let (s, base) = (if (base = 0 \<or> base = 16) \<and> m s = 0x30 \<and> m (s + 1) = 0x78
                      then (s + 2, 16)
                      else if base = 0 \<and> m s = 0x30 then (s + 1, 8)
                      else if base = 0 then (s, 10) else (s, base));
     (val, endptr) \<leftarrow> strtol_digits m s base 0;
     Some (if neg then - val else val, endptr) }"

end
