(* ===== verification/UstringProps.thy ===== *)
theory UstringProps
  imports Ustring
begin

text \<open>
  What the string routines compute: on NUL-terminated strings they agree with the list
  functions, and the block operations agree with their obvious specification whichever of
  their instruction sequences runs, also when the blocks overlap.
\<close>

text \<open>\<open>cstr m p xs\<close>: the bytes from address \<open>p\<close> on are \<open>xs\<close>, none of them 0, and a NUL.\<close>

fun cstr :: "mem \<Rightarrow> u32 \<Rightarrow> u8 list \<Rightarrow> bool" where
  "cstr m p [] \<longleftrightarrow> m p = 0"
| "cstr m p (x # xs) \<longleftrightarrow> m p = x \<and> x \<noteq> 0 \<and> cstr m (p + 1) xs"

lemma cstr_no_nul: "cstr m p xs \<Longrightarrow> 0 \<notin> set xs"
  by (induction m p xs rule: cstr.induct) auto

section \<open>Blocks\<close>

text \<open>\<open>a - d\<close> as an offset: the address of the cell \<open>j\<close> after \<open>d\<close> and its offset agree.\<close>

lemma offset_0: "unat (a - d :: u32) = 0 \<longleftrightarrow> a = d"
  by (simp add: unat_eq_zero)

lemma offset_Suc:
  assumes "a \<noteq> (d :: u32)"
  shows "unat (a - d) = Suc (unat (a - (d + 1)))"
proof -
  have "a - d \<noteq> 0" using assms by simp
  then have "unat (a - d - 1) = unat (a - d) - 1" by (rule unat_minus_one)
  moreover have "0 < unat (a - d)" using \<open>a - d \<noteq> 0\<close> by (simp add: unat_gt_0)
  ultimately show ?thesis unfolding diff_diff_eq by linarith
qed

lemma unat_eqD: "unat (x :: u32) = n \<Longrightarrow> x = of_nat n"
  by auto

definition copied :: "u32 \<Rightarrow> u32 \<Rightarrow> nat \<Rightarrow> mem \<Rightarrow> mem" where
  "copied d s n m = (\<lambda>a. if unat (a - d) < n then m (s + (a - d)) else m a)"

lemma movsb_up:
  assumes "\<And>j. 0 < j \<Longrightarrow> j < n \<Longrightarrow> s + of_nat j \<noteq> d" "n \<le> 2 ^ 32"
  shows "movsb 1 m d s n = copied d s n m"
  using assms
proof (induction n arbitrary: m d s)
  case 0
  show ?case by (simp add: copied_def)
next
  case (Suc n)
  have h: "s + 1 + of_nat j \<noteq> d + 1" if "0 < j" "j < n" for j
    using Suc.prems(1) [of j] that by (simp add: add.commute add.left_commute)
  have "movsb 1 m d s (Suc n) = copied (d + 1) (s + 1) n (m(d := m s))"
    using Suc.IH [of "s + 1" "d + 1" "m(d := m s)"] h Suc.prems(2) by (simp del: fun_upd_apply)
  also have "\<dots> = copied d s (Suc n) m"
  proof (rule ext)
    fix a
    show "copied (d + 1) (s + 1) n (m(d := m s)) a = copied d s (Suc n) m a"
    proof (cases "a = d")
      case True
      have "\<not> unat (d - (d + 1) :: u32) < n" using Suc.prems(2) by (simp add: unsigned_minus_1_eq_mask mask_eq_exp_minus_1)
      with True show ?thesis by (simp add: copied_def)
    next
      case False
      have src: "s + 1 + (a - (d + 1)) = s + (a - d)" by simp
      have ne: "s + (a - d) \<noteq> d" if "unat (a - d) < Suc n"
      proof -
        have "s + of_nat (unat (a - d)) \<noteq> d"
          by (rule Suc.prems(1)) (use False that offset_Suc [OF False] in linarith)+
        then show ?thesis by simp
      qed
      show ?thesis using False ne offset_Suc [OF False] unfolding copied_def src by auto
    qed
  qed
  finally show ?case .
qed

lemma movsb_down:
  assumes "\<And>j. 0 < j \<Longrightarrow> j < n \<Longrightarrow> d + of_nat j \<noteq> s" "n \<le> 2 ^ 32"
  shows "movsb (- 1) m (d + of_nat n - 1) (s + of_nat n - 1) n = copied d s n m"
  using assms
proof (induction n arbitrary: m)
  case 0
  show ?case by (simp add: copied_def)
next
  case (Suc n)
  let ?m = "m(d + of_nat n := m (s + of_nat n))"
  have "movsb (- 1) m (d + of_nat (Suc n) - 1) (s + of_nat (Suc n) - 1) (Suc n)
      = movsb (- 1) ?m (d + of_nat n - 1) (s + of_nat n - 1) n" by simp
  also have "\<dots> = copied d s n ?m" by (rule Suc.IH) (use Suc.prems in auto)
  also have "\<dots> = copied d s (Suc n) m"
  proof (rule ext)
    fix a
    have n: "unat (of_nat n :: u32) = n" using Suc.prems(2) by (simp add: unat_of_nat32)
    show "copied d s n ?m a = copied d s (Suc n) m a"
    proof (cases "a = d + of_nat n")
      case True
      with n show ?thesis by (simp add: copied_def)
    next
      case False
      have "unat (a - d) \<noteq> n"
      proof
        assume "unat (a - d) = n"
        then have "a - d = of_nat n" by (rule unat_eqD)
        with False show False by (simp add: diff_eq_eq add.commute)
      qed
      moreover have "s + (a - d) \<noteq> d + of_nat n" if "unat (a - d) < n"
      proof
        assume eq: "s + (a - d) = d + of_nat n"
        have "unat (of_nat n - (a - d)) = n - unat (a - d)"
          using that n by (simp add: unat_sub word_le_nat_alt)
        moreover have "d + (of_nat n - (a - d)) = s" using eq by (simp add: algebra_simps)
        moreover have "d + of_nat (n - unat (a - d)) \<noteq> s" if "0 < unat (a - d)"
          by (rule Suc.prems(1)) (use that \<open>unat (a - d) < n\<close> in auto)
        ultimately have "unat (a - d) = 0" using unat_eqD [of "of_nat n - (a - d)"] by (metis neq0_conv)
        then have "a = d" by (simp add: offset_0)
        with eq have "s = d + of_nat n" by simp
        moreover have "d + of_nat n \<noteq> s" by (rule Suc.prems(1)) (use that in auto)
        ultimately show False by simp
      qed
      ultimately show ?thesis using False by (auto simp: copied_def)
    qed
  qed
  finally show ?case .
qed

lemma add_ne_shift: "(s :: u32) + i \<noteq> d \<Longrightarrow> s + (i + k) \<noteq> d + k"
  unfolding add.assoc [symmetric] by simp

lemma ne_shifts:
  "(s :: u32) + 1 \<noteq> d \<Longrightarrow> s + 2 \<noteq> d + 1"
  "s + 2 \<noteq> d \<Longrightarrow> s + 3 \<noteq> d + 1"
  "s + 1 \<noteq> d \<Longrightarrow> s + 3 \<noteq> d + 2"
  using add_ne_shift [of s 1 d 1] add_ne_shift [of s 2 d 1] add_ne_shift [of s 1 d 2]
  by (simp_all only: one_add_one numeral_plus_one one_plus_numeral add_num_simps not_False_eq_True)

text \<open>Word by word is the same as byte by byte where the byte copy is safe.\<close>

lemma movsl_up:
  assumes "\<And>j. 0 < j \<Longrightarrow> j < 4 * n \<Longrightarrow> s + of_nat j \<noteq> d"
  shows "movsl 4 m d s n = movsb 1 m d s (4 * n)"
  using assms
proof (induction n arbitrary: m d s)
  case 0
  show ?case by simp
next
  case (Suc n)
  have h: "s + 4 + of_nat j \<noteq> d + 4" if "0 < j" "j < 4 * n" for j
    using Suc.prems [of j] that by (simp add: algebra_simps)
  have ne: "s + 1 \<noteq> d" "s + 2 \<noteq> d" "s + 3 \<noteq> d"
    using Suc.prems [of 1] Suc.prems [of 2] Suc.prems [of 3] by simp_all
  have ne': "s + 2 \<noteq> d + 1" "s + 3 \<noteq> d + 1" "s + 3 \<noteq> d + 2"
    by (rule ne_shifts, fact)+
  have four: "4 * Suc n = Suc (Suc (Suc (Suc (4 * n))))" by simp
  have a: "d + 1 + 1 = d + 2" "d + 2 + 1 = d + 3" "d + 3 + 1 = d + 4"
    "s + 1 + 1 = s + 2" "s + 2 + 1 = s + 3" "s + 3 + 1 = s + 4" by simp_all
  show ?case
    unfolding four movsb.simps movsl.simps a
    using Suc.IH [of "s + 4" "d + 4"] h ne ne' by (simp add: put4_def)
qed

lemma movsl_down:
  assumes "\<And>j. 0 < j \<Longrightarrow> j < 4 * n \<Longrightarrow> d + of_nat j \<noteq> s"
  shows "movsl (- 4) m (d + of_nat (4 * n) - 4) (s + of_nat (4 * n) - 4) n
       = movsb (- 1) m (d + of_nat (4 * n) - 1) (s + of_nat (4 * n) - 1) (4 * n)"
  using assms
proof (induction n arbitrary: m)
  case 0
  show ?case by simp
next
  case (Suc n)
  have ne: "d + 1 \<noteq> s" "d + 2 \<noteq> s" "d + 3 \<noteq> s"
    using Suc.prems [of 1] Suc.prems [of 2] Suc.prems [of 3] by simp_all
  define D where "D = d + of_nat (4 * n)"
  define S where "S = s + of_nat (4 * n)"
  have NE: "D + 1 \<noteq> S" "D + 2 \<noteq> S" "D + 3 \<noteq> S"
    using ne by (simp_all add: D_def S_def algebra_simps)
  have NE': "D + 2 \<noteq> S + 1" "D + 3 \<noteq> S + 1" "D + 3 \<noteq> S + 2"
    by (rule ne_shifts, fact)+
  have four: "4 * Suc n = Suc (Suc (Suc (Suc (4 * n))))" by simp
  have e: "d + of_nat (4 * Suc n) - 4 = D" "s + of_nat (4 * Suc n) - 4 = S"
    "d + of_nat (4 * Suc n) - 1 = D + 3" "s + of_nat (4 * Suc n) - 1 = S + 3"
    by (simp_all add: D_def S_def)
  have st: "D + 3 + - 1 = D + 2" "D + 2 + - 1 = D + 1" "D + 1 + - 1 = D" "D + - 1 = D - 1"
    "S + 3 + - 1 = S + 2" "S + 2 + - 1 = S + 1" "S + 1 + - 1 = S" "S + - 1 = S - 1"
    "D + - 4 = D - 4" "S + - 4 = S - 4" by simp_all
  have IH: "movsl (- 4) m (D - 4) (S - 4) n = movsb (- 1) m (D - 1) (S - 1) (4 * n)" for m
    using Suc.IH [of m] Suc.prems unfolding D_def S_def by auto
  have upd: "put4 D (m S) (m (S + 1)) (m (S + 2)) (m (S + 3)) m
      = m(D + 3 := m (S + 3), D + 2 := m (S + 2), D + 1 := m (S + 1), D := m S)"
    by (auto simp: put4_def fun_eq_iff)
  show ?case
    unfolding e unfolding four movsb.simps movsl.simps st IH upd using NE NE' by simp
qed

text \<open>
  C8: \<open>memmove\<close> copies the block as it was before the call, whether or not the blocks
  overlap and whichever of its four instruction sequences runs, and touches nothing else,
  for blocks that do not reach the end of the address space.
\<close>

theorem memmove_copies:
  assumes "unat src + unat n < 2 ^ 32" "unat dst + unat n < 2 ^ 32"
  shows "memmove m dst src n = copied dst src (unat n) m"
proof -
  have word: "4 * unat (n div 4) = unat n" if "n mod 4 = 0"
    using that unat_mod [of n 4] unat_div [of n 4] by auto
  have ends: "src + of_nat (unat n) = src + n" "dst + of_nat (unat n) = dst + n" by simp_all
  have le: "unat n \<le> 2 ^ 32" using assms by simp
  have add: "unat (p + of_nat j) = unat p + j" if "unat p + unat n < 2 ^ 32" "j < unat n" for p :: u32 and j
    using that by (subst unat_add_no_wrap) (simp_all add: unat_of_nat32)
  show ?thesis
  proof (cases "src < dst \<and> src + n > dst")
    case True
    have h: "dst + of_nat j \<noteq> src" if "j < unat n" for j
      using add [OF assms(2) that] True by (auto simp: word_less_nat_alt)
    have "movsl (- 4) m (dst + n - 4) (src + n - 4) (unat (n div 4)) = copied dst src (unat n) m"
      if "n mod 4 = 0"
      using movsl_down [of "unat (n div 4)" dst src m] movsb_down [of "unat n" dst src m] h le
      unfolding word [OF that] ends by simp
    then show ?thesis
      using True movsb_down [of "unat n" dst src m] h le unfolding memmove_def Let_def ends by auto
  next
    case False
    have h: "src + of_nat j \<noteq> dst" if "0 < j" "j < unat n" for j
    proof
      assume eq: "src + of_nat j = dst"
      have "unat (src + n) = unat src + unat n" using assms(1) by (simp add: unat_add_no_wrap)
      with add [OF assms(1) that(2)] False that show False by (auto simp: eq word_less_nat_alt)
    qed
    have "movsl 4 m dst src (unat (n div 4)) = copied dst src (unat n) m" if "n mod 4 = 0"
      using movsl_up [of "unat (n div 4)" src dst m] movsb_up [of "unat n" src dst m] h le
      unfolding word [OF that] by simp
    then show ?thesis
      using False movsb_up [of "unat n" src dst m] h le unfolding memmove_def Let_def by auto
  qed
qed

theorem memmove_copies_witness:
  "memmove (\<lambda>a. ucast a) 0x102 0x100 7 = copied 0x102 0x100 7 (\<lambda>a. ucast a)"
  using memmove_copies [of "0x100" 7 "0x102" "\<lambda>a. ucast a"] by simp

lemma stosb_fill:
  "k \<le> 2 ^ 32 \<Longrightarrow> stosb m d c k = (\<lambda>a. if unat (a - d) < k then ucast c else m a)"
proof (induction k arbitrary: m d)
  case 0
  show ?case by simp
next
  case (Suc k)
  have "unat (d - (d + 1) :: u32) \<ge> k"
    using Suc.prems by (simp add: unsigned_minus_1_eq_mask mask_eq_exp_minus_1)
  moreover have "unat (a - d) < Suc k \<longleftrightarrow> unat (a - (d + 1)) < k" if "a \<noteq> d" for a
    using offset_Suc [OF that] by simp
  ultimately show ?case
    using Suc.prems by (auto simp: fun_eq_iff Suc.IH)
qed

lemma stosl_stosb:
  fixes c :: u32
  assumes "\<And>i. i \<in> {8, 16, 24} \<Longrightarrow> (ucast (drop_bit i c) :: u8) = ucast c"
  shows "stosl m d c k = stosb m d c (4 * k)"
proof (induction k arbitrary: m d)
  case 0
  show ?case by simp
next
  case (Suc k)
  have four: "4 * Suc k = Suc (Suc (Suc (Suc (4 * k))))" by simp
  have a: "d + 1 + 1 = d + 2" "d + 2 + 1 = d + 3" "d + 3 + 1 = d + 4" by simp_all
  show ?case
    unfolding four stosl.simps stosb.simps Suc.IH put4_def a
    using assms [of 8] assms [of 16] assms [of 24] by (simp del: fun_upd_apply)
qed

lemma dup_byte:
  fixes c :: u32
  assumes "i \<in> {0, 8, 16, 24}"
  shows "(ucast (drop_bit i (((push_bit 24 (c AND 0xFF) OR push_bit 16 (c AND 0xFF)) OR
            push_bit 8 (c AND 0xFF)) OR (c AND 0xFF))) :: u8) = ucast c"
proof -
  have m: "(0xFF :: u32) = mask 8" by (simp add: mask_numeral)
  show ?thesis
    unfolding m
    apply (rule bit_word_eqI)
    subgoal for n using assms by (elim insertE emptyE) (simp_all add: bit_simps)
    done
qed

text \<open>
  The two ways \<open>memset\<close> fills a block, by bytes and by words of four equal bytes,
  write the low byte of \<open>c\<close> to each cell of the block and nothing else.
\<close>

theorem memset_fills:
  "memset m v c n = (\<lambda>a. if unat (a - v) < unat n then ucast c else m a)"
proof -
  let ?d = "((push_bit 24 (c AND 0xFF) OR push_bit 16 (c AND 0xFF)) OR push_bit 8 (c AND 0xFF)) OR (c AND 0xFF)"
  have le: "unat n \<le> 2 ^ 32" using unat_less_32 [of n] by simp
  have dup: "(ucast (drop_bit i ?d) :: u8) = ucast c" if "i \<in> {0, 8, 16, 24}" for i
    using that by (rule dup_byte)
  have d0: "(ucast ?d :: u8) = ucast c" using dup [of 0] by simp
  have "stosl m v ?d (unat (n div 4)) = (\<lambda>a. if unat (a - v) < unat n then ucast c else m a)"
    if "n mod 4 = 0"
  proof -
    have "4 * unat (n div 4) = unat n" using that unat_mod [of n 4] unat_div [of n 4] by auto
    moreover have "stosl m v ?d (unat (n div 4)) = stosb m v ?d (4 * unat (n div 4))"
      by (rule stosl_stosb) (use dup d0 in auto)
    ultimately show ?thesis unfolding stosb_fill [OF le] d0 by (simp only: stosb_fill [OF le] d0)
  qed
  then show ?thesis
    using stosb_fill [OF le, of m v c] unfolding memset_def Let_def by (auto simp: unat_gt_0)
qed

section \<open>Strings\<close>

lemma uint_pos: "(x :: u8) \<noteq> 0 \<Longrightarrow> 0 < uint x"
  by (metis unsigned_eq_0_iff unsigned_greater_eq less_le)

lemma strlen_from_cstr: "cstr m p xs \<Longrightarrow> strlen_from m p n = Some (n + of_nat (length xs))"
proof (induction xs arbitrary: p n)
  case Nil
  then show ?case by (simp add: strlen_from.simps)
next
  case (Cons x xs)
  then show ?case by (subst strlen_from.simps) (simp add: algebra_simps)
qed

lemma strlen_cstr: "cstr m p xs \<Longrightarrow> strlen m p = Some (of_nat (length xs))"
  by (simp add: strlen_def strlen_from_cstr)

text \<open>
  On two strings \<open>strcmp\<close> returns, and the sign of its result is their lexicographic
  order: 0 exactly for equal strings, negative exactly when the first comes first.
\<close>

theorem strcmp_orders:
  assumes "cstr m p xs" "cstr m q ys"
  shows "\<exists>r. strcmp m p q = Some r \<and> (r = 0 \<longleftrightarrow> xs = ys) \<and> (r < 0 \<longleftrightarrow> ord_class.lexordp xs ys)"
  using assms
proof (induction xs arbitrary: p q ys)
  case Nil
  then show ?case
    by (cases ys) (auto simp: strcmp.simps [of m p q] unsigned_eq_0_iff uint_pos)
next
  case (Cons x xs)
  show ?case
  proof (cases ys)
    case Nil
    with Cons.prems show ?thesis by (auto simp: strcmp.simps [of m p q] unsigned_eq_0_iff)
  next
    case (Cons y zs)
    note ys = this
    show ?thesis
    proof (cases "x = y")
      case True
      have "strcmp m p q = strcmp m (p + 1) (q + 1)"
        using Cons.prems ys True by (subst strcmp.simps) simp
      with Cons.IH [of "p + 1" "q + 1" zs] Cons.prems ys True show ?thesis by simp
    next
      case False
      then have "strcmp m p q = Some (uint x - uint y)"
        using Cons.prems ys by (subst strcmp.simps) auto
      with False ys show ?thesis by (auto simp: word_less_def word_uint_eq_iff)
    qed
  qed
qed

definition text_at :: "u32 \<Rightarrow> u8 list \<Rightarrow> mem \<Rightarrow> mem" where
  "text_at p xs m = (\<lambda>a. if unat (a - p) < length xs then xs ! unat (a - p)
                         else if unat (a - p) = length xs then 0 else m a)"

theorem strcmp_orders_witness:
  "\<exists>r. strcmp (text_at 0 [97, 98] (text_at 8 [97, 99] (\<lambda>_. 0))) 0 8 = Some r \<and>
     (r = 0 \<longleftrightarrow> [97, 98] = [97, 99 :: u8]) \<and> (r < 0 \<longleftrightarrow> ord_class.lexordp [97, 98] [97, 99 :: u8])"
  by (rule strcmp_orders) (simp_all add: text_at_def)

lemma cstr_upd_other:
  assumes "\<forall>j \<le> length xs. p + of_nat j \<noteq> a"
  shows "cstr (m(a := v)) p xs \<longleftrightarrow> cstr m p xs"
  using assms
proof (induction xs arbitrary: p)
  case Nil
  then show ?case by simp
next
  case (Cons x xs)
  have "\<forall>j \<le> length xs. p + 1 + of_nat j \<noteq> a"
  proof (intro allI impI)
    fix j assume "j \<le> length xs"
    with Cons.prems [rule_format, of "Suc j"] show "p + 1 + of_nat j \<noteq> a" by (simp add: ac_simps)
  qed
  with Cons.IH Cons.prems [rule_format, of 0] show ?case by simp
qed

lemma strlcpy_loop_cstr:
  assumes "cstr m src xs" "k < 2 ^ 32 - 1"
    and "\<forall>j \<le> length xs. \<forall>i \<le> k. src + of_nat j \<noteq> dst + of_nat i"
  shows "fst (strlcpy_loop m dst src k) = dst + of_nat (length (take k xs)) \<and>
    cstr (snd (strlcpy_loop m dst src k)) dst (take k xs) \<and>
    (\<forall>a. k < unat (a - dst) \<longrightarrow> snd (strlcpy_loop m dst src k) a = m a)"
  using assms
proof (induction k arbitrary: m dst src xs)
  case 0
  then show ?case by auto
next
  case (Suc k)
  show ?case
  proof (cases xs)
    case Nil
    with Suc.prems show ?thesis by auto
  next
    case (Cons x ys)
    let ?m = "m(dst := x)"
    have nz: "m src = x" "x \<noteq> 0" "cstr m (src + 1) ys" using Suc.prems(1) Cons by auto
    have dj: "\<forall>j \<le> length ys. \<forall>i \<le> k. src + 1 + of_nat j \<noteq> dst + 1 + of_nat i"
    proof (intro allI impI)
      fix j i assume "j \<le> length ys" "i \<le> k"
      with Suc.prems(3) [rule_format, of "Suc j" "Suc i"] Cons
      show "src + 1 + of_nat j \<noteq> dst + 1 + of_nat i" by (simp add: ac_simps)
    qed
    have "cstr ?m (src + 1) ys"
    proof (subst cstr_upd_other)
      show "\<forall>j \<le> length ys. src + 1 + of_nat j \<noteq> dst"
      proof (intro allI impI)
        fix j assume "j \<le> length ys"
        with Suc.prems(3) [rule_format, of "Suc j" 0] Cons
        show "src + 1 + of_nat j \<noteq> dst" by (simp add: ac_simps)
      qed
    qed (rule nz)
    from Suc.IH [OF this _ dj] Suc.prems(2)
    have ih: "fst (strlcpy_loop ?m (dst + 1) (src + 1) k) = dst + 1 + of_nat (length (take k ys))"
      "cstr (snd (strlcpy_loop ?m (dst + 1) (src + 1) k)) (dst + 1) (take k ys)"
      "\<And>a. k < unat (a - (dst + 1)) \<Longrightarrow> snd (strlcpy_loop ?m (dst + 1) (src + 1) k) a = ?m a"
      by (simp_all del: fun_upd_apply)
    have run: "strlcpy_loop m dst src (Suc k) = strlcpy_loop ?m (dst + 1) (src + 1) k"
      using nz by simp
    have "k < unat (dst - (dst + 1))"
      using Suc.prems(2) by (simp add: unsigned_minus_1_eq_mask mask_eq_exp_minus_1)
    then have hd: "snd (strlcpy_loop ?m (dst + 1) (src + 1) k) dst = x" using ih(3) by simp
    have "snd (strlcpy_loop ?m (dst + 1) (src + 1) k) a = m a" if "Suc k < unat (a - dst)" for a
    proof -
      from that have "a \<noteq> dst" by auto
      with that offset_Suc [of a dst] show ?thesis using ih(3) [of a] by simp
    qed
    with ih hd nz(2) show ?thesis unfolding run by (simp add: Cons ac_simps)
  qed
qed

text \<open>
  \<open>strlcpy\<close> with a non-empty destination of \<open>sz\<close> bytes that lies outside the source
  leaves a NUL-terminated prefix of the source there, of at most \<open>sz - 1\<close> characters,
  returns its length, and writes no other cell.
\<close>

theorem strlcpy_bounded:
  assumes "cstr m src xs" "sz \<noteq> 0"
    and "\<forall>j \<le> length xs. \<forall>i < unat sz. src + of_nat j \<noteq> dst + of_nat i"
  shows "fst (strlcpy m dst src sz) = of_nat (length (take (unat sz - 1) xs)) \<and>
    cstr (snd (strlcpy m dst src sz)) dst (take (unat sz - 1) xs) \<and>
    (\<forall>a. unat sz \<le> unat (a - dst) \<longrightarrow> snd (strlcpy m dst src sz) a = m a)"
proof -
  have p: "0 < unat sz" using assms(2) by (simp add: unat_gt_0)
  have l: "unat sz - 1 < 2 ^ 32 - 1" using unat_less_32 [of sz] p by simp
  have d: "\<forall>j \<le> length xs. \<forall>i \<le> unat sz - 1. src + of_nat j \<noteq> dst + of_nat i"
    using assms(3) p by auto
  from strlcpy_loop_cstr [OF assms(1) l d] assms(2) p show ?thesis
    by (auto simp: strlcpy_def split_beta)
qed

theorem strlcpy_bounded_witness:
  "fst (strlcpy (text_at 0 [97, 98] (\<lambda>_. 0)) 0x100 0 2) = 1"
proof -
  have "cstr (text_at 0 [97, 98] (\<lambda>_. 0)) 0 [97, 98 :: u8]" by (simp add: text_at_def)
  moreover have "\<forall>j \<le> 2. \<forall>i < 2. of_nat j \<noteq> (0x100 :: u32) + of_nat i"
  proof -
    have "\<forall>j \<in> {0, 1, 2}. \<forall>i \<in> {0, 1}. of_nat j \<noteq> (0x100 :: u32) + of_nat i" by simp
    moreover have "j \<le> 2 \<longleftrightarrow> j \<in> {0, 1, 2}" "i < 2 \<longleftrightarrow> i \<in> {0, 1}" for i j :: nat by auto
    ultimately show ?thesis by blast
  qed
  ultimately show ?thesis
    using strlcpy_bounded [of _ 0 "[97, 98]" 2 "0x100"] by simp
qed

end
