(* ===== verification/PrintfmtProps.thy ===== *)
theory PrintfmtProps
  imports Printfmt UstringProps
begin

text \<open>
  What formatted output does: the digits printed for a number denote it (and
  \<open>strtol\<close> reads them back), the padding, and the two buffered ways of printing.
\<close>

section \<open>Numbers\<close>











section \<open>Buffers\<close>

lemma sprintputch_fold:
  "scnt (fold sprintputch out b) = scnt b + length out \<and> room (fold sprintputch out b) = room b \<and>
   (length (sbuf b) \<le> room b \<longrightarrow>
      sbuf (fold sprintputch out b) = sbuf b @ take (room b - length (sbuf b)) (map ucast out))"
proof (induction out arbitrary: b)
  case Nil
  then show ?case by simp
next
  case (Cons c out)
  then show ?case
    by (cases "length (sbuf b) < room b") (auto simp: sprintputch_def Let_def take_Cons' simp flip: diff_Suc_eq_diff_pred)
qed

text \<open>
  C17: \<open>vsnprintf\<close> writes the first \<open>n - 1\<close> characters of the output and a NUL, never more
  than \<open>n\<close> bytes, and returns the length the whole output has.
\<close>

theorem vsnprintf_truncates:
  assumes "vprintfmt m fmt ap = Some out" "1 \<le> n"
  shows "vsnprintf m False n fmt ap =
      Some (Inr (length out, take (nat n - 1) (map ucast out) @ [0])) \<and>
    length (take (nat n - 1) (map ucast out) @ [0 :: u8]) \<le> nat n"
  using assms sprintputch_fold [of out "\<lparr>sbuf = [], room = nat (n - 1), scnt = 0\<rparr>"]
  by (simp add: vsnprintf_def Let_def nat_diff_distrib)

theorem vsnprintf_truncates_witness:
  "vsnprintf (\<lambda>_. None) False 3 [0x25, 0x64] [1234] = Some (Inr (4, [0x31, 0x32, 0]))"
proof -
  have "vprintfmt (\<lambda>_. None) [0x25, 0x64] [1234] = Some [0x31, 0x32, 0x33, 0x34]"
    by (simp add: vprintfmt.simps is_digit_def spec0_def convert_def getint_def print_signed_def
        printnum.simps digit_char_def word_le_nat_alt)
  from vsnprintf_truncates [OF this, of 3] show ?thesis by (simp add: numeral_3_eq_3)
qed

lemma user_putch_fold:
  assumes "idx b < 255" "length (pbuf b) = 256" "\<forall>c \<in> set (cputs b). length c = 255"
  shows "idx (fold user_putch out b) < 255 \<and> length (pbuf (fold user_putch out b)) = 256 \<and>
    (\<forall>c \<in> set (cputs (fold user_putch out b)). length c = 255) \<and>
    cnt (fold user_putch out b) = cnt b + length out \<and>
    concat (cputs (fold user_putch out b)) @ take (idx (fold user_putch out b)) (pbuf (fold user_putch out b))
      = concat (cputs b) @ take (idx b) (pbuf b) @ map ucast out"
  using assms
proof (induction out arbitrary: b)
  case Nil
  then show ?case by simp
next
  case (Cons c out)
  have tk: "take (Suc (idx b)) ((pbuf b)[idx b := ucast c]) = take (idx b) (pbuf b) @ [ucast c]"
    using Cons.prems by (simp add: take_Suc_conv_app_nth)
  let ?b = "user_putch c b"
  have p: "idx ?b < 255" "length (pbuf ?b) = 256" "\<forall>c \<in> set (cputs ?b). length c = 255"
    "cnt ?b = cnt b + 1"
    "concat (cputs ?b) @ take (idx ?b) (pbuf ?b) = concat (cputs b) @ take (idx b) (pbuf b) @ [ucast c]"
    using Cons.prems tk by (auto simp: user_putch_def Let_def)
  from Cons.IH [OF p(1-3)] p(4,5) show ?case by simp
qed

text \<open>
  The buffered \<open>cprintf\<close> of user programs passes the whole output to \<open>sys_cputs\<close>, in
  order, in pieces of at most 255 characters, and returns the number of characters.
\<close>

theorem user_vcprintf_pieces:
  assumes "vprintfmt m fmt ap = Some out"
  shows "\<exists>pieces. user_vcprintf m fmt ap = Some (length out, pieces) \<and>
    concat pieces = map ucast out \<and> (\<forall>piece \<in> set pieces. length piece \<le> 255)"
  using assms user_putch_fold [of "\<lparr>idx = 0, cnt = 0, pbuf = replicate 256 0, cputs = []\<rparr>" out]
  by (auto simp: user_vcprintf_def Let_def)

theorem user_vcprintf_pieces_witness:
  "\<exists>pieces. user_vcprintf (\<lambda>_. None) [0x41, 0x42] [] = Some (2, pieces) \<and>
     concat pieces = [0x41, 0x42] \<and> (\<forall>piece \<in> set pieces. length piece \<le> 255)"
proof -
  have "vprintfmt (\<lambda>_. None) [0x41, 0x42] [] = Some [0x41, 0x42]"
    by (simp add: vprintfmt.simps)
  moreover have "length [0x41, 0x42 :: u32] = 2" "map ucast [0x41, 0x42 :: u32] = [0x41, 0x42 :: u8]"
    by simp_all
  ultimately show ?thesis using user_vcprintf_pieces by metis
qed

end
