(* ===== verification/BlockCache.thy ===== *)
theory BlockCache
  imports Mmu Ustring "HOL-Library.Signed_Division"
begin

text \<open>
  The file server's machine: the disk driver (\<open>fs/ide.c\<close>) and the block cache
  (\<open>fs/bc.c\<close>).  The server's virtual memory is flat; a page that is not mapped faults on its
  first access, and inside the disk map the fault handler reads the block in.  \<open>None\<close> is a
  panic of the server, or a fault that its handler never returns from.
\<close>

abbreviation (input) BLKSIZE :: u32 where "BLKSIZE \<equiv> 0x1000"
abbreviation (input) BLKBITSIZE :: u32 where "BLKBITSIZE \<equiv> 0x8000"
abbreviation (input) SECTSIZE :: u32 where "SECTSIZE \<equiv> 512"
abbreviation (input) BLKSECTS :: u32 where "BLKSECTS \<equiv> 8"
abbreviation (input) DISKMAP :: u32 where "DISKMAP \<equiv> 0x10000000"
abbreviation (input) DISKSIZE :: u32 where "DISKSIZE \<equiv> 0xC0000000"

section \<open>The state of the server\<close>

text \<open>
  \<open>page_refs\<close> is what \<open>pageref\<close> reads in the kernel's page array for a mapped page, and
  \<open>free_pages\<close> how many pages the kernel can still give out.  A drive is a map from sector
  numbers to bytes; \<open>bad_sector\<close> are the sectors for which it sets its error bits.
\<close>

record openfile =
  o_fileid :: u32
  o_file :: u32
  o_mode :: u32
  o_fd :: u32

record fs =
  fmem :: mem
  mapped :: "u32 \<Rightarrow> bool"
  pdirty :: "u32 \<Rightarrow> bool"
  page_refs :: "u32 \<Rightarrow> nat"
  free_pages :: nat
  disk1_ready :: bool
  diskno :: nat
  disk :: "nat \<Rightarrow> u32 \<Rightarrow> nat \<Rightarrow> u8"
  bad_sector :: "nat \<Rightarrow> u32 \<Rightarrow> bool"
  super :: u32
  bitmap :: u32
  opentab :: "nat \<Rightarrow> openfile"

definition get32 :: "mem \<Rightarrow> u32 \<Rightarrow> u32" where
  "get32 m a = ucast (m a) OR push_bit 8 (ucast (m (a + 1)))
     OR push_bit 16 (ucast (m (a + 2))) OR push_bit 24 (ucast (m (a + 3)))"

definition put32 :: "u32 \<Rightarrow> u32 \<Rightarrow> mem \<Rightarrow> mem" where
  "put32 a v = put4 a (ucast v) (ucast (drop_bit 8 v)) (ucast (drop_bit 16 v)) (ucast (drop_bit 24 v))"

section \<open>The IDE driver\<close>

definition ide_probe_disk1 :: "fs \<Rightarrow> bool" where
  "ide_probe_disk1 s = disk1_ready s"

definition ide_set_disk :: "nat \<Rightarrow> fs \<Rightarrow> fs option" where
  "ide_set_disk d s = (if d \<noteq> 0 \<and> d \<noteq> 1 then None else Some (s\<lparr>diskno := d\<rparr>))"

text \<open>The registers 0x1F3 to 0x1F6 hold 28 bits of the sector number.\<close>

definition ide_lba :: "u32 \<Rightarrow> u32" where
  "ide_lba secno = secno AND 0x0FFFFFFF"

definition sector_in :: "(nat \<Rightarrow> u8) \<Rightarrow> u32 \<Rightarrow> mem \<Rightarrow> mem" where
  "sector_in f dst m = (\<lambda>x. if x - dst < SECTSIZE then f (unat (x - dst)) else m x)"

definition sector_out :: "mem \<Rightarrow> u32 \<Rightarrow> (nat \<Rightarrow> u8)" where
  "sector_out m src = (\<lambda>i. m (src + of_nat i))"

fun ide_read_loop :: "nat \<Rightarrow> u32 \<Rightarrow> u32 \<Rightarrow> fs \<Rightarrow> (error + unit) \<times> fs" where
  "ide_read_loop 0 sec dst s = (Inr (), s)"
| "ide_read_loop (Suc n) sec dst s =
     (if bad_sector s (diskno s) sec then (Inl E_UNSPECIFIED, s)
      else ide_read_loop n (sec + 1) (dst + SECTSIZE)
        (s\<lparr>fmem := sector_in (disk s (diskno s) sec) dst (fmem s),
           pdirty := (pdirty s)(PGNUM dst := True)\<rparr>))"

definition ide_read :: "u32 \<Rightarrow> u32 \<Rightarrow> u32 \<Rightarrow> fs \<Rightarrow> ((error + unit) \<times> fs) option" where
  "ide_read secno dst nsecs s =
     (if nsecs > 256 then None else Some (ide_read_loop (unat nsecs) (ide_lba secno) dst s))"

fun ide_write_loop :: "nat \<Rightarrow> u32 \<Rightarrow> u32 \<Rightarrow> fs \<Rightarrow> (error + unit) \<times> fs" where
  "ide_write_loop 0 sec src s = (Inr (), s)"
| "ide_write_loop (Suc n) sec src s =
     (if bad_sector s (diskno s) sec then (Inl E_UNSPECIFIED, s)
      else ide_write_loop n (sec + 1) (src + SECTSIZE)
        (s\<lparr>disk := (disk s)(diskno s := (disk s (diskno s))(sec := sector_out (fmem s) src))\<rparr>))"

definition ide_write :: "u32 \<Rightarrow> u32 \<Rightarrow> u32 \<Rightarrow> fs \<Rightarrow> ((error + unit) \<times> fs) option" where
  "ide_write secno src nsecs s =
     (if nsecs > 256 then None else Some (ide_write_loop (unat nsecs) (ide_lba secno) src s))"

section \<open>Pages\<close>

definition va_is_mapped :: "u32 \<Rightarrow> fs \<Rightarrow> bool" where
  "va_is_mapped va s = mapped s (PGNUM va)"

definition va_is_dirty :: "u32 \<Rightarrow> fs \<Rightarrow> bool" where
  "va_is_dirty va s = pdirty s (PGNUM va)"

definition pageref :: "u32 \<Rightarrow> fs \<Rightarrow> nat" where
  "pageref v s = (if mapped s (PGNUM v) then page_refs s (PGNUM v) else 0)"

text \<open>\<open>sys_page_alloc (0, va, perm)\<close>: a fresh zeroed page at the page of \<open>va\<close>.\<close>

definition user_page_alloc :: "u32 \<Rightarrow> fs \<Rightarrow> (error + unit) \<times> fs" where
  "user_page_alloc va s =
     (if free_pages s = 0 then (Inl E_NO_MEM, s)
      else (Inr (), s\<lparr>fmem := (\<lambda>x. if PGNUM x = PGNUM va then 0 else fmem s x),
              mapped := (mapped s)(PGNUM va := True), pdirty := (pdirty s)(PGNUM va := False),
              page_refs := (page_refs s)(PGNUM va := 1), free_pages := free_pages s - 1\<rparr>))"

text \<open>\<open>sys_page_map (0, va, 0, va, perm)\<close> on a mapped page: the entry is written anew, clean.\<close>

definition remap_clean :: "u32 \<Rightarrow> fs \<Rightarrow> fs" where
  "remap_clean va s = s\<lparr>pdirty := (pdirty s)(PGNUM va := False)\<rparr>"

definition user_page_unmap :: "u32 \<Rightarrow> fs \<Rightarrow> fs" where
  "user_page_unmap va s = s\<lparr>mapped := (mapped s)(PGNUM va := False),
     pdirty := (pdirty s)(PGNUM va := False)\<rparr>"

section \<open>The page fault handler\<close>

definition blockno :: "u32 \<Rightarrow> u32" where
  "blockno a = (a - DISKMAP) div BLKSIZE"

text \<open>
  \<open>bc_pgfault\<close>.  Its own reads of \<open>super->s_nblocks\<close> and of the bitmap may fault in turn, so
  it is recursive: before a read of the super block or of a bitmap word the page is touched.
  When \<open>sys_page_alloc\<close> fails the disk driver faults on the same page forever.
\<close>

partial_function (option) bc_pgfault :: "u32 \<Rightarrow> fs \<Rightarrow> fs option" where
  "bc_pgfault addr s =
     (if addr < DISKMAP \<or> DISKMAP + DISKSIZE \<le> addr then None
      else do {
        s \<leftarrow> (if super s \<noteq> 0
              then do {
                s \<leftarrow> (if mapped s (PGNUM (super s + 4)) then Some s
                      else bc_pgfault (super s + 4) s);
                if get32 (fmem s) (super s + 4) \<le> blockno addr then None else Some s }
              else Some s);
        s \<leftarrow> (case user_page_alloc (ROUNDDOWN addr PGSIZE) s of
                (Inl e, s) \<Rightarrow> None | (Inr u, s) \<Rightarrow> Some s);
        (r, s) \<leftarrow> ide_read (blockno addr * BLKSECTS) (ROUNDDOWN addr PGSIZE) BLKSECTS s;
        s \<leftarrow> (case r of Inl e \<Rightarrow> None | Inr u \<Rightarrow> Some (remap_clean (ROUNDDOWN addr PGSIZE) s));
        if bitmap s \<noteq> 0 \<and> super s \<noteq> 0
        then do {
          s \<leftarrow> (if mapped s (PGNUM (super s + 4)) then Some s else bc_pgfault (super s + 4) s);
          if get32 (fmem s) (super s + 4) \<le> blockno addr then Some s
          else do {
            s \<leftarrow> (if mapped s (PGNUM (bitmap s + 4 * (blockno addr div 32))) then Some s
                  else bc_pgfault (bitmap s + 4 * (blockno addr div 32)) s);
            if bit (get32 (fmem s) (bitmap s + 4 * (blockno addr div 32))) (unat (blockno addr mod 32))
            then None else Some s } }
        else Some s })"

section \<open>Loads and stores\<close>

definition touch :: "u32 \<Rightarrow> fs \<Rightarrow> fs option" where
  "touch a s = (if mapped s (PGNUM a) then Some s else bc_pgfault a s)"

definition ld8 :: "u32 \<Rightarrow> fs \<Rightarrow> (u8 \<times> fs) option" where
  "ld8 a s = do { s \<leftarrow> touch a s; Some (fmem s a, s) }"

definition st8 :: "u32 \<Rightarrow> u8 \<Rightarrow> fs \<Rightarrow> fs option" where
  "st8 a v s = do { s \<leftarrow> touch a s;
     Some (s\<lparr>fmem := (fmem s)(a := v), pdirty := (pdirty s)(PGNUM a := True)\<rparr>) }"

text \<open>Words are accessed at aligned addresses, so inside one page.\<close>

definition ld32 :: "u32 \<Rightarrow> fs \<Rightarrow> (u32 \<times> fs) option" where
  "ld32 a s = do { s \<leftarrow> touch a s; Some (get32 (fmem s) a, s) }"

definition st32 :: "u32 \<Rightarrow> u32 \<Rightarrow> fs \<Rightarrow> fs option" where
  "st32 a v s = do { s \<leftarrow> touch a s;
     Some (s\<lparr>fmem := put32 a v (fmem s), pdirty := (pdirty s)(PGNUM a := True)\<rparr>) }"

text \<open>\<open>memmove\<close> between pages that may fault: byte by byte, in the direction it chooses.\<close>

fun copy_offsets :: "u32 \<Rightarrow> u32 \<Rightarrow> nat list \<Rightarrow> fs \<Rightarrow> fs option" where
  "copy_offsets d a [] s = Some s"
| "copy_offsets d a (i # is) s = do {
     (b, s) \<leftarrow> ld8 (a + of_nat i) s;
     s \<leftarrow> st8 (d + of_nat i) b s;
     copy_offsets d a is s }"

definition fs_memmove :: "u32 \<Rightarrow> u32 \<Rightarrow> u32 \<Rightarrow> fs \<Rightarrow> fs option" where
  "fs_memmove d a n s =
     copy_offsets d a (if a < d \<and> a + n > d then rev [0..<unat n] else [0..<unat n]) s"

text \<open>\<open>strcpy\<close> of a string value, with its NUL, into memory.\<close>

fun put_str :: "u32 \<Rightarrow> u8 list \<Rightarrow> fs \<Rightarrow> fs option" where
  "put_str d [] s = st8 d 0 s"
| "put_str d (c # cs) s = do { s \<leftarrow> st8 d c s; put_str (d + 1) cs s }"

section \<open>The block cache\<close>

definition diskaddr :: "u32 \<Rightarrow> fs \<Rightarrow> (u32 \<times> fs) option" where
  "diskaddr b s =
     (if b = 0 then None
      else if super s \<noteq> 0
      then do {
        (n, s) \<leftarrow> ld32 (super s + 4) s;
        if n \<le> b then None else Some (DISKMAP + b * BLKSIZE, s) }
      else Some (DISKMAP + b * BLKSIZE, s))"

definition flush_block :: "u32 \<Rightarrow> fs \<Rightarrow> fs option" where
  "flush_block addr s =
     (if addr < DISKMAP \<or> DISKMAP + DISKSIZE \<le> addr then None
      else let b = blockno addr; addr = ROUNDDOWN addr PGSIZE in
        if \<not> va_is_mapped addr s \<or> \<not> va_is_dirty addr s then Some s
        else do {
          (r, s) \<leftarrow> ide_write (b * BLKSECTS) addr BLKSECTS s;
          case r of Inl e \<Rightarrow> None | Inr u \<Rightarrow> Some (remap_clean addr s) })"

text \<open>\<open>bc_init\<close>, without the self-test \<open>check_bc\<close>: the super block is read once.\<close>

definition bc_init :: "fs \<Rightarrow> fs option" where
  "bc_init s = do { (a, s) \<leftarrow> diskaddr 1 s; touch a s }"

end
