(* ===== verification/Fs.thy ===== *)
theory Fs
  imports BlockCache
begin

text \<open>
  The file system (\<open>fs/fs.c\<close>) over the block cache.  A \<open>struct File *\<close> is its address in the
  disk map; the fields lie at their offsets.  A function yields \<open>Inl\<close> the error it returns, or
  \<open>Inr\<close> its result, and the state of the server.
\<close>

abbreviation (input) FS_MAGIC :: u32 where "FS_MAGIC \<equiv> 0x4A0530AE"
abbreviation (input) NDIRECT :: u32 where "NDIRECT \<equiv> 10"
abbreviation (input) NINDIRECT :: u32 where "NINDIRECT \<equiv> 1024"
abbreviation (input) MAXNAMELEN :: nat where "MAXNAMELEN \<equiv> 128"
abbreviation (input) BLKFILES :: nat where "BLKFILES \<equiv> 16"
abbreviation (input) FTYPE_DIR :: u32 where "FTYPE_DIR \<equiv> 1"

type_synonym 'a fsres = "((error + 'a) \<times> fs) option"

section \<open>struct File\<close>

definition f_size :: "u32 \<Rightarrow> u32" where "f_size f = f + 128"
definition f_type :: "u32 \<Rightarrow> u32" where "f_type f = f + 132"
definition f_direct :: "u32 \<Rightarrow> u32 \<Rightarrow> u32" where "f_direct f i = f + 136 + 4 * i"
definition f_indirect :: "u32 \<Rightarrow> u32" where "f_indirect f = f + 176"

text \<open>C's signed division and remainder of an \<open>off_t\<close> by the block size.\<close>

definition off_div :: "u32 \<Rightarrow> u32" where
  "off_div a = word_of_int (sint a sdiv 4096)"

definition off_mod :: "u32 \<Rightarrow> u32" where
  "off_mod a = word_of_int (sint a smod 4096)"

section \<open>Super block and bitmap\<close>

definition check_super :: "fs \<Rightarrow> fs option" where
  "check_super s = do {
     (magic, s) \<leftarrow> ld32 (super s) s;
     if magic \<noteq> FS_MAGIC then None
     else do {
       (n, s) \<leftarrow> ld32 (super s + 4) s;
       if n > DISKSIZE div BLKSIZE then None else Some s } }"

definition block_is_free :: "u32 \<Rightarrow> fs \<Rightarrow> (bool \<times> fs) option" where
  "block_is_free b s =
     (if super s = 0 then Some (False, s)
      else do {
        (n, s) \<leftarrow> ld32 (super s + 4) s;
        if n \<le> b then Some (False, s)
        else do {
          (w, s) \<leftarrow> ld32 (bitmap s + 4 * (b div 32)) s;
          Some (bit w (unat (b mod 32)), s) } })"

definition free_block :: "u32 \<Rightarrow> fs \<Rightarrow> fs option" where
  "free_block b s =
     (if b = 0 then None
      else do {
        (w, s) \<leftarrow> ld32 (bitmap s + 4 * (b div 32)) s;
        st32 (bitmap s + 4 * (b div 32)) (w OR push_bit (unat (b mod 32)) 1) s })"

partial_function (option) alloc_block_from :: "u32 \<Rightarrow> fs \<Rightarrow> u32 fsres" where
  "alloc_block_from b s = do {
     (n, s) \<leftarrow> ld32 (super s + 4) s;
     if n \<le> b then Some (Inl E_NO_DISK, s)
     else do {
       (free, s) \<leftarrow> block_is_free b s;
       if free
       then do {
         (w, s) \<leftarrow> ld32 (bitmap s + 4 * (b div 32)) s;
         s \<leftarrow> st32 (bitmap s + 4 * (b div 32)) (w AND NOT (push_bit (unat (b mod 32)) 1)) s;
         (a, s) \<leftarrow> diskaddr (2 + (b div 32) div NINDIRECT) s;
         s \<leftarrow> flush_block a s;
         Some (Inr b, s) }
       else alloc_block_from (b + 1) s } }"

definition alloc_block :: "fs \<Rightarrow> u32 fsres" where
  "alloc_block s = alloc_block_from 0 s"

text \<open>The loop of \<open>check_bitmap\<close>: a failed assertion is a panic.\<close>

partial_function (option) check_bitmap_from :: "u32 \<Rightarrow> fs \<Rightarrow> fs option" where
  "check_bitmap_from i s = do {
     (n, s) \<leftarrow> ld32 (super s + 4) s;
     if n \<le> i * BLKBITSIZE then Some s
     else do {
       (free, s) \<leftarrow> block_is_free (2 + i) s;
       if free then None else check_bitmap_from (i + 1) s } }"

definition check_bitmap :: "fs \<Rightarrow> fs option" where
  "check_bitmap s = do {
     s \<leftarrow> check_bitmap_from 0 s;
     (free0, s) \<leftarrow> block_is_free 0 s;
     if free0 then None
     else do {
       (free1, s) \<leftarrow> block_is_free 1 s;
       if free1 then None else Some s } }"

definition fs_init :: "fs \<Rightarrow> fs option" where
  "fs_init s = do {
     s \<leftarrow> ide_set_disk (if ide_probe_disk1 s then 1 else 0) s;
     s \<leftarrow> bc_init s;
     (a, s) \<leftarrow> diskaddr 1 s;
     s \<leftarrow> check_super (s\<lparr>super := a\<rparr>);
     (a, s) \<leftarrow> diskaddr 2 s;
     check_bitmap (s\<lparr>bitmap := a\<rparr>) }"

section \<open>The blocks of a file\<close>

text \<open>The result is the address of the slot, the \<open>*ppdiskbno\<close> of the code.\<close>

definition file_block_walk :: "u32 \<Rightarrow> u32 \<Rightarrow> bool \<Rightarrow> fs \<Rightarrow> u32 fsres" where
  "file_block_walk f filebno alloc s =
     (if NDIRECT + NINDIRECT \<le> filebno then Some (Inl E_INVAL, s)
      else if filebno < NDIRECT then Some (Inr (f_direct f filebno), s)
      else do {
        (ind, s) \<leftarrow> ld32 (f_indirect f) s;
        if ind \<noteq> 0
        then do {
          (indirects, s) \<leftarrow> diskaddr ind s;
          Some (Inr (indirects + 4 * (filebno - NDIRECT)), s) }
        else if \<not> alloc then Some (Inl E_NOT_FOUND, s)
        else do {
          (r, s) \<leftarrow> alloc_block s;
          case r of
            Inl e \<Rightarrow> Some (Inl e, s)
          | Inr bn \<Rightarrow> do {
              s \<leftarrow> st32 (f_indirect f) bn s;
              (a, s) \<leftarrow> diskaddr bn s;
              s \<leftarrow> flush_block a s;
              (indirects, s) \<leftarrow> diskaddr bn s;
              Some (Inr (indirects + 4 * (filebno - NDIRECT)), s) } } })"

definition file_get_block :: "u32 \<Rightarrow> u32 \<Rightarrow> fs \<Rightarrow> u32 fsres" where
  "file_get_block f filebno s = do {
     (r, s) \<leftarrow> file_block_walk f filebno True s;
     case r of
       Inl e \<Rightarrow> Some (Inl e, s)
     | Inr slot \<Rightarrow> do {
         (b, s) \<leftarrow> ld32 slot s;
         if b = 0
         then do {
           (r, s) \<leftarrow> alloc_block s;
           case r of
             Inl e \<Rightarrow> Some (Inl e, s)
           | Inr bn \<Rightarrow> do {
               s \<leftarrow> st32 slot bn s;
               (a, s) \<leftarrow> diskaddr bn s;
               s \<leftarrow> flush_block a s;
               (b, s) \<leftarrow> ld32 slot s;
               (blk, s) \<leftarrow> diskaddr b s;
               Some (Inr blk, s) } }
         else do { (blk, s) \<leftarrow> diskaddr b s; Some (Inr blk, s) } } }"

definition file_free_block :: "u32 \<Rightarrow> u32 \<Rightarrow> fs \<Rightarrow> unit fsres" where
  "file_free_block f filebno s = do {
     (r, s) \<leftarrow> file_block_walk f filebno False s;
     case r of
       Inl e \<Rightarrow> Some (Inl e, s)
     | Inr slot \<Rightarrow> do {
         (b, s) \<leftarrow> ld32 slot s;
         if b \<noteq> 0
         then do { s \<leftarrow> free_block b s; s \<leftarrow> st32 slot 0 s; Some (Inr (), s) }
         else Some (Inr (), s) } }"

section \<open>Size\<close>

text \<open>The loop of \<open>file_truncate_blocks\<close> warns about an error and goes on.\<close>

fun truncate_loop :: "nat \<Rightarrow> u32 \<Rightarrow> u32 \<Rightarrow> fs \<Rightarrow> fs option" where
  "truncate_loop 0 f bno s = Some s"
| "truncate_loop (Suc k) f bno s = do {
     (r, s) \<leftarrow> file_free_block f bno s;
     truncate_loop k f (bno + 1) s }"

definition nblocks_of :: "u32 \<Rightarrow> u32" where
  "nblocks_of sz = off_div (sz + BLKSIZE - 1)"

definition file_truncate_blocks :: "u32 \<Rightarrow> u32 \<Rightarrow> fs \<Rightarrow> fs option" where
  "file_truncate_blocks f newsize s = do {
     (sz, s) \<leftarrow> ld32 (f_size f) s;
     let old_nblocks = nblocks_of sz;
     let new_nblocks = nblocks_of newsize;
     s \<leftarrow> truncate_loop (unat old_nblocks - unat new_nblocks) f new_nblocks s;
     if new_nblocks \<le> NDIRECT
     then do {
       (ind, s) \<leftarrow> ld32 (f_indirect f) s;
       if ind \<noteq> 0 then do { s \<leftarrow> free_block ind s; st32 (f_indirect f) 0 s } else Some s }
     else Some s }"

definition file_set_size :: "u32 \<Rightarrow> u32 \<Rightarrow> fs \<Rightarrow> unit fsres" where
  "file_set_size f newsize s = do {
     (sz, s) \<leftarrow> ld32 (f_size f) s;
     s \<leftarrow> (if sint newsize < sint sz then file_truncate_blocks f newsize s else Some s);
     s \<leftarrow> st32 (f_size f) newsize s;
     s \<leftarrow> flush_block f s;
     Some (Inr (), s) }"

section \<open>Flushing\<close>

partial_function (option) flush_loop :: "u32 \<Rightarrow> u32 \<Rightarrow> fs \<Rightarrow> fs option" where
  "flush_loop f i s = do {
     (sz, s) \<leftarrow> ld32 (f_size f) s;
     if sint i < sint (nblocks_of sz)
     then do {
       (r, s) \<leftarrow> file_block_walk f i False s;
       s \<leftarrow> (case r of
               Inl e \<Rightarrow> Some s
             | Inr slot \<Rightarrow> do {
                 (b, s) \<leftarrow> ld32 slot s;
                 if b = 0 then Some s
                 else do { (a, s) \<leftarrow> diskaddr b s; flush_block a s } });
       flush_loop f (i + 1) s }
     else Some s }"

definition file_flush :: "u32 \<Rightarrow> fs \<Rightarrow> fs option" where
  "file_flush f s = do {
     s \<leftarrow> flush_loop f 0 s;
     s \<leftarrow> flush_block f s;
     (ind, s) \<leftarrow> ld32 (f_indirect f) s;
     if ind \<noteq> 0 then do { (a, s) \<leftarrow> diskaddr ind s; flush_block a s } else Some s }"

partial_function (option) fs_sync_from :: "u32 \<Rightarrow> fs \<Rightarrow> fs option" where
  "fs_sync_from i s = do {
     (n, s) \<leftarrow> ld32 (super s + 4) s;
     if n \<le> i then Some s
     else do {
       (a, s) \<leftarrow> diskaddr i s;
       s \<leftarrow> flush_block a s;
       fs_sync_from (i + 1) s } }"

definition fs_sync :: "fs \<Rightarrow> fs option" where
  "fs_sync s = fs_sync_from 1 s"

section \<open>Reading and writing\<close>

text \<open>
  The offsets are unsigned where \<open>pos < offset + count\<close> compares them and signed where they
  are divided.
\<close>

partial_function (option) file_read_loop :: "u32 \<Rightarrow> u32 \<Rightarrow> u32 \<Rightarrow> u32 \<Rightarrow> fs \<Rightarrow> unit fsres" where
  "file_read_loop f buf pos lim s =
     (if pos < lim
      then do {
        (r, s) \<leftarrow> file_get_block f (off_div pos) s;
        case r of
          Inl e \<Rightarrow> Some (Inl e, s)
        | Inr blk \<Rightarrow>
            let bn = min (BLKSIZE - off_mod pos) (lim - pos) in do {
              s \<leftarrow> fs_memmove buf (blk + off_mod pos) bn s;
              file_read_loop f (buf + bn) (pos + bn) lim s } }
      else Some (Inr (), s))"

definition file_read :: "u32 \<Rightarrow> u32 \<Rightarrow> u32 \<Rightarrow> u32 \<Rightarrow> fs \<Rightarrow> u32 fsres" where
  "file_read f buf count offset s = do {
     (sz, s) \<leftarrow> ld32 (f_size f) s;
     if sint sz \<le> sint offset then Some (Inr 0, s)
     else let count = min count (sz - offset) in do {
       (r, s) \<leftarrow> file_read_loop f buf offset (offset + count) s;
       case r of Inl e \<Rightarrow> Some (Inl e, s) | Inr u \<Rightarrow> Some (Inr count, s) } }"

partial_function (option) file_write_loop :: "u32 \<Rightarrow> u32 \<Rightarrow> u32 \<Rightarrow> u32 \<Rightarrow> fs \<Rightarrow> unit fsres" where
  "file_write_loop f buf pos lim s =
     (if pos < lim
      then do {
        (r, s) \<leftarrow> file_get_block f (off_div pos) s;
        case r of
          Inl e \<Rightarrow> Some (Inl e, s)
        | Inr blk \<Rightarrow>
            let bn = min (BLKSIZE - off_mod pos) (lim - pos) in do {
              s \<leftarrow> fs_memmove (blk + off_mod pos) buf bn s;
              file_write_loop f (buf + bn) (pos + bn) lim s } }
      else Some (Inr (), s))"

definition file_write :: "u32 \<Rightarrow> u32 \<Rightarrow> u32 \<Rightarrow> u32 \<Rightarrow> fs \<Rightarrow> u32 fsres" where
  "file_write f buf count offset s = do {
     (sz, s) \<leftarrow> ld32 (f_size f) s;
     (r, s) \<leftarrow> (if sz < offset + count then file_set_size f (offset + count) s
               else Some (Inr (), s));
     case r of
       Inl e \<Rightarrow> Some (Inl e, s)
     | Inr u \<Rightarrow> do {
         (r, s) \<leftarrow> file_write_loop f buf offset (offset + count) s;
         case r of Inl e \<Rightarrow> Some (Inl e, s) | Inr u \<Rightarrow> Some (Inr count, s) } }"

section \<open>Directories\<close>

text \<open>\<open>strcmp (f_name, name) == 0\<close>, where \<open>name\<close> is a string value without NULs.\<close>

fun name_eq :: "u32 \<Rightarrow> u8 list \<Rightarrow> fs \<Rightarrow> (bool \<times> fs) option" where
  "name_eq a [] s = do { (b, s) \<leftarrow> ld8 a s; Some (b = 0, s) }"
| "name_eq a (c # cs) s = do {
     (b, s) \<leftarrow> ld8 a s;
     if b = c then name_eq (a + 1) cs s else Some (False, s) }"

text \<open>The inner loops over the entries of a block; the counter is the number still to see.\<close>

fun dir_match :: "nat \<Rightarrow> u32 \<Rightarrow> u8 list \<Rightarrow> fs \<Rightarrow> (u32 option \<times> fs) option" where
  "dir_match 0 f name s = Some (None, s)"
| "dir_match (Suc k) f name s = do {
     (eq, s) \<leftarrow> name_eq f name s;
     if eq then Some (Some f, s) else dir_match k (f + 256) name s }"

fun dir_unused :: "nat \<Rightarrow> u32 \<Rightarrow> fs \<Rightarrow> (u32 option \<times> fs) option" where
  "dir_unused 0 f s = Some (None, s)"
| "dir_unused (Suc k) f s = do {
     (c, s) \<leftarrow> ld8 f s;
     if c = 0 then Some (Some f, s) else dir_unused k (f + 256) s }"

text \<open>The outer loops: a found entry ends them.\<close>

fun dir_scan :: "(u32 \<Rightarrow> fs \<Rightarrow> (u32 option \<times> fs) option) \<Rightarrow> nat \<Rightarrow> u32 \<Rightarrow> u32 \<Rightarrow> fs \<Rightarrow> u32 option fsres" where
  "dir_scan entry 0 dir i s = Some (Inr None, s)"
| "dir_scan entry (Suc k) dir i s = do {
     (r, s) \<leftarrow> file_get_block dir i s;
     case r of
       Inl e \<Rightarrow> Some (Inl e, s)
     | Inr blk \<Rightarrow> do {
         (found, s) \<leftarrow> entry blk s;
         case found of
           Some f \<Rightarrow> Some (Inr (Some f), s)
         | None \<Rightarrow> dir_scan entry k dir (i + 1) s } }"

definition dir_lookup :: "u32 \<Rightarrow> u8 list \<Rightarrow> fs \<Rightarrow> u32 fsres" where
  "dir_lookup dir name s = do {
     (sz, s) \<leftarrow> ld32 (f_size dir) s;
     if off_mod sz \<noteq> 0 then None
     else do {
       (r, s) \<leftarrow> dir_scan (\<lambda>blk. dir_match BLKFILES blk name) (unat (off_div sz)) dir 0 s;
       case r of
         Inl e \<Rightarrow> Some (Inl e, s)
       | Inr None \<Rightarrow> Some (Inl E_NOT_FOUND, s)
       | Inr (Some f) \<Rightarrow> Some (Inr f, s) } }"

definition dir_alloc_file :: "u32 \<Rightarrow> fs \<Rightarrow> u32 fsres" where
  "dir_alloc_file dir s = do {
     (sz, s) \<leftarrow> ld32 (f_size dir) s;
     if off_mod sz \<noteq> 0 then None
     else do {
       let nblock = off_div sz;
       (r, s) \<leftarrow> dir_scan (dir_unused BLKFILES) (unat nblock) dir 0 s;
       case r of
         Inl e \<Rightarrow> Some (Inl e, s)
       | Inr (Some f) \<Rightarrow> Some (Inr f, s)
       | Inr None \<Rightarrow> do {
           (sz, s) \<leftarrow> ld32 (f_size dir) s;
           s \<leftarrow> st32 (f_size dir) (sz + BLKSIZE) s;
           (r, s) \<leftarrow> file_get_block dir nblock s;
           case r of Inl e \<Rightarrow> Some (Inl e, s) | Inr blk \<Rightarrow> Some (Inr blk, s) } } }"

section \<open>Paths\<close>

abbreviation (input) SLASH :: u8 where "SLASH \<equiv> 0x2F"

definition skip_slash :: "u8 list \<Rightarrow> u8 list" where
  "skip_slash p = dropWhile (\<lambda>c. c = SLASH) p"

text \<open>
  What \<open>walk_path\<close> leaves behind: its return value, \<open>*pdir\<close>, \<open>*pf\<close> (0 is NULL) and the
  last path element.  The path is a string value without its NUL.
\<close>

record walk =
  w_ret :: "error + unit"
  w_dir :: u32
  w_file :: u32
  w_last :: "u8 list"

lemma skip_slash_length: "length (skip_slash p) \<le> length p"
  by (simp add: skip_slash_def length_dropWhile_le)

lemma dropWhile_less: "p \<noteq> [] \<Longrightarrow> hd p \<noteq> SLASH \<Longrightarrow>
    length (skip_slash (dropWhile (\<lambda>c. c \<noteq> SLASH) p)) < length p"
  by (cases p) (auto simp: less_Suc_eq_le intro: le_trans [OF skip_slash_length length_dropWhile_le])

text \<open>
  One component per round.  Every path the loop sees has its leading slashes skipped; without
  that a round would not shorten it, which the measure accounts for by the first character.
\<close>

function walk_loop :: "u8 list \<Rightarrow> u32 \<Rightarrow> u32 \<Rightarrow> fs \<Rightarrow> (walk \<times> fs) option" where
  "walk_loop path dir f s =
     (if path = [] then Some (\<lparr>w_ret = Inr (), w_dir = dir, w_file = f, w_last = []\<rparr>, s)
      else let dir = f;
               name = takeWhile (\<lambda>c. c \<noteq> SLASH) path;
               path' = skip_slash (dropWhile (\<lambda>c. c \<noteq> SLASH) path)
        in if MAXNAMELEN \<le> length name
           then Some (\<lparr>w_ret = Inl E_BAD_PATH, w_dir = 0, w_file = 0, w_last = []\<rparr>, s)
           else do {
             (ty, s) \<leftarrow> ld32 (f_type dir) s;
             if ty \<noteq> FTYPE_DIR
             then Some (\<lparr>w_ret = Inl E_NOT_FOUND, w_dir = 0, w_file = 0, w_last = []\<rparr>, s)
             else do {
               (r, s) \<leftarrow> dir_lookup dir name s;
               case r of
                 Inl e \<Rightarrow>
                   if e = E_NOT_FOUND \<and> path' = []
                   then Some (\<lparr>w_ret = Inl e, w_dir = dir, w_file = 0, w_last = name\<rparr>, s)
                   else Some (\<lparr>w_ret = Inl e, w_dir = 0, w_file = 0, w_last = []\<rparr>, s)
               | Inr f \<Rightarrow> walk_loop path' dir f s } })"
  by pat_completeness auto
termination
proof (relation "measure (\<lambda>(path, _). if path \<noteq> [] \<and> hd path = SLASH then length path + 1
                                     else length path)", simp, goal_cases)
  case (1 path dir f s dir' name p')
  have le: "length p' \<le> length path"
    unfolding 1(4) by (rule le_trans [OF skip_slash_length length_dropWhile_le])
  have hd: "p' = [] \<or> hd p' \<noteq> SLASH"
    using hd_dropWhile [of "\<lambda>c. c = SLASH" "dropWhile (\<lambda>c. c \<noteq> SLASH) path"]
    unfolding 1(4) skip_slash_def by blast
  have less: "hd path \<noteq> SLASH \<Longrightarrow> length p' < length path"
    using dropWhile_less [OF 1(1)] unfolding 1(4) .
  show ?case using le hd less 1(1) by auto
qed

declare walk_loop.simps [simp del]

definition walk_path :: "u8 list \<Rightarrow> fs \<Rightarrow> (walk \<times> fs) option" where
  "walk_path path s = walk_loop (skip_slash path) 0 (super s + 8) s"

definition file_create :: "u8 list \<Rightarrow> fs \<Rightarrow> u32 fsres" where
  "file_create path s = do {
     (w, s) \<leftarrow> walk_path path s;
     case w_ret w of
       Inr u \<Rightarrow> Some (Inl E_FILE_EXISTS, s)
     | Inl e \<Rightarrow>
         if e \<noteq> E_NOT_FOUND \<or> w_dir w = 0 then Some (Inl e, s)
         else do {
           (r, s) \<leftarrow> dir_alloc_file (w_dir w) s;
           case r of
             Inl e \<Rightarrow> Some (Inl e, s)
           | Inr f \<Rightarrow> do {
               s \<leftarrow> put_str f (w_last w) s;
               s \<leftarrow> file_flush (w_dir w) s;
               Some (Inr f, s) } } }"

definition file_open :: "u8 list \<Rightarrow> fs \<Rightarrow> u32 fsres" where
  "file_open path s = do {
     (w, s) \<leftarrow> walk_path path s;
     case w_ret w of Inl e \<Rightarrow> Some (Inl e, s) | Inr u \<Rightarrow> Some (Inr (w_file w), s) }"

end
