(* ===== verification/FsView.thy ===== *)
theory FsView
  imports Fs
begin

text \<open>
  What the file server sees.  The \<open>view\<close> of a state is the memory a program would read: the
  cached page where there is one, the block on the disk otherwise.  Paging in leaves the view
  alone, so the file system is specified by what its operations do to the view.  \<open>runs m Q\<close>
  says that a computation ends, without a panic, in a result that satisfies \<open>Q\<close>.
\<close>

section \<open>Computations that end\<close>

definition runs :: "'a option \<Rightarrow> ('a \<Rightarrow> bool) \<Rightarrow> bool" where
  "runs m Q \<longleftrightarrow> (\<exists>x. m = Some x \<and> Q x)"

named_theorems runs_rules \<open>rules for computations that end\<close>

lemma runs_Some [simp]: "runs (Some x) Q \<longleftrightarrow> Q x"
  by (simp add: runs_def)

lemma runs_None [simp]: "\<not> runs None Q"
  by (simp add: runs_def)

lemma runs_bind [simp]: "runs (Option.bind m f) Q \<longleftrightarrow> runs m (\<lambda>x. runs (f x) Q)"
  by (cases m) simp_all

lemma runs_weaken: "runs m P \<Longrightarrow> (\<And>x. P x \<Longrightarrow> Q x) \<Longrightarrow> runs m Q"
  by (auto simp: runs_def)

lemma runs_pair: "runs m (\<lambda>(x, s). P x s) \<Longrightarrow> (\<And>x s. P x s \<Longrightarrow> Q (x, s)) \<Longrightarrow> runs m Q"
  by (auto simp: runs_def)

lemma runs_if: "(b \<Longrightarrow> runs m Q) \<Longrightarrow> (\<not> b \<Longrightarrow> runs m' Q) \<Longrightarrow> runs (if b then m else m') Q"
  by simp

lemma runsE: "runs m Q \<Longrightarrow> (\<And>x. m = Some x \<Longrightarrow> Q x \<Longrightarrow> P) \<Longrightarrow> P"
  by (auto simp: runs_def)

section \<open>Words in memory\<close>

lemma unat_offset: "n < 2 ^ 32 - unat (a :: u32) \<Longrightarrow> unat (a + of_nat n) = unat a + n"
  using unat_less_32 [of a] by (subst unat_add_no_wrap) (simp_all add: unat_of_nat32)

lemma aligned_offset: "a mod 4 = (0 :: u32) \<Longrightarrow> n < 4 \<Longrightarrow> unat (a + of_nat n) = unat a + n"
proof (rule unat_offset)
  assume a: "a mod 4 = 0" and n: "n < 4"
  have "unat a mod 4 = 0" using arg_cong [OF a, of unat] by (simp add: unat_mod)
  with unat_less_32 [of a] have "unat a + 4 \<le> 4294967296" by presburger
  with n show "n < 2 ^ 32 - unat a" by simp
qed

lemma aligned_offsets:
  assumes "a mod 4 = (0 :: u32)"
  shows "unat (a + 1) = unat a + 1" "unat (a + 2) = unat a + 2" "unat (a + 3) = unat a + 3"
  using aligned_offset [OF assms, of 1] aligned_offset [OF assms, of 2]
    aligned_offset [OF assms, of 3] by simp_all

lemma unat_aligned: "a mod 4 = (0 :: u32) \<longleftrightarrow> unat a mod 4 = 0"
  using unat_mod [of a 4] by (simp flip: unat_eq_zero)

lemma get32_put32_same [simp]: "get32 (put32 a v m) a = v"
proof -
  have ne: "a + 1 \<noteq> a" "a + 2 \<noteq> a" "a + 3 \<noteq> a" "a + 2 \<noteq> a + 1" "a + 3 \<noteq> a + 1" "a + 3 \<noteq> a + 2"
    by simp_all
  show ?thesis unfolding get32_def put32_def put4_def
    using join_bytes [of v] by (simp add: ne)
qed

lemma get32_put32_other:
  assumes "a mod 4 = 0" "b mod 4 = 0" "a \<noteq> b"
  shows "get32 (put32 a v m) b = get32 m b"
proof -
  have ab: "unat a mod 4 = 0" "unat b mod 4 = 0" "unat a \<noteq> unat b"
    using assms(1,2) by (simp_all add: unat_aligned) (use assms(3) in \<open>simp add: word_unat_eq_iff\<close>)
  have "b + of_nat i \<noteq> a + of_nat j" if "i < 4" "j < 4" for i j
  proof -
    have "unat b + i \<noteq> unat a + j" using ab that by presburger
    then show ?thesis
      using aligned_offset [OF assms(1), of j] aligned_offset [OF assms(2), of i] that by metis
  qed
  note n = this
  show ?thesis unfolding get32_def put32_def put4_def
    using n [of 0 0] n [of 0 1] n [of 0 2] n [of 0 3] n [of 1 0] n [of 1 1] n [of 1 2] n [of 1 3]
      n [of 2 0] n [of 2 1] n [of 2 2] n [of 2 3] n [of 3 0] n [of 3 1] n [of 3 2] n [of 3 3]
    by simp
qed

lemma put32_apply:
  assumes "a mod 4 = 0" "x \<notin> {a, a + 1, a + 2, a + 3}"
  shows "put32 a v m x = m x"
  using assms by (simp add: put32_def put4_def)

section \<open>The disk map\<close>

definition in_map :: "u32 \<Rightarrow> bool" where
  "in_map a \<longleftrightarrow> DISKMAP \<le> a \<and> a < DISKMAP + DISKSIZE"

definition blockaddr :: "u32 \<Rightarrow> u32" where
  "blockaddr b = DISKMAP + b * BLKSIZE"

definition boff :: "u32 \<Rightarrow> u32" where
  "boff a = a mod BLKSIZE"

lemma unat_blockaddr:
  assumes "b < 0xC0000" "unat x < 4096"
  shows "unat (blockaddr b + x) = 0x10000000 + unat b * 4096 + unat x"
proof -
  have b: "unat b < 0xC0000" using assms(1) by (simp add: word_less_nat_alt)
  have m: "unat (b * BLKSIZE) = unat b * 4096" using b by (simp add: unat_word_ariths)
  have d: "unat (blockaddr b) = 0x10000000 + unat b * 4096"
    unfolding blockaddr_def using b m by (subst unat_add_no_wrap) simp_all
  show ?thesis using b d assms(2) by (subst unat_add_no_wrap) simp_all
qed

lemma unat_blockno: "in_map a \<Longrightarrow> unat (blockno a) = unat a div 4096 - 0x10000"
  by (simp add: in_map_def blockno_def unat_div unat_sub word_le_nat_alt)

lemma in_map_unat: "in_map a \<longleftrightarrow> 0x10000000 \<le> unat a \<and> unat a < 0xD0000000"
  by (simp add: in_map_def word_le_nat_alt word_less_nat_alt)

lemma in_map_page: "in_map a \<longleftrightarrow> 0x10000 \<le> unat a div 4096 \<and> unat a div 4096 < 0xD0000"
proof -
  have "0x10000000 \<le> unat a \<longleftrightarrow> 0x10000 \<le> unat a div 4096"
    "unat a < 0xD0000000 \<longleftrightarrow> unat a div 4096 < 0xD0000"
    using page_split [of "unat a"] by linarith+
  then show ?thesis by (simp add: in_map_unat)
qed

lemma blockno_less: "in_map a \<Longrightarrow> blockno a < 0xC0000"
  using unat_blockno [of a] by (simp add: word_less_nat_alt in_map_page less_diff_conv2)

lemma unat_PGNUM_map: "in_map a \<Longrightarrow> unat (PGNUM a) = 0x10000 + unat (blockno a)"
  using unat_blockno [of a] by (simp add: unat_PGNUM in_map_page)

text \<open>An address of the disk map is a block and an offset.\<close>

lemma blockaddr_offset:
  assumes "b < 0xC0000" "unat x < 4096"
  shows "in_map (blockaddr b + x)" "blockno (blockaddr b + x) = b" "boff (blockaddr b + x) = x"
proof -
  have b: "unat b < 0xC0000" using assms(1) by (simp add: word_less_nat_alt)
  note u = unat_blockaddr [OF assms]
  show m: "in_map (blockaddr b + x)" using b assms(2) by (simp add: in_map_unat u)
  have d: "unat (blockaddr b + x) div 4096 = 0x10000 + unat b \<and> unat (blockaddr b + x) mod 4096 = unat x"
    by (rule page_join) (use assms(2) u in simp_all)
  show "blockno (blockaddr b + x) = b"
    using d by (simp add: word_unat_eq_iff unat_blockno [OF m])
  show "boff (blockaddr b + x) = x"
    using d by (simp add: boff_def word_unat_eq_iff unat_mod)
qed

lemma boff_less: "unat (boff a) < 4096"
  by (simp add: boff_def unat_mod)

lemma block_split:
  assumes "in_map a"
  shows "a = blockaddr (blockno a) + boff a"
proof -
  have "unat (boff a) = unat a mod 4096" by (simp add: boff_def unat_mod)
  moreover have "unat (blockaddr (blockno a) + boff a) = 0x10000000 + unat (blockno a) * 4096 + unat (boff a)"
    by (rule unat_blockaddr [OF blockno_less [OF assms] boff_less])
  ultimately have "unat (blockaddr (blockno a) + boff a) = unat a"
    using page_split(1) [of "unat a"] unat_blockno [OF assms] assms unfolding in_map_page by linarith
  then show ?thesis by (simp add: word_unat_eq_iff)
qed

lemma PGNUM_blockaddr: "b < 0xC0000 \<Longrightarrow> unat x < 4096 \<Longrightarrow> PGNUM (blockaddr b + x) = 0x10000 + b"
proof -
  assume b: "b < 0xC0000" and x: "unat x < 4096"
  have "unat (0x10000 + b) = 0x10000 + unat b"
    using b by (subst unat_add_no_wrap) (simp_all add: word_less_nat_alt)
  then show ?thesis
    using unat_PGNUM_map [OF blockaddr_offset(1) [OF b x]] blockaddr_offset(2) [OF b x]
    by (simp add: word_unat_eq_iff)
qed

lemma same_page_block: "in_map a \<Longrightarrow> in_map x \<Longrightarrow> PGNUM x = PGNUM a \<longleftrightarrow> blockno x = blockno a"
  using unat_PGNUM_map [of a] unat_PGNUM_map [of x] by (metis add_left_cancel word_unat_eq_iff)

lemma same_page_in_map: "PGNUM x = PGNUM a \<Longrightarrow> in_map x \<longleftrightarrow> in_map a"
proof -
  assume "PGNUM x = PGNUM a"
  then have "unat x div 4096 = unat a div 4096" by (metis unat_PGNUM)
  then show ?thesis
    by (simp add: in_map_page)
qed

lemma page_of_word:
  assumes "a mod 4 = 0" "n < 4"
  shows "PGNUM (a + of_nat n) = PGNUM a"
proof -
  have "unat a mod 4 = 0" using assms(1) by (simp add: unat_aligned)
  then have m: "unat a mod 4096 mod 4 = 0" by (simp add: mod_mod_cancel)
  have r: "r mod 4 = 0 \<Longrightarrow> r < 4096 \<Longrightarrow> r + n < 4096" for r :: nat
    using assms(2) by presburger
  have "unat a mod 4096 + n < 4096" by (rule r [OF m page_split(2)])
  then have "(unat a + n) div 4096 = unat a div 4096"
    using page_join [of "unat a + n" "unat a div 4096" "unat a mod 4096 + n"] by simp
  then show ?thesis
    using aligned_offset [OF assms] by (simp add: word_unat_eq_iff unat_PGNUM)
qed

section \<open>The view\<close>

definition disk_byte :: "fs \<Rightarrow> u32 \<Rightarrow> u8" where
  "disk_byte s a = disk s (diskno s) (blockno a * BLKSECTS + boff a div SECTSIZE) (unat (boff a mod SECTSIZE))"

definition view :: "fs \<Rightarrow> mem" where
  "view s = (\<lambda>a. if in_map a \<and> \<not> mapped s (PGNUM a) then disk_byte s a else fmem s a)"

text \<open>The volume in the view: its size, the blocks it reserves, and which blocks are free.\<close>

definition nblk :: "mem \<Rightarrow> u32" where
  "nblk v = get32 v (blockaddr 1 + 4)"

definition bmaddr :: "u32 \<Rightarrow> u32" where
  "bmaddr b = blockaddr 2 + 4 * (b div 32)"

definition isfree :: "mem \<Rightarrow> u32 \<Rightarrow> bool" where
  "isfree v b \<longleftrightarrow> b < nblk v \<and> bit (get32 v (bmaddr b)) (unat (b mod 32))"

definition resv :: "mem \<Rightarrow> nat" where
  "resv v = 2 + (unat (nblk v) + 32767) div 32768"

definition vol_ok :: "mem \<Rightarrow> bool" where
  "vol_ok v \<longleftrightarrow> nblk v \<le> 0xC0000 \<and> resv v \<le> unat (nblk v) \<and>
     (\<forall>b. unat b < resv v \<longrightarrow> \<not> isfree v b)"

text \<open>
  The invariant of the server: the super block and the bitmap are cached, the drive works, the
  kernel has a page for every block that is not cached, and a clean page agrees with the disk.
\<close>

definition uncached :: "fs \<Rightarrow> u32 set" where
  "uncached s = {b. b < nblk (view s) \<and> \<not> mapped s (PGNUM (blockaddr b))}"

definition fs_ok :: "fs \<Rightarrow> bool" where
  "fs_ok s \<longleftrightarrow> super s = blockaddr 1 \<and> bitmap s = blockaddr 2 \<and> vol_ok (view s) \<and>
     (\<forall>b. 1 \<le> b \<and> unat b < resv (view s) \<longrightarrow> mapped s (PGNUM (blockaddr b))) \<and>
     (\<forall>sec. \<not> bad_sector s (diskno s) sec) \<and> card (uncached s) \<le> free_pages s \<and>
     (\<forall>a. in_map a \<and> mapped s (PGNUM a) \<and> \<not> pdirty s (PGNUM a) \<longrightarrow> fmem s a = disk_byte s a)"

section \<open>Reading a block in\<close>

lemma sector_step:
  assumes "n < 8"
  shows "(y :: u32) < of_nat (Suc n) * SECTSIZE \<longleftrightarrow> y < SECTSIZE \<or> y - SECTSIZE < of_nat n * SECTSIZE"
    and "\<not> (y :: u32) < SECTSIZE \<Longrightarrow> y div SECTSIZE = 1 + (y - SECTSIZE) div SECTSIZE \<and>
          y mod SECTSIZE = (y - SECTSIZE) mod SECTSIZE"
proof -
  have n: "unat (of_nat n * SECTSIZE :: u32) = n * 512"
    "unat (of_nat (Suc n) * SECTSIZE :: u32) = Suc n * 512"
    using assms by (simp_all add: unat_word_ariths unat_of_nat32)
  show "y < of_nat (Suc n) * SECTSIZE \<longleftrightarrow> y < SECTSIZE \<or> y - SECTSIZE < of_nat n * SECTSIZE"
  proof (cases "y < SECTSIZE")
    case True
    then have "unat y < 512" by (simp add: word_less_nat_alt)
    then have "y < of_nat (Suc n) * SECTSIZE" unfolding word_less_nat_alt n by simp
    with True show ?thesis by simp
  next
    case False
    then have y: "512 \<le> unat y" by (simp add: word_less_nat_alt)
    then have "unat (y - SECTSIZE) = unat y - 512" by (simp add: unat_sub word_le_nat_alt)
    with y False show ?thesis unfolding word_less_nat_alt n by auto
  qed
  assume "\<not> y < SECTSIZE"
  then have y: "512 \<le> unat y" by (simp add: word_less_nat_alt)
  then have u: "unat (y - SECTSIZE) = unat y - 512" by (simp add: unat_sub word_le_nat_alt)
  have d: "unat y div 512 = 1 + (unat y - 512) div 512"
    using y by (simp add: le_div_geq)
  have m: "unat y mod 512 = (unat y - 512) mod 512" using y by (simp add: le_mod_geq)
  have "(unat y - 512) div 512 < 2 ^ 32 - 1"
    using unat_less_32 [of y] by (simp add: less_mult_imp_div_less)
  then have "unat (1 + (y - SECTSIZE) div SECTSIZE) = 1 + (unat y - 512) div 512"
    by (subst unat_add_no_wrap) (simp_all add: unat_div u)
  with d m u show "y div SECTSIZE = 1 + (y - SECTSIZE) div SECTSIZE \<and> y mod SECTSIZE = (y - SECTSIZE) mod SECTSIZE"
    by (simp add: word_unat_eq_iff unat_div unat_mod)
qed

lemma ide_read_loop_ok:
  assumes "\<forall>sec. \<not> bad_sector s (diskno s) sec" "n \<le> 8"
  shows "\<exists>pd. ide_read_loop n sec dst s = (Inr (), s\<lparr>fmem := (\<lambda>x. if x - dst < of_nat n * SECTSIZE
      then disk s (diskno s) (sec + (x - dst) div SECTSIZE) (unat ((x - dst) mod SECTSIZE)) else fmem s x),
      pdirty := pd\<rparr>) \<and> (\<forall>p. (\<forall>i < n. p \<noteq> PGNUM (dst + of_nat i * SECTSIZE)) \<longrightarrow> pd p = pdirty s p)"
  using assms
proof (induction n arbitrary: sec dst s)
  case 0
  then show ?case by (auto intro!: exI [of _ "pdirty s"])
next
  case (Suc n)
  let ?s = "s\<lparr>fmem := sector_in (disk s (diskno s) sec) dst (fmem s), pdirty := (pdirty s)(PGNUM dst := True)\<rparr>"
  from Suc.IH [of ?s "sec + 1" "dst + SECTSIZE"] Suc.prems obtain pd where
    ih: "ide_read_loop n (sec + 1) (dst + SECTSIZE) ?s = (Inr (), ?s\<lparr>fmem := (\<lambda>x. if x - (dst + SECTSIZE) < of_nat n * SECTSIZE
      then disk ?s (diskno ?s) (sec + 1 + (x - (dst + SECTSIZE)) div SECTSIZE) (unat ((x - (dst + SECTSIZE)) mod SECTSIZE))
      else fmem ?s x), pdirty := pd\<rparr>)"
    and pd: "\<forall>p. (\<forall>i < n. p \<noteq> PGNUM (dst + SECTSIZE + of_nat i * SECTSIZE)) \<longrightarrow> pd p = pdirty ?s p"
    by auto
  have pd': "\<forall>p. (\<forall>i < Suc n. p \<noteq> PGNUM (dst + of_nat i * SECTSIZE)) \<longrightarrow> pd p = pdirty s p"
  proof (intro allI impI)
    fix p assume a: "\<forall>i < Suc n. p \<noteq> PGNUM (dst + of_nat i * SECTSIZE)"
    have "p \<noteq> PGNUM (dst + SECTSIZE + of_nat i * SECTSIZE)" if "i < n" for i
      using a [rule_format, of "Suc i"] that by (simp add: algebra_simps)
    with pd a [rule_format, of 0] show "pd p = pdirty s p" by simp
  qed
  have "(\<lambda>x. if x - (dst + SECTSIZE) < of_nat n * SECTSIZE
      then disk ?s (diskno ?s) (sec + 1 + (x - (dst + SECTSIZE)) div SECTSIZE) (unat ((x - (dst + SECTSIZE)) mod SECTSIZE))
      else fmem ?s x) = (\<lambda>x. if x - dst < of_nat (Suc n) * SECTSIZE
      then disk s (diskno s) (sec + (x - dst) div SECTSIZE) (unat ((x - dst) mod SECTSIZE)) else fmem s x)"
    (is "?l = ?r")
  proof
    fix x
    have xd: "x - (dst + SECTSIZE) = (x - dst) - SECTSIZE" by (simp add: algebra_simps)
    have n: "n < 8" using Suc.prems(2) by simp
    have small: "\<not> ((x - dst) - SECTSIZE < of_nat n * SECTSIZE)" if "x - dst < SECTSIZE"
    proof -
      from that have lt: "unat (x - dst) < 512" by (simp add: word_less_nat_alt)
      have "unat ((x - dst) - SECTSIZE) = unat (x - dst) + 2 ^ 32 - 512"
        using lt by (simp add: unat_sub_if_size word_size word_le_nat_alt)
      moreover have "unat (of_nat n * SECTSIZE :: u32) = n * 512"
        using n by (simp add: unat_word_ariths unat_of_nat32)
      ultimately show ?thesis using n by (simp add: word_less_nat_alt)
    qed
    show "?l x = ?r x"
    proof (cases "x - dst < SECTSIZE")
      case True
      with small have "?l x = disk s (diskno s) sec (unat (x - dst))"
        unfolding xd by (simp add: sector_in_def)
      moreover have "(x - dst) div SECTSIZE = 0" "(x - dst) mod SECTSIZE = x - dst"
        using True by (simp_all add: word_unat_eq_iff unat_div unat_mod word_less_nat_alt)
      ultimately show ?thesis using sector_step(1) [OF n, of "x - dst"] True by simp
    next
      case False
      then show ?thesis
        unfolding xd sector_step(1) [OF n, of "x - dst"] using sector_step(2) [OF n False]
        by (simp add: sector_in_def add.assoc)
    qed
  qed
  with ih Suc.prems(1) have "ide_read_loop (Suc n) sec dst s = (Inr (), s\<lparr>fmem := (\<lambda>x. if x - dst < of_nat (Suc n) * SECTSIZE
      then disk s (diskno s) (sec + (x - dst) div SECTSIZE) (unat ((x - dst) mod SECTSIZE)) else fmem s x), pdirty := pd\<rparr>)"
    by (simp del: of_nat_Suc)
  with pd' show ?case by blast
qed

end
