(* ===== verification/FsAccess.thy ===== *)
theory FsAccess
  imports FsView
begin

text \<open>
  Loads and stores of the file server under its invariant: an access to a cached page or to an
  allocated block never panics, leaves the view alone or changes it at the address stored to,
  and keeps the invariant.
\<close>

section \<open>Paging in\<close>

lemma ide_lba_block: "b < 0xC0000 \<Longrightarrow> ide_lba (b * BLKSECTS) = b * BLKSECTS"
proof -
  assume b: "b < 0xC0000"
  have m: "(0x0FFFFFFF :: u32) = mask 28" by (simp add: mask_numeral)
  have "unat (b * BLKSECTS) = unat b * 8" using b by (simp add: unat_word_ariths word_less_nat_alt)
  then have "unat (b * BLKSECTS) < 2 ^ 28" using b by (simp add: word_less_nat_alt)
  then have "unat (take_bit 28 (b * BLKSECTS)) = unat (b * BLKSECTS)" by (simp add: unat_take_bit)
  then show ?thesis by (simp add: ide_lba_def m take_bit_eq_mask [symmetric] word_unat_eq_iff)
qed

lemma rounddown_block: "in_map a \<Longrightarrow> ROUNDDOWN a PGSIZE = blockaddr (blockno a)"
  using block_split [of a] by (simp add: ROUNDDOWN_def boff_def) (metis add_diff_cancel_right')

lemma block_page: "in_map a \<Longrightarrow> PGNUM (blockaddr (blockno a)) = PGNUM a"
  using PGNUM_blockaddr [OF blockno_less, of a 0] PGNUM_blockaddr [OF blockno_less boff_less, of a a]
    block_split [of a] by simp

lemma in_block:
  assumes "b < 0xC0000"
  shows "x - blockaddr b < 4096 \<longleftrightarrow> PGNUM x = PGNUM (blockaddr b)"
    and "x - blockaddr b < 4096 \<Longrightarrow> in_map x \<and> blockno x = b \<and> boff x = x - blockaddr b"
proof -
  have p: "PGNUM (blockaddr b) = 0x10000 + b" using PGNUM_blockaddr [OF assms, of 0] by simp
  have m: "in_map (blockaddr b)" "blockno (blockaddr b) = b"
    using blockaddr_offset [OF assms, of 0] by simp_all
  show *: "in_map x \<and> blockno x = b \<and> boff x = x - blockaddr b" if "x - blockaddr b < 4096"
    using blockaddr_offset [OF assms, of "x - blockaddr b"] that by (simp add: word_less_nat_alt)
  show "x - blockaddr b < 4096 \<longleftrightarrow> PGNUM x = PGNUM (blockaddr b)"
  proof
    assume "x - blockaddr b < 4096"
    from * [OF this] m show "PGNUM x = PGNUM (blockaddr b)" by (simp add: same_page_block)
  next
    assume q: "PGNUM x = PGNUM (blockaddr b)"
    then have x: "in_map x" using m(1) same_page_in_map [OF q] by simp
    have b: "blockno x = b" using q m(2) same_page_block [OF m(1) x] by simp
    have "x - blockaddr b = boff x"
      using block_split [OF x] unfolding b by (metis add_diff_cancel_left')
    then show "x - blockaddr b < 4096" using boff_less [of x] by (simp add: word_less_nat_alt)
  qed
qed

lemma PGNUM_sector:
  assumes "b < 0xC0000" "i < 8"
  shows "PGNUM (blockaddr b + of_nat i * SECTSIZE) = PGNUM (blockaddr b)"
proof -
  have "unat (of_nat i * SECTSIZE :: u32) = i * 512"
    using assms(2) by (simp add: unat_word_ariths unat_of_nat32)
  then show ?thesis
    using PGNUM_blockaddr [OF assms(1), of "of_nat i * SECTSIZE"] PGNUM_blockaddr [OF assms(1), of 0] assms(2)
    by simp
qed

lemma ide_read_block:
  assumes "\<forall>sec. \<not> bad_sector s (diskno s) sec" "b < 0xC0000"
  shows "\<exists>pd. ide_read (b * BLKSECTS) (blockaddr b) BLKSECTS s = Some (Inr (), s\<lparr>fmem := (\<lambda>x.
      if PGNUM x = PGNUM (blockaddr b) then disk_byte s x else fmem s x), pdirty := pd\<rparr>) \<and>
      (\<forall>p. p \<noteq> PGNUM (blockaddr b) \<longrightarrow> pd p = pdirty s p)"
proof -
  from ide_read_loop_ok [OF assms(1), of 8 "b * BLKSECTS" "blockaddr b"] obtain pd where
    l: "ide_read_loop 8 (b * BLKSECTS) (blockaddr b) s = (Inr (), s\<lparr>fmem := (\<lambda>x. if x - blockaddr b < 4096
      then disk s (diskno s) (b * BLKSECTS + (x - blockaddr b) div SECTSIZE) (unat ((x - blockaddr b) mod SECTSIZE))
      else fmem s x), pdirty := pd\<rparr>)"
    and pd: "\<forall>p. (\<forall>i < 8. p \<noteq> PGNUM (blockaddr b + of_nat i * SECTSIZE)) \<longrightarrow> pd p = pdirty s p"
    by auto
  have "(\<lambda>x. if x - blockaddr b < 4096
      then disk s (diskno s) (b * BLKSECTS + (x - blockaddr b) div SECTSIZE) (unat ((x - blockaddr b) mod SECTSIZE))
      else fmem s x) = (\<lambda>x. if PGNUM x = PGNUM (blockaddr b) then disk_byte s x else fmem s x)"
    using in_block [OF assms(2)] by (auto simp: disk_byte_def fun_eq_iff)
  with l have "ide_read (b * BLKSECTS) (blockaddr b) BLKSECTS s = Some (Inr (), s\<lparr>fmem := (\<lambda>x.
      if PGNUM x = PGNUM (blockaddr b) then disk_byte s x else fmem s x), pdirty := pd\<rparr>)"
    using ide_lba_block [OF assms(2)] by (simp add: ide_read_def)
  moreover have "\<forall>p. p \<noteq> PGNUM (blockaddr b) \<longrightarrow> pd p = pdirty s p"
    using pd PGNUM_sector [OF assms(2)] by simp
  ultimately show ?thesis by blast
qed

section \<open>Touching a page\<close>

text \<open>What every access keeps besides the view.\<close>

definition ext :: "fs \<Rightarrow> fs \<Rightarrow> bool" where
  "ext s s' \<longleftrightarrow> (\<forall>p. mapped s p \<longrightarrow> mapped s' p) \<and> opentab s' = opentab s \<and>
     (\<forall>x. \<not> in_map x \<longrightarrow> mapped s' (PGNUM x) = mapped s (PGNUM x) \<and>
                        page_refs s' (PGNUM x) = page_refs s (PGNUM x))"

lemma ext_refl [simp]: "ext s s"
  by (simp add: ext_def)

lemma ext_trans: "ext s s' \<Longrightarrow> ext s' s'' \<Longrightarrow> ext s s''"
  by (auto simp: ext_def)

lemma ext_mapped: "ext s s' \<Longrightarrow> mapped s p \<Longrightarrow> mapped s' p"
  by (simp add: ext_def)

lemma unat_bm_word: "unat (4 * ((b :: u32) div 32)) = 4 * (unat b div 32)"
  using unat_less_32 [of b] by (simp add: unat_word_ariths unat_div less_mult_imp_div_less)

lemma bmaddr_split:
  assumes "b < 0xC0000"
  shows "bmaddr b = blockaddr (2 + b div 0x8000) + 4 * (b div 32 mod 1024)"
    and "2 + b div 0x8000 < 0xC0000" and "unat (4 * (b div 32 mod 1024)) < 4096"
    and "unat (2 + b div 0x8000) = 2 + unat b div 0x8000"
proof -
  have b: "unat b < 0xC0000" using assms by (simp add: word_less_nat_alt)
  have o1: "unat (4 * (b div 32 mod 1024)) = 4 * (unat b div 32 mod 1024)"
  proof -
    have "unat b div 32 mod 1024 < 1024" by simp
    moreover have "unat (b div 32 mod 1024) = unat b div 32 mod 1024"
      by (simp add: unat_div unat_mod)
    ultimately show ?thesis by (simp add: unat_word_ariths)
  qed
  show o: "unat (4 * (b div 32 mod 1024)) < 4096" unfolding o1 by simp
  have "unat b div 0x8000 < 24" using b by (simp add: less_mult_imp_div_less)
  then show q: "unat (2 + b div 0x8000) = 2 + unat b div 0x8000"
    by (subst unat_add_no_wrap) (simp_all add: unat_div)
  with \<open>unat b div 0x8000 < 24\<close> show l: "2 + b div 0x8000 < 0xC0000"
    by (simp add: word_less_nat_alt)
  have "unat (bmaddr b) = unat (blockaddr 2 + 0) + 4 * (unat b div 32)"
    unfolding bmaddr_def using b unat_blockaddr [of 2 0]
    by (subst unat_add_no_wrap) (simp_all add: unat_bm_word)
  also have "unat (blockaddr 2 + 0) = 0x10002000"
    using unat_blockaddr [of 2 0] by simp
  also have "unat b div 32 = 1024 * (unat b div 0x8000) + unat b div 32 mod 1024"
    using div_mult2_eq [of "unat b" 32 1024] by simp
  finally have "unat (bmaddr b) = unat (blockaddr (2 + b div 0x8000) + 4 * (b div 32 mod 1024))"
    using unat_blockaddr [OF l o] by (simp add: q o1)
  then show "bmaddr b = blockaddr (2 + b div 0x8000) + 4 * (b div 32 mod 1024)"
    by (simp add: word_unat_eq_iff)
qed

lemma resv_block:
  assumes "b < nblk v"
  shows "2 + unat b div 0x8000 < resv v"
proof -
  have "unat b + 1 \<le> unat (nblk v)" using assms by (simp add: word_less_nat_alt)
  then have "(unat b + 1 + 32767) div 32768 \<le> (unat (nblk v) + 32767) div 32768"
    by (intro div_le_mono) simp
  then show ?thesis by (simp add: resv_def)
qed

lemma fs_okD:
  assumes "fs_ok s"
  shows "super s = blockaddr 1" "bitmap s = blockaddr 2" "vol_ok (view s)"
    "mapped s (PGNUM (blockaddr 1))" "nblk (view s) \<le> 0xC0000" "3 \<le> unat (nblk (view s))"
    "b < nblk (view s) \<Longrightarrow> mapped s (PGNUM (bmaddr b))"
proof -
  note d = assms [unfolded fs_ok_def]
  show "super s = blockaddr 1" "bitmap s = blockaddr 2" "vol_ok (view s)" using d by auto
  then show n: "nblk (view s) \<le> 0xC0000" by (simp add: vol_ok_def)
  have r: "2 \<le> resv (view s)" "resv (view s) \<le> unat (nblk (view s))"
    using d by (auto simp: vol_ok_def resv_def)
  then show "3 \<le> unat (nblk (view s))" by (simp add: resv_def)
  from r show "mapped s (PGNUM (blockaddr 1))" using d by simp
  assume b: "b < nblk (view s)"
  then have lb: "b < 0xC0000" using n by simp
  from resv_block [OF b] bmaddr_split(4) [OF lb] have "mapped s (PGNUM (blockaddr (2 + b div 0x8000)))"
    using d by (simp add: word_le_nat_alt)
  then show "mapped s (PGNUM (bmaddr b))"
    using PGNUM_blockaddr [OF bmaddr_split(2,3) [OF lb]] PGNUM_blockaddr [OF bmaddr_split(2) [OF lb], of 0]
    by (simp add: bmaddr_split(1) [OF lb])
qed

lemma get32_page:
  assumes "a mod 4 = 0" "\<And>x. PGNUM x = PGNUM a \<Longrightarrow> m x = m' x"
  shows "get32 m a = get32 m' a"
  using page_of_word [OF assms(1), of 1] page_of_word [OF assms(1), of 2] page_of_word [OF assms(1), of 3]
  by (simp add: get32_def assms(2))

lemma get32_cached: "a mod 4 = 0 \<Longrightarrow> mapped s (PGNUM a) \<Longrightarrow> get32 (fmem s) a = get32 (view s) a"
  by (rule get32_page) (simp_all add: view_def)

lemma blockaddr_aligned: "x mod 4 = 0 \<Longrightarrow> (blockaddr b + x) mod 4 = 0"
proof -
  assume x: "x mod 4 = 0"
  have add: "unat (y + z) mod 4 = (unat y mod 4 + unat z mod 4) mod 4" for y z :: u32
    by (simp add: unat_word_ariths mod_mod_cancel mod_add_eq)
  have "unat (b * BLKSIZE) mod 4 = unat b * 4096 mod 4"
    by (simp add: unat_word_ariths mod_mod_cancel)
  also have "\<dots> = 0" using dvd_mult [of 4 4096 "unat b"] by (simp add: dvd_eq_mod_eq_0)
  finally have "unat (blockaddr b) mod 4 = 0" by (simp add: blockaddr_def add)
  with x show ?thesis by (simp add: unat_aligned add)
qed

text \<open>The block of a fault is read in: the view stays, the block is now cached and clean.\<close>

definition page_in :: "u32 \<Rightarrow> fs \<Rightarrow> (u32 \<Rightarrow> bool) \<Rightarrow> fs" where
  "page_in b s pd = s\<lparr>fmem := (\<lambda>x. if PGNUM x = PGNUM (blockaddr b) then disk_byte s x else fmem s x),
     mapped := (mapped s)(PGNUM (blockaddr b) := True), pdirty := pd,
     page_refs := (page_refs s)(PGNUM (blockaddr b) := 1), free_pages := free_pages s - 1\<rparr>"

lemma page_in_steps:
  assumes "\<forall>sec. \<not> bad_sector s (diskno s) sec" "b < 0xC0000" "free_pages s \<noteq> 0"
  shows "\<exists>pd s1 s2. user_page_alloc (blockaddr b) s = (Inr (), s1) \<and>
     ide_read (b * BLKSECTS) (blockaddr b) BLKSECTS s1 = Some (Inr (), s2) \<and>
     remap_clean (blockaddr b) s2 = page_in b s pd \<and>
     (\<forall>p. pd p = (if p = PGNUM (blockaddr b) then False else pdirty s p))"
proof -
  let ?s1 = "snd (user_page_alloc (blockaddr b) s)"
  have s1: "user_page_alloc (blockaddr b) s = (Inr (), ?s1)"
    using assms(3) by (simp add: user_page_alloc_def)
  have "\<forall>sec. \<not> bad_sector ?s1 (diskno ?s1) sec" using assms(1,3) by (simp add: user_page_alloc_def)
  from ide_read_block [OF this assms(2)] obtain pd where
    r: "ide_read (b * BLKSECTS) (blockaddr b) BLKSECTS ?s1 = Some (Inr (), ?s1\<lparr>fmem := (\<lambda>x.
      if PGNUM x = PGNUM (blockaddr b) then disk_byte ?s1 x else fmem ?s1 x), pdirty := pd\<rparr>)"
    and pd: "\<forall>p. p \<noteq> PGNUM (blockaddr b) \<longrightarrow> pd p = pdirty ?s1 p" by blast
  have "remap_clean (blockaddr b) (?s1\<lparr>fmem := (\<lambda>x.
      if PGNUM x = PGNUM (blockaddr b) then disk_byte ?s1 x else fmem ?s1 x), pdirty := pd\<rparr>)
    = page_in b s (pd(PGNUM (blockaddr b) := False))"
    using assms(3) by (auto simp: page_in_def remap_clean_def user_page_alloc_def disk_byte_def fun_eq_iff)
  moreover have "\<forall>p. (pd(PGNUM (blockaddr b) := False)) p = (if p = PGNUM (blockaddr b) then False else pdirty s p)"
    using pd assms(3) by (simp add: user_page_alloc_def)
  ultimately show ?thesis using s1 r by blast
qed

lemma view_page_in:
  assumes "b < 0xC0000" "\<not> mapped s (PGNUM (blockaddr b))"
  shows "view (page_in b s pd) = view s"
proof
  fix x
  show "view (page_in b s pd) x = view s x"
    using in_block [OF assms(1), of x] assms(2)
    by (auto simp: view_def page_in_def disk_byte_def)
qed

lemma uncached_page_in:
  assumes "b < nblk (view s)" "nblk (view s) \<le> 0xC0000" "\<not> mapped s (PGNUM (blockaddr b))"
  shows "uncached (page_in b s pd) = uncached s - {b}" "b \<in> uncached s"
proof -
  have b: "b < 0xC0000" using assms(1,2) by simp
  have "PGNUM (blockaddr c) = PGNUM (blockaddr b) \<longleftrightarrow> c = b" if "c < nblk (view s)" for c
  proof -
    have "c < 0xC0000" using that assms(2) by simp
    then show ?thesis
      using PGNUM_blockaddr [OF b, of 0] PGNUM_blockaddr [of c 0] by simp
  qed
  then show "uncached (page_in b s pd) = uncached s - {b}"
    unfolding uncached_def view_page_in [OF b assms(3)] by (auto simp: page_in_def)
  show "b \<in> uncached s" using assms by (simp add: uncached_def)
qed

lemma fs_ok_page_in:
  assumes ok: "fs_ok s" and b: "b < nblk (view s)" and m: "\<not> mapped s (PGNUM (blockaddr b))"
    and pd: "\<forall>p. pd p = (if p = PGNUM (blockaddr b) then False else pdirty s p)"
  shows "fs_ok (page_in b s pd)" "free_pages s \<noteq> 0"
proof -
  have n: "nblk (view s) \<le> 0xC0000" using fs_okD [OF ok] by simp
  then have lb: "b < 0xC0000" using b by simp
  note u = uncached_page_in [OF b n m]
  have fin: "finite (uncached s)" by simp
  have c: "card (uncached s) \<le> free_pages s" using ok by (simp add: fs_ok_def)
  have "card (uncached s) \<noteq> 0" using u(2) by auto
  with c show "free_pages s \<noteq> 0" by linarith
  have c': "card (uncached (page_in b s pd)) \<le> free_pages s - 1"
    unfolding u(1) using c card_Diff_singleton [OF u(2)] by simp
  show "fs_ok (page_in b s pd)"
    unfolding fs_ok_def view_page_in [OF lb m]
    using ok [unfolded fs_ok_def] c' pd by (auto simp: page_in_def disk_byte_def)
qed

lemma ext_page_in: "b < 0xC0000 \<Longrightarrow> ext s (page_in b s pd)"
  using in_block [of b] by (auto simp: ext_def page_in_def)

text \<open>An accessible address: its page is mapped, or it lies in an allocated block.\<close>

definition acc :: "fs \<Rightarrow> u32 \<Rightarrow> bool" where
  "acc s a \<longleftrightarrow> mapped s (PGNUM a) \<or>
     in_map a \<and> blockno a < nblk (view s) \<and> \<not> isfree (view s) (blockno a)"

lemma word_aligned: "(blockaddr b + 4) mod 4 = 0" "bmaddr b mod 4 = 0"
proof -
  show "(blockaddr b + 4) mod 4 = 0" by (rule blockaddr_aligned) simp
  have "unat (4 * (b div 32)) mod 4 = 0" by (simp add: unat_bm_word)
  then have "4 * (b div 32) mod 4 = 0" by (simp only: unat_aligned)
  then show "bmaddr b mod 4 = 0" unfolding bmaddr_def by (rule blockaddr_aligned)
qed

lemma PGNUM_nblk: "PGNUM (blockaddr 1 + 4) = PGNUM (blockaddr 1)"
  using PGNUM_blockaddr [of 1 4] PGNUM_blockaddr [of 1 0] by simp

lemma bc_pgfault_value:
  assumes ok: "fs_ok s" and m: "in_map a" and np: "\<not> mapped s (PGNUM a)" and b: "blockno a < nblk (view s)"
  shows "\<exists>pd. bc_pgfault a s = (if isfree (view s) (blockno a) then None else Some (page_in (blockno a) s pd)) \<and>
    (\<forall>p. pd p = (if p = PGNUM (blockaddr (blockno a)) then False else pdirty s p))"
proof -
  let ?b = "blockno a"
  note ok' = fs_okD [OF ok]
  have lb: "?b < 0xC0000" using blockno_less [OF m] .
  have np': "\<not> mapped s (PGNUM (blockaddr ?b))" using np block_page [OF m] by simp
  have bad: "\<forall>sec. \<not> bad_sector s (diskno s) sec" using ok by (simp add: fs_ok_def)
  have fr: "free_pages s \<noteq> 0"
    using fs_ok_page_in(2) [OF ok b np', of "(pdirty s)(PGNUM (blockaddr ?b) := False)"] by simp
  from page_in_steps [OF bad lb fr] obtain pd s1 s2 where
    st: "user_page_alloc (blockaddr ?b) s = (Inr (), s1)"
      "ide_read (?b * BLKSECTS) (blockaddr ?b) BLKSECTS s1 = Some (Inr (), s2)"
      "remap_clean (blockaddr ?b) s2 = page_in ?b s pd"
    and pd: "\<forall>p. pd p = (if p = PGNUM (blockaddr ?b) then False else pdirty s p)" by blast
  let ?s = "page_in ?b s pd"
  have okp: "fs_ok ?s" using fs_ok_page_in [OF ok b np' pd] by simp
  have vp: "view ?s = view s" using view_page_in [OF lb np'] .
  note okp' = fs_okD [OF okp, unfolded vp]
  have n: "get32 (fmem s) (blockaddr 1 + 4) = nblk (view s)"
    using get32_cached [OF word_aligned(1)] ok'(4) PGNUM_nblk by (simp add: nblk_def)
  have n': "get32 (fmem ?s) (blockaddr 1 + 4) = nblk (view s)"
    using get32_cached [OF word_aligned(1), of ?s] okp'(4) PGNUM_nblk by (simp add: nblk_def vp)
  have w: "get32 (fmem ?s) (bmaddr ?b) = get32 (view s) (bmaddr ?b)"
    using get32_cached [OF word_aligned(2) okp'(7) [OF b]] by (simp add: vp)
  have in_range: "\<not> (a < DISKMAP \<or> DISKMAP + DISKSIZE \<le> a)" using m by (auto simp: in_map_def)
  have rd: "ROUNDDOWN a PGSIZE = blockaddr ?b" using rounddown_block [OF m] .
  have nz: "blockaddr 1 \<noteq> 0" "blockaddr 2 \<noteq> 0" by (simp_all add: blockaddr_def)
  have nle: "\<not> nblk (view s) \<le> ?b" using b by simp
  have bm: "blockaddr 2 + 4 * (?b div 32) = bmaddr ?b" by (simp add: bmaddr_def)
  have "bc_pgfault a s = (if isfree (view s) ?b then None else Some ?s)"
    apply (subst bc_pgfault.simps)
    unfolding if_not_P [OF in_range] rd ok'(1,2)
    apply (simp add: nz ok'(1,4) PGNUM_nblk n nle st okp'(1,2,4) n')
    apply (simp add: bm okp'(7) [OF b] w isfree_def b)
    done
  then show ?thesis using pd by blast
qed

lemma bc_pgfault_beyond:
  assumes ok: "fs_ok s" and b: "nblk (view s) \<le> blockno a"
  shows "bc_pgfault a s = None"
proof -
  note ok' = fs_okD [OF ok]
  have n: "get32 (fmem s) (blockaddr 1 + 4) = nblk (view s)"
    using get32_cached [OF word_aligned(1)] ok'(4) PGNUM_nblk by (simp add: nblk_def)
  have nz: "blockaddr 1 \<noteq> 0" by (simp add: blockaddr_def)
  show ?thesis
    by (subst bc_pgfault.simps) (simp add: nz ok'(1,4) PGNUM_nblk n b)
qed

lemma touch_ok:
  assumes ok: "fs_ok s" and a: "acc s a"
  shows "\<exists>s'. touch a s = Some s' \<and> fs_ok s' \<and> view s' = view s \<and> mapped s' (PGNUM a) \<and>
    ext s s' \<and> disk s' = disk s \<and> diskno s' = diskno s"
proof (cases "mapped s (PGNUM a)")
  case True
  then show ?thesis using ok by (simp add: touch_def)
next
  case False
  let ?b = "blockno a"
  have m: "in_map a" and b: "?b < nblk (view s)" and f: "\<not> isfree (view s) ?b"
    using a False by (auto simp: acc_def)
  have lb: "?b < 0xC0000" using blockno_less [OF m] .
  have np: "\<not> mapped s (PGNUM (blockaddr ?b))" using False block_page [OF m] by simp
  from bc_pgfault_value [OF ok m False b] f obtain pd where
    v: "bc_pgfault a s = Some (page_in ?b s pd)"
    and pd: "\<forall>p. pd p = (if p = PGNUM (blockaddr ?b) then False else pdirty s p)" by auto
  have "touch a s = Some (page_in ?b s pd)" using False v by (simp add: touch_def)
  moreover have "mapped (page_in ?b s pd) (PGNUM a)" using block_page [OF m] by (simp add: page_in_def)
  moreover have "disk (page_in ?b s pd) = disk s" "diskno (page_in ?b s pd) = diskno s"
    by (simp_all add: page_in_def)
  ultimately show ?thesis
    using fs_ok_page_in(1) [OF ok b np pd] view_page_in [OF lb np] ext_page_in [OF lb] by blast
qed

section \<open>Loads\<close>

text \<open>
  \<open>becomes s0 v s\<close>: the state \<open>s\<close> was reached from \<open>s0\<close> by accesses, and what the server now
  sees is \<open>v\<close>.  The rules below follow a computation from its start \<open>s0\<close>, view by view.
\<close>

definition becomes :: "fs \<Rightarrow> mem \<Rightarrow> fs \<Rightarrow> bool" where
  "becomes s0 v s \<longleftrightarrow> fs_ok s \<and> view s = v \<and> ext s0 s"

definition accv :: "fs \<Rightarrow> mem \<Rightarrow> u32 \<Rightarrow> bool" where
  "accv s0 v a \<longleftrightarrow> mapped s0 (PGNUM a) \<or> in_map a \<and> blockno a < nblk v \<and> \<not> isfree v (blockno a)"

lemma becomes_refl: "fs_ok s \<Longrightarrow> becomes s (view s) s"
  by (simp add: becomes_def)

lemma becomes_trans: "becomes s0 v s \<Longrightarrow> becomes s v' s' \<Longrightarrow> becomes s0 v' s'"
  by (auto simp: becomes_def intro: ext_trans)

lemma becomes_acc: "becomes s0 v s \<Longrightarrow> accv s0 v a \<Longrightarrow> acc s a"
  by (auto simp: becomes_def accv_def acc_def dest: ext_mapped)

lemma touch_rule:
  assumes "becomes s0 v s" "accv s0 v a"
    "\<And>s'. becomes s0 v s' \<Longrightarrow> mapped s' (PGNUM a) \<Longrightarrow> Q s'"
  shows "runs (touch a s) Q"
  using touch_ok [of s a] becomes_acc [OF assms(1,2)] assms(1,3)
  by (auto simp: becomes_def runs_def intro: ext_trans)

lemma ld8_rule:
  assumes "becomes s0 v s" "accv s0 v a" "\<And>s'. becomes s0 v s' \<Longrightarrow> Q (v a, s')"
  shows "runs (ld8 a s) Q"
proof -
  have "fmem s' a = v a" if "becomes s0 v s'" "mapped s' (PGNUM a)" for s'
    using that by (auto simp: becomes_def view_def)
  then show ?thesis
    using assms(3) by (simp add: ld8_def) (rule touch_rule [OF assms(1,2)], simp)
qed

lemma ld32_rule:
  assumes "becomes s0 v s" "accv s0 v a" "a mod 4 = 0" "\<And>s'. becomes s0 v s' \<Longrightarrow> Q (get32 v a, s')"
  shows "runs (ld32 a s) Q"
proof -
  have "get32 (fmem s') a = get32 v a" if "becomes s0 v s'" "mapped s' (PGNUM a)" for s'
    using that get32_cached [OF assms(3), of s'] by (simp add: becomes_def)
  then show ?thesis
    using assms(4) by (simp add: ld32_def) (rule touch_rule [OF assms(1,2)], simp)
qed

section \<open>Stores\<close>

lemma fs_ok_store:
  assumes ok: "fs_ok s" and m: "mapped s (PGNUM a)"
    and same: "\<forall>m x. PGNUM x \<noteq> PGNUM a \<longrightarrow> g m x = m x"
    and loc: "\<forall>m m' x. (\<forall>y. PGNUM y = PGNUM a \<longrightarrow> m y = m' y) \<longrightarrow> PGNUM x = PGNUM a \<longrightarrow> g m x = g m' x"
    and vol: "vol_ok (g (view s))" "nblk (g (view s)) = nblk (view s)"
  defines "s' \<equiv> s\<lparr>fmem := g (fmem s), pdirty := (pdirty s)(PGNUM a := True)\<rparr>"
  shows "fs_ok s'" "view s' = g (view s)" "ext s s'"
proof -
  show v: "view s' = g (view s)"
  proof
    fix x
    show "view s' x = g (view s) x"
    proof (cases "PGNUM x = PGNUM a")
      case True
      then have "g (view s) x = g (fmem s) x"
        using loc by (simp add: view_def m)
      with True m show ?thesis by (simp add: view_def s'_def)
    next
      case False
      with same show ?thesis by (auto simp: view_def s'_def disk_byte_def)
    qed
  qed
  have "uncached s' = uncached s" unfolding uncached_def v vol(2) by (simp add: s'_def)
  moreover have "resv (g (view s)) = resv (view s)" using vol(2) by (simp add: resv_def)
  ultimately show "fs_ok s'"
    unfolding fs_ok_def v using ok [unfolded fs_ok_def] vol(1) same
    by (auto simp: s'_def disk_byte_def)
  show "ext s s'" by (simp add: ext_def s'_def)
qed

lemma st8_rule:
  assumes "becomes s0 v s" "accv s0 v a" "vol_ok (v(a := w))" "nblk (v(a := w)) = nblk v"
    "\<And>s'. becomes s0 (v(a := w)) s' \<Longrightarrow> Q s'"
  shows "runs (st8 a w s) Q"
proof -
  have "becomes s0 (v(a := w)) (s'\<lparr>fmem := (fmem s')(a := w), pdirty := (pdirty s')(PGNUM a := True)\<rparr>)"
    if s': "becomes s0 v s'" "mapped s' (PGNUM a)" for s'
  proof -
    have ok: "fs_ok s'" "view s' = v" "ext s0 s'" using s'(1) by (auto simp: becomes_def)
    have far: "\<forall>(m :: mem) x. PGNUM x \<noteq> PGNUM a \<longrightarrow> (m(a := w)) x = m x" by auto
    have loc: "\<forall>(m :: mem) m' x. (\<forall>y. PGNUM y = PGNUM a \<longrightarrow> m y = m' y) \<longrightarrow> PGNUM x = PGNUM a \<longrightarrow>
        (m(a := w)) x = (m'(a := w)) x" by simp
    note st = fs_ok_store [OF ok(1) s'(2), of "\<lambda>m. m(a := w)", OF far loc, unfolded ok(2), OF assms(3,4)]
    show ?thesis unfolding becomes_def using st ok(3) ext_trans by blast
  qed
  then show ?thesis
    using assms(5) by (simp add: st8_def) (rule touch_rule [OF assms(1,2)], simp)
qed

lemma st32_rule:
  assumes "becomes s0 v s" "accv s0 v a" "a mod 4 = 0" "vol_ok (put32 a w v)" "nblk (put32 a w v) = nblk v"
    "\<And>s'. becomes s0 (put32 a w v) s' \<Longrightarrow> Q s'"
  shows "runs (st32 a w s) Q"
proof -
  have pg: "PGNUM (a + 1) = PGNUM a" "PGNUM (a + 2) = PGNUM a" "PGNUM (a + 3) = PGNUM a"
    using page_of_word [OF assms(3), of 1] page_of_word [OF assms(3), of 2] page_of_word [OF assms(3), of 3]
    by simp_all
  have "becomes s0 (put32 a w v) (s'\<lparr>fmem := put32 a w (fmem s'), pdirty := (pdirty s')(PGNUM a := True)\<rparr>)"
    if s': "becomes s0 v s'" "mapped s' (PGNUM a)" for s'
  proof -
    have ok: "fs_ok s'" "view s' = v" "ext s0 s'" using s'(1) by (auto simp: becomes_def)
    have far: "\<forall>m x. PGNUM x \<noteq> PGNUM a \<longrightarrow> put32 a w m x = m x"
      using pg by (auto simp: put32_def put4_def)
    have loc: "\<forall>m m' x. (\<forall>y. PGNUM y = PGNUM a \<longrightarrow> m y = m' y) \<longrightarrow> PGNUM x = PGNUM a \<longrightarrow>
        put32 a w m x = put32 a w m' x"
      by (simp add: put32_def put4_def)
    note st = fs_ok_store [OF ok(1) s'(2), of "put32 a w", OF far loc, unfolded ok(2), OF assms(4,5)]
    show ?thesis unfolding becomes_def using st ok(3) ext_trans by blast
  qed
  then show ?thesis
    using assms(6) by (simp add: st32_def) (rule touch_rule [OF assms(1,2)], simp)
qed

end
