(* ===== verification/FsOps.thy ===== *)
theory FsOps
  imports FsAccess
begin

text \<open>
  The block cache and the bitmap by their effect on the view: writing a block back changes
  nothing the server sees, and taking or giving back a block changes one bit of the bitmap.
\<close>

section \<open>Writing back\<close>

lemma ide_write_loop_ok:
  assumes "\<forall>sec. \<not> bad_sector s (diskno s) sec" "n \<le> 8"
  shows "ide_write_loop n sec src s = (Inr (), s\<lparr>disk := (disk s)(diskno s := (\<lambda>q. if q - sec < of_nat n
      then sector_out (fmem s) (src + (q - sec) * SECTSIZE) else disk s (diskno s) q))\<rparr>)"
  using assms
proof (induction n arbitrary: sec src s)
  case 0
  then show ?case by simp
next
  case (Suc n)
  let ?s = "s\<lparr>disk := (disk s)(diskno s := (disk s (diskno s))(sec := sector_out (fmem s) src))\<rparr>"
  have n: "n < 8" using Suc.prems(2) by simp
  have eq: "q - sec < of_nat (Suc n) \<longleftrightarrow> q = sec \<or> q - (sec + 1) < of_nat n"
    and eq0: "\<not> sec - (sec + 1) < of_nat n" for q :: u32
  proof -
    have u: "unat (of_nat n :: u32) = n" "unat (of_nat (Suc n) :: u32) = Suc n"
      using n by (simp_all add: unat_of_nat32 del: of_nat_Suc)
    show "q - sec < of_nat (Suc n) \<longleftrightarrow> q = sec \<or> q - (sec + 1) < of_nat n"
    proof (cases "q = sec")
      case True
      then show ?thesis by (simp add: word_less_nat_alt u del: of_nat_Suc)
    next
      case False
      then have "unat (q - sec) \<noteq> 0" by (simp add: unat_eq_zero)
      moreover have "unat ((q - sec) - 1) = unat (q - sec) - 1"
        by (rule unat_minus_one) (use False in simp)
      moreover have "q - (sec + 1) = (q - sec) - 1" by simp
      ultimately have "unat (q - (sec + 1)) = unat (q - sec) - 1" by metis
      with False \<open>unat (q - sec) \<noteq> 0\<close> show ?thesis unfolding word_less_nat_alt u by auto
    qed
    show "\<not> sec - (sec + 1) < of_nat n"
    proof -
      have "sec - (sec + 1) = - 1" by simp
      moreover have "\<not> (- 1 :: u32) < of_nat n" unfolding word_less_nat_alt u using n
        by (simp add: unsigned_minus_1_eq_mask mask_eq_exp_minus_1)
      ultimately show ?thesis by simp
    qed
  qed
  have ih: "ide_write_loop n (sec + 1) (src + SECTSIZE) ?s = (Inr (), ?s\<lparr>disk := (disk ?s)(diskno ?s := (\<lambda>q.
      if q - (sec + 1) < of_nat n then sector_out (fmem ?s) (src + SECTSIZE + (q - (sec + 1)) * SECTSIZE)
      else disk ?s (diskno ?s) q))\<rparr>)"
    by (rule Suc.IH) (use Suc.prems in auto)
  have "(\<lambda>q. if q - (sec + 1) < of_nat n then sector_out (fmem ?s) (src + SECTSIZE + (q - (sec + 1)) * SECTSIZE)
      else disk ?s (diskno ?s) q)
    = (\<lambda>q. if q - sec < of_nat (Suc n) then sector_out (fmem s) (src + (q - sec) * SECTSIZE) else disk s (diskno s) q)"
    using eq0 by (auto simp: eq fun_eq_iff algebra_simps simp del: of_nat_Suc)
  with ih Suc.prems(1) show ?case by (simp del: of_nat_Suc add: fun_upd_def cong: if_cong)
qed

lemma sector_of_block:
  assumes "b < 0xC0000" "c < 0xC0000" "unat x < 4096"
  shows "b * BLKSECTS + x div SECTSIZE - c * BLKSECTS < 8 \<longleftrightarrow> b = c"
proof -
  have u: "unat (y * BLKSECTS + x div SECTSIZE) = unat y * 8 + unat x div 512" if "y < 0xC0000" for y
  proof -
    have "unat y < 0xC0000" using that by (simp add: word_less_nat_alt)
    moreover have "unat x div 512 < 8" using assms(3) by (simp add: less_mult_imp_div_less)
    ultimately show ?thesis by (simp add: unat_word_ariths unat_div)
  qed
  have uc: "unat (c * BLKSECTS) = unat c * 8"
    using assms(2) by (simp add: unat_word_ariths word_less_nat_alt)
  have x: "unat x div 512 < 8" using assms(3) by (simp add: less_mult_imp_div_less)
  have lim: "unat b < 0xC0000" "unat c < 0xC0000" using assms(1,2) by (simp_all add: word_less_nat_alt)
  show ?thesis
  proof (cases "unat c \<le> unat b")
    case True
    then have "unat (b * BLKSECTS + x div SECTSIZE - c * BLKSECTS) = unat b * 8 + unat x div 512 - unat c * 8"
      by (subst unat_sub) (simp_all add: word_le_nat_alt u [OF assms(1)] uc)
    with True x show ?thesis unfolding word_less_nat_alt word_unat_eq_iff by auto
  next
    case False
    then have "unat (b * BLKSECTS + x div SECTSIZE - c * BLKSECTS)
      = 2 ^ 32 + (unat b * 8 + unat x div 512) - unat c * 8"
      using x lim by (simp add: unat_sub_if_size word_size word_le_nat_alt u [OF assms(1)] uc)
    with False lim show ?thesis unfolding word_less_nat_alt word_unat_eq_iff by auto
  qed
qed

lemma sector_byte:
  assumes "in_map x"
  shows "x = blockaddr (blockno x) + boff x div SECTSIZE * SECTSIZE + of_nat (unat (boff x mod SECTSIZE))"
proof -
  have "boff x = boff x div SECTSIZE * SECTSIZE + boff x mod SECTSIZE" by (simp add: div_mult_mod_eq)
  then show ?thesis using block_split [OF assms] by (simp add: add.assoc)
qed

text \<open>A flushed block is clean and on the disk as it is in memory; no other block changes.\<close>

lemma flush_block_ok:
  assumes ok: "fs_ok s" and m: "in_map a"
  shows "\<exists>s'. flush_block a s = Some s' \<and> fs_ok s' \<and> view s' = view s \<and> ext s s' \<and>
    mapped s' = mapped s \<and> (mapped s (PGNUM a) \<longrightarrow> \<not> pdirty s' (PGNUM a)) \<and>
    (\<forall>p. pdirty s' p \<longrightarrow> pdirty s p)"
proof (cases "mapped s (PGNUM a) \<and> pdirty s (PGNUM a)")
  case False
  have pg: "PGNUM (ROUNDDOWN a PGSIZE) = PGNUM a" using rounddown_block [OF m] block_page [OF m] by simp
  have "flush_block a s = Some s"
    using m False pg unfolding flush_block_def va_is_mapped_def va_is_dirty_def in_map_def
    by (auto simp: Let_def)
  then show ?thesis using ok False by auto
next
  case True
  let ?b = "blockno a"
  have pg: "PGNUM (ROUNDDOWN a PGSIZE) = PGNUM a" using rounddown_block [OF m] block_page [OF m] by simp
  have bad: "\<forall>sec. \<not> bad_sector s (diskno s) sec" using ok by (simp add: fs_ok_def)
  define d where "d = (\<lambda>q. if q - ?b * BLKSECTS < 8
      then sector_out (fmem s) (blockaddr ?b + (q - ?b * BLKSECTS) * SECTSIZE) else disk s (diskno s) q)"
  define s' where "s' = remap_clean (blockaddr ?b) (s\<lparr>disk := (disk s)(diskno s := d)\<rparr>)"
  have "ide_write (?b * BLKSECTS) (ROUNDDOWN a PGSIZE) BLKSECTS s = Some (Inr (), s\<lparr>disk := (disk s)(diskno s := d)\<rparr>)"
    using ide_write_loop_ok [OF bad, of 8] ide_lba_block [OF blockno_less [OF m]]
    by (simp add: ide_write_def rounddown_block [OF m] d_def)
  then have fl: "flush_block a s = Some s'"
    using m True pg unfolding flush_block_def va_is_mapped_def va_is_dirty_def in_map_def s'_def
    by (auto simp: Let_def rounddown_block [OF m])
  have db: "disk_byte s' x = (if blockno x = ?b then fmem s x else disk_byte s x)" if x: "in_map x" for x
  proof -
    have "blockno x * BLKSECTS + boff x div SECTSIZE - ?b * BLKSECTS < 8 \<longleftrightarrow> blockno x = ?b"
      by (rule sector_of_block [OF blockno_less [OF x] blockno_less [OF m] boff_less])
    moreover have "fmem s (blockaddr (blockno x) + boff x div SECTSIZE * SECTSIZE + of_nat (unat (boff x mod SECTSIZE)))
      = fmem s x" using sector_byte [OF x] by simp
    ultimately show ?thesis
      by (auto simp: disk_byte_def s'_def remap_clean_def d_def sector_out_def)
  qed
  have v: "view s' = view s"
  proof
    fix x
    have "\<not> mapped s (PGNUM x) \<Longrightarrow> in_map x \<Longrightarrow> blockno x \<noteq> ?b"
      using True same_page_block [OF m, of x] by auto
    then show "view s' x = view s x"
      using db [of x] by (auto simp: view_def) (simp_all add: s'_def remap_clean_def)
  qed
  have "uncached s' = uncached s" unfolding uncached_def v by (simp add: s'_def remap_clean_def)
  moreover have "fmem s x = disk_byte s' x" if "in_map x" "mapped s (PGNUM x)" "\<not> pdirty s' (PGNUM x)" for x
  proof (cases "blockno x = ?b")
    case True
    then show ?thesis using db [OF that(1)] by simp
  next
    case False
    then have "PGNUM x \<noteq> PGNUM (blockaddr ?b)"
      using same_page_block [OF m that(1)] block_page [OF m] by simp
    then have "\<not> pdirty s (PGNUM x)" using that(3) by (simp add: s'_def remap_clean_def)
    then show ?thesis using that ok db [OF that(1)] False by (simp add: fs_ok_def)
  qed
  ultimately have "fs_ok s'"
    using ok v unfolding fs_ok_def by (auto simp: s'_def remap_clean_def)
  moreover have "ext s s'" by (simp add: ext_def s'_def remap_clean_def)
  ultimately show ?thesis
    using fl v block_page [OF m] by (auto simp: s'_def remap_clean_def)
qed

lemma flush_rule:
  assumes "becomes s0 v s" "in_map a" "\<And>s'. becomes s0 v s' \<Longrightarrow> Q s'"
  shows "runs (flush_block a s) Q"
proof -
  from assms(1) have "fs_ok s" "view s = v" "ext s0 s" by (auto simp: becomes_def)
  with flush_block_ok [OF \<open>fs_ok s\<close> assms(2)] assms(3) show ?thesis
    by (auto simp: runs_def becomes_def intro: ext_trans)
qed

lemma flush_clean_rule:
  assumes "becomes s0 v s" "in_map a" "mapped s (PGNUM a)"
    "\<And>s'. becomes s0 v s' \<Longrightarrow> \<not> pdirty s' (PGNUM a) \<Longrightarrow> Q s'"
  shows "runs (flush_block a s) Q"
proof -
  from assms(1) have "fs_ok s" "view s = v" "ext s0 s" by (auto simp: becomes_def)
  with flush_block_ok [OF \<open>fs_ok s\<close> assms(2)] assms(3,4) show ?thesis
    by (auto simp: runs_def becomes_def intro: ext_trans)
qed

section \<open>The super block and the bitmap\<close>

lemma in_map_block [simp]: "b < 0xC0000 \<Longrightarrow> in_map (blockaddr b)"
  and blockno_block [simp]: "b < 0xC0000 \<Longrightarrow> blockno (blockaddr b) = b"
  using blockaddr_offset [of b 0] by simp_all

lemma becomesD:
  assumes "becomes s0 v s"
  shows "super s = blockaddr 1" "bitmap s = blockaddr 2" "vol_ok v" "nblk v \<le> 0xC0000" "3 \<le> unat (nblk v)"
  using assms fs_okD [of s] by (auto simp: becomes_def)

lemma vol_okD:
  assumes "vol_ok v"
  shows "nblk v \<le> 0xC0000" "2 \<le> resv v" "3 \<le> unat (nblk v)" "resv v \<le> unat (nblk v)"
    "unat b < resv v \<Longrightarrow> \<not> isfree v b" "b < nblk v \<Longrightarrow> b < 0xC0000"
proof -
  show "nblk v \<le> 0xC0000" "resv v \<le> unat (nblk v)" "unat b < resv v \<Longrightarrow> \<not> isfree v b"
    using assms by (auto simp: vol_ok_def)
  then show "b < nblk v \<Longrightarrow> b < 0xC0000" by simp
  show "2 \<le> resv v" by (simp add: resv_def)
  then show "3 \<le> unat (nblk v)" using \<open>resv v \<le> unat (nblk v)\<close> by (simp add: resv_def)
qed

lemma accv_block:
  assumes "vol_ok v" "b < nblk v" "\<not> isfree v b" "unat x < 4096"
  shows "accv s0 v (blockaddr b + x)"
  using blockaddr_offset [OF vol_okD(6) [OF assms(1,2)] assms(4)] assms(2,3) by (simp add: accv_def)

lemma accv_resv:
  assumes "vol_ok v" "unat b < resv v" "unat x < 4096"
  shows "accv s0 v (blockaddr b + x)"
proof -
  have "b < nblk v" using assms(2) vol_okD(4) [OF assms(1)] by (simp add: word_less_nat_alt)
  then show ?thesis using accv_block [OF assms(1)] vol_okD(5) [OF assms(1,2)] assms(3) by blast
qed

lemma accv_nblk: "vol_ok v \<Longrightarrow> accv s0 v (blockaddr 1 + 4)"
  using vol_okD(2) [of v] by (intro accv_resv) simp_all

lemma accv_bm: "vol_ok v \<Longrightarrow> b < nblk v \<Longrightarrow> accv s0 v (bmaddr b)"
proof -
  assume v: "vol_ok v" and b: "b < nblk v"
  note lb = vol_okD(6) [OF v b]
  show ?thesis unfolding bmaddr_split(1) [OF lb]
    by (rule accv_resv [OF v _ bmaddr_split(3) [OF lb]]) (use resv_block [OF b] bmaddr_split(4) [OF lb] in simp)
qed

lemma nblk_rule:
  assumes "becomes s0 v s" "\<And>s'. becomes s0 v s' \<Longrightarrow> Q (nblk v, s')"
  shows "runs (ld32 (super s + 4) s) Q"
  unfolding becomesD(1) [OF assms(1)]
  by (rule ld32_rule [OF assms(1) accv_nblk word_aligned(1)])
    (use becomesD(3) [OF assms(1)] assms(2) in \<open>simp_all add: nblk_def\<close>)

lemma diskaddr_rule:
  assumes "becomes s0 v s" "b \<noteq> 0" "b < nblk v" "\<And>s'. becomes s0 v s' \<Longrightarrow> Q (blockaddr b, s')"
  shows "runs (diskaddr b s) Q"
proof -
  have nz: "super s \<noteq> 0" using becomesD(1) [OF assms(1)] by (simp add: blockaddr_def)
  show ?thesis using assms(2,3) nz
    by (simp add: diskaddr_def) (rule nblk_rule [OF assms(1)], use assms(4) in \<open>simp add: blockaddr_def\<close>)
qed

lemma bmword_rule:
  assumes "becomes s0 v s" "b < nblk v" "\<And>s'. becomes s0 v s' \<Longrightarrow> Q (get32 v (bmaddr b), s')"
  shows "runs (ld32 (bitmap s + 4 * (b div 32)) s) Q"
  unfolding becomesD(2) [OF assms(1)] bmaddr_def [symmetric]
  by (rule ld32_rule [OF assms(1) accv_bm word_aligned(2)]) (use becomesD(3) [OF assms(1)] assms in auto)

lemma block_is_free_rule:
  assumes "becomes s0 v s" "\<And>s'. becomes s0 v s' \<Longrightarrow> Q (isfree v b, s')"
  shows "runs (block_is_free b s) Q"
proof -
  have nz: "super s \<noteq> 0" using becomesD(1) [OF assms(1)] by (simp add: blockaddr_def)
  show ?thesis
  proof (cases "b < nblk v")
    case True
    then have le: "\<not> nblk v \<le> b" by simp
    have q: "becomes s0 v s' \<Longrightarrow> Q (bit (get32 v (bmaddr b)) (unat (b mod 32)), s')" for s'
      using assms(2) [of s'] True by (simp add: isfree_def)
    show ?thesis using nz
      by (simp add: block_is_free_def)
        (rule nblk_rule [OF assms(1)], simp add: le, rule bmword_rule [OF _ True], assumption, simp add: q)
  next
    case False
    then have le: "nblk v \<le> b" by simp
    have q: "becomes s0 v s' \<Longrightarrow> Q (False, s')" for s'
      using assms(2) [of s'] False by (simp add: isfree_def)
    show ?thesis using nz
      by (simp add: block_is_free_def) (rule nblk_rule [OF assms(1)], simp add: le q)
  qed
qed

section \<open>Taking and giving back a block\<close>

definition mark_used :: "u32 \<Rightarrow> mem \<Rightarrow> mem" where
  "mark_used b v = put32 (bmaddr b) (get32 v (bmaddr b) AND NOT (push_bit (unat (b mod 32)) 1)) v"

definition mark_free :: "u32 \<Rightarrow> mem \<Rightarrow> mem" where
  "mark_free b v = put32 (bmaddr b) (get32 v (bmaddr b) OR push_bit (unat (b mod 32)) 1) v"

text \<open>As the simplifier writes them.\<close>

lemma mark_pow:
  "put32 (bmaddr b) (get32 v (bmaddr b) AND NOT (2 ^ unat (b mod 32))) v = mark_used b v"
  "put32 (bmaddr b) (get32 v (bmaddr b) OR 2 ^ unat (b mod 32)) v = mark_free b v"
  by (simp_all add: mark_used_def mark_free_def)

lemma bmaddr_map:
  assumes "b < 0xC0000"
  shows "in_map (bmaddr b)" "unat (blockno (bmaddr b)) = 2 + unat b div 0x8000"
  using blockaddr_offset [OF bmaddr_split(2,3) [OF assms]] bmaddr_split(1,4) [OF assms] by simp_all

lemma bmaddr_eq:
  assumes "b < 0xC0000" "c < 0xC0000"
  shows "bmaddr b = bmaddr c \<longleftrightarrow> b div 32 = c div 32"
proof -
  have "bmaddr b = bmaddr c \<longleftrightarrow> unat (4 * (b div 32)) = unat (4 * (c div 32))"
    by (simp add: bmaddr_def word_unat_eq_iff [symmetric])
  then show ?thesis by (simp add: unat_bm_word word_unat_eq_iff unat_div)
qed

lemma bmaddr_nblk: "b < 0xC0000 \<Longrightarrow> bmaddr b \<noteq> blockaddr 1 + 4"
  using bmaddr_map [of b] blockaddr_offset [of 1 4] by auto

lemma nblk_put32: "a mod 4 = 0 \<Longrightarrow> a \<noteq> blockaddr 1 + 4 \<Longrightarrow> nblk (put32 a w v) = nblk v"
  unfolding nblk_def by (rule get32_put32_other [OF _ word_aligned(1)])

lemma isfree_put32:
  "a mod 4 = 0 \<Longrightarrow> a \<noteq> blockaddr 1 + 4 \<Longrightarrow> (d < nblk v \<Longrightarrow> a \<noteq> bmaddr d) \<Longrightarrow>
   isfree (put32 a w v) d = isfree v d"
  using get32_put32_other [OF _ word_aligned(2), of a d] by (auto simp: isfree_def nblk_put32)

lemma nblk_mark: "b < 0xC0000 \<Longrightarrow> nblk (mark_used b v) = nblk v" "b < 0xC0000 \<Longrightarrow> nblk (mark_free b v) = nblk v"
  by (simp_all add: mark_used_def mark_free_def nblk_put32 word_aligned bmaddr_nblk)

lemma same_word: "b div 32 = c div 32 \<Longrightarrow> unat (b mod 32) = unat (c mod 32) \<longleftrightarrow> (b :: u32) = c"
  by (metis div_mult_mod_eq word_unat_eq_iff)

lemma bit_index_less: "unat ((b :: u32) mod 32) < 32"
  by (simp add: unat_mod)

lemma isfree_mark:
  assumes "vol_ok v" "b < nblk v"
  shows "isfree (mark_used b v) d \<longleftrightarrow> isfree v d \<and> d \<noteq> b"
    and "isfree (mark_free b v) d \<longleftrightarrow> isfree v d \<or> d = b"
proof -
  have lb: "b < 0xC0000" using vol_okD(6) assms by blast
  have ld: "d < nblk v \<Longrightarrow> d < 0xC0000" using vol_okD(6) assms(1) by blast
  show "isfree (mark_used b v) d \<longleftrightarrow> isfree v d \<and> d \<noteq> b"
  proof (cases "d < nblk v \<and> bmaddr b = bmaddr d")
    case True
    then have q: "b div 32 = d div 32" using bmaddr_eq [OF lb] ld by blast
    show ?thesis using True nblk_mark(1) [OF lb, of v] same_word [OF q] bit_index_less [of d]
      by (auto simp: isfree_def mark_used_def bit_simps)
  next
    case False
    then show ?thesis
      using assms(2) isfree_put32 [OF word_aligned(2) bmaddr_nblk [OF lb], of d v]
      by (auto simp: mark_used_def isfree_def)
  qed
  show "isfree (mark_free b v) d \<longleftrightarrow> isfree v d \<or> d = b"
  proof (cases "d < nblk v \<and> bmaddr b = bmaddr d")
    case True
    then have q: "b div 32 = d div 32" using bmaddr_eq [OF lb] ld by blast
    show ?thesis using True nblk_mark(2) [OF lb, of v] same_word [OF q] bit_index_less [of d]
      by (auto simp: isfree_def mark_free_def bit_simps)
  next
    case False
    then show ?thesis
      using assms(2) isfree_put32 [OF word_aligned(2) bmaddr_nblk [OF lb], of d v]
      by (auto simp: mark_free_def isfree_def)
  qed
qed

lemma resv_mark: "b < 0xC0000 \<Longrightarrow> resv (mark_used b v) = resv v" "b < 0xC0000 \<Longrightarrow> resv (mark_free b v) = resv v"
  by (simp_all add: resv_def nblk_mark)

lemma vol_ok_mark_used: "vol_ok v \<Longrightarrow> b < nblk v \<Longrightarrow> vol_ok (mark_used b v)"
  using isfree_mark(1) [of v b] vol_okD(6) [of v b] by (auto simp: vol_ok_def nblk_mark resv_mark)

lemma vol_ok_mark_free: "vol_ok v \<Longrightarrow> b < nblk v \<Longrightarrow> resv v \<le> unat b \<Longrightarrow> vol_ok (mark_free b v)"
  using isfree_mark(2) [of v b] vol_okD(6) [of v b] by (auto simp: vol_ok_def nblk_mark resv_mark)

section \<open>Allocation\<close>

lemma mark_store_rule:
  assumes "becomes s0 v s" "b < nblk v" "vol_ok (put32 (bmaddr b) w v)"
    "\<And>s'. becomes s0 (put32 (bmaddr b) w v) s' \<Longrightarrow> Q s'"
  shows "runs (st32 (bitmap s + 4 * (b div 32)) w s) Q"
proof -
  have lb: "b < 0xC0000" using vol_okD(6) [OF becomesD(3) [OF assms(1)] assms(2)] .
  show ?thesis
    unfolding becomesD(2) [OF assms(1)] bmaddr_def [symmetric]
    by (rule st32_rule [OF assms(1) accv_bm [OF becomesD(3) [OF assms(1)] assms(2)] word_aligned(2) assms(3)])
      (use assms(4) nblk_put32 [OF word_aligned(2) bmaddr_nblk [OF lb]] in auto)
qed

lemma div_div_word: "(b :: u32) div 32 div 1024 = b div 0x8000"
  by (simp add: word_unat_eq_iff unat_div div_mult2_eq [symmetric])

lemma bitmap_block:
  assumes "vol_ok v" "b < nblk v"
  shows "2 + b div 32 div NINDIRECT \<noteq> 0" "2 + b div 32 div NINDIRECT < nblk v"
    "2 + b div 32 div NINDIRECT < 0xC0000"
proof -
  have lb: "b < 0xC0000" using vol_okD(6) [OF assms] .
  have u: "unat (2 + b div 32 div NINDIRECT) = 2 + unat b div 0x8000"
    using bmaddr_split(4) [OF lb] by (simp add: div_div_word)
  then show "2 + b div 32 div NINDIRECT \<noteq> 0" by (metis add_is_0 unat_0 zero_neq_numeral)
  show *: "2 + b div 32 div NINDIRECT < nblk v"
    using resv_block [OF assms(2)] vol_okD(4) [OF assms(1)] by (simp add: word_less_nat_alt u)
  show "2 + b div 32 div NINDIRECT < 0xC0000" using vol_okD(6) [OF assms(1) *] .
qed

text \<open>\<open>alloc_block\<close> takes the first free block at or above its counter.\<close>

lemma alloc_from_rule:
  assumes "becomes s0 v s"
    "\<And>s'. (\<And>c. b \<le> c \<Longrightarrow> \<not> isfree v c) \<Longrightarrow> becomes s0 v s' \<Longrightarrow> Q (Inl E_NO_DISK, s')"
    "\<And>c s'. b \<le> c \<Longrightarrow> isfree v c \<Longrightarrow> (\<And>d. b \<le> d \<Longrightarrow> d < c \<Longrightarrow> \<not> isfree v d) \<Longrightarrow>
       becomes s0 (mark_used c v) s' \<Longrightarrow> \<not> pdirty s' (PGNUM (bmaddr c)) \<Longrightarrow> Q (Inr c, s')"
  shows "runs (alloc_block_from b s) Q"
  using assms
proof (induction "unat (nblk v) - unat b" arbitrary: b s)
  case 0
  then have le: "nblk v \<le> b" by (simp add: word_le_nat_alt)
  then have "\<not> isfree v c" if "b \<le> c" for c using that by (auto simp: isfree_def)
  with 0 show ?case
    by (subst alloc_block_from.simps) (simp, rule nblk_rule [OF 0(2)], simp add: le)
next
  case (Suc k)
  have lt: "b < nblk v" using Suc.hyps(2) by (simp add: word_less_nat_alt)
  then have nle: "\<not> nblk v \<le> b" by simp
  note vol = becomesD(3) [OF Suc.prems(1)]
  have lb: "b < 0xC0000" using vol_okD(6) [OF vol lt] .
  show ?case
  proof (subst alloc_block_from.simps, simp, rule nblk_rule [OF Suc.prems(1)], simp add: nle,
      rule block_is_free_rule, assumption, simp, intro conjI impI)
    fix s' s'' assume s': "becomes s0 v s''" and f: "isfree v b"
    have vu: "vol_ok (mark_used b v)" using vol_ok_mark_used [OF vol lt] .
    note bb = bitmap_block [OF vu, unfolded nblk_mark(1) [OF lb], OF lt]
    have pb: "PGNUM (blockaddr (2 + b div 32 div NINDIRECT)) = PGNUM (bmaddr b)"
      using bmaddr_split(1) [OF lb] PGNUM_blockaddr [OF bmaddr_split(2,3) [OF lb]]
        PGNUM_blockaddr [OF bmaddr_split(2) [OF lb], of 0] by (simp add: div_div_word)
    have q: "Q (Inr b, t)" if "becomes s0 (mark_used b v) t"
        "\<not> pdirty t (PGNUM (blockaddr (2 + b div 32 div NINDIRECT)))" for t
      by (rule Suc.prems(3) [OF _ f _ that(1) that(2) [unfolded pb]]) simp_all
    have mp: "mapped t (PGNUM (blockaddr (2 + b div 32 div NINDIRECT)))" if "becomes s0 (mark_used b v) t" for t
      using that fs_okD(7) [of t b] lt nblk_mark(1) [OF lb] unfolding pb by (simp add: becomes_def)
    show "runs (ld32 (bitmap s'' + 4 * (b div 32)) s'')
     (\<lambda>x. runs (case x of (w, s) \<Rightarrow> do {
             s \<leftarrow> st32 (bitmap s + 4 * (b div 32)) (w AND NOT (2 ^ unat (b mod 32))) s;
             (a, s) \<leftarrow> diskaddr (2 + b div 32 div NINDIRECT) s;
             s \<leftarrow> flush_block a s;
             Some (Inr b, s) }) Q)"
      apply (rule bmword_rule [OF s' lt], simp)
      apply (rule mark_store_rule [OF _ lt], assumption)
       apply (use vu in \<open>simp add: mark_pow\<close>)
      apply (simp add: mark_pow)
      apply (rule diskaddr_rule, assumption, rule bb(1))
       apply (use bb(2) nblk_mark(1) [OF lb] in simp)
      apply simp
      apply (rule flush_clean_rule, assumption)
        apply (use bb(3) in simp)
       apply (erule mp)
      apply (simp add: q)
      done
  next
    fix s' s'' assume s': "becomes s0 v s''" and f: "\<not> isfree v b"
    have b1: "unat (b + 1) = unat b + 1"
      using lb by (subst unat_add_no_wrap) (simp_all add: word_less_nat_alt)
    have ge: "b \<le> c \<longleftrightarrow> c = b \<or> b + 1 \<le> c" for c
      using b1 by (auto simp: word_le_nat_alt word_unat_eq_iff)
    show "runs (alloc_block_from (b + 1) s'') Q"
    proof (rule Suc.hyps(1) [OF _ s'])
      show "k = unat (nblk v) - unat (b + 1)" using Suc.hyps(2) b1 by simp
    next
      fix t assume "\<And>c. b + 1 \<le> c \<Longrightarrow> \<not> isfree v c" "becomes s0 v t"
      then show "Q (Inl E_NO_DISK, t)" using f ge by (intro Suc.prems(2)) auto
    next
      fix c t assume "b + 1 \<le> c" "isfree v c" "\<And>d. b + 1 \<le> d \<Longrightarrow> d < c \<Longrightarrow> \<not> isfree v d"
        "becomes s0 (mark_used c v) t" "\<not> pdirty t (PGNUM (bmaddr c))"
      then show "Q (Inr c, t)" using f ge by (intro Suc.prems(3)) auto
    qed
  qed
qed

lemma alloc_rule:
  assumes "becomes s0 v s"
    "\<And>s'. (\<And>c. \<not> isfree v c) \<Longrightarrow> becomes s0 v s' \<Longrightarrow> Q (Inl E_NO_DISK, s')"
    "\<And>c s'. isfree v c \<Longrightarrow> (\<And>d. d < c \<Longrightarrow> \<not> isfree v d) \<Longrightarrow> becomes s0 (mark_used c v) s' \<Longrightarrow>
       \<not> pdirty s' (PGNUM (bmaddr c)) \<Longrightarrow> Q (Inr c, s')"
  shows "runs (alloc_block s) Q"
  unfolding alloc_block_def by (rule alloc_from_rule [OF assms(1)]) (use assms(2,3) in auto)

lemma free_block_rule:
  assumes "becomes s0 v s" "resv v \<le> unat b" "b < nblk v" "\<And>s'. becomes s0 (mark_free b v) s' \<Longrightarrow> Q s'"
  shows "runs (free_block b s) Q"
proof -
  note vol = becomesD(3) [OF assms(1)]
  have nz: "b \<noteq> 0" using assms(2) vol_okD(2) [OF vol] by auto
  show ?thesis
    using nz vol_ok_mark_free [OF vol assms(3,2)] assms(4)
    by (simp add: free_block_def)
      (rule bmword_rule [OF assms(1,3)], simp, rule mark_store_rule [OF _ assms(3)], assumption,
        simp_all add: mark_pow)
qed

end
