(* ===== verification/FsFile.thy ===== *)
theory FsFile
  imports FsOps
begin

text \<open>
  The files of the file system: what it means for a \<open>struct File\<close> in the view to be well
  formed, and what finding or allocating one of its blocks does to it.
\<close>

section \<open>Changes that leave the volume alone\<close>

definition vol_same :: "mem \<Rightarrow> mem \<Rightarrow> bool" where
  "vol_same v v' \<longleftrightarrow> nblk v' = nblk v \<and> (\<forall>b. isfree v' b = isfree v b)"

lemma vol_sameD:
  assumes "vol_same v v'"
  shows "nblk v' = nblk v" "isfree v' b = isfree v b" "resv v' = resv v" "vol_ok v' = vol_ok v"
    "accv s0 v' a = accv s0 v a"
  using assms by (simp_all add: vol_same_def vol_ok_def accv_def resv_def)

lemma vol_same_trans: "vol_same v v' \<Longrightarrow> vol_same v' v'' \<Longrightarrow> vol_same v v''"
  by (simp add: vol_same_def)

text \<open>An address outside the super block's header and the bitmap; block 0 is the boot sector.\<close>

definition safe :: "mem \<Rightarrow> u32 \<Rightarrow> bool" where
  "safe v a \<longleftrightarrow> \<not> in_map a \<or> blockno a = 0 \<or> resv v \<le> unat (blockno a) \<or> blockno a = 1 \<and> 8 \<le> unat (boff a)"

lemma safe_nblk: "safe v a \<Longrightarrow> vol_ok v \<Longrightarrow> i < 4 \<Longrightarrow> a \<noteq> blockaddr 1 + 4 + of_nat i"
proof
  assume s: "safe v a" "vol_ok v" "i < 4" and a: "a = blockaddr 1 + 4 + of_nat i"
  have o: "unat (4 + of_nat i :: u32) = 4 + i" using unat_of_nat32 [of "4 + i"] s(3) by simp
  have "in_map a" "blockno a = 1" "unat (boff a) = 4 + i"
    using blockaddr_offset [of 1 "4 + of_nat i"] o s(3) unfolding a add.assoc by simp_all
  then show False using s(1,3) vol_okD(2) [OF s(2)] unfolding safe_def by auto
qed

lemma safe_bmaddr: "safe v a \<Longrightarrow> vol_ok v \<Longrightarrow> d < nblk v \<Longrightarrow> i < 4 \<Longrightarrow> a \<noteq> bmaddr d + of_nat i"
proof
  assume s: "safe v a" "vol_ok v" "d < nblk v" "i < 4" and a: "a = bmaddr d + of_nat i"
  have ld: "d < 0xC0000" using vol_okD(6) [OF s(2,3)] .
  have p: "PGNUM a = PGNUM (bmaddr d)" unfolding a by (rule page_of_word [OF word_aligned(2) s(4)])
  then have m: "in_map a" using same_page_in_map [OF p] bmaddr_map(1) [OF ld] by simp
  then have "blockno a = blockno (bmaddr d)"
    using same_page_block [OF bmaddr_map(1) [OF ld] m] p by simp
  then have "unat (blockno a) = 2 + unat d div 0x8000" using bmaddr_map(2) [OF ld] by simp
  moreover have "2 + unat d div 0x8000 < resv v" using resv_block [OF s(3)] .
  moreover have "unat (1 :: u32) = 1" by simp
  ultimately show False using s(1) m unfolding safe_def by (auto dest: arg_cong [of _ _ unat])
qed

lemma get32_same: "(\<And>i. i < 4 \<Longrightarrow> m (a + of_nat i) = m' (a + of_nat i)) \<Longrightarrow> get32 m a = get32 m' a"
proof -
  assume e: "\<And>i. i < 4 \<Longrightarrow> m (a + of_nat i) = m' (a + of_nat i)"
  show ?thesis using e [of 0] e [of 1] e [of 2] e [of 3] by (simp add: get32_def)
qed

lemma vol_same_safe:
  assumes "vol_ok v" "\<And>x. v' x \<noteq> v x \<Longrightarrow> safe v x"
  shows "vol_same v v'"
proof -
  have n: "nblk v' = nblk v" unfolding nblk_def
    by (rule get32_same) (metis assms safe_nblk)
  have "get32 v' (bmaddr d) = get32 v (bmaddr d)" if "d < nblk v" for d
    by (rule get32_same) (metis assms safe_bmaddr that)
  then show ?thesis using n by (auto simp: vol_same_def isfree_def)
qed

lemma put32_changed: "a mod 4 = 0 \<Longrightarrow> put32 a w v x \<noteq> v x \<Longrightarrow> PGNUM x = PGNUM a \<and> (\<exists>i < 4. x = a + of_nat i)"
proof -
  assume a: "a mod 4 = 0" and "put32 a w v x \<noteq> v x"
  then have "x = a \<or> x = a + 1 \<or> x = a + 2 \<or> x = a + 3" using put32_apply [OF a] by blast
  then have "\<exists>i < 4. x = a + of_nat i"
    by (elim disjE) (rule exI [of _ 0], simp, rule exI [of _ 1], simp, rule exI [of _ 2], simp, rule exI [of _ 3], simp)
  then show ?thesis using page_of_word [OF a] by blast
qed

text \<open>A word that is stored at a safe aligned address.\<close>

lemma safe_word: "a mod 4 = 0 \<Longrightarrow> safe v a \<Longrightarrow> i < 4 \<Longrightarrow> safe v (a + of_nat i)"
proof -
  assume a: "a mod 4 = 0" and s: "safe v a" and i: "i < 4"
  have p: "PGNUM (a + of_nat i) = PGNUM a" by (rule page_of_word [OF a i])
  show ?thesis
  proof (cases "in_map a")
    case True
    then have m: "in_map (a + of_nat i)" using same_page_in_map [OF p] by simp
    have b: "blockno (a + of_nat i) = blockno a" using same_page_block [OF True m] p by simp
    have "unat a mod 4096 \<le> (unat a + i) mod 4096"
    proof -
      have "unat (a + of_nat i) div 4096 = unat a div 4096" using p by (metis unat_PGNUM)
      then have "(unat a + i) div 4096 = unat a div 4096" using aligned_offset [OF a i] by simp
      then show ?thesis using page_split(1) [of "unat a"] page_split(1) [of "unat a + i"] by linarith
    qed
    then have "unat (boff a) \<le> unat (boff (a + of_nat i))"
      using aligned_offset [OF a i] by (simp add: boff_def unat_mod)
    then show ?thesis using s m b True by (auto simp: safe_def)
  next
    case False
    then show ?thesis using same_page_in_map [OF p] by (simp add: safe_def)
  qed
qed

lemma vol_same_put32: "vol_ok v \<Longrightarrow> a mod 4 = 0 \<Longrightarrow> safe v a \<Longrightarrow> vol_same v (put32 a w v)"
proof (rule vol_same_safe)
  fix x assume a: "a mod 4 = 0" and s: "safe v a" and x: "put32 a w v x \<noteq> v x"
  from put32_changed [OF a x] obtain i where "i < 4" "x = a + of_nat i" by blast
  then show "safe v x" using safe_word [OF a s] by simp
qed

lemma safe_store_rule:
  assumes "becomes s0 v s" "accv s0 v a" "a mod 4 = 0" "safe v a"
    "\<And>s'. becomes s0 (put32 a w v) s' \<Longrightarrow> Q s'"
  shows "runs (st32 a w s) Q"
  using vol_sameD [OF vol_same_put32 [OF becomesD(3) [OF assms(1)] assms(3,4)]]
    st32_rule [OF assms(1-3) _ _ assms(5)] becomesD(3) [OF assms(1)] by simp

section \<open>A file in the view\<close>

text \<open>
  The slot of a file's \<open>k\<close>-th block and the block number in it, 0 when there is none; a data
  block is allocated and not reserved.
\<close>

definition slot :: "mem \<Rightarrow> u32 \<Rightarrow> u32 \<Rightarrow> u32" where
  "slot v f k = (if k < NDIRECT then f_direct f k
     else blockaddr (get32 v (f_indirect f)) + 4 * (k - NDIRECT))"

definition has_slot :: "mem \<Rightarrow> u32 \<Rightarrow> u32 \<Rightarrow> bool" where
  "has_slot v f k \<longleftrightarrow> k < 1034 \<and> (k < NDIRECT \<or> get32 v (f_indirect f) \<noteq> 0)"

definition fptr :: "mem \<Rightarrow> u32 \<Rightarrow> u32 \<Rightarrow> u32" where
  "fptr v f k = (if has_slot v f k then get32 v (slot v f k) else 0)"

definition datab :: "mem \<Rightarrow> u32 \<Rightarrow> bool" where
  "datab v b \<longleftrightarrow> resv v \<le> unat b \<and> b < nblk v \<and> \<not> isfree v b"

definition file_at :: "mem \<Rightarrow> u32 \<Rightarrow> bool" where
  "file_at v f \<longleftrightarrow> in_map f \<and> f mod 4 = 0 \<and> unat (boff f) + 256 \<le> 4096 \<and>
     (datab v (blockno f) \<or> blockno f = 1 \<and> 8 \<le> unat (boff f))"

definition file_ok :: "mem \<Rightarrow> u32 \<Rightarrow> bool" where
  "file_ok v f \<longleftrightarrow> file_at v f \<and>
     (\<forall>k. fptr v f k \<noteq> 0 \<longrightarrow> datab v (fptr v f k) \<and> fptr v f k \<noteq> blockno f \<and>
          fptr v f k \<noteq> get32 v (f_indirect f)) \<and>
     (\<forall>k j. fptr v f k = fptr v f j \<and> fptr v f k \<noteq> 0 \<longrightarrow> k = j) \<and>
     (get32 v (f_indirect f) \<noteq> 0 \<longrightarrow> datab v (get32 v (f_indirect f)) \<and> get32 v (f_indirect f) \<noteq> blockno f)"

lemma datab_bound: "vol_ok v \<Longrightarrow> datab v b \<Longrightarrow> b < 0xC0000 \<and> b \<noteq> 0 \<and> b \<noteq> 1"
  using vol_okD(2) [of v] vol_okD(6) [of v b] by (auto simp: datab_def)

lemma datab_safe: "vol_ok v \<Longrightarrow> datab v b \<Longrightarrow> unat x < 4096 \<Longrightarrow> safe v (blockaddr b + x)"
  using blockaddr_offset [of b x] datab_bound [of v b] by (simp add: safe_def datab_def)

lemma datab_accv: "vol_ok v \<Longrightarrow> datab v b \<Longrightarrow> unat x < 4096 \<Longrightarrow> accv s0 v (blockaddr b + x)"
  by (rule accv_block) (simp_all add: datab_def)

text \<open>The fields of a file lie in its own block, and are safe to store to.\<close>

lemma file_field:
  assumes "file_at v f" "unat x < 256"
  shows "in_map (f + x)" "blockno (f + x) = blockno f" "unat (boff (f + x)) = unat (boff f) + unat x"
proof -
  have m: "in_map f" and o: "unat (boff f) + 256 \<le> 4096" using assms(1) by (auto simp: file_at_def)
  have u: "unat (boff f + x) = unat (boff f) + unat x"
    using o assms(2) by (subst unat_add_no_wrap) simp_all
  then have l: "unat (boff f + x) < 4096" using o assms(2) by simp
  have e: "f + x = blockaddr (blockno f) + (boff f + x)"
    using block_split [OF m] by (simp add: add.assoc [symmetric])
  show "in_map (f + x)" "blockno (f + x) = blockno f" "unat (boff (f + x)) = unat (boff f) + unat x"
    unfolding e using blockaddr_offset [OF blockno_less [OF m] l] u by simp_all
qed

lemma file_field_ok:
  assumes "vol_ok v" "file_at v f" "unat x < 256"
  shows "safe v (f + x)" "accv s0 v (f + x)"
proof -
  note ff = file_field [OF assms(2,3)]
  have b: "datab v (blockno f) \<or> blockno f = 1 \<and> 8 \<le> unat (boff f)"
    using assms(2) by (auto simp: file_at_def)
  then show "safe v (f + x)" using ff by (auto simp: safe_def datab_def)
  have l: "1 < nblk v" using vol_okD(3) [OF assms(1)] by (simp add: word_less_nat_alt)
  have "\<not> isfree v 1" using vol_okD(2) [OF assms(1)] vol_okD(5) [OF assms(1), of 1] by simp
  with b l have "blockno f < nblk v \<and> \<not> isfree v (blockno f)" by (auto simp: datab_def)
  with ff show "accv s0 v (f + x)" by (simp add: accv_def)
qed

lemma unat_direct: "k < NDIRECT \<Longrightarrow> unat (136 + 4 * k) = 136 + 4 * unat k"
  by (subst unat_add_no_wrap) (simp_all add: word_less_nat_alt unat_word_ariths)

lemma unat_indirect:
  assumes "k < 1034" "\<not> k < NDIRECT"
  shows "unat (4 * (k - NDIRECT)) = 4 * (unat k - 10)" "unat (4 * (k - NDIRECT)) < 4096"
proof -
  have k: "10 \<le> unat k" "unat k < 1034" using assms by (simp_all add: word_less_nat_alt)
  have u: "unat (k - NDIRECT) = unat k - 10" using k by (simp add: unat_sub word_le_nat_alt)
  have lt: "unat (k - NDIRECT) < 1024" unfolding u using k by simp
  have "unat (4 * y) = 4 * unat y" if "unat y < 1024" for y :: u32
    using that by (simp add: unat_word_ariths)
  from this [OF lt] show "unat (4 * (k - NDIRECT)) = 4 * (unat k - 10)" unfolding u .
  then show "unat (4 * (k - NDIRECT)) < 4096" using k by simp
qed

text \<open>The slots: aligned, safe, accessible and different from each other and from the fields.\<close>

lemma word4_aligned: "(4 * (x :: u32)) mod 4 = 0"
proof -
  have "unat (4 * x) mod 4 = 0" by (simp add: unat_word_ariths mod_mod_cancel)
  then show ?thesis by (simp only: unat_aligned)
qed

lemma add_aligned: "a mod 4 = 0 \<Longrightarrow> b mod 4 = 0 \<Longrightarrow> (a + b) mod (4 :: u32) = 0"
  by (simp add: unat_aligned unat_word_ariths mod_mod_cancel) presburger

lemma file_at_aligned: "file_at v f \<Longrightarrow> f mod 4 = 0"
  by (simp add: file_at_def)

lemma field_aligned: "file_at v f \<Longrightarrow> f_indirect f mod 4 = 0" "file_at v f \<Longrightarrow> f_size f mod 4 = 0"
  "file_at v f \<Longrightarrow> f_direct f k mod 4 = 0"
  using add_aligned [OF file_at_aligned, of v f 176] add_aligned [OF file_at_aligned, of v f 128]
    add_aligned [OF file_at_aligned, of v f "136 + 4 * k"] add_aligned [of 136 "4 * k"] word4_aligned [of k]
  by (simp_all add: f_indirect_def f_size_def f_direct_def add.assoc)

lemma file_okD:
  assumes "file_ok v f"
  shows "file_at v f" "fptr v f k \<noteq> 0 \<Longrightarrow> datab v (fptr v f k)" "fptr v f k \<noteq> 0 \<Longrightarrow> fptr v f k \<noteq> blockno f"
    "fptr v f k \<noteq> 0 \<Longrightarrow> fptr v f k \<noteq> get32 v (f_indirect f)"
    "fptr v f k = fptr v f j \<Longrightarrow> fptr v f k \<noteq> 0 \<Longrightarrow> k = j"
    "get32 v (f_indirect f) \<noteq> 0 \<Longrightarrow> datab v (get32 v (f_indirect f))"
    "get32 v (f_indirect f) \<noteq> 0 \<Longrightarrow> get32 v (f_indirect f) \<noteq> blockno f"
  using assms unfolding file_ok_def by blast+

lemma slot_place:
  assumes "vol_ok v" "file_ok v f" "has_slot v f k"
  shows "slot v f k mod 4 = 0" "safe v (slot v f k)" "accv s0 v (slot v f k)"
    "in_map (slot v f k)"
    "blockno (slot v f k) = (if k < NDIRECT then blockno f else get32 v (f_indirect f))"
    "unat (boff (slot v f k)) = (if k < NDIRECT then unat (boff f) + 136 + 4 * unat k else 4 * (unat k - 10))"
proof -
  note fo = file_okD [OF assms(2)]
  have "slot v f k mod 4 = 0 \<and> safe v (slot v f k) \<and> accv s0 v (slot v f k) \<and> in_map (slot v f k) \<and>
    blockno (slot v f k) = (if k < NDIRECT then blockno f else get32 v (f_indirect f)) \<and>
    unat (boff (slot v f k)) = (if k < NDIRECT then unat (boff f) + 136 + 4 * unat k else 4 * (unat k - 10))"
  proof (cases "k < NDIRECT")
    case True
    have l: "unat (136 + 4 * k) < 256" using unat_direct [OF True] True by (simp add: word_less_nat_alt)
    show ?thesis
      using True file_field [OF fo(1) l] file_field_ok [OF assms(1) fo(1) l] unat_direct [OF True]
        field_aligned(3) [OF fo(1), of k]
      by (simp add: slot_def f_direct_def add.assoc)
  next
    case False
    have k: "k < 1034" and i: "get32 v (f_indirect f) \<noteq> 0" using assms(3) False by (auto simp: has_slot_def)
    note u = unat_indirect [OF k False]
    have d: "datab v (get32 v (f_indirect f))" using fo(6) i by blast
    have b: "get32 v (f_indirect f) < 0xC0000" using datab_bound [OF assms(1) d] by simp
    show ?thesis
      using False blockaddr_offset [OF b u(2)] datab_safe [OF assms(1) d u(2)]
        datab_accv [OF assms(1) d u(2)] u(1) blockaddr_aligned [OF word4_aligned, of _ "k - 10"]
      by (simp add: slot_def)
  qed
  then show "slot v f k mod 4 = 0" "safe v (slot v f k)" "accv s0 v (slot v f k)" "in_map (slot v f k)"
    "blockno (slot v f k) = (if k < NDIRECT then blockno f else get32 v (f_indirect f))"
    "unat (boff (slot v f k)) = (if k < NDIRECT then unat (boff f) + 136 + 4 * unat k else 4 * (unat k - 10))"
    by blast+
qed

lemma slot_inj:
  assumes "vol_ok v" "file_ok v f" "has_slot v f k" "has_slot v f j" "slot v f k = slot v f j"
  shows "k = j"
proof -
  note a = slot_place(5,6) [OF assms(1,2,3)] and b = slot_place(5,6) [OF assms(1,2,4)]
  have ne: "get32 v (f_indirect f) \<noteq> 0 \<Longrightarrow> get32 v (f_indirect f) \<noteq> blockno f"
    using file_okD(7) [OF assms(2)] .
  have "(k < NDIRECT) = (j < NDIRECT)"
    using a(1) b(1) assms(3-5) ne unfolding has_slot_def by (auto split: if_splits)
  then have "unat k = unat j"
    using a(2) b(2) assms(5) by (auto split: if_splits simp: word_less_nat_alt)
  then show ?thesis by (simp add: word_unat_eq_iff)
qed

lemma slot_not_field:
  assumes "vol_ok v" "file_ok v f" "has_slot v f k"
  shows "slot v f k \<noteq> f_indirect f" "slot v f k \<noteq> f_size f"
proof -
  note a = slot_place(5,6) [OF assms]
  note at = file_okD(1) [OF assms(2)]
  note i = file_field(2,3) [OF at, of 176] file_field(2,3) [OF at, of 128]
  have ne: "get32 v (f_indirect f) \<noteq> 0 \<Longrightarrow> get32 v (f_indirect f) \<noteq> blockno f"
    using file_okD(7) [OF assms(2)] .
  have "unat (boff (slot v f k)) \<noteq> unat (boff f) + x" if "k < NDIRECT" "x = 128 \<or> x = 176" for x
    using a(2) that by (auto simp: word_less_nat_alt)
  moreover have "blockno (slot v f k) \<noteq> blockno f" if "\<not> k < NDIRECT"
    using a(1) ne that assms(3) by (auto simp: has_slot_def)
  ultimately show "slot v f k \<noteq> f_indirect f" "slot v f k \<noteq> f_size f"
    using i unfolding f_indirect_def f_size_def by fastforce+
qed

section \<open>Changes to a file\<close>

text \<open>A change that keeps the words of the slots keeps the block numbers.\<close>

lemma fptr_cong:
  assumes "get32 v' (f_indirect f) = get32 v (f_indirect f)"
    "\<And>k. has_slot v f k \<Longrightarrow> get32 v' (slot v f k) = get32 v (slot v f k)"
  shows "has_slot v' f k = has_slot v f k" "slot v' f k = slot v f k" "fptr v' f k = fptr v f k"
proof -
  show h: "has_slot v' f k = has_slot v f k" and l: "slot v' f k = slot v f k"
    using assms(1) by (simp_all add: has_slot_def slot_def)
  show "fptr v' f k = fptr v f k" using assms(2) [of k] by (simp add: fptr_def h l)
qed

lemma file_ok_cong:
  assumes "file_ok v f" "get32 v' (f_indirect f) = get32 v (f_indirect f)"
    "\<And>k. fptr v' f k = fptr v f k" "\<And>b. datab v b \<Longrightarrow> datab v' b"
  shows "file_ok v' f"
  using assms(1,4) unfolding file_ok_def file_at_def assms(2,3) by blast

lemma datab_same: "vol_same v v' \<Longrightarrow> datab v' b = datab v b"
  by (simp add: datab_def vol_sameD)

lemma mark_used_word: "vol_ok v \<Longrightarrow> b < nblk v \<Longrightarrow> a mod 4 = 0 \<Longrightarrow> safe v a \<Longrightarrow> get32 (mark_used b v) a = get32 v a"
  unfolding mark_used_def
  using safe_bmaddr [of v a b 0] by (intro get32_put32_other) (auto simp: word_aligned)

lemma mark_used_byte: "vol_ok v \<Longrightarrow> b < nblk v \<Longrightarrow> safe v x \<Longrightarrow> mark_used b v x = v x"
proof (rule ccontr)
  assume v: "vol_ok v" "b < nblk v" "safe v x" and "mark_used b v x \<noteq> v x"
  then obtain i where "i < 4" "x = bmaddr b + of_nat i"
    unfolding mark_used_def using put32_changed [OF word_aligned(2)] by blast
  with safe_bmaddr [OF v(3,1,2)] show False by blast
qed

lemma isfree_bound: "isfree v b \<Longrightarrow> b < nblk v"
  by (simp add: isfree_def)

lemma isfree_resv: "vol_ok v \<Longrightarrow> isfree v b \<Longrightarrow> resv v \<le> unat b"
  using vol_okD(5) [of v b] by force

lemma datab_mark_used:
  assumes "vol_ok v" "isfree v b"
  shows "datab (mark_used b v) c \<longleftrightarrow> datab v c \<or> c = b"
proof -
  have b: "b < nblk v" using assms(2) by (simp add: isfree_bound)
  then have lb: "b < 0xC0000" using vol_okD(6) [OF assms(1)] by blast
  show ?thesis
    using isfree_mark(1) [OF assms(1) b] isfree_resv [OF assms] assms(2) b
    by (auto simp: datab_def nblk_mark(1) [OF lb] resv_mark(1) [OF lb])
qed

definition with_block :: "u32 \<Rightarrow> u32 \<Rightarrow> u32 \<Rightarrow> mem \<Rightarrow> mem" where
  "with_block f k b v = put32 (slot v f k) b (mark_used b v)"

lemma with_block:
  assumes v: "vol_ok v" and f: "file_ok v f" and h: "has_slot v f k" and b: "isfree v b"
  shows "vol_ok (with_block f k b v)" "nblk (with_block f k b v) = nblk v"
    "isfree (with_block f k b v) d \<longleftrightarrow> isfree v d \<and> d \<noteq> b"
    "get32 (with_block f k b v) (f_indirect f) = get32 v (f_indirect f)"
    "get32 (with_block f k b v) (f_size f) = get32 v (f_size f)"
    "fptr (with_block f k b v) f j = (if j = k then b else fptr v f j)"
    "has_slot (with_block f k b v) f j = has_slot v f j"
    "file_ok (with_block f k b v) f"
    "safe v x \<Longrightarrow> (in_map x \<Longrightarrow> blockno x \<noteq> blockno (slot v f k)) \<Longrightarrow> with_block f k b v x = v x"
proof -
  let ?u = "mark_used b v" and ?w = "with_block f k b v"
  have bn: "b < nblk v" using b by (simp add: isfree_bound)
  have lb: "b < 0xC0000" using vol_okD(6) [OF v bn] .
  note at = file_okD(1) [OF f]
  have vu: "vol_ok ?u" using vol_ok_mark_used [OF v bn] .
  have resv: "resv ?u = resv v" using resv_mark(1) [OF lb] .
  have safe: "safe ?u a = safe v a" for a by (simp add: safe_def resv)
  note sp = slot_place [OF v f h]
  have same: "vol_same ?u ?w"
    unfolding with_block_def by (rule vol_same_put32 [OF vu sp(1)]) (use safe sp(2) in simp)
  note sm = vol_sameD [OF same]
  show vw: "vol_ok ?w" using sm(4) vu by simp
  show nb: "nblk ?w = nblk v" using sm(1) nblk_mark(1) [OF lb] by simp
  show fr: "isfree ?w d \<longleftrightarrow> isfree v d \<and> d \<noteq> b" for d
    using sm(2) isfree_mark(1) [OF v bn] by simp
  have fi: "f_indirect f mod 4 = 0" "f_size f mod 4 = 0" using field_aligned [OF at] by simp_all
  have sf: "safe v (f_indirect f)" "safe v (f_size f)"
    using file_field_ok(1) [OF v at, of 176] file_field_ok(1) [OF v at, of 128]
    by (simp_all add: f_indirect_def f_size_def)
  note ne = slot_not_field [OF v f h]
  show ind: "get32 ?w (f_indirect f) = get32 v (f_indirect f)"
    unfolding with_block_def
    using get32_put32_other [OF sp(1) fi(1) ne(1)] mark_used_word [OF v bn fi(1) sf(1)] by simp
  show "get32 ?w (f_size f) = get32 v (f_size f)"
    unfolding with_block_def
    using get32_put32_other [OF sp(1) fi(2) ne(2)] mark_used_word [OF v bn fi(2) sf(2)] by simp
  have hs: "has_slot ?w f j = has_slot v f j" for j by (simp add: has_slot_def ind)
  then show "has_slot ?w f j = has_slot v f j" .
  have sl: "slot ?w f j = slot v f j" for j by (simp add: slot_def ind)
  show fp: "fptr ?w f j = (if j = k then b else fptr v f j)" for j
  proof (cases "has_slot v f j")
    case True
    note sj = slot_place [OF v f True]
    have "get32 ?w (slot v f j) = (if j = k then b else get32 v (slot v f j))"
      unfolding with_block_def
      using get32_put32_other [OF sp(1) sj(1), of b ?u] mark_used_word [OF v bn sj(1,2)] slot_inj [OF v f h True]
      by auto
    then show ?thesis using True by (simp add: fptr_def hs sl)
  next
    case False
    then show ?thesis using h by (auto simp: fptr_def hs)
  qed
  have db: "datab ?w c \<longleftrightarrow> datab v c \<or> c = b" for c
    using datab_same [OF same] datab_mark_used [OF v b] by simp
  have nd: "\<not> datab v b" using b by (simp add: datab_def)
  have nf: "b \<noteq> blockno f" using at nd isfree_resv [OF v b] vol_okD(2) [OF v] by (auto simp: file_at_def)
  have nz: "b \<noteq> 0" using isfree_resv [OF v b] vol_okD(2) [OF v] by auto
  note fo = file_okD [OF f]
  have ni: "b \<noteq> get32 v (f_indirect f)" using fo(6) nd nz by metis
  have np: "fptr v f j \<noteq> b" for j using fo(2) [of j] nd nz by metis
  have "file_at ?w f" using at db by (auto simp: file_at_def)
  moreover have "datab ?w (fptr ?w f j) \<and> fptr ?w f j \<noteq> blockno f \<and> fptr ?w f j \<noteq> get32 v (f_indirect f)"
    if "fptr ?w f j \<noteq> 0" for j
    using that fo(2-4) [of j] nf ni unfolding db fp by (cases "j = k") simp_all
  moreover have "i = j" if "fptr ?w f i = fptr ?w f j" "fptr ?w f i \<noteq> 0" for i j
    using that fo(5) [of i j] np [of i] np [of j] unfolding fp by (auto split: if_splits)
  ultimately show "file_ok ?w f"
    using fo(6,7) unfolding file_ok_def ind db by blast
  assume x: "safe v x" and bx: "in_map x \<Longrightarrow> blockno x \<noteq> blockno (slot v f k)"
  have "PGNUM x \<noteq> PGNUM (slot v f k)"
    using bx same_page_in_map [of x "slot v f k"] same_page_block [OF sp(4), of x] sp(4) by blast
  then have "?w x = ?u x" unfolding with_block_def using put32_changed [OF sp(1)] by blast
  then show "?w x = v x" using mark_used_byte [OF v bn x] by simp
qed

section \<open>Finding a block\<close>

lemma walk_rule:
  assumes "becomes s0 v s" "file_ok v f" "has_slot v f k" "\<And>s'. becomes s0 v s' \<Longrightarrow> Q (Inr (slot v f k), s')"
  shows "runs (file_block_walk f k alloc s) Q"
proof -
  note vol = becomesD(3) [OF assms(1)]
  note fo = file_okD [OF assms(2)]
  have k: "\<not> NDIRECT + NINDIRECT \<le> k" using assms(3) by (auto simp: has_slot_def)
  show ?thesis
  proof (cases "k < NDIRECT")
    case True
    then show ?thesis using assms(4) [OF assms(1)] k by (simp add: file_block_walk_def slot_def)
  next
    case False
    then have ind: "get32 v (f_indirect f) \<noteq> 0" using assms(3) by (simp add: has_slot_def)
    then have d: "datab v (get32 v (f_indirect f))" using fo(6) by blast
    have a: "accv s0 v (f_indirect f)"
      using file_field_ok(2) [OF vol fo(1), of 176] by (simp add: f_indirect_def)
    have b: "get32 v (f_indirect f) < nblk v" using d by (simp add: datab_def)
    have q: "becomes s0 v s' \<Longrightarrow> Q (Inr (blockaddr (get32 v (f_indirect f)) + 4 * (k - NDIRECT)), s')" for s'
      using assms(4) False by (simp add: slot_def)
    show ?thesis
      unfolding file_block_walk_def if_not_P [OF k] if_not_P [OF False] runs_bind
      by (rule ld32_rule [OF assms(1) a field_aligned(1) [OF fo(1)]])
        (simp only: prod.case ind not_False_eq_True if_True runs_bind, rule diskaddr_rule, assumption, rule ind, rule b,
          use q in simp)
  qed
qed

lemma walk_no_slot_rule:
  assumes "becomes s0 v s" "file_ok v f" "\<not> has_slot v f k"
    "\<And>s'. becomes s0 v s' \<Longrightarrow> Q (Inl (if k < 1034 then E_NOT_FOUND else E_INVAL), s')"
  shows "runs (file_block_walk f k False s) Q"
proof (cases "k < 1034")
  case True
  note fo = file_okD [OF assms(2)]
  have k: "\<not> NDIRECT + NINDIRECT \<le> k" "\<not> k < NDIRECT" and ind: "get32 v (f_indirect f) = 0"
    using True assms(3) by (auto simp: has_slot_def)
  have a: "accv s0 v (f_indirect f)"
    using file_field_ok(2) [OF becomesD(3) [OF assms(1)] fo(1), of 176] by (simp add: f_indirect_def)
  show ?thesis
    unfolding file_block_walk_def if_not_P [OF k(1)] if_not_P [OF k(2)] runs_bind
    by (rule ld32_rule [OF assms(1) a field_aligned(1) [OF fo(1)]]) (use ind True assms(4) in simp)
next
  case False
  then have "1034 \<le> k" by simp
  with False show ?thesis using assms(4) [OF assms(1)] by (simp add: file_block_walk_def)
qed

text \<open>
  \<open>file_get_block\<close> on a slot that exists: the block that is there, or the first free block,
  which becomes the file's, or an error when no block is free.
\<close>

lemma get_block_rule:
  assumes "becomes s0 v s" "file_ok v f" "has_slot v f k"
    "\<And>s'. fptr v f k \<noteq> 0 \<Longrightarrow> becomes s0 v s' \<Longrightarrow> Q (Inr (blockaddr (fptr v f k)), s')"
    "\<And>s'. fptr v f k = 0 \<Longrightarrow> (\<And>c. \<not> isfree v c) \<Longrightarrow> becomes s0 v s' \<Longrightarrow> Q (Inl E_NO_DISK, s')"
    "\<And>b s'. fptr v f k = 0 \<Longrightarrow> isfree v b \<Longrightarrow> becomes s0 (with_block f k b v) s' \<Longrightarrow> Q (Inr (blockaddr b), s')"
  shows "runs (file_get_block f k s) Q"
proof -
  note vol = becomesD(3) [OF assms(1)]
  note sp = slot_place [OF vol assms(2,3)]
  have fp: "get32 v (slot v f k) = fptr v f k" using assms(3) by (simp add: fptr_def)
  show ?thesis
  proof (cases "fptr v f k = 0")
    case False
    then have d: "datab v (fptr v f k)" using file_okD(2) [OF assms(2)] by blast
    then have b: "fptr v f k < nblk v" by (simp add: datab_def)
    show ?thesis
      unfolding file_get_block_def runs_bind
      by (rule walk_rule [OF assms(1-3)], simp, rule ld32_rule [OF _ sp(3,1)], assumption)
        (simp add: fp False, rule diskaddr_rule, assumption, rule False, rule b, simp add: assms(4) [OF False])
  next
    case True
    have alloc: "runs (do { s \<leftarrow> st32 (slot v f k) c t; (a, s) \<leftarrow> diskaddr c s; s \<leftarrow> flush_block a s;
        (b, s) \<leftarrow> ld32 (slot v f k) s; (blk, s) \<leftarrow> diskaddr b s; Some (Inr blk, s) }) Q"
      if c: "isfree v c" and t: "becomes s0 (mark_used c v) t" for c t
    proof -
      have cn: "c < nblk v" using c by (simp add: isfree_bound)
      have lc: "c < 0xC0000" using vol_okD(6) [OF vol cn] .
      have cz: "c \<noteq> 0" using isfree_resv [OF vol c] vol_okD(2) [OF vol] by auto
      note wb = with_block [OF vol assms(2,3) c]
      have ru: "safe (mark_used c v) (slot v f k)" using sp(2) resv_mark(1) [OF lc] by (simp add: safe_def)
      have au: "accv s0 (mark_used c v) (slot v f k)"
        using sp(3) isfree_mark(1) [OF vol cn] nblk_mark(1) [OF lc] by (auto simp: accv_def)
      have wa: "accv s0 (with_block f k c v) (slot v f k)" using sp(3) wb(2,3) by (auto simp: accv_def)
      have wn: "c < nblk (with_block f k c v)" using wb(2) cn by simp
      have ws: "get32 (with_block f k c v) (slot v f k) = c" by (simp add: with_block_def)
      show ?thesis
        unfolding runs_bind
        apply (rule safe_store_rule [OF t au sp(1) ru])
        apply (fold with_block_def)
        apply (rule diskaddr_rule, assumption, rule cz, rule wn, simp)
        apply (rule flush_rule, assumption, rule in_map_block [OF lc])
        apply (rule ld32_rule [OF _ wa sp(1)], assumption, simp add: ws)
        apply (rule diskaddr_rule, assumption, rule cz, rule wn, simp)
        apply (rule assms(6) [OF True c], assumption)
        done
    qed
    show ?thesis
      unfolding file_get_block_def runs_bind
      apply (rule walk_rule [OF assms(1-3)], simp)
      apply (rule ld32_rule [OF _ sp(3,1)], assumption, simp add: fp True)
      apply (rule alloc_rule, assumption)
       apply (use assms(5) [OF True] in simp)
      apply (use alloc in simp)
      done
  qed
qed

end
