(* ===== verification/FsRw.thy ===== *)
theory FsRw
  imports FsFile
begin

text \<open>
  Reading and writing a file: the loops of \<open>file_read\<close> and \<open>file_write\<close> by their effect on the
  bytes of the file.
\<close>

section \<open>Copies\<close>

definition blit :: "u32 \<Rightarrow> u32 \<Rightarrow> u32 \<Rightarrow> mem \<Rightarrow> mem" where
  "blit d a n v = (\<lambda>x. if x - d < n then v (a + (x - d)) else v x)"

lemma safe_byte:
  assumes "vol_ok v" "safe v a"
  shows "vol_same v (v(a := w))"
  by (rule vol_same_safe [OF assms(1)]) (use assms(2) in \<open>auto split: if_splits\<close>)

lemma copy_offsets_rule:
  assumes "becomes s0 v s"
    "\<And>i. i \<in> set is \<Longrightarrow> accv s0 v (a + of_nat i) \<and> accv s0 v (d + of_nat i) \<and> safe v (d + of_nat i)"
    "\<And>i j. i \<in> set is \<Longrightarrow> j \<in> set is \<Longrightarrow> a + of_nat i \<noteq> d + of_nat j"
    "\<And>s'. becomes s0 (\<lambda>x. if \<exists>i \<in> set is. x = d + of_nat i then v (a + (x - d)) else v x) s' \<Longrightarrow> Q s'"
  shows "runs (copy_offsets d a is s) Q"
  using assms
proof (induction "is" arbitrary: s v)
  case Nil
  then show ?case by simp
next
  case (Cons i "is")
  let ?v = "v(d + of_nat i := v (a + of_nat i))"
  have ac: "accv s0 v (a + of_nat i)" "accv s0 v (d + of_nat i)" and sf: "safe v (d + of_nat i)"
    using Cons.prems(2) [of i] by simp_all
  note same = safe_byte [OF becomesD(3) [OF Cons.prems(1)] sf, of "v (a + of_nat i)"]
  note sm = vol_sameD [OF same]
  have vok: "vol_ok ?v" using sm(4) becomesD(3) [OF Cons.prems(1)] by simp
  have rest: "runs (copy_offsets d a is t) Q" if t: "becomes s0 ?v t" for t
  proof (rule Cons.IH [OF t])
    fix j assume j: "j \<in> set is"
    show "accv s0 ?v (a + of_nat j) \<and> accv s0 ?v (d + of_nat j) \<and> safe ?v (d + of_nat j)"
      using Cons.prems(2) [of j] j sm(5) sm(3) by (simp add: safe_def)
  next
    fix j k assume "j \<in> set is" "k \<in> set is"
    then show "a + of_nat j \<noteq> d + of_nat k" using Cons.prems(3) by simp
  next
    fix u assume u: "becomes s0 (\<lambda>x. if \<exists>j \<in> set is. x = d + of_nat j then ?v (a + (x - d)) else ?v x) u"
    have "(\<lambda>x. if \<exists>j \<in> set is. x = d + of_nat j then ?v (a + (x - d)) else ?v x)
      = (\<lambda>x. if \<exists>j \<in> set (i # is). x = d + of_nat j then v (a + (x - d)) else v x)"
      using Cons.prems(3) [of _ i] by (auto simp: fun_eq_iff)
    with u show "Q u" using Cons.prems(4) by simp
  qed
  show ?case
    by simp (rule ld8_rule [OF Cons.prems(1) ac(1)], simp,
        rule st8_rule [OF _ ac(2) vok sm(1)], assumption, rule rest, assumption)
qed

lemma memmove_rule:
  assumes "becomes s0 v s"
    "\<And>x. x - a < n \<Longrightarrow> accv s0 v x" "\<And>x. x - d < n \<Longrightarrow> accv s0 v x \<and> safe v x"
    "\<And>x. x - a < n \<Longrightarrow> \<not> x - d < n" "\<And>s'. becomes s0 (blit d a n v) s' \<Longrightarrow> Q s'"
  shows "runs (fs_memmove d a n s) Q"
proof -
  let ?is = "if a < d \<and> a + n > d then rev [0..<unat n] else [0..<unat n]"
  have set: "set ?is = {0..<unat n}" by auto
  have off: "i \<in> set ?is \<Longrightarrow> of_nat i < n" for i
    using unat_less_32 [of n] unfolding set by (simp add: word_less_nat_alt unat_of_nat32)
  have ex: "(\<exists>i \<in> set ?is. x = d + of_nat i) \<longleftrightarrow> x - d < n" for x
  proof
    assume "x - d < n"
    then have "unat (x - d) \<in> set ?is" unfolding set by (simp add: word_less_nat_alt)
    moreover have "x = d + of_nat (unat (x - d))" by simp
    ultimately show "\<exists>i \<in> set ?is. x = d + of_nat i" by blast
  next
    assume "\<exists>i \<in> set ?is. x = d + of_nat i"
    then show "x - d < n" using off by auto
  qed
  show ?thesis unfolding fs_memmove_def
  proof (rule copy_offsets_rule [OF assms(1)])
    fix i assume "i \<in> set ?is"
    then show "accv s0 v (a + of_nat i) \<and> accv s0 v (d + of_nat i) \<and> safe v (d + of_nat i)"
      using off assms(2) [of "a + of_nat i"] assms(3) [of "d + of_nat i"] by simp
  next
    fix i j assume i: "i \<in> set ?is" and j: "j \<in> set ?is"
    have "a + of_nat i - a < n" using off [OF i] by simp
    then have "\<not> a + of_nat i - d < n" by (rule assms(4))
    moreover have "d + of_nat j - d < n" using off [OF j] by simp
    ultimately show "a + of_nat i \<noteq> d + of_nat j" by metis
  next
    fix t assume "becomes s0 (\<lambda>x. if \<exists>i \<in> set ?is. x = d + of_nat i then v (a + (x - d)) else v x) t"
    then show "Q t" using assms(5) unfolding ex blit_def by blast
  qed
qed

section \<open>Offsets\<close>

lemma off_div_mod:
  assumes "unat p < 2 ^ 31"
  shows "off_div p = p div 4096" "off_mod p = p mod 4096"
proof -
  have s: "sint p = uint p" using sint_small [OF assms] by simp
  have d: "uint p sdiv 4096 = uint p div 4096" "uint p smod 4096 = uint p mod 4096"
    by (cases "p = 0"; simp add: signed_divide_int_def signed_modulo_int_def)+
  show "off_div p = p div 4096" "off_mod p = p mod 4096"
    unfolding off_div_def off_mod_def s d
    by (simp_all add: word_div_def word_mod_def)
qed

section \<open>The bytes of a file\<close>

definition fbyte :: "mem \<Rightarrow> u32 \<Rightarrow> u32 \<Rightarrow> u8" where
  "fbyte v f p = v (blockaddr (fptr v f (p div BLKSIZE)) + p mod BLKSIZE)"

text \<open>
  \<open>wrote f pos lim buf v v'\<close>: the change of the view from \<open>v\<close> to \<open>v'\<close> stored the bytes at \<open>buf\<close>
  as the bytes \<open>pos\<close> to \<open>lim\<close> of the file, allocating blocks where there were none, and kept
  every other byte of the file and all memory outside the disk map.
\<close>

definition wrote :: "u32 \<Rightarrow> u32 \<Rightarrow> u32 \<Rightarrow> u32 \<Rightarrow> mem \<Rightarrow> mem \<Rightarrow> bool" where
  "wrote f pos lim buf v v' \<longleftrightarrow> file_ok v' f \<and> get32 v' (f_indirect f) = get32 v (f_indirect f) \<and>
     get32 v' (f_size f) = get32 v (f_size f) \<and> (\<forall>x. \<not> in_map x \<longrightarrow> v' x = v x) \<and>
     (\<forall>k. fptr v f k \<noteq> 0 \<longrightarrow> fptr v' f k = fptr v f k) \<and>
     (\<forall>p. pos \<le> p \<and> p < lim \<longrightarrow> fptr v' f (p div BLKSIZE) \<noteq> 0 \<and> fbyte v' f p = v (buf + (p - pos))) \<and>
     (\<forall>p. fptr v f (p div BLKSIZE) \<noteq> 0 \<and> \<not> (pos \<le> p \<and> p < lim) \<longrightarrow> fbyte v' f p = fbyte v f p)"

lemma wrote_refl: "file_ok v f \<Longrightarrow> lim \<le> pos \<Longrightarrow> wrote f pos lim buf v v"
  by (auto simp: wrote_def)

lemma wrote_trans:
  assumes a: "wrote f pos mid buf v v1" and b: "wrote f mid lim (buf + (mid - pos)) v1 v2"
    and le: "pos \<le> mid" "mid \<le> lim"
    and out: "\<And>i. i < lim - pos \<Longrightarrow> \<not> in_map (buf + i)"
  shows "wrote f pos lim buf v v2"
proof -
  have bytes: "fptr v2 f (p div BLKSIZE) \<noteq> 0 \<and> fbyte v2 f p = v (buf + (p - pos))" if p: "pos \<le> p" "p < lim" for p
  proof (cases "p < mid")
    case True
    then have 1: "fptr v1 f (p div BLKSIZE) \<noteq> 0" "fbyte v1 f p = v (buf + (p - pos))"
      using a p by (auto simp: wrote_def)
    then show ?thesis using b True unfolding wrote_def by (metis linorder_not_le)
  next
    case False
    then have m: "mid \<le> p" by simp
    then have 2: "fptr v2 f (p div BLKSIZE) \<noteq> 0" "fbyte v2 f p = v1 (buf + (mid - pos) + (p - mid))"
      using b p by (auto simp: wrote_def)
    have e: "buf + (mid - pos) + (p - mid) = buf + (p - pos)" by simp
    have "p - pos < lim - pos" using p by (simp add: word_less_nat_alt unat_sub word_le_nat_alt)
    then have "v1 (buf + (p - pos)) = v (buf + (p - pos))" using a out by (auto simp: wrote_def)
    with 2 e show ?thesis by simp
  qed
  have rest: "fbyte v2 f p = fbyte v f p" if "fptr v f (p div BLKSIZE) \<noteq> 0" "\<not> (pos \<le> p \<and> p < lim)" for p
  proof -
    have "\<not> (pos \<le> p \<and> p < mid)" "\<not> (mid \<le> p \<and> p < lim)" using that(2) le by auto
    moreover have "fptr v1 f (p div BLKSIZE) \<noteq> 0" using a that(1) by (auto simp: wrote_def)
    ultimately show ?thesis using a b that(1) unfolding wrote_def by metis
  qed
  show ?thesis
    using a b bytes rest unfolding wrote_def by simp
qed

text \<open>Storing into a data block of the file.\<close>

lemma in_data_block:
  assumes "b < 0xC0000" "unat o' + unat n \<le> 4096" "x - (blockaddr b + o') < n"
  shows "in_map x" "blockno x = b" "boff x - o' < n" "o' \<le> boff x"
proof -
  define i where "i = x - (blockaddr b + o')"
  have i: "unat i < unat n" using assms(3) by (simp add: i_def word_less_nat_alt)
  have u: "unat (o' + i) = unat o' + unat i" using i assms(2) by (subst unat_add_no_wrap) simp_all
  then have l: "unat (o' + i) < 4096" using i assms(2) by simp
  have x: "x = blockaddr b + (o' + i)" by (simp add: i_def)
  note ba = blockaddr_offset [OF assms(1) l]
  show "in_map x" "blockno x = b" unfolding x using ba by simp_all
  have "boff x = o' + i" unfolding x using ba by simp
  then show "boff x - o' < n" "o' \<le> boff x" using u i by (simp_all add: word_less_nat_alt word_le_nat_alt)
qed

lemma blit_wrote:
  assumes v: "vol_ok v" and f: "file_ok v f" and nz: "fptr v f (pos div BLKSIZE) \<noteq> 0"
    and n: "unat (pos mod BLKSIZE) + unat n \<le> 4096" "unat pos + unat n < 2 ^ 32"
    and out: "\<And>i. i < n \<Longrightarrow> \<not> in_map (buf + i)"
  defines "v' \<equiv> blit (blockaddr (fptr v f (pos div BLKSIZE)) + pos mod BLKSIZE) buf n v"
  shows "wrote f pos (pos + n) buf v v'" "vol_same v v'"
proof -
  let ?k = "pos div BLKSIZE" and ?o = "pos mod BLKSIZE"
  let ?b = "fptr v f ?k"
  note fo = file_okD [OF f]
  have db: "datab v ?b" using fo(2) nz .
  have lb: "?b < 0xC0000" using datab_bound [OF v db] by simp
  note idb = in_data_block [OF lb n(1)]
  have ch: "in_map x \<and> blockno x = ?b" if "v' x \<noteq> v x" for x
    using that idb(1,2) [of x] by (auto simp: v'_def blit_def split: if_splits)
  have "safe v x" if "v' x \<noteq> v x" for x
    using ch [OF that] db by (simp add: safe_def datab_def)
  then show same: "vol_same v v'" by (intro vol_same_safe [OF v]) blast
  have word: "get32 v' a = get32 v a" if a: "a mod 4 = 0" and b: "in_map a \<Longrightarrow> blockno a \<noteq> ?b" for a
  proof (rule get32_page [OF a], rule ccontr)
    fix x assume p: "PGNUM x = PGNUM a" and "v' x \<noteq> v x"
    then have x: "in_map x" "blockno x = ?b" using ch by blast+
    then have "in_map a" using same_page_in_map [OF p] by simp
    with x p b show False using same_page_block by metis
  qed
  have fb: "blockno f \<noteq> ?b" using fo(3) nz by metis
  have ind: "get32 v' (f_indirect f) = get32 v (f_indirect f)"
    by (rule word [OF field_aligned(1) [OF fo(1)]]) (use file_field(2) [OF fo(1), of 176] fb in \<open>simp add: f_indirect_def\<close>)
  have sz: "get32 v' (f_size f) = get32 v (f_size f)"
    by (rule word [OF field_aligned(2) [OF fo(1)]]) (use file_field(2) [OF fo(1), of 128] fb in \<open>simp add: f_size_def\<close>)
  have sl: "get32 v' (slot v f k) = get32 v (slot v f k)" if h: "has_slot v f k" for k
    by (rule word [OF slot_place(1) [OF v f h]])
      (use slot_place(5) [OF v f h] fb fo(4) [OF nz] in \<open>auto split: if_splits\<close>)
  note fp = fptr_cong(3) [OF ind sl]
  have fok: "file_ok v' f" by (rule file_ok_cong [OF f ind fp]) (use datab_same [OF same] in simp_all)
  have range: "p div BLKSIZE = ?k \<and> p mod BLKSIZE - ?o = p - pos \<and> p - pos < n \<and>
      v' (blockaddr ?b + p mod BLKSIZE) = v (buf + (p - pos))" if p: "pos \<le> p" "p < pos + n" for p
  proof -
    have up: "unat (pos + n) = unat pos + unat n" by (rule unat_add_no_wrap) (use n(2) in simp)
    have i: "unat (p - pos) = unat p - unat pos" using p(1) by (simp add: unat_sub word_le_nat_alt)
    have lt: "p - pos < n" using p up i by (simp add: word_less_nat_alt word_le_nat_alt)
    have "unat p = 4096 * (unat pos div 4096) + (unat pos mod 4096 + unat (p - pos))"
      using i p(1) by (simp add: word_le_nat_alt)
    moreover have "unat pos mod 4096 + unat (p - pos) < 4096"
      using n(1) lt by (simp add: word_less_nat_alt unat_mod)
    ultimately have pj: "unat p div 4096 = unat pos div 4096 \<and> unat p mod 4096 = unat pos mod 4096 + unat (p - pos)"
      by (rule page_join)
    have k: "p div BLKSIZE = ?k" using pj by (simp add: word_unat_eq_iff unat_div)
    have "unat (?o + (p - pos)) = unat pos mod 4096 + unat (p - pos)"
      by (subst unat_add_no_wrap) (use n(1) lt in \<open>simp_all add: word_less_nat_alt unat_mod\<close>)
    then have o': "p mod BLKSIZE = ?o + (p - pos)" using pj by (simp add: word_unat_eq_iff unat_mod)
    then have o: "p mod BLKSIZE - ?o = p - pos" by simp
    have "blockaddr ?b + p mod BLKSIZE - (blockaddr ?b + ?o) = p - pos" using o' by simp
    then show ?thesis using k o lt by (simp add: v'_def blit_def)
  qed
  have rest: "fbyte v' f p = fbyte v f p"
    if "fptr v f (p div BLKSIZE) \<noteq> 0" "\<not> (pos \<le> p \<and> p < pos + n)" for p
  proof -
    let ?c = "fptr v f (p div BLKSIZE)" and ?x = "blockaddr (fptr v f (p div BLKSIZE)) + p mod BLKSIZE"
    have "datab v ?c" using fo(2) that(1) .
    then have lc: "?c < 0xC0000" using datab_bound [OF v] by simp
    have "unat (p mod BLKSIZE) < 4096" by (simp add: unat_mod)
    note x = blockaddr_offset [OF lc this]
    have "\<not> ?x - (blockaddr ?b + ?o) < n"
    proof
      assume l: "?x - (blockaddr ?b + ?o) < n"
      from idb [OF l] x have cb: "?c = ?b" and d: "p mod BLKSIZE - ?o < n" "?o \<le> p mod BLKSIZE" by simp_all
      then have k: "p div BLKSIZE = ?k" using fo(5) that(1) by blast
      have up: "unat (pos + n) = unat pos + unat n" by (rule unat_add_no_wrap) (use n(2) in simp)
      have "unat (p mod BLKSIZE - ?o) = unat (p mod BLKSIZE) - unat ?o"
        using d(2) by (simp add: unat_sub word_le_nat_alt)
      then have m: "unat pos mod 4096 \<le> unat p mod 4096" "unat p mod 4096 < unat pos mod 4096 + unat n"
        using d by (simp_all add: word_less_nat_alt word_le_nat_alt unat_mod less_diff_conv2)
      have "unat p div 4096 = unat pos div 4096" using arg_cong [OF k, of unat] by (simp add: unat_div)
      then have "unat pos \<le> unat p" "unat p < unat pos + unat n"
        using m page_split(1) [of "unat p"] page_split(1) [of "unat pos"] by linarith+
      then have "pos \<le> p \<and> p < pos + n" by (simp add: word_le_nat_alt word_less_nat_alt up)
      with that(2) show False by simp
    qed
    then have "v' ?x = v ?x" by (simp add: v'_def blit_def)
    moreover have "fptr v' f (p div BLKSIZE) = ?c" by (rule fp)
    ultimately show ?thesis by (simp add: fbyte_def)
  qed
  have "v' x = v x" if "\<not> in_map x" for x using ch that by blast
  then show "wrote f pos (pos + n) buf v v'"
    using fok ind sz range rest nz unfolding wrote_def fp by (simp add: fbyte_def fp)
qed

lemma with_block_wrote:
  assumes v: "vol_ok v" and f: "file_ok v f" and h: "has_slot v f k" and z: "fptr v f k = 0" and b: "isfree v b"
  shows "wrote f pos pos buf v (with_block f k b v)"
proof -
  note wb = with_block [OF v f h b]
  note fo = file_okD [OF f]
  have byte: "fbyte (with_block f k b v) f p = fbyte v f p" if p: "fptr v f (p div BLKSIZE) \<noteq> 0" for p
  proof -
    have ne: "p div BLKSIZE \<noteq> k" using p z by auto
    have d: "datab v (fptr v f (p div BLKSIZE))" using fo(2) p .
    have l: "unat (p mod BLKSIZE) < 4096" by (simp add: unat_mod)
    have "fptr v f (p div BLKSIZE) \<noteq> blockno (slot v f k)"
      using fo(3,4) [OF p] slot_place(5) [OF v f h] by simp
    then show ?thesis
      using wb(9) [OF datab_safe [OF v d l]] blockaddr_offset(2) [OF _ l] datab_bound [OF v d] ne
      by (simp add: fbyte_def wb(6))
  qed
  have "with_block f k b v x = v x" if "\<not> in_map x" for x
    using wb(9) [of x] that by (simp add: safe_def)
  then show ?thesis
    using wb(4-6,8) byte z by (auto simp: wrote_def)
qed

section \<open>The write loop\<close>

text \<open>One round writes up to the end of a block.\<close>

definition chunk :: "u32 \<Rightarrow> u32 \<Rightarrow> u32" where
  "chunk pos lim = min (BLKSIZE - pos mod BLKSIZE) (lim - pos)"

lemma chunk:
  assumes "pos < lim"
  shows "unat (pos mod BLKSIZE) + unat (chunk pos lim) \<le> 4096" "0 < chunk pos lim"
    "chunk pos lim \<le> lim - pos" "unat (pos + chunk pos lim) = unat pos + unat (chunk pos lim)"
    "pos + chunk pos lim \<le> lim" "pos \<le> pos + chunk pos lim"
    "unat lim - unat (pos + chunk pos lim) < unat lim - unat pos"
proof -
  have o: "unat (pos mod BLKSIZE) < 4096" by (simp add: unat_mod)
  then have d: "unat (BLKSIZE - pos mod BLKSIZE) = 4096 - unat (pos mod BLKSIZE)"
    by (simp add: unat_sub word_le_nat_alt)
  have l: "unat (lim - pos) = unat lim - unat pos" "unat pos < unat lim"
    using assms by (simp_all add: unat_sub word_less_nat_alt word_le_nat_alt)
  have c: "unat (chunk pos lim) = min (4096 - unat (pos mod BLKSIZE)) (unat lim - unat pos)"
    unfolding chunk_def min_def using d l by (simp add: word_le_nat_alt)
  show "unat (pos mod BLKSIZE) + unat (chunk pos lim) \<le> 4096" using c o by simp
  show p: "0 < chunk pos lim" using c o l by (simp add: word_less_nat_alt)
  show "chunk pos lim \<le> lim - pos" by (simp add: chunk_def)
  show u: "unat (pos + chunk pos lim) = unat pos + unat (chunk pos lim)"
    by (rule unat_add_no_wrap) (use c l unat_less_32 [of lim] in simp)
  show "pos + chunk pos lim \<le> lim" "pos \<le> pos + chunk pos lim" unfolding word_le_nat_alt u using c l by simp_all
  show "unat lim - unat (pos + chunk pos lim) < unat lim - unat pos"
    unfolding u using p l by (simp add: word_less_nat_alt)
qed

lemma chunk_rest:
  assumes "pos < lim" "i < lim - (pos + chunk pos lim)"
  shows "chunk pos lim + i < lim - pos"
proof -
  note ck = chunk [OF assms(1)]
  have a: "unat (lim - (pos + chunk pos lim)) = unat lim - (unat pos + unat (chunk pos lim))"
    using ck(4,5) by (simp add: unat_sub)
  have b: "unat (lim - pos) = unat lim - unat pos" using assms(1) by (simp add: unat_sub)
  have "unat (chunk pos lim + i) \<le> unat (chunk pos lim) + unat i" by (simp add: unat_word_ariths)
  with assms(2) a b show ?thesis by (simp add: word_less_nat_alt)
qed

lemma write_loop_rule:
  assumes "becomes s0 v s" "file_ok v f" "pos \<le> lim" "unat lim < 2 ^ 31"
    "\<And>p. pos \<le> p \<Longrightarrow> p < lim \<Longrightarrow> has_slot v f (p div BLKSIZE)"
    "\<And>i. i < lim - pos \<Longrightarrow> \<not> in_map (buf + i) \<and> mapped s0 (PGNUM (buf + i))"
    "\<And>v' s'. (\<And>c. \<not> isfree v' c) \<Longrightarrow> becomes s0 v' s' \<Longrightarrow> Q (Inl E_NO_DISK, s')"
    "\<And>v' s'. wrote f pos lim buf v v' \<Longrightarrow> becomes s0 v' s' \<Longrightarrow> Q (Inr (), s')"
  shows "runs (file_write_loop f buf pos lim s) Q"
  using assms
proof (induction "unat lim - unat pos" arbitrary: v s pos buf rule: less_induct)
  case less
  show ?case
  proof (cases "pos < lim")
    case False
    then have "wrote f pos lim buf v v" using wrote_refl [OF less.prems(2)] by simp
    from less.prems(8) [OF this less.prems(1)] False show ?thesis
      by (subst file_write_loop.simps) simp
  next
    case True
    let ?k = "pos div BLKSIZE" and ?n = "chunk pos lim" and ?o = "pos mod BLKSIZE"
    note ck = chunk [OF True]
    have p31: "unat pos < 2 ^ 31" using True less.prems(4) by (simp add: word_less_nat_alt)
    note od = off_div_mod [OF p31]
    have h: "has_slot v f ?k" using less.prems(5) True by blast
    have nofl: "unat pos + unat ?n < 2 ^ 32" using ck(4) unat_less_32 [of "pos + ?n"] by simp
    have out: "\<not> in_map (buf + i)" "mapped s0 (PGNUM (buf + i))" if "i < ?n" for i
    proof -
      have "i < lim - pos" using that ck(3) by (rule less_le_trans)
      then show "\<not> in_map (buf + i)" "mapped s0 (PGNUM (buf + i))" using less.prems(6) by blast+
    qed
    have next_part: "runs (do { s \<leftarrow> fs_memmove (blockaddr (fptr v1 f ?k) + ?o) buf ?n t;
        file_write_loop f (buf + ?n) (pos + ?n) lim s }) Q"
      if t: "becomes s0 v1 t" and w1: "wrote f pos pos buf v v1" and nz: "fptr v1 f ?k \<noteq> 0" for v1 t
    proof -
      have f1: "file_ok v1 f" using w1 by (simp add: wrote_def)
      note vol1 = becomesD(3) [OF t]
      have db: "datab v1 (fptr v1 f ?k)" using file_okD(2) [OF f1 nz] .
      have lb: "fptr v1 f ?k < 0xC0000" using datab_bound [OF vol1 db] by simp
      note idb = in_data_block [OF lb ck(1)]
      note bw = blit_wrote [OF vol1 f1 nz ck(1) nofl out(1)]
      let ?v2 = "blit (blockaddr (fptr v1 f ?k) + ?o) buf ?n v1"
      have w2: "wrote f pos (pos + ?n) buf v ?v2"
        by (rule wrote_trans [OF w1]) (use bw(1) ck(6) out(1) in simp_all)
      show ?thesis unfolding runs_bind
      proof (rule memmove_rule [OF t])
        fix x assume x: "x - buf < ?n"
        then show "accv s0 v1 x" using out(2) [OF x] by (simp add: accv_def)
        show "\<not> x - (blockaddr (fptr v1 f ?k) + ?o) < ?n"
          using out(1) [OF x] idb(1) [of x] by auto
      next
        fix x assume x: "x - (blockaddr (fptr v1 f ?k) + ?o) < ?n"
        note i = idb [OF x]
        then show "accv s0 v1 x \<and> safe v1 x" using db by (simp add: accv_def safe_def datab_def)
      next
        fix u assume u: "becomes s0 ?v2 u"
        have f2: "file_ok ?v2 f" and ind2: "get32 ?v2 (f_indirect f) = get32 v (f_indirect f)"
          using w2 by (auto simp: wrote_def)
        show "runs (file_write_loop f (buf + ?n) (pos + ?n) lim u) Q"
        proof (rule less.hyps [OF ck(7) u f2 ck(5) less.prems(4)])
          fix p assume "pos + ?n \<le> p" "p < lim"
          then have "has_slot v f (p div BLKSIZE)" using less.prems(5) ck(6) order_trans by blast
          then show "has_slot ?v2 f (p div BLKSIZE)" by (simp add: has_slot_def ind2)
        next
          fix i assume i: "i < lim - (pos + ?n)"
          have "?n + i < lim - pos" by (rule chunk_rest [OF True i])
          from less.prems(6) [OF this]
          show "\<not> in_map (buf + ?n + i) \<and> mapped s0 (PGNUM (buf + ?n + i))" by (simp add: add.assoc)
        next
          fix v' s' assume "\<And>c. \<not> isfree v' c" "becomes s0 v' s'"
          then show "Q (Inl E_NO_DISK, s')" by (rule less.prems(7))
        next
          fix v' s' assume w3: "wrote f (pos + ?n) lim (buf + ?n) ?v2 v'" and v': "becomes s0 v' s'"
          have "wrote f pos lim buf v v'"
            by (rule wrote_trans [OF w2]) (use w3 ck(5,6) less.prems(6) in simp_all)
          then show "Q (Inr (), s')" using less.prems(8) v' by blast
        qed
      qed
    qed
    note vol = becomesD(3) [OF less.prems(1)]
    have fresh: "runs (do { s \<leftarrow> fs_memmove (blockaddr b + ?o) buf ?n t;
        file_write_loop f (buf + ?n) (pos + ?n) lim s }) Q"
      if z: "fptr v f ?k = 0" and b: "isfree v b" and t: "becomes s0 (with_block f ?k b v) t" for b t
    proof -
      have fp: "fptr (with_block f ?k b v) f ?k = b" using with_block(6) [OF vol less.prems(2) h b] by simp
      have "b \<noteq> 0" using isfree_resv [OF vol b] vol_okD(2) [OF vol] by auto
      then show ?thesis
        using next_part [OF t with_block_wrote [OF vol less.prems(2) h z b]] fp by simp
    qed
    show ?thesis
      apply (subst file_write_loop.simps)
      unfolding if_P [OF True] od runs_bind
      apply (rule get_block_rule [OF less.prems(1,2) h])
        apply (use next_part less.prems(2) wrote_refl in \<open>simp add: Let_def chunk_def\<close>)
       apply (simp, rule less.prems(7), blast, assumption)
      apply (use fresh in \<open>simp add: Let_def chunk_def\<close>)
      done
  qed
qed

section \<open>The read loop\<close>

text \<open>The view after bytes of the file were copied out to a buffer.\<close>

definition copied :: "u32 \<Rightarrow> u32 \<Rightarrow> u32 \<Rightarrow> u32 \<Rightarrow> mem \<Rightarrow> mem" where
  "copied f pos n buf v = (\<lambda>x. if x - buf < n then fbyte v f (pos + (x - buf)) else v x)"

text \<open>Stores outside the disk map keep every file.\<close>

lemma outside_same:
  assumes v: "vol_ok v" and f: "file_ok v f" and same: "\<And>x. in_map x \<Longrightarrow> v' x = v x"
  shows "vol_same v v'" "file_ok v' f" "get32 v' (f_indirect f) = get32 v (f_indirect f)"
    "get32 v' (f_size f) = get32 v (f_size f)" "fptr v' f k = fptr v f k" "has_slot v' f k = has_slot v f k"
    "fptr v f (p div BLKSIZE) \<noteq> 0 \<Longrightarrow> fbyte v' f p = fbyte v f p"
proof -
  show vs: "vol_same v v'" by (rule vol_same_safe [OF v]) (use same in \<open>auto simp: safe_def\<close>)
  have word: "get32 v' a = get32 v a" if "a mod 4 = 0" "in_map a" for a
    by (rule get32_page [OF that(1)]) (use same same_page_in_map that(2) in blast)
  note fo = file_okD [OF f]
  show ind: "get32 v' (f_indirect f) = get32 v (f_indirect f)"
    using word [OF field_aligned(1) [OF fo(1)]] file_field(1) [OF fo(1), of 176] by (simp add: f_indirect_def)
  show "get32 v' (f_size f) = get32 v (f_size f)"
    using word [OF field_aligned(2) [OF fo(1)]] file_field(1) [OF fo(1), of 128] by (simp add: f_size_def)
  have sl: "get32 v' (slot v f k) = get32 v (slot v f k)" if "has_slot v f k" for k
    by (rule word [OF slot_place(1,4) [OF v f that]])
  show "has_slot v' f k = has_slot v f k" for k by (simp add: has_slot_def ind)
  note fp = fptr_cong(3) [OF ind sl]
  show "fptr v' f k = fptr v f k" for k by (rule fp)
  show "file_ok v' f" by (rule file_ok_cong [OF f ind fp]) (use datab_same [OF vs] in simp_all)
  assume nz: "fptr v f (p div BLKSIZE) \<noteq> 0"
  have "fptr v f (p div BLKSIZE) < 0xC0000" using datab_bound [OF v fo(2) [OF nz]] by simp
  then have "in_map (blockaddr (fptr v f (p div BLKSIZE)) + p mod BLKSIZE)"
    using blockaddr_offset(1) [of _ "p mod BLKSIZE"] by (simp add: unat_mod)
  then have "v' (blockaddr (fptr v f (p div BLKSIZE)) + p mod BLKSIZE) = v (blockaddr (fptr v f (p div BLKSIZE)) + p mod BLKSIZE)"
    by (rule same)
  moreover have "fptr v' f (p div BLKSIZE) = fptr v f (p div BLKSIZE)" by (rule fp)
  ultimately show "fbyte v' f p = fbyte v f p" by (simp add: fbyte_def)
qed

lemma chunk_index:
  assumes "pos < lim" "i < chunk pos lim"
  shows "(pos + i) div BLKSIZE = pos div BLKSIZE \<and> (pos + i) mod BLKSIZE = pos mod BLKSIZE + i"
proof -
  note ck = chunk [OF assms(1)]
  have i: "unat i < unat (chunk pos lim)" using assms(2) by (simp add: word_less_nat_alt)
  have o: "unat (pos mod BLKSIZE + i) = unat pos mod 4096 + unat i"
    by (subst unat_add_no_wrap) (use ck(1) i in \<open>simp_all add: unat_mod\<close>)
  have p: "unat (pos + i) = unat pos + unat i"
    by (rule unat_add_no_wrap) (use ck(4) i unat_less_32 [of "pos + chunk pos lim"] in simp)
  have "unat pos + unat i = 4096 * (unat pos div 4096) + (unat pos mod 4096 + unat i)" by simp
  moreover have "unat pos mod 4096 + unat i < 4096" using ck(1) i by (simp add: unat_mod)
  ultimately have "(unat pos + unat i) div 4096 = unat pos div 4096 \<and>
      (unat pos + unat i) mod 4096 = unat pos mod 4096 + unat i"
    by (rule page_join)
  then show ?thesis by (simp add: word_unat_eq_iff unat_div unat_mod p o [unfolded unat_mod])
qed

lemma copied_step:
  assumes "pos < lim" "\<And>p. pos \<le> p \<Longrightarrow> p < lim \<Longrightarrow> fbyte v1 f p = fbyte v f p"
    "\<And>i. i < chunk pos lim \<Longrightarrow> v1 (buf + i) = fbyte v f (pos + i)"
    "\<And>x. \<not> x - buf < chunk pos lim \<Longrightarrow> v1 x = v x"
  shows "copied f (pos + chunk pos lim) (lim - (pos + chunk pos lim)) (buf + chunk pos lim) v1
    = copied f pos (lim - pos) buf v"
proof
  fix x
  let ?n = "chunk pos lim"
  define y where "y = x - buf"
  have xy: "x = buf + y" by (simp add: y_def)
  note ck = chunk [OF assms(1)]
  have a: "unat (lim - (pos + ?n)) = unat lim - (unat pos + unat ?n)"
    using ck(4,5) by (simp add: unat_sub)
  have b: "unat (lim - pos) = unat lim - unat pos" "unat pos + unat ?n \<le> unat lim"
    using assms(1) ck(4,5) by (simp_all add: unat_sub word_le_nat_alt)
  have e: "x - (buf + ?n) = y - ?n" "x - buf = y" by (simp_all add: xy)
  show "copied f (pos + ?n) (lim - (pos + ?n)) (buf + ?n) v1 x = copied f pos (lim - pos) buf v x"
  proof (cases "y < ?n")
    case True
    have "\<not> y - ?n < lim - (pos + ?n)"
    proof -
      have "unat (y - ?n) = 2 ^ 32 + unat y - unat ?n"
        using True by (simp add: unat_sub_if_size word_size word_less_nat_alt word_le_nat_alt)
      then show ?thesis using a True unat_less_32 [of lim] by (simp add: word_less_nat_alt)
    qed
    moreover have "y < lim - pos" using True ck(3) by (rule less_le_trans)
    moreover have "v1 x = fbyte v f (pos + y)" using assms(3) [OF True] by (simp add: xy)
    ultimately show ?thesis unfolding copied_def e by simp
  next
    case False
    then have le: "?n \<le> y" by simp
    have y: "unat (y - ?n) = unat y - unat ?n" "unat ?n \<le> unat y"
      using le by (simp_all add: unat_sub word_le_nat_alt)
    then have lt: "y - ?n < lim - (pos + ?n) \<longleftrightarrow> y < lim - pos"
      unfolding word_less_nat_alt a b(1) using b(2) by linarith
    have "fbyte v1 f (pos + y) = fbyte v f (pos + y)" if l: "y < lim - pos"
    proof (rule assms(2))
      have "unat (pos + y) = unat pos + unat y"
        by (rule unat_add_no_wrap) (use l b unat_less_32 [of lim] in \<open>simp add: word_less_nat_alt\<close>)
      then show "pos \<le> pos + y" "pos + y < lim"
        using l b by (simp_all add: word_le_nat_alt word_less_nat_alt)
    qed
    moreover have "pos + ?n + (y - ?n) = pos + y" by simp
    ultimately show ?thesis unfolding copied_def e lt using assms(4) [of x] False by (simp add: e)
  qed
qed

text \<open>One round of the read loop, for a buffer that does not overlap the block it reads.\<close>

lemma read_round:
  assumes "becomes s0 v s" "file_ok v f" "pos < lim" "unat lim < 2 ^ 31" "fptr v f (pos div BLKSIZE) \<noteq> 0"
    "\<And>x. x - buf < chunk pos lim \<Longrightarrow> accv s0 v x \<and> safe v x \<and> \<not> (in_map x \<and> blockno x = fptr v f (pos div BLKSIZE))"
    "\<And>u. becomes s0 (blit buf (blockaddr (fptr v f (pos div BLKSIZE)) + pos mod BLKSIZE) (chunk pos lim) v) u \<Longrightarrow>
       runs (file_read_loop f (buf + chunk pos lim) (pos + chunk pos lim) lim u) Q"
  shows "runs (file_read_loop f buf pos lim s) Q"
proof -
  let ?k = "pos div BLKSIZE" and ?n = "chunk pos lim" and ?o = "pos mod BLKSIZE"
  note ck = chunk [OF assms(3)]
  have p31: "unat pos < 2 ^ 31" using assms(3,4) by (simp add: word_less_nat_alt)
  note od = off_div_mod [OF p31]
  have h: "has_slot v f ?k" using assms(5) by (auto simp: fptr_def split: if_splits)
  have db: "datab v (fptr v f ?k)" using file_okD(2) [OF assms(2,5)] .
  have lb: "fptr v f ?k < 0xC0000" using datab_bound [OF becomesD(3) [OF assms(1)] db] by simp
  note idb = in_data_block [OF lb ck(1)]
  have step: "runs (do { s \<leftarrow> fs_memmove buf (blockaddr (fptr v f ?k) + ?o) ?n t;
      file_read_loop f (buf + ?n) (pos + ?n) lim s }) Q" if t: "becomes s0 v t" for t
    unfolding runs_bind
  proof (rule memmove_rule [OF t])
    fix x assume x: "x - (blockaddr (fptr v f ?k) + ?o) < ?n"
    note i = idb [OF x]
    then show "accv s0 v x" using db by (simp add: accv_def datab_def)
    show "\<not> x - buf < ?n" using i(1,2) assms(6) by blast
  next
    fix x assume "x - buf < ?n"
    then show "accv s0 v x \<and> safe v x" using assms(6) by blast
  qed (rule assms(7))
  show ?thesis
    apply (subst file_read_loop.simps)
    unfolding if_P [OF assms(3)] od runs_bind
    apply (rule get_block_rule [OF assms(1,2) h])
      apply (use step in \<open>simp add: Let_def chunk_def\<close>)
    using assms(5) by simp_all
qed

lemma read_loop_rule:
  assumes "becomes s0 v s" "file_ok v f" "pos \<le> lim" "unat lim < 2 ^ 31"
    "\<And>p. pos \<le> p \<Longrightarrow> p < lim \<Longrightarrow> fptr v f (p div BLKSIZE) \<noteq> 0"
    "\<And>i. i < lim - pos \<Longrightarrow> \<not> in_map (buf + i) \<and> mapped s0 (PGNUM (buf + i))"
    "\<And>s'. becomes s0 (copied f pos (lim - pos) buf v) s' \<Longrightarrow> Q (Inr (), s')"
  shows "runs (file_read_loop f buf pos lim s) Q"
  using assms
proof (induction "unat lim - unat pos" arbitrary: v s pos buf rule: less_induct)
  case less
  show ?case
  proof (cases "pos < lim")
    case False
    then have "copied f pos (lim - pos) buf v = v"
      using less.prems(3) by (auto simp: copied_def)
    with less.prems(7) [of s] less.prems(1) False show ?thesis
      by (subst file_read_loop.simps) simp
  next
    case True
    let ?k = "pos div BLKSIZE" and ?n = "chunk pos lim" and ?o = "pos mod BLKSIZE"
    note ck = chunk [OF True]
    note vol = becomesD(3) [OF less.prems(1)]
    have nz: "fptr v f ?k \<noteq> 0" using less.prems(5) True by blast
    have out: "\<not> in_map x" "mapped s0 (PGNUM x)" if "x - buf < ?n" for x
    proof -
      have "x - buf < lim - pos" using that ck(3) by (rule less_le_trans)
      from less.prems(6) [OF this] show "\<not> in_map x" "mapped s0 (PGNUM x)" by simp_all
    qed
    let ?v1 = "blit buf (blockaddr (fptr v f ?k) + ?o) ?n v"
    have v1: "?v1 x = v x" if "in_map x" for x using out(1) that by (auto simp: blit_def)
    note os = outside_same [where v' = ?v1, OF vol less.prems(2) v1]
    show ?thesis
    proof (rule read_round [OF less.prems(1,2) True less.prems(4) nz])
      fix x assume "x - buf < ?n"
      then show "accv s0 v x \<and> safe v x \<and> \<not> (in_map x \<and> blockno x = fptr v f ?k)"
        using out [of x] by (simp add: accv_def safe_def)
    next
      fix u assume u: "becomes s0 ?v1 u"
      show "runs (file_read_loop f (buf + ?n) (pos + ?n) lim u) Q"
      proof (rule less.hyps [OF ck(7) u os(2) ck(5) less.prems(4)])
        fix p assume p: "pos + ?n \<le> p" "p < lim"
        have "fptr v f (p div BLKSIZE) \<noteq> 0" by (rule less.prems(5) [OF order_trans [OF ck(6) p(1)] p(2)])
        then show "fptr ?v1 f (p div BLKSIZE) \<noteq> 0" using os(5) by simp
      next
        fix i assume i: "i < lim - (pos + ?n)"
        have "?n + i < lim - pos" by (rule chunk_rest [OF True i])
        from less.prems(6) [OF this]
        show "\<not> in_map (buf + ?n + i) \<and> mapped s0 (PGNUM (buf + ?n + i))" by (simp add: add.assoc)
      next
        fix t' assume t': "becomes s0 (copied f (pos + ?n) (lim - (pos + ?n)) (buf + ?n) ?v1) t'"
        have "copied f (pos + ?n) (lim - (pos + ?n)) (buf + ?n) ?v1 = copied f pos (lim - pos) buf v"
        proof (rule copied_step [OF True, where v = v and buf = buf])
          fix p assume "pos \<le> p" "p < lim"
          then show "fbyte ?v1 f p = fbyte v f p" using os(7) less.prems(5) by blast
        next
          fix i assume i: "i < ?n"
          have "(pos + i) div BLKSIZE = ?k \<and> (pos + i) mod BLKSIZE = ?o + i"
            by (rule chunk_index [OF True i])
          then show "?v1 (buf + i) = fbyte v f (pos + i)"
            using i by (simp add: blit_def fbyte_def add.assoc)
        next
          fix x assume "\<not> x - buf < ?n"
          then show "?v1 x = v x" by (simp add: blit_def)
        qed
        with t' show "Q (Inr (), t')" using less.prems(7) by simp
      qed
    qed
  qed
qed

end
