(* ===== verification/FsProps.thy ===== *)
theory FsProps
  imports FsRw
begin

text \<open>
  What the file system promises: blocks are paged in on demand, allocated once and written
  back, a file never shares a block, and what is written is read back.
\<close>

section \<open>Whole files\<close>

lemma size_field:
  assumes "vol_ok v" "file_ok v f"
  shows "f_size f mod 4 = 0" "safe v (f_size f)" "accv s0 v (f_size f)"
  using field_aligned(2) [OF file_okD(1) [OF assms(2)]]
    file_field_ok [OF assms(1) file_okD(1) [OF assms(2)], of 128] by (simp_all add: f_size_def)

lemma set_size_file:
  assumes v: "vol_ok v" and f: "file_ok v f"
  shows "file_ok (put32 (f_size f) w v) f" "has_slot (put32 (f_size f) w v) f k = has_slot v f k"
    "fptr (put32 (f_size f) w v) f k = fptr v f k"
proof -
  note sf = size_field [OF v f]
  note fo = file_okD [OF f]
  have ind: "get32 (put32 (f_size f) w v) (f_indirect f) = get32 v (f_indirect f)"
    by (rule get32_put32_other [OF sf(1) field_aligned(1) [OF fo(1)]])
      (simp add: f_size_def f_indirect_def)
  have sl: "get32 (put32 (f_size f) w v) (slot v f k) = get32 v (slot v f k)" if h: "has_slot v f k" for k
    by (rule get32_put32_other [OF sf(1) slot_place(1) [OF v f h]]) (use slot_not_field(2) [OF v f h] in simp)
  show "has_slot (put32 (f_size f) w v) f k = has_slot v f k" by (rule fptr_cong(1) [OF ind sl])
  show "fptr (put32 (f_size f) w v) f k = fptr v f k" by (rule fptr_cong(3) [OF ind sl])
  show "file_ok (put32 (f_size f) w v) f"
    by (rule file_ok_cong [OF f ind fptr_cong(3) [OF ind sl]])
      (use datab_same [OF vol_same_put32 [OF v sf(1,2)]] in simp_all)
qed

lemma grow_rule:
  assumes "becomes s0 v s" "file_ok v f" "unat (get32 v (f_size f)) < 2 ^ 31" "unat n < 2 ^ 31"
    "get32 v (f_size f) \<le> n" "\<And>s'. becomes s0 (put32 (f_size f) n v) s' \<Longrightarrow> Q (Inr (), s')"
  shows "runs (file_set_size f n s) Q"
proof -
  note vol = becomesD(3) [OF assms(1)]
  note sf = size_field [OF vol assms(2)]
  have m: "in_map f" using file_okD(1) [OF assms(2)] by (simp add: file_at_def)
  have "\<not> sint n < sint (get32 v (f_size f))"
    unfolding sint_small [OF assms(3)] sint_small [OF assms(4)] using assms(5)
    by (simp only: of_nat_less_iff not_less word_le_nat_alt)
  then show ?thesis
    unfolding file_set_size_def runs_bind
    apply (intro ld32_rule [OF assms(1) sf(3,1)])
    apply simp
    apply (rule safe_store_rule [OF _ sf(3,1,2)], assumption)
    apply (rule flush_rule [OF _ m], assumption)
    apply (rule assms(6), assumption)
    done
qed

text \<open>\<open>file_write\<close> stores the buffer, or the disk is full.\<close>

lemma write_rule:
  assumes "becomes s0 v s" "file_ok v f" "unat (get32 v (f_size f)) < 2 ^ 31"
    "unat off + unat count \<le> 4235264" "unat off + unat count \<le> 40960 \<or> get32 v (f_indirect f) \<noteq> 0"
    "\<And>i. i < count \<Longrightarrow> \<not> in_map (buf + i) \<and> mapped s0 (PGNUM (buf + i))"
    "\<And>v' s'. (\<And>c. \<not> isfree v' c) \<Longrightarrow> becomes s0 v' s' \<Longrightarrow> Q (Inl E_NO_DISK, s')"
    "\<And>v1 v' s'. wrote f off (off + count) buf v1 v' \<Longrightarrow> (\<And>x. \<not> in_map x \<Longrightarrow> v1 x = v x) \<Longrightarrow>
       get32 v' (f_size f) = max (get32 v (f_size f)) (off + count) \<Longrightarrow> becomes s0 v' s' \<Longrightarrow> Q (Inr count, s')"
  shows "runs (file_write f buf count off s) Q"
proof -
  let ?lim = "off + count" and ?sz = "get32 v (f_size f)"
  note vol = becomesD(3) [OF assms(1)]
  note sf = size_field [OF vol assms(2)]
  have lim: "unat ?lim = unat off + unat count"
    by (rule unat_add_no_wrap) (use assms(4) in simp)
  then have l31: "unat ?lim < 2 ^ 31" using assms(4) by simp
  have le: "off \<le> ?lim" unfolding word_le_nat_alt lim by simp
  have ld: "?lim - off = count" by simp
  have has: "has_slot v f (p div BLKSIZE)" if "p < ?lim" for p
  proof -
    have "unat p < unat off + unat count" using that by (simp add: word_less_nat_alt lim)
    then have "unat p div 4096 < 1034" "unat off + unat count \<le> 40960 \<Longrightarrow> unat p div 4096 < 10"
      using assms(4) by (auto simp: less_mult_imp_div_less)
    then show ?thesis using assms(5) by (auto simp: has_slot_def word_less_nat_alt unat_div)
  qed
  have body: "runs (do { (r, s) \<leftarrow> file_write_loop f buf off ?lim t;
      case r of Inl e \<Rightarrow> Some (Inl e, s) | Inr u \<Rightarrow> Some (Inr count, s) }) Q"
    if t: "becomes s0 v1 t" and f1: "file_ok v1 f" and h1: "\<And>k. has_slot v1 f k = has_slot v f k"
      and o1: "\<And>x. \<not> in_map x \<Longrightarrow> v1 x = v x" and sz: "get32 v1 (f_size f) = max ?sz ?lim" for v1 t
    unfolding runs_bind
  proof (rule write_loop_rule [OF t f1 le l31])
    fix p assume "p < ?lim" then show "has_slot v1 f (p div BLKSIZE)" using has h1 by simp
  next
    fix i assume "i < ?lim - off"
    then show "\<not> in_map (buf + i) \<and> mapped s0 (PGNUM (buf + i))" using assms(6) unfolding ld by blast
  next
    fix v' s' assume f: "\<And>c. \<not> isfree v' c" and b: "becomes s0 v' s'"
    show "runs (case (Inl E_NO_DISK, s') of (r, s) \<Rightarrow> case r of Inl e \<Rightarrow> Some (Inl e, s) | Inr u \<Rightarrow> Some (Inr count, s)) Q"
      using assms(7) [OF f b] by simp
  next
    fix v' s' assume w: "wrote f off ?lim buf v1 v'" and b: "becomes s0 v' s'"
    have "get32 v' (f_size f) = max ?sz ?lim" using w sz by (simp add: wrote_def)
    from assms(8) [OF w o1 this b]
    show "runs (case (Inr (), s') of (r, s) \<Rightarrow> case r of Inl e \<Rightarrow> Some (Inl e, s) | Inr u \<Rightarrow> Some (Inr count, s)) Q"
      by simp
  qed
  show ?thesis unfolding file_write_def runs_bind
  proof (rule ld32_rule [OF assms(1) sf(3,1)])
    fix t assume t: "becomes s0 v t"
    show "runs (case (?sz, t) of (sz, s) \<Rightarrow> do {
       (r, s) \<leftarrow> (if sz < off + count then file_set_size f (off + count) s else Some (Inr (), s));
       case r of Inl e \<Rightarrow> Some (Inl e, s)
       | Inr u \<Rightarrow> do { (r, s) \<leftarrow> file_write_loop f buf off (off + count) s;
           case r of Inl e \<Rightarrow> Some (Inl e, s) | Inr u \<Rightarrow> Some (Inr count, s) } }) Q"
    proof (cases "?sz < ?lim")
      case True
      let ?v1 = "put32 (f_size f) ?lim v"
      note sz = set_size_file [OF vol assms(2)]
      have "?v1 x = v x" if x: "\<not> in_map x" for x
      proof (rule ccontr)
        assume "?v1 x \<noteq> v x"
        then have "PGNUM x = PGNUM (f_size f)" using put32_changed [OF sf(1)] by blast
        then have "in_map x \<longleftrightarrow> in_map (f_size f)" by (rule same_page_in_map)
        then show False using x file_field(1) [OF file_okD(1) [OF assms(2)], of 128] by (simp add: f_size_def)
      qed
      then show ?thesis
        using True by (simp add: runs_bind) (rule grow_rule [OF t assms(2,3) l31], simp,
          simp, rule body [unfolded runs_bind], assumption, rule sz(1), rule sz(2), blast, simp add: max_def less_imp_le)
    next
      case False
      then show ?thesis
        using body [OF t assms(2), unfolded runs_bind] by (simp add: max_def)
    qed
  qed
qed

lemma read_rule:
  assumes "becomes s0 v s" "file_ok v f" "unat (get32 v (f_size f)) < 2 ^ 31"
    "unat off + unat count \<le> unat (get32 v (f_size f))"
    "\<And>p. off \<le> p \<Longrightarrow> p < off + count \<Longrightarrow> fptr v f (p div BLKSIZE) \<noteq> 0"
    "\<And>i. i < count \<Longrightarrow> \<not> in_map (buf + i) \<and> mapped s0 (PGNUM (buf + i))"
    "\<And>s'. becomes s0 (copied f off count buf v) s' \<Longrightarrow> Q (Inr count, s')"
  shows "runs (file_read f buf count off s) Q"
proof -
  let ?sz = "get32 v (f_size f)"
  note vol = becomesD(3) [OF assms(1)]
  note sf = size_field [OF vol assms(2)]
  have lim: "unat (off + count) = unat off + unat count"
    by (rule unat_add_no_wrap) (use assms(3,4) in simp)
  have l31: "unat (off + count) < 2 ^ 31" "unat off < 2 ^ 31" using assms(3,4) lim by simp_all
  have le: "off \<le> off + count" unfolding word_le_nat_alt lim by simp
  have d: "unat (?sz - off) = unat ?sz - unat off" using assms(4) by (simp add: unat_sub word_le_nat_alt)
  then have "unat count \<le> unat (?sz - off)" using assms(4) by linarith
  then have m: "min count (?sz - off) = count" by (simp add: min_def word_le_nat_alt)
  have s: "sint ?sz \<le> sint off \<longleftrightarrow> unat ?sz \<le> unat off"
    unfolding sint_small [OF assms(3)] sint_small [OF l31(2)] by (simp only: of_nat_le_iff)
  show ?thesis unfolding file_read_def runs_bind
  proof (rule ld32_rule [OF assms(1) sf(3,1)])
    fix t assume t: "becomes s0 v t"
    show "runs (case (?sz, t) of (sz, s) \<Rightarrow> if sint sz \<le> sint off then Some (Inr 0, s)
       else let count = min count (sz - off) in do {
         (r, s) \<leftarrow> file_read_loop f buf off (off + count) s;
         case r of Inl e \<Rightarrow> Some (Inl e, s) | Inr u \<Rightarrow> Some (Inr count, s) }) Q"
    proof (cases "unat ?sz \<le> unat off")
      case True
      then have z: "count = 0" using assms(4) by (simp add: unat_eq_zero [symmetric])
      then have "copied f off count buf v = v" by (auto simp: copied_def)
      with assms(7) [of t] t True z show ?thesis by (simp add: s)
    next
      case False
      have "runs (file_read_loop f buf off (off + count) t) (\<lambda>x. runs (case x of (r, s) \<Rightarrow>
         case r of Inl e \<Rightarrow> Some (Inl e, s) | Inr u \<Rightarrow> Some (Inr count, s)) Q)"
        by (rule read_loop_rule [OF t assms(2) le l31(1)]) (use assms(5-7) in simp_all)
      then show ?thesis using False by (simp add: s m Let_def)
    qed
  qed
qed

text \<open>
  C25: what \<open>file_write\<close> stored, \<open>file_read\<close> gives back.  On a well-formed file, writing
  \<open>count\<close> bytes at \<open>off\<close>, inside the largest file and without a new indirect block (the range ends in the
  first ten blocks, or the file has its indirect block already), never
  panics; either the call fails with no free block left on the disk, or all bytes are written and reading them into any other
  buffer returns \<open>count\<close> and exactly the bytes that were in the source buffer.
\<close>

theorem file_write_read:
  assumes "fs_ok s" "file_ok (view s) f" "unat (get32 (view s) (f_size f)) \<le> 4235264"
    "unat off + unat count \<le> 4235264"
    "unat off + unat count \<le> 40960 \<or> get32 (view s) (f_indirect f) \<noteq> 0"
    "\<forall>i. i < count \<longrightarrow> \<not> in_map (src + i) \<and> mapped s (PGNUM (src + i))"
    "\<forall>i. i < count \<longrightarrow> \<not> in_map (dst + i) \<and> mapped s (PGNUM (dst + i))"
  shows "runs (file_write f src count off s) (\<lambda>(r, t). r = Inl E_NO_DISK \<and> (\<forall>b. \<not> isfree (view t) b) \<or> r = Inr count \<and>
    runs (file_read f dst count off t) (\<lambda>(r, u). r = Inr count \<and>
      (\<forall>i < count. fmem u (dst + i) = fmem s (src + i))))"
proof (rule write_rule [OF becomes_refl [OF assms(1)] assms(2)])
  fix v1 v' t
  let ?sz = "get32 v' (f_size f)"
  assume w: "wrote f off (off + count) src v1 v'" and out: "\<And>x. \<not> in_map x \<Longrightarrow> v1 x = view s x"
    and sz: "?sz = max (get32 (view s) (f_size f)) (off + count)" and t: "becomes s v' t"
  have fok: "file_ok v' f" using w by (simp add: wrote_def)
  have lim: "unat (off + count) = unat off + unat count"
    by (rule unat_add_no_wrap) (use assms(4) in simp)
  have z: "unat ?sz \<le> 4235264" "unat off + unat count \<le> unat ?sz"
    using assms(3,4) lim unfolding sz by (simp_all add: max_def word_le_nat_alt)
  have "runs (file_read f dst count off t) (\<lambda>(r, u). r = Inr count \<and>
      (\<forall>i < count. fmem u (dst + i) = fmem s (src + i)))"
  proof (rule read_rule [OF t fok])
    show "unat ?sz < 2 ^ 31" using z by simp
    show "unat off + unat count \<le> unat ?sz" by (rule z(2))
    show "fptr v' f (p div BLKSIZE) \<noteq> 0" if "off \<le> p" "p < off + count" for p
      using w that by (auto simp: wrote_def)
    show "\<not> in_map (dst + i) \<and> mapped s (PGNUM (dst + i))" if "i < count" for i
      using assms(7) that by blast
    fix u assume u: "becomes s (copied f off count dst v') u"
    have "fmem u (dst + i) = fmem s (src + i)" if i: "i < count" for i
    proof -
      have o: "\<not> in_map (dst + i)" "\<not> in_map (src + i)" using assms(6,7) i by blast+
      have ul: "unat (off + i) = unat off + unat i"
        by (rule unat_add_no_wrap) (use i assms(4) in \<open>simp add: word_less_nat_alt\<close>)
      then have p: "off \<le> off + i \<and> off + i < off + count"
        using i lim by (simp add: word_le_nat_alt word_less_nat_alt)
      have "fmem u (dst + i) = view u (dst + i)" using o by (simp add: view_def)
      also have "\<dots> = fbyte v' f (off + i)" using u i by (simp add: becomes_def copied_def)
      also have "\<dots> = v1 (src + i)" using w p by (auto simp: wrote_def)
      also have "\<dots> = fmem s (src + i)" using out [OF o(2)] o(2) by (simp add: view_def)
      finally show ?thesis .
    qed
    then show "case (Inr count, u) of (r, u) \<Rightarrow> r = Inr count \<and> (\<forall>i < count. fmem u (dst + i) = fmem s (src + i))"
      by simp
  qed
  then show "case (Inr count, t) of (r, t) \<Rightarrow> r = Inl E_NO_DISK \<and> (\<forall>b. \<not> isfree (view t) b) \<or> r = Inr count \<and>
    runs (file_read f dst count off t) (\<lambda>(r, u). r = Inr count \<and>
      (\<forall>i < count. fmem u (dst + i) = fmem s (src + i)))" by simp
qed (use assms(3-6) in \<open>simp_all add: becomes_def\<close>)

section \<open>A small volume\<close>

text \<open>
  Eight blocks: the super block, one bitmap block, an allocated block 3 of zeros that holds an
  empty file, and four free blocks.  Every page but \<open>p\<close> is mapped.
\<close>

definition ex_vol :: mem where
  "ex_vol = put32 (blockaddr 2) 0xF0 (put32 (blockaddr 1 + 4) 8 (put32 (blockaddr 1) FS_MAGIC (\<lambda>_. 0)))"

definition ex_fs :: "u32 \<Rightarrow> fs" where
  "ex_fs p = \<lparr>fmem = ex_vol, mapped = (\<lambda>q. q \<noteq> p), pdirty = (\<lambda>_. True), page_refs = (\<lambda>_. 1),
     free_pages = 1, disk1_ready = True, diskno = 1, disk = (\<lambda>_ _ _. 0), bad_sector = (\<lambda>_ _. False),
     super = blockaddr 1, bitmap = blockaddr 2, opentab = (\<lambda>_. \<lparr>o_fileid = 0, o_file = 0, o_mode = 0, o_fd = 0\<rparr>)\<rparr>"

lemma ex_aligned: "blockaddr 1 mod 4 = 0" "blockaddr 2 mod 4 = 0" "(blockaddr 1 + 4) mod 4 = 0"
  using blockaddr_aligned [of 0 1] blockaddr_aligned [of 0 2] word_aligned(1) [of 1] by simp_all

lemma ex_ne: "blockaddr 2 \<noteq> blockaddr 1 + 4" "blockaddr 2 \<noteq> blockaddr 1" "blockaddr 1 + 4 \<noteq> blockaddr 1"
  by (simp_all add: blockaddr_def)

lemma nblk_ex: "nblk ex_vol = 8"
  unfolding nblk_def ex_vol_def
  by (simp add: get32_put32_other [OF ex_aligned(2,3) ex_ne(1)])

lemma isfree_ex: "isfree ex_vol b \<longleftrightarrow> b < 8 \<and> 4 \<le> b"
proof -
  have "isfree ex_vol b \<longleftrightarrow> bit (0xF0 :: u32) (unat b)" if b: "b < 8"
  proof -
    have u: "unat b < 8" using b by (simp add: word_less_nat_alt)
    then have "b div 32 = 0" "b mod 32 = b" by (simp_all add: word_unat_eq_iff unat_div unat_mod)
    then show ?thesis using b by (simp add: isfree_def nblk_ex bmaddr_def) (simp add: ex_vol_def)
  qed
  moreover have "bit (0xF0 :: u32) (unat b) \<longleftrightarrow> 4 \<le> unat b" if b: "b < 8"
  proof -
    have "unat b < 8" using b by (simp add: word_less_nat_alt)
    then have "unat b \<in> {0, 1, 2, 3, 4, 5, 6, 7}" by auto
    then show ?thesis by (auto simp: bit_simps)
  qed
  ultimately show ?thesis by (auto simp: word_le_nat_alt isfree_def nblk_ex)
qed

lemma ex_vol_zero: "PGNUM x \<noteq> PGNUM (blockaddr 1) \<Longrightarrow> PGNUM x \<noteq> PGNUM (blockaddr 2) \<Longrightarrow> ex_vol x = 0"
proof (rule ccontr)
  assume p: "PGNUM x \<noteq> PGNUM (blockaddr 1)" "PGNUM x \<noteq> PGNUM (blockaddr 2)" and nz: "ex_vol x \<noteq> 0"
  have "ex_vol x = put32 (blockaddr 1 + 4) 8 (put32 (blockaddr 1) FS_MAGIC (\<lambda>_. 0)) x"
    unfolding ex_vol_def using put32_changed [OF ex_aligned(2)] p(2) by blast
  also have "\<dots> = put32 (blockaddr 1) FS_MAGIC (\<lambda>_. 0) x"
    using put32_changed [OF ex_aligned(3)] p(1) PGNUM_nblk by metis
  also have "\<dots> = 0" using put32_changed [OF ex_aligned(1), of FS_MAGIC "\<lambda>_. 0" x] p(1) by blast
  finally show False using nz by simp
qed

lemma view_ex:
  assumes "p \<noteq> PGNUM (blockaddr 1)" "p \<noteq> PGNUM (blockaddr 2)"
  shows "view (ex_fs p) = ex_vol"
  using ex_vol_zero assms by (auto simp: view_def ex_fs_def disk_byte_def fun_eq_iff)

lemma resv_ex: "resv ex_vol = 3"
  by (simp add: resv_def nblk_ex)

lemma vol_ok_ex: "vol_ok ex_vol"
  by (auto simp: vol_ok_def nblk_ex resv_ex isfree_ex word_le_nat_alt)

lemma fs_ok_ex:
  assumes "p \<noteq> PGNUM (blockaddr 1)" "p \<noteq> PGNUM (blockaddr 2)"
  shows "fs_ok (ex_fs p)"
proof -
  have "uncached (ex_fs p) \<subseteq> {p - 0x10000}"
  proof
    fix b assume "b \<in> uncached (ex_fs p)"
    then have b: "b < 8" "p = PGNUM (blockaddr b)"
      by (auto simp: uncached_def view_ex [OF assms] nblk_ex) (simp add: ex_fs_def)
    then have "b < 0xC0000" by (simp add: word_less_nat_alt)
    then show "b \<in> {p - 0x10000}" using PGNUM_blockaddr [of b 0] b(2) by simp
  qed
  then have c: "card (uncached (ex_fs p)) \<le> 1" using card_mono [of "{p - 0x10000}"] by fastforce
  have m: "mapped (ex_fs p) (PGNUM (blockaddr b))" if "1 \<le> b" "unat b < 3" for b
  proof -
    have "1 \<le> unat b" using that(1) by (simp add: word_le_nat_alt)
    then have "b = 1 \<or> b = 2" using that(2) by (auto simp: word_unat_eq_iff)
    then show ?thesis using assms by (auto simp: ex_fs_def)
  qed
  show ?thesis
    unfolding fs_ok_def view_ex [OF assms]
    using c m vol_ok_ex by (simp add: resv_ex) (simp add: ex_fs_def)
qed

lemma ex_page: "PGNUM (0 :: u32) \<noteq> PGNUM (blockaddr 1)" "PGNUM (0 :: u32) \<noteq> PGNUM (blockaddr 2)"
  "PGNUM (blockaddr 3) \<noteq> PGNUM (blockaddr 1)" "PGNUM (blockaddr 3) \<noteq> PGNUM (blockaddr 2)"
  using PGNUM_blockaddr [of 1 0] PGNUM_blockaddr [of 2 0] PGNUM_blockaddr [of 3 0]
  by (simp_all add: PGNUM_def)

lemma get32_zero: "PGNUM a \<noteq> PGNUM (blockaddr 1) \<Longrightarrow> PGNUM a \<noteq> PGNUM (blockaddr 2) \<Longrightarrow> a mod 4 = 0 \<Longrightarrow>
  get32 ex_vol a = 0"
  using get32_page [of a ex_vol "\<lambda>_. 0"] ex_vol_zero by (simp add: get32_def)

lemma ex_file_words:
  assumes "unat x < 256" "x mod 4 = 0"
  shows "get32 ex_vol (blockaddr 3 + x) = 0"
proof (rule get32_zero)
  have "unat x < 4096" using assms(1) by simp
  then have "PGNUM (blockaddr 3 + x) = 0x10003" using PGNUM_blockaddr [of 3 x] by simp
  then show "PGNUM (blockaddr 3 + x) \<noteq> PGNUM (blockaddr 1)" "PGNUM (blockaddr 3 + x) \<noteq> PGNUM (blockaddr 2)"
    using PGNUM_blockaddr [of 1 0] PGNUM_blockaddr [of 2 0] by simp_all
  show "(blockaddr 3 + x) mod 4 = 0" by (rule blockaddr_aligned [OF assms(2)])
qed

lemma ex_indirect: "get32 ex_vol (f_indirect (blockaddr 3)) = 0" "get32 ex_vol (f_size (blockaddr 3)) = 0"
  using ex_file_words [of 176] ex_file_words [of 128] by (simp_all add: f_indirect_def f_size_def)

lemma ex_fptr: "fptr ex_vol (blockaddr 3) k = 0"
proof (cases "k < NDIRECT")
  case True
  have "unat (136 + 4 * k) < 256" using unat_direct [OF True] True by (simp add: word_less_nat_alt)
  moreover have "(136 + 4 * k) mod 4 = 0" using add_aligned [of 136 "4 * k"] word4_aligned by simp
  ultimately have "get32 ex_vol (f_direct (blockaddr 3) k) = 0"
    using ex_file_words [of "136 + 4 * k"] by (simp add: f_direct_def add.assoc)
  then show ?thesis using True by (simp add: fptr_def slot_def)
next
  case False
  then show ?thesis by (simp add: fptr_def has_slot_def ex_indirect)
qed

lemma file_at_ex: "file_at ex_vol (blockaddr 3)"
  using blockaddr_offset [of 3 0] blockaddr_aligned [of 0 3]
  by (simp add: file_at_def datab_def resv_ex nblk_ex isfree_ex word_le_nat_alt)

lemma file_ok_ex: "file_ok ex_vol (blockaddr 3)"
  by (simp add: file_ok_def file_at_ex ex_fptr ex_indirect)

lemma unat_plus_small: "unat (i :: u32) < 3 \<Longrightarrow> unat (a :: u32) < 2 ^ 31 \<Longrightarrow> unat (a + i) = unat a + unat i"
  by (rule unat_add_no_wrap) simp

theorem file_write_read_witness:
  "runs (file_write (blockaddr 3) 0x0FFFF000 3 0 (ex_fs (PGNUM 0))) (\<lambda>(r, t). r = Inl E_NO_DISK \<and> (\<forall>b. \<not> isfree (view t) b) \<or> r = Inr 3 \<and>
    runs (file_read (blockaddr 3) 0x0FFFF800 3 0 t) (\<lambda>(r, u). r = Inr 3 \<and>
      (\<forall>i < 3. fmem u (0x0FFFF800 + i) = fmem (ex_fs (PGNUM 0)) (0x0FFFF000 + i))))"
proof (rule file_write_read)
  note v = view_ex [OF ex_page(1,2)]
  show "fs_ok (ex_fs (PGNUM 0))" by (rule fs_ok_ex [OF ex_page(1,2)])
  show "file_ok (view (ex_fs (PGNUM 0))) (blockaddr 3)" unfolding v by (rule file_ok_ex)
  show "unat (get32 (view (ex_fs (PGNUM 0))) (f_size (blockaddr 3))) \<le> 4235264"
    unfolding v by (simp add: ex_indirect)
  have out: "\<not> in_map (a + i) \<and> mapped (ex_fs (PGNUM 0)) (PGNUM (a + i))"
    if "a = 0x0FFFF000 \<or> a = 0x0FFFF800" "i < 3" for a i :: u32
  proof -
    have u: "unat (a + i) = unat a + unat i"
      by (rule unat_plus_small) (use that in \<open>auto simp: word_less_nat_alt\<close>)
    have i: "unat i < 3" using that(2) by (simp add: word_less_nat_alt)
    have "PGNUM (a + i) \<noteq> PGNUM 0"
      using that(1) u by (auto simp: word_unat_eq_iff unat_PGNUM)
    moreover have "\<not> in_map (a + i)" using that(1) u i by (auto simp: in_map_unat)
    ultimately show ?thesis by (simp add: ex_fs_def)
  qed
  show "\<forall>i. i < 3 \<longrightarrow> \<not> in_map (0x0FFFF000 + i) \<and> mapped (ex_fs (PGNUM 0)) (PGNUM (0x0FFFF000 + i))"
    using out by blast
  show "\<forall>i. i < 3 \<longrightarrow> \<not> in_map (0x0FFFF800 + i) \<and> mapped (ex_fs (PGNUM 0)) (PGNUM (0x0FFFF800 + i))"
    using out by blast
qed simp_all

section \<open>The bitmap\<close>

text \<open>
  C30: \<open>alloc_block\<close> always ends.  It reports a full disk exactly when no block is free;
  otherwise it takes the lowest free block, which is not a reserved one, clears its bit and no
  other, and the bitmap block that holds the bit is clean, written to the disk.
\<close>

theorem alloc_block_first_free:
  assumes "fs_ok s"
  shows "runs (alloc_block s) (\<lambda>(r, t). fs_ok t \<and> (case r of
      Inl e \<Rightarrow> e = E_NO_DISK \<and> (\<forall>c. \<not> isfree (view s) c) \<and> view t = view s
    | Inr b \<Rightarrow> isfree (view s) b \<and> (\<forall>d < b. \<not> isfree (view s) d) \<and> resv (view s) \<le> unat b \<and>
        (\<forall>c. isfree (view t) c \<longleftrightarrow> isfree (view s) c \<and> c \<noteq> b) \<and> \<not> pdirty t (PGNUM (bmaddr b))))"
proof (rule alloc_rule [OF becomes_refl [OF assms]])
  have vol: "vol_ok (view s)" using fs_okD(3) [OF assms] .
  fix c t assume c: "isfree (view s) c" "\<And>d. d < c \<Longrightarrow> \<not> isfree (view s) d"
    and t: "becomes s (mark_used c (view s)) t" "\<not> pdirty t (PGNUM (bmaddr c))"
  show "case (Inr c, t) of (r, t) \<Rightarrow> fs_ok t \<and> (case r of
      Inl e \<Rightarrow> e = E_NO_DISK \<and> (\<forall>c. \<not> isfree (view s) c) \<and> view t = view s
    | Inr b \<Rightarrow> isfree (view s) b \<and> (\<forall>d < b. \<not> isfree (view s) d) \<and> resv (view s) \<le> unat b \<and>
        (\<forall>c. isfree (view t) c \<longleftrightarrow> isfree (view s) c \<and> c \<noteq> b) \<and> \<not> pdirty t (PGNUM (bmaddr b)))"
    using c t isfree_resv [OF vol c(1)] isfree_mark(1) [OF vol isfree_bound [OF c(1)]]
    by (simp add: becomes_def)
qed (simp add: becomes_def)

theorem alloc_block_first_free_witness:
  "runs (alloc_block (ex_fs (PGNUM 0))) (\<lambda>(r, t). r = Inr 4)"
proof -
  note v = view_ex [OF ex_page(1,2)]
  have e: "b = 4" if "isfree ex_vol b" "\<forall>d < b. \<not> isfree ex_vol d" for b
  proof -
    have "4 \<le> b" using that(1) isfree_ex [of b] by simp
    moreover have "\<not> 4 < b" using that(2) isfree_ex [of 4] by auto
    ultimately show ?thesis by simp
  qed
  have f4: "isfree ex_vol 4" by (simp add: isfree_ex)
  show ?thesis
  proof (rule runs_weaken [OF alloc_block_first_free [OF fs_ok_ex [OF ex_page(1,2)], unfolded v]], safe)
    fix r t assume "case r of Inl e \<Rightarrow> e = E_NO_DISK \<and> (\<forall>c. \<not> isfree ex_vol c) \<and> view t = ex_vol
      | Inr b \<Rightarrow> isfree ex_vol b \<and> (\<forall>d < b. \<not> isfree ex_vol d) \<and> resv ex_vol \<le> unat b \<and>
          (\<forall>c. isfree (view t) c \<longleftrightarrow> isfree ex_vol c \<and> c \<noteq> b) \<and> \<not> pdirty t (PGNUM (bmaddr b))"
    then show "r = Inr 4" using e f4 by (cases r) auto
  qed
qed

section \<open>Demand paging\<close>

text \<open>
  C27: a fault on a block that is not cached ends exactly when the block exists and is allocated;
  then the page holds what is on the disk, everything the server sees is as before and its
  invariant holds.  A fault on a free block or beyond the volume is a panic.
\<close>

theorem bc_pgfault_decides:
  assumes ok: "fs_ok s" and m: "in_map a" and np: "\<not> mapped s (PGNUM a)"
  shows "case bc_pgfault a s of
      Some t \<Rightarrow> blockno a < nblk (view s) \<and> \<not> isfree (view s) (blockno a) \<and> fs_ok t \<and> view t = view s \<and>
        (\<forall>x. PGNUM x = PGNUM a \<longrightarrow> fmem t x = disk_byte s x)
    | None \<Rightarrow> nblk (view s) \<le> blockno a \<or> isfree (view s) (blockno a)"
proof (cases "blockno a < nblk (view s) \<and> \<not> isfree (view s) (blockno a)")
  case True
  then have "acc s a" using m by (simp add: acc_def)
  from touch_ok [OF ok this] np obtain t where t: "bc_pgfault a s = Some t" "fs_ok t" "view t = view s"
    "mapped t (PGNUM a)" by (auto simp: touch_def)
  have "fmem t x = disk_byte s x" if p: "PGNUM x = PGNUM a" for x
  proof -
    have x: "in_map x" using same_page_in_map [OF p] m by simp
    have "fmem t x = view t x" using t(4) p by (simp add: view_def)
    also have "\<dots> = disk_byte s x" using t(3) np p x by (simp add: view_def)
    finally show ?thesis .
  qed
  then show ?thesis using t True by simp
next
  case False
  have "bc_pgfault a s = None"
  proof (cases "blockno a < nblk (view s)")
    case True
    then show ?thesis using False bc_pgfault_value [OF ok m np] by auto
  next
    case False
    then show ?thesis using bc_pgfault_beyond [OF ok, of a] by simp
  qed
  then show ?thesis using False by (auto simp: not_less)
qed

theorem bc_pgfault_decides_witness:
  "\<exists>t. bc_pgfault (blockaddr 3) (ex_fs (PGNUM (blockaddr 3))) = Some t \<and> view t = ex_vol"
proof -
  note v = view_ex [OF ex_page(3,4)]
  have "in_map (blockaddr 3)" by simp
  moreover have "\<not> mapped (ex_fs (PGNUM (blockaddr 3))) (PGNUM (blockaddr 3))" by (simp add: ex_fs_def)
  ultimately show ?thesis
    using bc_pgfault_decides [OF fs_ok_ex [OF ex_page(3,4)], of "blockaddr 3"]
    by (auto simp: v nblk_ex isfree_ex split: option.splits)
qed

section \<open>The blocks of a file stay its own\<close>

text \<open>
  C26: finding a block of a well-formed file whose slot exists, because it is one of the first ten or the file
  has its indirect block and the number is below 1034, always ends, and the file is well formed
  afterwards: its blocks are allocated, different from each other and from the block it lies
  in.  A block that was missing is taken from the free ones, the other blocks stay; the only
  error is a full disk.
\<close>

theorem file_get_block_keeps:
  assumes "fs_ok s" "file_ok (view s) f" "has_slot (view s) f k"
  shows "runs (file_get_block f k s) (\<lambda>(r, t). fs_ok t \<and> file_ok (view t) f \<and> (case r of
      Inl e \<Rightarrow> e = E_NO_DISK \<and> fptr (view s) f k = 0 \<and> (\<forall>c. \<not> isfree (view s) c)
    | Inr a \<Rightarrow> a = blockaddr (fptr (view t) f k) \<and> fptr (view t) f k \<noteq> 0 \<and>
        (if fptr (view s) f k = 0 then isfree (view s) (fptr (view t) f k)
         else fptr (view t) f k = fptr (view s) f k) \<and>
        (\<forall>j. j \<noteq> k \<longrightarrow> fptr (view t) f j = fptr (view s) f j)))"
proof (rule get_block_rule [OF becomes_refl [OF assms(1)] assms(2,3)])
  note vol = fs_okD(3) [OF assms(1)]
  fix b t assume z: "fptr (view s) f k = 0" and b: "isfree (view s) b" and t: "becomes s (with_block f k b (view s)) t"
  have "b \<noteq> 0" using isfree_resv [OF vol b] vol_okD(2) [OF vol] by auto
  then show "case (Inr (blockaddr b), t) of (r, t) \<Rightarrow> fs_ok t \<and> file_ok (view t) f \<and> (case r of
      Inl e \<Rightarrow> e = E_NO_DISK \<and> fptr (view s) f k = 0 \<and> (\<forall>c. \<not> isfree (view s) c)
    | Inr a \<Rightarrow> a = blockaddr (fptr (view t) f k) \<and> fptr (view t) f k \<noteq> 0 \<and>
        (if fptr (view s) f k = 0 then isfree (view s) (fptr (view t) f k)
         else fptr (view t) f k = fptr (view s) f k) \<and>
        (\<forall>j. j \<noteq> k \<longrightarrow> fptr (view t) f j = fptr (view s) f j))"
    using t z b with_block(6,8) [OF vol assms(2,3) b] by (simp add: becomes_def)
qed (use assms(2) in \<open>simp_all add: becomes_def\<close>)

theorem file_get_block_keeps_witness:
  "runs (file_get_block (blockaddr 3) 0 (ex_fs (PGNUM 0))) (\<lambda>(r, t). file_ok (view t) (blockaddr 3))"
proof -
  note v = view_ex [OF ex_page(1,2)]
  show ?thesis
    by (rule runs_weaken [OF file_get_block_keeps [OF fs_ok_ex [OF ex_page(1,2)], of "blockaddr 3" 0]])
      (auto simp: v file_ok_ex has_slot_def)
qed

section \<open>Writing everything back\<close>

lemma nblk_now:
  assumes ok: "fs_ok s"
  shows "ld32 (super s + 4) s = Some (nblk (view s), s)"
    "b \<noteq> 0 \<Longrightarrow> b < nblk (view s) \<Longrightarrow> diskaddr b s = Some (blockaddr b, s)"
proof -
  note ok' = fs_okD [OF ok]
  have n: "get32 (fmem s) (blockaddr 1 + 4) = nblk (view s)"
    using get32_cached [OF word_aligned(1)] ok'(4) PGNUM_nblk by (simp add: nblk_def)
  show l: "ld32 (super s + 4) s = Some (nblk (view s), s)"
    using ok'(1,4) n by (simp add: ld32_def touch_def PGNUM_nblk)
  assume "b \<noteq> 0" "b < nblk (view s)"
  moreover have "super s \<noteq> 0" using ok'(1) by (simp add: blockaddr_def)
  ultimately show "diskaddr b s = Some (blockaddr b, s)"
    using l by (simp add: diskaddr_def not_le) (simp add: blockaddr_def)
qed

lemma fs_sync_loop:
  assumes "fs_ok s" "1 \<le> i" "\<And>b. 1 \<le> b \<Longrightarrow> b < i \<Longrightarrow> b < nblk (view s) \<Longrightarrow> \<not> (mapped s (PGNUM (blockaddr b)) \<and> pdirty s (PGNUM (blockaddr b)))"
  shows "runs (fs_sync_from i s) (\<lambda>t. fs_ok t \<and> view t = view s \<and>
    (\<forall>b. 1 \<le> b \<and> b < nblk (view s) \<longrightarrow> \<not> (mapped t (PGNUM (blockaddr b)) \<and> pdirty t (PGNUM (blockaddr b)))))"
  using assms
proof (induction "unat (nblk (view s)) - unat i" arbitrary: i s)
  case 0
  then have le: "nblk (view s) \<le> i" by (simp add: word_le_nat_alt)
  then have "b < i" if "b < nblk (view s)" for b using that by simp
  with le show ?case
    using 0(2,4) by (subst fs_sync_from.simps) (auto simp: nblk_now [OF 0(2)])
next
  case (Suc k)
  note ok = Suc.prems(1)
  have lt: "i < nblk (view s)" using Suc.hyps(2) by (simp add: word_less_nat_alt)
  have nz: "i \<noteq> 0" using Suc.prems(2) by auto
  have li: "i < 0xC0000" using lt fs_okD(5) [OF ok] by simp
  from flush_block_ok [OF ok in_map_block [OF li]] obtain t where t: "flush_block (blockaddr i) s = Some t"
    "fs_ok t" "view t = view s" "mapped t = mapped s"
    "mapped s (PGNUM (blockaddr i)) \<longrightarrow> \<not> pdirty t (PGNUM (blockaddr i))" "\<forall>p. pdirty t p \<longrightarrow> pdirty s p" by auto
  have i1: "unat (i + 1) = unat i + 1"
    using li by (subst unat_add_no_wrap) (simp_all add: word_less_nat_alt)
  have ge: "b < i + 1 \<longleftrightarrow> b < i \<or> b = i" for b
    using i1 by (auto simp: word_less_nat_alt word_unat_eq_iff)
  have "runs (fs_sync_from (i + 1) t) (\<lambda>u. fs_ok u \<and> view u = view t \<and>
    (\<forall>b. 1 \<le> b \<and> b < nblk (view t) \<longrightarrow> \<not> (mapped u (PGNUM (blockaddr b)) \<and> pdirty u (PGNUM (blockaddr b)))))"
  proof (rule Suc.hyps(1) [OF _ t(2)])
    show "k = unat (nblk (view t)) - unat (i + 1)" using Suc.hyps(2) i1 t(3) by simp
    show "1 \<le> i + 1" using i1 by (simp add: word_le_nat_alt)
    show "\<not> (mapped t (PGNUM (blockaddr b)) \<and> pdirty t (PGNUM (blockaddr b)))"
      if "1 \<le> b" "b < i + 1" "b < nblk (view t)" for b
      using that Suc.prems(3) [of b] t(3-6) ge by auto
  qed
  then show ?case
    using lt by (subst fs_sync_from.simps) (simp add: nblk_now [OF ok] nz t not_le [symmetric])
qed

text \<open>
  C28: \<open>fs_sync\<close> always ends and makes everything durable: the disk then holds, for every block
  but the boot sector, exactly the bytes the server sees.
\<close>

theorem fs_sync_durable:
  assumes "fs_ok s"
  shows "runs (fs_sync s) (\<lambda>t. fs_ok t \<and> view t = view s \<and>
    (\<forall>a. in_map a \<and> 1 \<le> blockno a \<and> blockno a < nblk (view s) \<longrightarrow> disk_byte t a = view s a))"
  unfolding fs_sync_def
proof (rule runs_weaken [OF fs_sync_loop [OF assms]])
  fix t assume t: "fs_ok t \<and> view t = view s \<and>
    (\<forall>b. 1 \<le> b \<and> b < nblk (view s) \<longrightarrow> \<not> (mapped t (PGNUM (blockaddr b)) \<and> pdirty t (PGNUM (blockaddr b))))"
  have "disk_byte t a = view s a" if a: "in_map a" "1 \<le> blockno a" "blockno a < nblk (view s)" for a
  proof (cases "mapped t (PGNUM a)")
    case True
    then have "\<not> pdirty t (PGNUM a)" using t a block_page [OF a(1)] by metis
    then have "fmem t a = disk_byte t a" using t a(1) True by (auto simp: fs_ok_def)
    moreover have "view t a = fmem t a" using True by (simp add: view_def)
    ultimately show ?thesis using t by simp
  next
    case False
    then have "view t a = disk_byte t a" using a(1) by (simp add: view_def)
    then show ?thesis using t by simp
  qed
  then show "fs_ok t \<and> view t = view s \<and>
    (\<forall>a. in_map a \<and> 1 \<le> blockno a \<and> blockno a < nblk (view s) \<longrightarrow> disk_byte t a = view s a)"
    using t by blast
qed (auto dest: order.strict_trans2 simp: word_le_nat_alt word_less_nat_alt)

theorem fs_sync_durable_witness:
  "runs (fs_sync (ex_fs (PGNUM 0))) (\<lambda>t. disk_byte t (blockaddr 2) = 0xF0)"
proof -
  note v = view_ex [OF ex_page(1,2)]
  have "ex_vol (blockaddr 2) = 0xF0" by (simp add: ex_vol_def put32_def put4_def)
  then show ?thesis
    by (intro runs_weaken [OF fs_sync_durable [OF fs_ok_ex [OF ex_page(1,2)]]])
      (auto simp: v nblk_ex)
qed

end
