(* ===== verification/FsServ.thy ===== *)
theory FsServ
  imports Fs
begin

text \<open>
  The file server (\<open>fs/serv.c\<close>): the table of open files, one handler per request, and the
  body of the server loop.  The request page and the \<open>struct Fd\<close> pages are memory shared with
  the clients.  A handler yields the \<open>int\<close> it returns: an error is its negated number.
\<close>

abbreviation (input) MAXOPEN :: nat where "MAXOPEN \<equiv> 1024"
abbreviation (input) FILEVA :: u32 where "FILEVA \<equiv> 0xD0000000"
abbreviation (input) fsreq :: u32 where "fsreq \<equiv> 0x0FFFF000"
abbreviation (input) O_ACCMODE :: u32 where "O_ACCMODE \<equiv> 3"
abbreviation (input) O_CREAT :: u32 where "O_CREAT \<equiv> 0x100"
abbreviation (input) O_TRUNC :: u32 where "O_TRUNC \<equiv> 0x200"
abbreviation (input) O_EXCL :: u32 where "O_EXCL \<equiv> 0x400"
abbreviation (input) PTE_SHARE :: u32 where "PTE_SHARE \<equiv> 0x400"

definition code :: "error + u32 \<Rightarrow> u32" where
  "code r = (case r of Inl e \<Rightarrow> - word_of_int (errno e) | Inr v \<Rightarrow> v)"

definition code_unit :: "error + unit \<Rightarrow> u32" where
  "code_unit r = (case r of Inl e \<Rightarrow> - word_of_int (errno e) | Inr u \<Rightarrow> 0)"

text \<open>The fields of a \<open>struct Fd\<close> and of the requests.\<close>

definition fd_dev_id :: "u32 \<Rightarrow> u32" where "fd_dev_id fd = fd"
definition fd_offset :: "u32 \<Rightarrow> u32" where "fd_offset fd = fd + 4"
definition fd_omode :: "u32 \<Rightarrow> u32" where "fd_omode fd = fd + 8"
definition fd_file_id :: "u32 \<Rightarrow> u32" where "fd_file_id fd = fd + 12"

definition req_omode :: u32 where "req_omode = fsreq + 1024"
definition req_fileid :: u32 where "req_fileid = fsreq"
definition req_arg :: u32 where "req_arg = fsreq + 4"
definition req_buf :: u32 where "req_buf = fsreq + 8"

fun ld_bytes :: "u32 \<Rightarrow> nat \<Rightarrow> fs \<Rightarrow> (u8 list \<times> fs) option" where
  "ld_bytes a 0 s = Some ([], s)"
| "ld_bytes a (Suc n) s = do {
     (b, s) \<leftarrow> ld8 a s;
     (bs, s) \<leftarrow> ld_bytes (a + 1) n s;
     Some (b # bs, s) }"

partial_function (option) fs_strcpy :: "u32 \<Rightarrow> u32 \<Rightarrow> fs \<Rightarrow> fs option" where
  "fs_strcpy d a s = do {
     (b, s) \<leftarrow> ld8 a s;
     s \<leftarrow> st8 d b s;
     if b \<noteq> 0 then fs_strcpy (d + 1) (a + 1) s else Some s }"

section \<open>Open files\<close>

definition upd_open :: "nat \<Rightarrow> (openfile \<Rightarrow> openfile) \<Rightarrow> fs \<Rightarrow> fs" where
  "upd_open i g s = s\<lparr>opentab := (opentab s)(i := g (opentab s i))\<rparr>"

definition serve_init :: "fs \<Rightarrow> fs" where
  "serve_init s = fold (\<lambda>i. upd_open i (\<lambda>o'. o'\<lparr>o_fileid := of_nat i,
     o_fd := FILEVA + of_nat i * PGSIZE\<rparr>)) [0..<MAXOPEN] s"

text \<open>
  The first entry whose \<open>struct Fd\<close> page is unmapped, or mapped by nobody but the server; the
  counter is the number of entries still to try.  The result is the entry and the file id.
\<close>

definition openfile_take :: "nat \<Rightarrow> fs \<Rightarrow> (nat \<times> u32) \<times> fs" where
  "openfile_take i s =
     (let s = upd_open i (\<lambda>o'. o'\<lparr>o_fileid := o_fileid o' + of_nat MAXOPEN\<rparr>) s;
          fd = o_fd (opentab s i)
      in ((i, o_fileid (opentab s i)),
          s\<lparr>fmem := memset (fmem s) fd 0 PGSIZE, pdirty := (pdirty s)(PGNUM fd := True)\<rparr>))"

fun openfile_alloc_from :: "nat \<Rightarrow> nat \<Rightarrow> fs \<Rightarrow> (error + nat \<times> u32) \<times> fs" where
  "openfile_alloc_from 0 i s = (Inl E_MAX_OPEN, s)"
| "openfile_alloc_from (Suc k) i s =
     (let fd = o_fd (opentab s i) in
      if pageref fd s = 0
      then case user_page_alloc fd s of
             (Inl e, s) \<Rightarrow> (Inl e, s)
           | (Inr u, s) \<Rightarrow> (let (r, s) = openfile_take i s in (Inr r, s))
      else if pageref fd s = 1 then (let (r, s) = openfile_take i s in (Inr r, s))
      else openfile_alloc_from k (i + 1) s)"

definition openfile_alloc :: "fs \<Rightarrow> (error + nat \<times> u32) \<times> fs" where
  "openfile_alloc s = openfile_alloc_from MAXOPEN 0 s"

definition openfile_lookup :: "u32 \<Rightarrow> fs \<Rightarrow> error + nat" where
  "openfile_lookup fileid s =
     (let i = unat fileid mod MAXOPEN in
      if pageref (o_fd (opentab s i)) s \<le> 1 \<or> o_fileid (opentab s i) \<noteq> fileid
      then Inl E_INVAL else Inr i)"

section \<open>The handlers\<close>

text \<open>
  \<open>serve_open\<close> yields its return value, \<open>*pg_store\<close> and \<open>*perm_store\<close>, which it is given.  The
  steps after an open file was found: create or open, truncate, open again, fill the \<open>struct Fd\<close>.
\<close>

definition serve_open_path :: "u8 list \<Rightarrow> u32 \<Rightarrow> fs \<Rightarrow> u32 fsres" where
  "serve_open_path path omode s =
     (if omode AND O_CREAT \<noteq> 0
      then do {
        (r, s) \<leftarrow> file_create path s;
        case r of
          Inl e \<Rightarrow>
            if omode AND O_EXCL = 0 \<and> e = E_FILE_EXISTS then file_open path s
            else Some (Inl e, s)
        | Inr f \<Rightarrow> Some (Inr f, s) }
      else file_open path s)"

definition serve_open_trunc :: "u8 list \<Rightarrow> u32 \<Rightarrow> u32 \<Rightarrow> fs \<Rightarrow> u32 fsres" where
  "serve_open_trunc path omode f s = do {
     (r, s) \<leftarrow> (if omode AND O_TRUNC \<noteq> 0 then file_set_size f 0 s else Some (Inr (), s));
     case r of Inl e \<Rightarrow> Some (Inl e, s) | Inr u \<Rightarrow> file_open path s }"

definition serve_open_fill :: "nat \<Rightarrow> u32 \<Rightarrow> u32 \<Rightarrow> fs \<Rightarrow> fs option" where
  "serve_open_fill i f omode s = (
     let s = upd_open i (\<lambda>o'. o'\<lparr>o_file := f\<rparr>) s; fd = o_fd (opentab s i) in do {
       s \<leftarrow> st32 (fd_file_id fd) (o_fileid (opentab s i)) s;
       s \<leftarrow> st32 (fd_omode fd) (omode AND O_ACCMODE) s;
       s \<leftarrow> st32 (fd_dev_id fd) 0x66 s;
       Some (upd_open i (\<lambda>o'. o'\<lparr>o_mode := omode\<rparr>) s) })"

definition serve_open :: "u32 \<Rightarrow> fs \<Rightarrow> (u32 \<times> u32 \<times> u32 \<times> fs) option" where
  "serve_open perm s = do {
     (bs, s) \<leftarrow> ld_bytes fsreq 1024 s;
     let path = takeWhile (\<lambda>c. c \<noteq> 0) (take 1023 bs);
     case openfile_alloc s of
       (Inl e, s) \<Rightarrow> Some (code (Inl e), 0, perm, s)
     | (Inr (i, fileid), s) \<Rightarrow>
         if sint fileid < 0 then Some (fileid, 0, perm, s)
         else do {
           (omode, s) \<leftarrow> ld32 req_omode s;
           (r, s) \<leftarrow> serve_open_path path omode s;
           case r of
             Inl e \<Rightarrow> Some (code (Inl e), 0, perm, s)
           | Inr f \<Rightarrow> do {
               (r, s) \<leftarrow> serve_open_trunc path omode f s;
               case r of
                 Inl e \<Rightarrow> Some (code (Inl e), 0, perm, s)
               | Inr f \<Rightarrow> do {
                   s \<leftarrow> serve_open_fill i f omode s;
                   Some (0, o_fd (opentab s i), PTE_P OR PTE_U OR PTE_W OR PTE_SHARE, s) } } } }"

text \<open>The start that the other handlers share: \<open>openfile_lookup\<close> on the file id of the request.\<close>

definition with_file :: "(nat \<Rightarrow> fs \<Rightarrow> (u32 \<times> fs) option) \<Rightarrow> fs \<Rightarrow> (u32 \<times> fs) option" where
  "with_file g s = do {
     (fileid, s) \<leftarrow> ld32 req_fileid s;
     case openfile_lookup fileid s of
       Inl e \<Rightarrow> Some (code (Inl e), s)
     | Inr i \<Rightarrow> g i s }"

definition serve_set_size :: "fs \<Rightarrow> (u32 \<times> fs) option" where
  "serve_set_size = with_file (\<lambda>i s. do {
     (sz, s) \<leftarrow> ld32 req_arg s;
     (r, s) \<leftarrow> file_set_size (o_file (opentab s i)) sz s;
     Some (code_unit r, s) })"

definition serve_read :: "fs \<Rightarrow> (u32 \<times> fs) option" where
  "serve_read = with_file (\<lambda>i s. do {
     (n, s) \<leftarrow> ld32 req_arg s;
     (off, s) \<leftarrow> ld32 (fd_offset (o_fd (opentab s i))) s;
     (r, s) \<leftarrow> file_read (o_file (opentab s i)) fsreq n off s;
     if sint (code r) < 0 then Some (code r, s)
     else do {
       (off, s) \<leftarrow> ld32 (fd_offset (o_fd (opentab s i))) s;
       s \<leftarrow> st32 (fd_offset (o_fd (opentab s i))) (off + code r) s;
       Some (code r, s) } })"

partial_function (option) serve_write_loop :: "nat \<Rightarrow> u32 \<Rightarrow> fs \<Rightarrow> (u32 \<times> fs) option" where
  "serve_write_loop i tot s = do {
     (n, s) \<leftarrow> ld32 req_arg s;
     (off, s) \<leftarrow> ld32 (fd_offset (o_fd (opentab s i))) s;
     (r, s) \<leftarrow> file_write (o_file (opentab s i)) req_buf n off s;
     if sint (code r) < 0 then Some (code r, s)
     else do {
       (off, s) \<leftarrow> ld32 (fd_offset (o_fd (opentab s i))) s;
       s \<leftarrow> st32 (fd_offset (o_fd (opentab s i))) (off + code r) s;
       (n, s) \<leftarrow> ld32 req_arg s;
       if n \<le> tot + code r then Some (tot + code r, s)
       else serve_write_loop i (tot + code r) s } }"

definition serve_write :: "fs \<Rightarrow> (u32 \<times> fs) option" where
  "serve_write = with_file (\<lambda>i s. serve_write_loop i 0 s)"

definition serve_stat :: "fs \<Rightarrow> (u32 \<times> fs) option" where
  "serve_stat = with_file (\<lambda>i s. do {
     s \<leftarrow> fs_strcpy fsreq (o_file (opentab s i)) s;
     (sz, s) \<leftarrow> ld32 (f_size (o_file (opentab s i))) s;
     s \<leftarrow> st32 (fsreq + 128) sz s;
     (ty, s) \<leftarrow> ld32 (f_type (o_file (opentab s i))) s;
     s \<leftarrow> st32 (fsreq + 132) (if ty = FTYPE_DIR then 1 else 0) s;
     Some (0, s) })"

definition serve_flush :: "fs \<Rightarrow> (u32 \<times> fs) option" where
  "serve_flush = with_file (\<lambda>i s. do { s \<leftarrow> file_flush (o_file (opentab s i)) s; Some (0, s) })"

definition serve_sync :: "fs \<Rightarrow> (u32 \<times> fs) option" where
  "serve_sync s = do { s \<leftarrow> fs_sync s; Some (0, s) }"

section \<open>The loop\<close>

text \<open>The table \<open>handlers\<close>: FSREQ_OPEN has no entry, and FSREQ_REMOVE neither.\<close>

definition handlers :: "u32 \<Rightarrow> (fs \<Rightarrow> (u32 \<times> fs) option) option" where
  "handlers req =
     (if req = 2 then Some serve_set_size
      else if req = 3 then Some serve_read
      else if req = 4 then Some serve_write
      else if req = 5 then Some serve_stat
      else if req = 6 then Some serve_flush
      else if req = 8 then Some serve_sync
      else None)"

text \<open>
  One round of \<open>serve\<close> after \<open>ipc_recv\<close>: the reply is what \<open>ipc_send\<close> gets, the value, the page
  and its permissions; a request without an argument page has none.
\<close>

definition serve_request :: "u32 \<Rightarrow> u32 \<Rightarrow> fs \<Rightarrow> ((u32 \<times> u32 \<times> u32) option \<times> fs) option" where
  "serve_request req perm s =
     (if perm AND PTE_P = 0 then Some (None, s)
      else if req = 1
      then do {
        (r, pg, perm, s) \<leftarrow> serve_open perm s;
        Some (Some (r, pg, perm), user_page_unmap fsreq s) }
      else case handlers req of
             Some h \<Rightarrow> do {
               (r, s) \<leftarrow> h s;
               Some (Some (r, 0, perm), user_page_unmap fsreq s) }
           | None \<Rightarrow> Some (Some (code (Inl E_INVAL), 0, perm), user_page_unmap fsreq s))"

definition fs_umain :: "fs \<Rightarrow> fs option" where
  "fs_umain s = fs_init (serve_init s)"

end
