(* ===== verification/FsServProps.thy ===== *)
theory FsServProps
  imports FsProps FsServ
begin

text \<open>
  The file server's table of open files, and the places where the file system and the server
  do less than they should: blocks that are used without being cleared, and a request whose
  length is not checked against the request page.
\<close>

section \<open>Open files\<close>

text \<open>The table as \<open>serve_init\<close> leaves it: entry \<open>i\<close> has ids that are \<open>i\<close> modulo 1024 and its own page.\<close>

definition table_ok :: "fs \<Rightarrow> bool" where
  "table_ok s \<longleftrightarrow> (\<forall>i < MAXOPEN. unat (o_fileid (opentab s i)) mod MAXOPEN = i \<and>
     o_fd (opentab s i) = FILEVA + of_nat i * PGSIZE)"

lemma serve_init_fold:
  "n \<le> 1024 \<Longrightarrow> opentab (fold (\<lambda>i. upd_open i (\<lambda>o'. o'\<lparr>o_fileid := of_nat i, o_fd := FILEVA + of_nat i * PGSIZE\<rparr>)) [0..<n] s) i
   = (if i < n then (opentab s i)\<lparr>o_fileid := of_nat i, o_fd := FILEVA + of_nat i * PGSIZE\<rparr> else opentab s i)"
  by (induction n) (auto simp: upd_open_def)

lemma table_ok_init: "table_ok (serve_init s)"
  using serve_init_fold [of 1024 s] by (auto simp: table_ok_def serve_init_def unat_of_nat32)

lemma unat_fileva: "i < MAXOPEN \<Longrightarrow> unat (FILEVA + of_nat i * PGSIZE :: u32) = 0xD0000000 + i * 4096"
  by (subst unat_add_no_wrap) (simp_all add: unat_word_ariths unat_of_nat32)

lemma PGNUM_fileva: "i < MAXOPEN \<Longrightarrow> j < MAXOPEN \<Longrightarrow>
  PGNUM (FILEVA + of_nat i * PGSIZE) = PGNUM (FILEVA + of_nat j * PGSIZE) \<longleftrightarrow> i = j"
proof -
  assume "i < MAXOPEN" "j < MAXOPEN"
  moreover have "(0xD0000000 + k * 4096) div 4096 = 0xD0000 + k" for k :: nat by simp
  ultimately show ?thesis by (simp add: word_unat_eq_iff unat_PGNUM unat_fileva)
qed

lemma next_fileid:
  assumes "unat (a :: u32) mod 1024 = i"
  shows "unat (a + 1024) mod 1024 = i" "a + 1024 \<noteq> a"
proof -
  have "unat (a + 1024) mod 1024 = (unat a + 1024) mod 1024"
    by (simp add: unat_word_ariths mod_mod_cancel)
  then show "unat (a + 1024) mod 1024 = i" using assms by simp
  show "a + 1024 \<noteq> a" by simp
qed

lemma openfile_take_eq:
  "openfile_take i s = (let o' = opentab s i in ((i, o_fileid o' + 1024),
     s\<lparr>opentab := (opentab s)(i := o'\<lparr>o_fileid := o_fileid o' + 1024\<rparr>),
       fmem := memset (fmem s) (o_fd o') 0 PGSIZE, pdirty := (pdirty s)(PGNUM (o_fd o') := True)\<rparr>))"
  by (simp add: openfile_take_def upd_open_def Let_def)

text \<open>The entry that is taken, and what taking it changes.\<close>

lemma alloc_from_cases:
  assumes "openfile_alloc_from k i s = (Inr (j, fid), t)"
  shows "i \<le> j \<and> j < i + k \<and> (\<forall>l. i \<le> l \<and> l < j \<longrightarrow> 2 \<le> pageref (o_fd (opentab s l)) s) \<and>
    pageref (o_fd (opentab s j)) s \<le> 1 \<and> fid = o_fileid (opentab s j) + 1024 \<and>
    opentab t = (opentab s)(j := (opentab s j)\<lparr>o_fileid := fid\<rparr>) \<and>
    (\<forall>p. p \<noteq> PGNUM (o_fd (opentab s j)) \<longrightarrow> mapped t p = mapped s p \<and> page_refs t p = page_refs s p) \<and>
    pageref (o_fd (opentab s j)) t \<le> 1"
  using assms
proof (induction k arbitrary: i)
  case 0
  then show ?case by simp
next
  case (Suc k)
  consider "pageref (o_fd (opentab s i)) s = 0" | "pageref (o_fd (opentab s i)) s = 1"
    | "2 \<le> pageref (o_fd (opentab s i)) s" by linarith
  then show ?case
  proof cases
    case 1
    then show ?thesis using Suc.prems
      by (cases "free_pages s = 0")
        (auto simp: Let_def user_page_alloc_def openfile_take_eq pageref_def)
  next
    case 2
    then show ?thesis using Suc.prems by (auto simp: Let_def openfile_take_eq pageref_def)
  next
    case 3
    then have "openfile_alloc_from k (i + 1) s = (Inr (j, fid), t)" using Suc.prems by (simp add: Let_def)
    note ih = Suc.IH [OF this]
    then have "\<forall>l. i \<le> l \<and> l < j \<longrightarrow> 2 \<le> pageref (o_fd (opentab s l)) s"
      using 3 by (metis Suc_eq_plus1 Suc_leI le_neq_implies_less)
    with ih show ?thesis by auto
  qed
qed

text \<open>Adding \<open>MAXOPEN\<close> fewer than \<open>2 ^ 22\<close> times does not lead back to the same id.\<close>

lemma reused_id:
  assumes "k < 4194303"
  shows "(a :: u32) + 1024 + of_nat (k * 1024) \<noteq> a"
proof
  assume "a + 1024 + of_nat (k * 1024) = a"
  then have "(of_nat (1024 + k * 1024) :: u32) = 0" by (simp add: add.assoc)
  moreover have "unat (of_nat (1024 + k * 1024) :: u32) = 1024 + k * 1024" by (rule unat_of_nat32) (use assms in simp)
  ultimately show False by simp
qed

text \<open>
  C31: \<open>openfile_alloc\<close> takes the first entry whose \<open>struct Fd\<close> page no client has mapped, and
  returns a new id for it, \<open>MAXOPEN\<close> more than the old one.  Whatever pages clients map later, the old id is refused as
  long as the entry has been taken fewer than \<open>2 ^ 22 - 1\<close> more times, and the new id finds the entry once a client has mapped
  its page; all other ids find what they found before.
\<close>

theorem openfile_alloc_fresh:
  assumes "table_ok s" "openfile_alloc s = (Inr (i, fid), t)"
  shows "i < MAXOPEN \<and> pageref (o_fd (opentab s i)) s \<le> 1 \<and>
    (\<forall>j < i. 2 \<le> pageref (o_fd (opentab s j)) s) \<and>
    fid = o_fileid (opentab s i) + of_nat MAXOPEN \<and> fid \<noteq> o_fileid (opentab s i) \<and> o_fileid (opentab t i) = fid \<and>
    (\<forall>u k. k < 4194303 \<and> o_fileid (opentab u i) = fid + of_nat (k * MAXOPEN) \<longrightarrow>
       openfile_lookup (o_fileid (opentab s i)) u = Inl E_INVAL) \<and>
    (\<forall>u. opentab u = opentab t \<and> 2 \<le> pageref (o_fd (opentab t i)) u \<longrightarrow> openfile_lookup fid u = Inr i) \<and>
    (\<forall>x. unat x mod MAXOPEN \<noteq> i \<longrightarrow> openfile_lookup x t = openfile_lookup x s) \<and> table_ok t"
proof -
  note c = alloc_from_cases [OF assms(2) [unfolded openfile_alloc_def]]
  have i: "i < 1024" using c by simp
  have ti: "unat (o_fileid (opentab s i)) mod 1024 = i" "o_fd (opentab s i) = FILEVA + of_nat i * PGSIZE"
    using assms(1) i by (auto simp: table_ok_def)
  have fid: "fid = o_fileid (opentab s i) + 1024" using c by simp
  have ot: "opentab t = (opentab s)(i := (opentab s i)\<lparr>o_fileid := fid\<rparr>)" using c by simp
  have "openfile_lookup (o_fileid (opentab s i)) u = Inl E_INVAL"
    if "k < 4194303" "o_fileid (opentab u i) = fid + of_nat (k * 1024)" for u k
    using reused_id [OF that(1), of "o_fileid (opentab s i)"] that(2) ti(1) by (simp add: openfile_lookup_def Let_def fid)
  moreover have "openfile_lookup fid u = Inr i" if "opentab u = opentab t" "2 \<le> pageref (o_fd (opentab t i)) u" for u
    using that next_fileid(1) [OF ti(1)] by (simp add: openfile_lookup_def Let_def ot fid)
  moreover have "openfile_lookup x t = openfile_lookup x s" if x: "unat x mod 1024 \<noteq> i" for x
  proof -
    let ?j = "unat x mod 1024"
    have fd: "o_fd (opentab s ?j) = FILEVA + of_nat ?j * PGSIZE" using assms(1) by (simp add: table_ok_def)
    have "PGNUM (o_fd (opentab s ?j)) \<noteq> PGNUM (o_fd (opentab s i))"
      unfolding fd ti(2) using PGNUM_fileva [of ?j i] i x by simp
    then have "pageref (o_fd (opentab s ?j)) t = pageref (o_fd (opentab s ?j)) s"
      using c by (simp add: pageref_def)
    then show ?thesis using ot x by (simp add: openfile_lookup_def Let_def)
  qed
  moreover have "table_ok t" using assms(1) ti next_fileid(1) [OF ti(1)] by (auto simp: table_ok_def ot fid)
  ultimately show ?thesis using c i by (auto simp: fid ot)
qed

theorem openfile_alloc_fresh_witness:
  "\<exists>t. openfile_alloc (serve_init (ex_fs (PGNUM 0))) = (Inr (0, 1024), t) \<and>
     openfile_lookup 0 (t\<lparr>page_refs := (\<lambda>_. 2)\<rparr>) = Inl E_INVAL"
proof -
  let ?s = "serve_init (ex_fs (PGNUM 0))"
  have ot: "o_fd (opentab ?s 0) = FILEVA" "o_fileid (opentab ?s 0) = 0"
    using serve_init_fold [of 1024 "ex_fs (PGNUM 0)" 0] by (simp_all add: serve_init_def)
  have same: "mapped (fold (\<lambda>i. upd_open i (g i)) xs s) = mapped s \<and> page_refs (fold (\<lambda>i. upd_open i (g i)) xs s) = page_refs s"
    for g xs s by (induction xs arbitrary: s) (simp_all add: upd_open_def)
  have "pageref FILEVA ?s = 1"
    using same by (simp add: pageref_def serve_init_def) (simp add: ex_fs_def PGNUM_def)
  then have "\<exists>t. openfile_alloc_from (Suc k) 0 ?s = (Inr (0, 1024), t)" for k
    using ot by (simp add: Let_def openfile_take_eq)
  from this [of 1023] obtain t where t: "openfile_alloc ?s = (Inr (0, 1024), t)"
    by (auto simp: openfile_alloc_def)
  let ?u = "t\<lparr>page_refs := (\<lambda>_. 2)\<rparr>"
  note fresh = openfile_alloc_fresh [OF table_ok_init t]
  then have f: "o_fileid (opentab t 0) = 1024" by blast
  have "\<forall>u k. k < 4194303 \<and> o_fileid (opentab u 0) = 1024 + of_nat (k * MAXOPEN) \<longrightarrow>
      openfile_lookup (o_fileid (opentab ?s 0)) u = Inl E_INVAL" using fresh by blast
  from this [rule_format, of 0 ?u] have "openfile_lookup (o_fileid (opentab ?s 0)) ?u = Inl E_INVAL" using f by simp
  then show ?thesis using t ot by auto
qed

section \<open>Blocks that are not cleared\<close>

lemma first_free: "isfree v b \<Longrightarrow> (\<forall>d < b. \<not> isfree v d) \<Longrightarrow> isfree v c \<Longrightarrow> (\<And>d. d < c \<Longrightarrow> \<not> isfree v d) \<Longrightarrow> c = b"
  by (metis linorder_neqE)

text \<open>
  C33: a new indirect block is not cleared.  When the eleventh or a later block of a file is
  asked for and the file has no indirect block yet, the first free block becomes the indirect
  block with whatever it contained: a stale number \<open>w\<close> in it is returned as the file's block,
  although no block was allocated for it and \<open>w\<close> may belong to another file.
\<close>

theorem indirect_block_stale:
  assumes "fs_ok s" "file_ok (view s) f" "get32 (view s) (f_indirect f) = 0"
    "NDIRECT \<le> k" "k < NDIRECT + NINDIRECT" "isfree (view s) b" "\<forall>d < b. \<not> isfree (view s) d"
    "w = get32 (view s) (blockaddr b + 4 * (k - NDIRECT))" "w \<noteq> 0" "w < nblk (view s)"
  shows "runs (file_get_block f k s) (\<lambda>(r, t). r = Inr (blockaddr w) \<and>
    view t = put32 (f_indirect f) b (mark_used b (view s)))"
proof -
  let ?v = "view s" and ?u = "mark_used b (view s)"
  let ?x = "put32 (f_indirect f) b ?u"
  note vol = fs_okD(3) [OF assms(1)]
  note fo = file_okD [OF assms(2)]
  have bn: "b < nblk ?v" using assms(6) by (simp add: isfree_bound)
  have lb: "b < 0xC0000" using vol_okD(6) [OF vol bn] .
  have bz: "b \<noteq> 0" using isfree_resv [OF vol assms(6)] vol_okD(2) [OF vol] by auto
  have k: "\<not> NDIRECT + NINDIRECT \<le> k" "\<not> k < NDIRECT" using assms(4,5) by simp_all
  note o = unat_indirect [of k]
  have lo: "unat (4 * (k - NDIRECT)) < 4096" using o k assms(5) by simp
  define a where "a = blockaddr b + 4 * (k - NDIRECT)"
  note ba = blockaddr_offset [OF lb lo, folded a_def]
  have al: "a mod 4 = 0" unfolding a_def by (rule blockaddr_aligned [OF word4_aligned])
  have fi: "f_indirect f mod 4 = 0" "safe ?v (f_indirect f)" "accv s ?v (f_indirect f)"
    using field_aligned(1) [OF fo(1)] file_field_ok [OF vol fo(1), of 176] by (simp_all add: f_indirect_def)
  have vu: "vol_ok ?u" using vol_ok_mark_used [OF vol bn] .
  have su: "safe ?u y = safe ?v y" for y using resv_mark(1) [OF lb] by (simp add: safe_def)
  have same: "vol_same ?u ?x" by (rule vol_same_put32 [OF vu fi(1)]) (use su fi(2) in simp)
  note sm = vol_sameD [OF same]
  have nx: "nblk ?x = nblk ?v" using sm(1) nblk_mark(1) [OF lb] by simp
  have fx: "isfree ?x c \<longleftrightarrow> isfree ?v c \<and> c \<noteq> b" for c using sm(2) isfree_mark(1) [OF vol bn] by simp
  have fb: "blockno f \<noteq> b"
    using fo(1) assms(6) isfree_resv [OF vol assms(6)] vol_okD(2) [OF vol] by (auto simp: file_at_def datab_def)
  have "blockno (f_indirect f) = blockno f" using file_field(2) [OF fo(1), of 176] by (simp add: f_indirect_def)
  then have ne: "f_indirect f \<noteq> a" using fb ba(2) by metis
  have wx: "get32 ?x a = w"
    using get32_put32_other [OF fi(1) al ne] mark_used_word [OF vol bn al]
      isfree_resv [OF vol assms(6)] ba assms(8) [folded a_def] by (simp add: safe_def)
  have acx: "accv s ?x a" using ba nx fx bn by (simp add: accv_def)
  have acu: "accv s ?u (f_indirect f)"
    using fi(3) isfree_mark(1) [OF vol bn] nblk_mark(1) [OF lb] by (auto simp: accv_def)
  have walk: "runs (file_block_walk f k True s) (\<lambda>(r, t). r = Inr a \<and> becomes s ?x t)"
    unfolding file_block_walk_def if_not_P [OF k(1)] if_not_P [OF k(2)] runs_bind
    apply (rule ld32_rule [OF becomes_refl [OF assms(1)] fi(3,1)])
    apply (simp add: assms(3))
    apply (rule alloc_rule, assumption)
     apply (use assms(6) in blast)
    apply (frule first_free [OF assms(6,7)], assumption)
    apply simp
    apply (rule safe_store_rule [OF _ acu fi(1)], assumption)
     apply (use su fi(2) in simp)
    apply (rule diskaddr_rule, assumption, rule bz, use nx bn in simp, simp)
    apply (rule flush_rule, assumption, rule in_map_block [OF lb])
    apply (rule diskaddr_rule, assumption, rule bz, use nx bn in simp, simp add: a_def)
    done
  show ?thesis
    unfolding file_get_block_def runs_bind
    apply (rule runs_pair [OF walk], clarsimp)
    apply (rule ld32_rule [OF _ acx al], assumption)
    apply (simp add: wx assms(9))
    apply (rule diskaddr_rule, assumption, rule assms(9), use nx assms(10) in simp)
    apply (simp add: becomes_def)
    done
qed

text \<open>The small volume with other contents, all of it cached.\<close>

definition ex_on :: "mem \<Rightarrow> fs" where
  "ex_on v = (ex_fs (PGNUM 0))\<lparr>fmem := v\<rparr>"

lemma view_ex_on: "view (ex_on v) = v"
proof -
  have "PGNUM x \<noteq> PGNUM 0" if "in_map x" for x
    using unat_PGNUM_map [OF that] by (auto simp: PGNUM_def)
  then show ?thesis by (auto simp: view_def ex_on_def ex_fs_def fun_eq_iff)
qed

lemma fs_ok_ex_on:
  assumes "vol_ok v" "resv v = 3"
  shows "fs_ok (ex_on v)"
proof -
  have m: "mapped (ex_on v) (PGNUM (blockaddr b))" if "b < 0xC0000" for b
    using unat_PGNUM_map [of "blockaddr b"] that by (auto simp: ex_on_def ex_fs_def PGNUM_def)
  have "uncached (ex_on v) = {}"
    unfolding uncached_def view_ex_on using m vol_okD(6) [OF assms(1)] by blast
  moreover have "mapped (ex_on v) (PGNUM (blockaddr b))" if "unat b < 3" for b
    using m that by (simp add: word_less_nat_alt)
  ultimately show ?thesis
    unfolding fs_ok_def view_ex_on using assms by simp (simp add: ex_on_def ex_fs_def)
qed

lemma ex_on_put32:
  assumes "vol_same ex_vol v" "a mod 4 = 0" "safe ex_vol a"
  shows "vol_same ex_vol (put32 a w v)"
proof -
  have "vol_ok v" "safe v a" using vol_sameD [OF assms(1)] vol_ok_ex assms(3) by (simp_all add: safe_def)
  then show ?thesis by (intro vol_same_trans [OF assms(1)] vol_same_put32 assms(2))
qed

lemma vol_same_refl: "vol_same v v"
  by (simp add: vol_same_def)

lemma fs_ok_same: "vol_same ex_vol v \<Longrightarrow> fs_ok (ex_on v)"
  using fs_ok_ex_on [of v] vol_sameD [of ex_vol v] vol_ok_ex resv_ex by simp

text \<open>Changing a block other than the file's own, the file having no blocks, keeps the file.\<close>

definition ex_stale :: mem where
  "ex_stale = put32 (blockaddr 4) 3 ex_vol"

lemma ex_stale: "vol_same ex_vol ex_stale" "file_ok ex_stale (blockaddr 3)"
  "get32 ex_stale (f_indirect (blockaddr 3)) = 0"
proof -
  have a: "blockaddr 4 mod 4 = 0" using blockaddr_aligned [of 0 4] by simp
  have s: "safe ex_vol (blockaddr 4)" by (simp add: safe_def resv_ex)
  show vs: "vol_same ex_vol ex_stale" unfolding ex_stale_def by (rule ex_on_put32 [OF vol_same_refl a s])
  have w: "get32 ex_stale y = get32 ex_vol y" if y: "y mod 4 = 0" "blockno y = 3" for y
    unfolding ex_stale_def by (rule get32_put32_other [OF a y(1)]) (use y(2) in auto)
  note at = file_at_ex
  show i: "get32 ex_stale (f_indirect (blockaddr 3)) = 0"
    using w [OF field_aligned(1) [OF at]] file_field(2) [OF at, of 176] ex_indirect(1) by (simp add: f_indirect_def)
  have "get32 ex_stale (slot ex_vol (blockaddr 3) k) = get32 ex_vol (slot ex_vol (blockaddr 3) k)"
    if h: "has_slot ex_vol (blockaddr 3) k" for k
  proof (rule w [OF slot_place(1) [OF vol_ok_ex file_ok_ex h]])
    have "k < NDIRECT" using h by (simp add: has_slot_def ex_indirect)
    then show "blockno (slot ex_vol (blockaddr 3) k) = 3"
      using slot_place(5) [OF vol_ok_ex file_ok_ex h] by simp
  qed
  note fp = fptr_cong(3) [OF trans [OF i ex_indirect(1) [symmetric]] this]
  show "file_ok ex_stale (blockaddr 3)"
    by (rule file_ok_cong [OF file_ok_ex trans [OF i ex_indirect(1) [symmetric]] fp])
      (use datab_same [OF vs] in simp_all)
qed

theorem indirect_block_stale_witness:
  "runs (file_get_block (blockaddr 3) 10 (ex_on ex_stale)) (\<lambda>(r, t). r = Inr (blockaddr 3))"
proof -
  note vs = vol_sameD [OF ex_stale(1)]
  have n: "nblk ex_stale = 8" using vs(1) nblk_ex by simp
  have f: "isfree ex_stale b \<longleftrightarrow> b < 8 \<and> 4 \<le> b" for b using vs(2) isfree_ex by simp
  have w: "get32 ex_stale (blockaddr 4) = 3" by (simp add: ex_stale_def)
  show ?thesis
    by (rule runs_weaken [OF indirect_block_stale [OF fs_ok_same [OF ex_stale(1)], of "blockaddr 3" 10 4 3]])
      (auto simp: view_ex_on ex_stale f n w)
qed

text \<open>
  A new directory block is not cleared either.  In an empty directory the first created
  file gets the first entry of a block with whatever the block contained: the size, the type
  and the block numbers of the new file, and the names of the other fifteen entries, are what
  was last stored in that block.
\<close>

theorem dir_block_stale:
  assumes "fs_ok s" "file_ok (view s) dir" "get32 (view s) (f_size dir) = 0" "fptr (view s) dir 0 = 0"
    "isfree (view s) b"
  shows "runs (dir_alloc_file dir s) (\<lambda>(r, t). \<exists>c. r = Inr (blockaddr c) \<and> isfree (view s) c \<and>
    (\<forall>x. unat x < 4096 \<longrightarrow> view t (blockaddr c + x) = view s (blockaddr c + x)))"
proof -
  let ?v = "view s" and ?w = "put32 (f_size dir) 0x1000 (view s)"
  note vol = fs_okD(3) [OF assms(1)]
  note sf = size_field [OF vol assms(2)]
  note same = vol_same_put32 [OF vol sf(1,2), where w = "0x1000"]
  note sm = vol_sameD [OF same]
  have vw: "vol_ok ?w" using sm(4) vol by simp
  have fw: "file_ok ?w dir" by (rule set_size_file(1) [OF vol assms(2)])
  have h: "has_slot ?v dir 0" by (simp add: has_slot_def)
  have hw: "has_slot ?w dir 0" by (simp add: has_slot_def)
  have fp: "fptr ?w dir 0 = 0" using set_size_file(3) [OF vol assms(2)] assms(4) by simp
  have z: "off_mod 0 = 0" "off_div 0 = 0" using off_div_mod [of 0] by simp_all
  have dirb: "blockno dir \<noteq> c" if "isfree ?v c" for c
    using file_okD(1) [OF assms(2)] that isfree_resv [OF vol that] vol_okD(2) [OF vol]
    by (auto simp: file_at_def datab_def)
  have stale: "with_block dir 0 c ?w (blockaddr c + x) = ?v (blockaddr c + x)"
    if c: "isfree ?v c" and x: "unat x < 4096" for c x
  proof -
    have lc: "c < 0xC0000" using vol_okD(6) [OF vol isfree_bound [OF c]] .
    note bo = blockaddr_offset [OF lc x]
    have cw: "isfree ?w c" using sm(2) c by simp
    have "safe ?w (blockaddr c + x)" using isfree_resv [OF vw cw] bo by (simp add: safe_def)
    moreover have "blockno (slot ?w dir 0) = blockno dir"
      using slot_place(5) [OF vw fw hw] by simp
    ultimately have "with_block dir 0 c ?w (blockaddr c + x) = ?w (blockaddr c + x)"
      using with_block(9) [OF vw fw hw cw] bo(2) dirb [OF c] by simp
    moreover have "?w (blockaddr c + x) = ?v (blockaddr c + x)"
    proof (rule ccontr)
      assume "?w (blockaddr c + x) \<noteq> ?v (blockaddr c + x)"
      then have "PGNUM (blockaddr c + x) = PGNUM (f_size dir)" using put32_changed [OF sf(1)] by blast
      moreover have "in_map (f_size dir)" "blockno (f_size dir) = blockno dir"
        using file_field(1,2) [OF file_okD(1) [OF assms(2)], of 128] by (simp_all add: f_size_def)
      ultimately show False using same_page_block [of "f_size dir" "blockaddr c + x"] bo dirb [OF c] by simp
    qed
    ultimately show ?thesis by simp
  qed
  show ?thesis
    unfolding dir_alloc_file_def runs_bind
    apply (rule ld32_rule [OF becomes_refl [OF assms(1)] sf(3,1)])
    apply (simp add: assms(3) z)
    apply (rule ld32_rule [OF _ sf(3,1)], assumption)
    apply (simp add: assms(3))
    apply (rule safe_store_rule [OF _ sf(3,1,2)], assumption)
    apply (rule get_block_rule [OF _ fw hw], assumption)
      apply (use fp in simp)
     apply (use sm(2) assms(5) in blast)
    apply (use sm(2) stale in \<open>auto simp: becomes_def\<close>)
    done
qed

theorem dir_block_stale_witness:
  "runs (dir_alloc_file (blockaddr 3) (ex_on ex_stale)) (\<lambda>(r, t). \<exists>c. r = Inr (blockaddr c) \<and>
    view t (blockaddr c) = ex_stale (blockaddr c))"
proof -
  note vs = vol_sameD [OF ex_stale(1)]
  have f: "isfree ex_stale b \<longleftrightarrow> b < 8 \<and> 4 \<le> b" for b using vs(2) isfree_ex by simp
  have sz: "get32 ex_stale (f_size (blockaddr 3)) = 0"
  proof -
    have "blockaddr 4 \<noteq> f_size (blockaddr 3)" by (simp add: blockaddr_def f_size_def)
    then have "get32 ex_stale (f_size (blockaddr 3)) = get32 ex_vol (f_size (blockaddr 3))"
      unfolding ex_stale_def
      using get32_put32_other [OF _ field_aligned(2) [OF file_at_ex]] blockaddr_aligned [of 0 4] by simp
    then show ?thesis by (simp add: ex_indirect)
  qed
  have fp: "fptr ex_stale (blockaddr 3) 0 = 0"
  proof -
    have "blockaddr 4 \<noteq> f_direct (blockaddr 3) 0" by (simp add: blockaddr_def f_direct_def)
    then have "get32 ex_stale (f_direct (blockaddr 3) 0) = get32 ex_vol (f_direct (blockaddr 3) 0)"
      unfolding ex_stale_def
      using get32_put32_other [OF _ field_aligned(3) [OF file_at_ex]] blockaddr_aligned [of 0 4] by simp
    also have "\<dots> = 0" using ex_file_words [of 136] by (simp add: f_direct_def)
    finally show ?thesis by (simp add: fptr_def slot_def)
  qed
  show ?thesis
  proof (rule runs_weaken [OF dir_block_stale [OF fs_ok_same [OF ex_stale(1)], of "blockaddr 3" 4]], safe)
    fix r t c assume "\<forall>x. unat x < 4096 \<longrightarrow> view t (blockaddr c + x) = view (ex_on ex_stale) (blockaddr c + x)"
    from this [rule_format, of 0] show "\<exists>c'. Inr (blockaddr c) = (Inr (blockaddr c') :: error + u32) \<and>
        view t (blockaddr c') = ex_stale (blockaddr c')"
      by (auto simp: view_ex_on)
  qed (simp_all add: view_ex_on ex_stale f sz fp)
qed

section \<open>A request longer than its page\<close>

lemma fsreq_page: "x - fsreq < 4096 \<Longrightarrow> PGNUM x = PGNUM fsreq \<and> \<not> in_map x"
proof -
  assume a: "x - fsreq < 4096"
  define y where "y = x - fsreq"
  have x: "x = fsreq + y" by (simp add: y_def)
  have y: "unat y < 4096" using a by (simp add: y_def word_less_nat_alt)
  have u: "unat x = 0xFFFF000 + unat y" unfolding x by (subst unat_add_no_wrap) (use y in simp_all)
  have "unat x div 4096 = 0xFFFF" using page_join [of "unat x" "0xFFFF" "unat y"] u y by simp
  then show ?thesis using u y by (simp add: word_unat_eq_iff unat_PGNUM in_map_unat)
qed

lemma block_0: "blockaddr 0 = DISKMAP" "fsreq + 4096 = DISKMAP"
  by (simp_all add: blockaddr_def)

lemma read_overrun_rule:
  assumes "becomes s0 v s" "file_ok v f" "mapped s0 (PGNUM fsreq)" "unat (get32 v (f_size f)) < 2 ^ 31"
    "4096 < unat n" "unat n \<le> 8192" "unat n \<le> unat (get32 v (f_size f))" "fptr v f 0 \<noteq> 0" "fptr v f 1 \<noteq> 0"
    "\<And>v' s'. becomes s0 v' s' \<Longrightarrow> (\<And>i. i < n - 4096 \<Longrightarrow> v' (DISKMAP + i) = fbyte v f (4096 + i)) \<Longrightarrow>
       (\<And>x. \<not> in_map x \<Longrightarrow> \<not> x - fsreq < 4096 \<Longrightarrow> v' x = v x) \<Longrightarrow> Q (Inr n, s')"
  shows "runs (file_read f fsreq n 0 s) Q"
proof -
  let ?sz = "get32 v (f_size f)" and ?b0 = "fptr v f 0" and ?b1 = "fptr v f 1"
  let ?v1 = "blit fsreq (blockaddr ?b0) 4096 v"
  let ?v2 = "blit DISKMAP (blockaddr ?b1) (n - 4096) ?v1"
  note vol = becomesD(3) [OF assms(1)]
  note fo = file_okD [OF assms(2)]
  note sf = size_field [OF vol assms(2)]
  have d: "datab v ?b0" "datab v ?b1" using fo(2) assms(8,9) by blast+
  have l: "?b0 < 0xC0000" "?b1 < 0xC0000" using datab_bound [OF vol d(1)] datab_bound [OF vol d(2)] by simp_all
  have h: "has_slot v f 0" "has_slot v f 1" by (simp_all add: has_slot_def)
  have n: "unat (n - 4096) = unat n - 4096" using assms(5) by (simp add: unat_sub word_le_nat_alt)
  have v1: "?v1 x = v x" if "in_map x" for x using fsreq_page [of x] that by (auto simp: blit_def)
  note os = outside_same [where v' = ?v1, OF vol assms(2) v1]
  note sm = vol_sameD [OF os(1)]
  have vol1: "vol_ok ?v1" using sm(4) vol by simp
  have lt0: "0 < n" "4096 < n" using assms(5) by (simp_all add: word_less_nat_alt)
  have n4: "unat (n - 4096) \<le> 4096" using n assms(6) by simp
  have idb1: "in_map x \<and> blockno x = ?b1" if "x - blockaddr ?b1 < n - 4096" for x
    using in_data_block(1,2) [OF l(2), of 0 "n - 4096" x] that n4 by simp
  have idz: "in_map x \<and> blockno x = 0" if "x - DISKMAP < n - 4096" for x
    using in_data_block(1) [of 0 0 "n - 4096" x] in_data_block(2) [of 0 0 "n - 4096" x] that n4
    by (simp add: block_0)
  have z: "0 < nblk v" "\<not> isfree v 0" using vol_okD(2,3) [OF vol] vol_okD(5) [OF vol, of 0]
    by (simp_all add: word_less_nat_alt)
  have b1: "?b1 \<noteq> 0" by (rule assms(9))
  have c0: "chunk 0 n = 4096" using lt0 by (simp add: chunk_def min_def word_le_nat_alt word_less_nat_alt)
  have m: "4096 mod 4096 = (0 :: u32)" "4096 div 4096 = (1 :: u32)" by simp_all
  have "n - 4096 \<le> 4096" using n4 by (simp add: word_le_nat_alt)
  then have c1: "chunk 4096 n = n - 4096" by (simp add: chunk_def min_absorb2)
  have l31: "unat n < 2 ^ 31" using assms(6) by simp
  have loop: "runs (file_read_loop f fsreq 0 n t) (\<lambda>(r, u). r = Inr () \<and> becomes s0 ?v2 u)"
    if t: "becomes s0 v t" for t
  proof (rule read_round [OF t assms(2) lt0(1) l31])
    show "fptr v f (0 div BLKSIZE) \<noteq> 0" using assms(8) by simp
    show "accv s0 v x \<and> safe v x \<and> \<not> (in_map x \<and> blockno x = fptr v f (0 div BLKSIZE))"
      if "x - fsreq < chunk 0 n" for x
      using fsreq_page [of x] that assms(3) by (simp add: c0 accv_def safe_def)
    fix u assume "becomes s0 (blit fsreq (blockaddr (fptr v f (0 div BLKSIZE)) + 0 mod BLKSIZE) (chunk 0 n) v) u"
    then have u: "becomes s0 ?v1 u" by (simp add: c0)
    have "runs (file_read_loop f DISKMAP 4096 n u) (\<lambda>(r, u). r = Inr () \<and> becomes s0 ?v2 u)"
    proof (rule read_round [OF u os(2) lt0(2) l31])
      show "fptr ?v1 f (4096 div BLKSIZE) \<noteq> 0" using b1 os(5) by simp
      show "accv s0 ?v1 x \<and> safe ?v1 x \<and> \<not> (in_map x \<and> blockno x = fptr ?v1 f (4096 div BLKSIZE))"
        if "x - DISKMAP < chunk 4096 n" for x
        using idz [of x] that z b1 sm os(5) by (simp add: accv_def safe_def c1)
      fix w assume "becomes s0 (blit DISKMAP (blockaddr (fptr ?v1 f (4096 div BLKSIZE)) + 4096 mod BLKSIZE) (chunk 4096 n) ?v1) w"
      then have w: "becomes s0 ?v2 w" using os(5) by (simp add: c1)
      then show "runs (file_read_loop f (DISKMAP + chunk 4096 n) (4096 + chunk 4096 n) n w)
          (\<lambda>(r, u). r = Inr () \<and> becomes s0 ?v2 u)"
        by (subst file_read_loop.simps) (simp add: c1)
    qed
    then show "runs (file_read_loop f (fsreq + chunk 0 n) (0 + chunk 0 n) n u)
        (\<lambda>(r, u). r = Inr () \<and> becomes s0 ?v2 u)" by (simp add: c0)
  qed
  have bytes: "?v2 (DISKMAP + i) = fbyte v f (4096 + i)" if i: "i < n - 4096" for i
  proof -
    have "(4096 + i) div BLKSIZE = 1 \<and> (4096 + i) mod BLKSIZE = i"
    proof (cases "unat i < 4096")
      case True
      have "unat (4096 + i) = 4096 + unat i" by (subst unat_add_no_wrap) (use True in simp_all)
      then show ?thesis using True by (simp add: word_unat_eq_iff unat_div unat_mod)
    next
      case False
      then show ?thesis using i n4 by (simp add: word_less_nat_alt)
    qed
    moreover have "?v1 (blockaddr ?b1 + i) = v (blockaddr ?b1 + i)"
      using idb1 [of "blockaddr ?b1 + i"] i by (intro v1) simp
    ultimately show ?thesis using i by (simp add: fbyte_def) (simp add: blit_def split: if_splits)
  qed
  have rest: "?v2 x = v x" if "\<not> in_map x" "\<not> x - fsreq < 4096" for x
    using idz [of x] that by (auto simp: blit_def)
  have "0 < unat ?sz" using assms(5,7) by linarith
  then have "0 < sint ?sz" unfolding sint_small [OF assms(4)] by (simp only: of_nat_0_less_iff)
  then have s: "\<not> sint ?sz \<le> sint 0" by simp
  have mn: "min n ?sz = n" using assms(7) by (simp add: min_def word_le_nat_alt)
  show ?thesis
    unfolding file_read_def runs_bind
    apply (rule ld32_rule [OF assms(1) sf(3,1)])
    using s mn apply (simp add: Let_def)
    apply (rule runs_pair [OF loop], assumption)
    using assms(10) bytes rest apply auto
    done
qed

text \<open>The table of open files under accesses.\<close>

lemma openfile_lookup_ext:
  assumes "ext s t" "\<not> in_map (o_fd (opentab s (unat x mod MAXOPEN)))"
  shows "openfile_lookup x t = openfile_lookup x s"
  using assms by (auto simp: openfile_lookup_def pageref_def ext_def Let_def)

lemma fileva_page:
  assumes "i < MAXOPEN" "unat x < 4096"
  shows "\<not> in_map (FILEVA + of_nat i * PGSIZE + x)" "PGNUM (FILEVA + of_nat i * PGSIZE + x) = PGNUM (FILEVA + of_nat i * PGSIZE)"
    "\<not> FILEVA + of_nat i * PGSIZE + x - fsreq < 4096"
proof -
  have u: "unat (FILEVA + of_nat i * PGSIZE + x) = 0xD0000000 + i * 4096 + unat x"
    by (subst unat_add_no_wrap) (use assms in \<open>simp_all add: unat_fileva\<close>)
  then show m: "\<not> in_map (FILEVA + of_nat i * PGSIZE + x)" by (simp add: in_map_unat)
  have "unat (FILEVA + of_nat i * PGSIZE + x) div 4096 = 0xD0000 + i"
    using page_join [of "unat (FILEVA + of_nat i * PGSIZE + x)" "0xD0000 + i" "unat x"] assms(2) u by simp
  then show p: "PGNUM (FILEVA + of_nat i * PGSIZE + x) = PGNUM (FILEVA + of_nat i * PGSIZE)"
    using unat_fileva [OF assms(1)] by (simp add: word_unat_eq_iff unat_PGNUM)
  show "\<not> FILEVA + of_nat i * PGSIZE + x - fsreq < 4096"
    using fsreq_page [of "FILEVA + of_nat i * PGSIZE + x"] u by (auto simp: word_unat_eq_iff unat_PGNUM)
qed

text \<open>
  C32: \<open>serve_read\<close> does not limit the length a client asks for.  A request for more than 4096
  and up to 8192 bytes of a file that has them makes the server write beyond the request page,
  which lies directly below the disk map: the bytes of the file from 4096 on overwrite the
  beginning of block 0 in the block cache, and the client is told that all went well.
\<close>

theorem serve_read_overruns:
  assumes "fs_ok s" "table_ok s" "mapped s (PGNUM fsreq)"
    "openfile_lookup (get32 (view s) fsreq) s = Inr i" "o_file (opentab s i) = f"
    "get32 (view s) (fd_offset (o_fd (opentab s i))) = 0" "file_ok (view s) f"
    "unat (get32 (view s) (f_size f)) < 2 ^ 31" "get32 (view s) (fsreq + 4) = n"
    "4096 < unat n" "unat n \<le> 8192" "unat n \<le> unat (get32 (view s) (f_size f))"
    "fptr (view s) f 0 \<noteq> 0" "fptr (view s) f 1 \<noteq> 0"
  shows "runs (serve_read s) (\<lambda>(r, t). r = n \<and>
    (\<forall>i < n - 4096. view t (DISKMAP + i) = fbyte (view s) f (4096 + i)))"
proof -
  let ?v = "view s" and ?fd = "FILEVA + of_nat i * PGSIZE"
  note b0 = becomes_refl [OF assms(1)]
  note vol = fs_okD(3) [OF assms(1)]
  have i: "i < 1024" "i = unat (get32 ?v fsreq) mod 1024" "2 \<le> pageref (o_fd (opentab s i)) s"
    using assms(4) by (auto simp: openfile_lookup_def Let_def split: if_splits)
  have fd: "o_fd (opentab s i) = ?fd" using assms(2) i(1) by (simp add: table_ok_def)
  have mfd: "mapped s (PGNUM ?fd)" using i(3) unfolding fd by (auto simp: pageref_def split: if_splits)
  have "unat (4 :: u32) < 4096" by simp
  note g4 = fileva_page [OF i(1) this]
  define o4 where "o4 = fd_offset (o_fd (opentab s i))"
  have o4: "o4 = ?fd + 4" by (simp add: o4_def fd_offset_def fd)
  note f4 = g4 [folded o4]
  have nmap: "\<not> in_map ?fd" using fileva_page(1) [OF i(1), of 0] by simp
  have al: "o4 mod 4 = 0"
  proof -
    have "unat o4 = 0xD0000000 + i * 4096 + 4"
      unfolding o4 by (subst unat_add_no_wrap) (use i(1) in \<open>simp_all add: unat_fileva\<close>)
    then show ?thesis by (simp add: unat_aligned)
  qed
  have acc: "accv s v fsreq" "accv s v (fsreq + 4)" "accv s v o4" for v
  proof -
    have "PGNUM (fsreq + 4) = PGNUM fsreq" by (simp add: PGNUM_def)
    then show "accv s v fsreq" "accv s v (fsreq + 4)" "accv s v o4"
      using assms(3) mfd f4(2) by (simp_all add: accv_def)
  qed
  have look: "openfile_lookup (get32 ?v fsreq) t = Inr i" "opentab t = opentab s"
    if "becomes s v t" for v t
  proof -
    have e: "ext s t" using that by (simp add: becomes_def)
    then show "opentab t = opentab s" by (simp add: ext_def)
    show "openfile_lookup (get32 ?v fsreq) t = Inr i"
      using openfile_lookup_ext [OF e, of "get32 ?v fsreq"] fd nmap assms(4) i(2) by simp
  qed
  have n31: "\<not> sint n < 0" using sint_small [of n] assms(11) by simp
  have fin: "runs (do { (off, s) \<leftarrow> ld32 o4 t; s \<leftarrow> st32 (fd_offset (o_fd (opentab s i))) (off + n) s; Some (n, s) })
      (\<lambda>(r, t). r = n \<and> (\<forall>i < n - 4096. view t (DISKMAP + i) = fbyte ?v f (4096 + i)))"
    if t: "becomes s v' t" and byt: "\<And>i. i < n - 4096 \<Longrightarrow> v' (DISKMAP + i) = fbyte ?v f (4096 + i)"
      and out: "\<And>x. \<not> in_map x \<Longrightarrow> \<not> x - fsreq < 4096 \<Longrightarrow> v' x = ?v x" for v' t
  proof -
    have "get32 v' o4 = get32 ?v o4"
    proof (rule get32_page [OF al])
      fix x assume p: "PGNUM x = PGNUM o4"
      then have "\<not> in_map x" using same_page_in_map f4(1) by blast
      moreover have "\<not> x - fsreq < 4096" 
      proof
        assume "x - fsreq < 4096"
        then have "PGNUM x = PGNUM fsreq" using fsreq_page by blast
        then have "PGNUM fsreq = PGNUM o4" using p by simp
        then show False using f4(2) unat_fileva [OF i(1)] by (simp add: word_unat_eq_iff unat_PGNUM)
      qed
      ultimately show "v' x = ?v x" by (rule out)
    qed
    then have off: "get32 v' o4 = 0" using assms(6) by (simp add: o4_def)
    have sf: "safe v' o4" using f4(1) by (simp add: safe_def)
    have keep: "put32 o4 n v' (DISKMAP + i) = fbyte ?v f (4096 + i)" if l: "i < n - 4096" for i
    proof -
      have "in_map (DISKMAP + i)"
        using in_data_block(1) [of 0 0 "n - 4096" "DISKMAP + i"] l assms(10,11)
        by (simp add: block_0 unat_sub word_le_nat_alt)
      then have "put32 o4 n v' (DISKMAP + i) = v' (DISKMAP + i)"
        using put32_changed [OF al] same_page_in_map f4(1) by blast
      then show ?thesis using byt [OF l] by simp
    qed
    show ?thesis unfolding runs_bind
      apply (rule ld32_rule [OF t acc(3) al])
      apply (simp add: off look(2) o4_def [symmetric])
      apply (rule safe_store_rule [OF _ acc(3) al sf], assumption)
      apply (use keep in \<open>simp add: becomes_def\<close>)
      done
  qed
  show ?thesis
    unfolding serve_read_def with_file_def runs_bind req_fileid_def
    apply (rule ld32_rule [OF b0 acc(1)], simp)
    apply (simp add: look(1))
    apply (simp add: req_arg_def)
    apply (rule ld32_rule [OF _ acc(2) [simplified]], assumption, simp)
    apply (simp add: assms(9) [simplified] look(2) o4_def [symmetric])
    apply (rule ld32_rule [OF _ acc(3) al], assumption)
    apply (simp add: assms(5) assms(6) [folded o4_def] look(2))
    apply (rule read_overrun_rule [OF _ assms(7,3,8,10-14)], assumption)
    apply (use n31 fin in \<open>simp add: code_def look(2) o4_def [symmetric]\<close>)
    done
qed

text \<open>A server with an open file of two blocks, and a request to read 4097 bytes of it.\<close>

definition ex_two_blocks :: mem where
  "ex_two_blocks = with_block (blockaddr 3) 1 5 (with_block (blockaddr 3) 0 4 ex_vol)"

definition ex_request :: mem where
  "ex_request = put32 (fsreq + 4) 4097 (put32 (f_size (blockaddr 3)) 4097 ex_two_blocks)"

definition ex_serv :: fs where
  "ex_serv = (ex_on ex_request)\<lparr>opentab := (\<lambda>i. \<lparr>o_fileid = of_nat i, o_file = blockaddr 3, o_mode = 0,
     o_fd = FILEVA + of_nat i * PGSIZE\<rparr>), page_refs := (\<lambda>_. 2)\<rparr>"

lemma ex_two_blocks:
  "vol_ok ex_two_blocks" "nblk ex_two_blocks = 8" "file_ok ex_two_blocks (blockaddr 3)"
  "fptr ex_two_blocks (blockaddr 3) 0 = 4" "fptr ex_two_blocks (blockaddr 3) 1 = 5"
  "\<not> in_map x \<Longrightarrow> ex_two_blocks x = 0"
proof -
  let ?f = "blockaddr 3" and ?v = "with_block (blockaddr 3) 0 4 ex_vol"
  have h: "has_slot ex_vol ?f 0" by (simp add: has_slot_def)
  have i4: "isfree ex_vol 4" by (simp add: isfree_ex)
  note w = with_block [OF vol_ok_ex file_ok_ex h i4]
  have h': "has_slot ?v ?f 1" by (simp add: has_slot_def)
  have i5: "isfree ?v 5" using w(3) isfree_ex by simp
  note w' = with_block [OF w(1) w(8) h' i5]
  show "vol_ok ex_two_blocks" "nblk ex_two_blocks = 8" "file_ok ex_two_blocks ?f"
    "fptr ex_two_blocks ?f 0 = 4" "fptr ex_two_blocks ?f 1 = 5"
    unfolding ex_two_blocks_def using w w' nblk_ex by simp_all
  assume x: "\<not> in_map x"
  have p: "PGNUM x \<noteq> PGNUM (blockaddr 1)" "PGNUM x \<noteq> PGNUM (blockaddr 2)"
    using x same_page_in_map [of x "blockaddr 1"] same_page_in_map [of x "blockaddr 2"] by auto
  have "ex_two_blocks x = ?v x" unfolding ex_two_blocks_def by (rule w'(9)) (use x in \<open>auto simp: safe_def\<close>)
  also have "\<dots> = ex_vol x" by (rule w(9)) (use x in \<open>auto simp: safe_def\<close>)
  also have "\<dots> = 0" by (rule ex_vol_zero [OF p])
  finally show "ex_two_blocks x = 0" .
qed

lemma ex_request:
  "vol_ok ex_request" "nblk ex_request = 8" "file_ok ex_request (blockaddr 3)"
  "fptr ex_request (blockaddr 3) 0 = 4" "fptr ex_request (blockaddr 3) 1 = 5"
  "get32 ex_request (f_size (blockaddr 3)) = 4097" "get32 ex_request (fsreq + 4) = 4097"
  "get32 ex_request fsreq = 0" "get32 ex_request (fd_offset FILEVA) = 0"
proof -
  let ?f = "blockaddr 3"
  let ?u = "put32 (f_size ?f) 4097 ex_two_blocks"
  note e = ex_two_blocks
  note sf = size_field [OF e(1,3)]
  note sm = vol_sameD [OF vol_same_put32 [OF e(1) sf(1,2), of 4097]]
  note sz = set_size_file [OF e(1,3), of 4097]
  have vu: "vol_ok ?u" using sm(4) e(1) by simp
  have al: "(fsreq + 4) mod 4 = 0" "fsreq mod 4 = 0" "fd_offset FILEVA mod 4 = 0" by (simp_all add: fd_offset_def)
  have out: "\<not> in_map x" if "PGNUM x = PGNUM fsreq" for x
    using same_page_in_map [OF that] by (simp add: in_map_def)
  have pg: "PGNUM (fsreq + 4) = PGNUM fsreq" by (simp add: PGNUM_def)
  have in_same: "ex_request x = ?u x" if "in_map x" for x
  proof (rule ccontr)
    assume "ex_request x \<noteq> ?u x"
    then have "PGNUM x = PGNUM (fsreq + 4)" unfolding ex_request_def using put32_changed [OF al(1)] by blast
    then show False using out that pg by simp
  qed
  note os = outside_same [where v' = ex_request, OF vu sz(1) in_same]
  note so = vol_sameD [OF os(1)]
  show "vol_ok ex_request" "nblk ex_request = 8" "file_ok ex_request ?f"
    using so sm vu e(2) os(2) by simp_all
  show "fptr ex_request ?f 0 = 4" "fptr ex_request ?f 1 = 5" using os(5) sz(3) e(4,5) by simp_all
  show "get32 ex_request (f_size ?f) = 4097" using os(4) by simp
  show "get32 ex_request (fsreq + 4) = 4097" by (simp add: ex_request_def)
  have zero: "get32 ex_request y = 0" if y: "y mod 4 = 0" "\<not> in_map y" "fsreq + 4 \<noteq> y" for y
  proof -
    have ne: "f_size ?f \<noteq> y" using y(2) file_field(1) [OF file_okD(1) [OF e(3)], of 128] by (auto simp: f_size_def)
    have "get32 ex_request y = get32 ex_two_blocks y" unfolding ex_request_def
      using get32_put32_other [OF al(1) y(1,3)] get32_put32_other [OF sf(1) y(1) ne] by simp
    also have "\<dots> = get32 (\<lambda>_. 0) y"
      by (rule get32_page [OF y(1)]) (use e(6) y(2) same_page_in_map in blast)
    finally show ?thesis by (simp add: get32_def)
  qed
  show "get32 ex_request fsreq = 0" by (rule zero [OF al(2)]) (simp_all add: in_map_def)
  show "get32 ex_request (fd_offset FILEVA) = 0"
    by (rule zero [OF al(3)]) (simp_all add: fd_offset_def in_map_def)
qed

theorem serve_read_overruns_witness:
  "runs (serve_read ex_serv) (\<lambda>(r, t). r = 4097 \<and> view t DISKMAP = fbyte ex_request (blockaddr 3) 4096)"
proof -
  have r: "resv ex_request = 3" by (simp add: resv_def ex_request(2))
  have v: "view ex_serv = ex_request"
  proof -
    have "view ex_serv = view (ex_on ex_request)" by (simp add: view_def ex_serv_def disk_byte_def cong: if_cong)
    then show ?thesis by (simp add: view_ex_on)
  qed
  have ok: "fs_ok ex_serv"
    using fs_ok_ex_on [OF ex_request(1) r] unfolding fs_ok_def v view_ex_on
    by (simp add: uncached_def v view_ex_on) (simp add: ex_serv_def disk_byte_def)
  have tab: "table_ok ex_serv" by (simp add: table_ok_def ex_serv_def unat_of_nat32)
  have m: "mapped ex_serv (PGNUM fsreq)" "mapped ex_serv (PGNUM FILEVA)"
    by (simp_all add: ex_serv_def ex_on_def ex_fs_def PGNUM_def)
  have look: "openfile_lookup (get32 (view ex_serv) fsreq) ex_serv = Inr 0"
    unfolding v ex_request(8) using m(2)
    by (simp add: openfile_lookup_def pageref_def Let_def) (simp add: ex_serv_def)
  have t: "o_file (opentab ex_serv 0) = blockaddr 3" "o_fd (opentab ex_serv 0) = FILEVA"
    by (simp_all add: ex_serv_def)
  show ?thesis
    by (rule runs_weaken [OF serve_read_overruns [OF ok tab m(1) look, of "blockaddr 3" 4097, unfolded v t]])
      (use ex_request in auto)
qed

end
