(* ===== verification/Fork.thy ===== *)
theory Fork
  imports Syscall Trap
begin

text \<open>
  User-level fork with copy-on-write (\<open>lib/fork.c\<close>, \<open>lib/pgfault.c\<close>) over the kernel's system
  calls (\<open>lib/syscall.c\<close>).  A user routine returns a value or panics with a message; it is
  \<open>None\<close> when it takes a page fault or a system call does not come straight back.
\<close>

type_synonym 'a user = "((string + 'a) \<times> kern) option"

abbreviation (input) uret :: "'a \<Rightarrow> kern \<Rightarrow> 'a user" where
  "uret x s \<equiv> Some (Inr x, s)"

abbreviation (input) upanic :: "string \<Rightarrow> kern \<Rightarrow> 'a user" where
  "upanic msg s \<equiv> Some (Inl msg, s)"

definition ubind :: "'a user \<Rightarrow> ('a \<Rightarrow> kern \<Rightarrow> 'b user) \<Rightarrow> 'b user" where
  "ubind m f = do { (r, s) \<leftarrow> m; case r of Inl msg \<Rightarrow> upanic msg s | Inr x \<Rightarrow> f x s }"

lemma ubind_mono [partial_function_mono]:
  assumes "mono_option m" "\<And>x s. mono_option (\<lambda>f. g f x s)"
  shows "mono_option (\<lambda>f. ubind (m f) (g f))"
proof -
  have "mono_option (\<lambda>f. case y of (r, s) \<Rightarrow> (case r of Inl msg \<Rightarrow> upanic msg s | Inr x \<Rightarrow> g f x s))" for y
    using assms(2) by (cases y; cases "fst y") (auto intro: option.const_mono)
  then show ?thesis unfolding ubind_def by (intro partial_function_mono assms(1))
qed

section \<open>User accesses to memory\<close>

text \<open>In user mode both levels of the translation must allow user accesses.\<close>

definition mmu_user :: "kern \<Rightarrow> nat \<Rightarrow> u32 \<Rightarrow> bool" where
  "mmu_user s d va \<longleftrightarrow>
     (let pde = load32 s (d * 4096 + 4 * unat (PDX va)) in
      pde AND PTE_U \<noteq> 0 \<and> load32 s (unat (PTE_ADDR pde) + 4 * unat (PTX va)) AND PTE_U \<noteq> 0)"

definition user_ok :: "u32 \<Rightarrow> nat \<Rightarrow> kern \<Rightarrow> bool" where
  "user_ok va n s = list_all (\<lambda>i. mmu_user s (cr3 s) (va + of_nat i)) [0..<n]"

definition user_load :: "u32 \<Rightarrow> nat \<Rightarrow> kern \<Rightarrow> u8 list option" where
  "user_load va n s = (if user_ok va n s then load_bytes va n s else None)"

definition user_store :: "u32 \<Rightarrow> u8 list \<Rightarrow> kern \<Rightarrow> kern option" where
  "user_store va bs s = (if user_ok va (length bs) s then store_bytes va bs s else None)"

text \<open>
  The page tables as \<open>lib/entry.S\<close> makes them visible: \<open>uvpt\<close> is the array at UVPT, \<open>uvpd\<close>
  the one at UVPT + (UVPT >> 12) * 4.
\<close>

definition uvpt :: "u32 \<Rightarrow> kern \<Rightarrow> u32 option" where
  "uvpt pn s = map_option (\<lambda>bs. bytes32 bs 0) (user_load (UVPT + 4 * pn) 4 s)"

definition uvpd :: "u32 \<Rightarrow> kern \<Rightarrow> u32 option" where
  "uvpd i s = map_option (\<lambda>bs. bytes32 bs 0)
     (user_load (UVPT + drop_bit 12 UVPT * 4 + 4 * i) 4 s)"

section \<open>System call stubs\<close>

definition syscall_stub :: "bool \<Rightarrow> sysres \<Rightarrow> (error + u32) user" where
  "syscall_stub check r =
     (case r of
        Some (Returned (Inr v, s)) \<Rightarrow>
          if check \<and> 0 <s v then upanic ''syscall %d returned %d (> 0)'' s else uret (Inr v) s
      | Some (Returned (Inl e, s)) \<Rightarrow> uret (Inl e) s
      | _ \<Rightarrow> None)"

text \<open>\<open>if ((r = call) < 0) panic(msg)\<close>\<close>

definition must :: "string \<Rightarrow> (error + u32) user \<Rightarrow> unit user" where
  "must msg m = ubind m (\<lambda>r s. case r of Inl e \<Rightarrow> upanic msg s | Inr v \<Rightarrow> uret () s)"

abbreviation (input) u_page_alloc :: "u32 \<Rightarrow> u32 \<Rightarrow> u32 \<Rightarrow> kern \<Rightarrow> (error + u32) user" where
  "u_page_alloc envid va perm s \<equiv> syscall_stub True (sys_page_alloc envid va perm s)"

abbreviation (input) u_page_map :: "u32 \<Rightarrow> u32 \<Rightarrow> u32 \<Rightarrow> u32 \<Rightarrow> u32 \<Rightarrow> kern \<Rightarrow> (error + u32) user" where
  "u_page_map srcenv srcva dstenv dstva perm s \<equiv>
     syscall_stub True (sys_page_map srcenv srcva dstenv dstva perm s)"

abbreviation (input) u_page_unmap :: "u32 \<Rightarrow> u32 \<Rightarrow> kern \<Rightarrow> (error + u32) user" where
  "u_page_unmap envid va s \<equiv> syscall_stub True (sys_page_unmap envid va s)"

section \<open>The copy-on-write fault handler\<close>

abbreviation (input) PTE_COW :: u32 where "PTE_COW \<equiv> 0x800"
abbreviation (input) PTE_SHARE :: u32 where "PTE_SHARE \<equiv> 0x400"
abbreviation (input) FEC_WR :: u32 where "FEC_WR \<equiv> 0x2"

text \<open>
  The source and the destination of the \<open>memmove\<close> are different pages: the whole block is
  read, then written.
\<close>

definition pgfault :: "utrapframe \<Rightarrow> kern \<Rightarrow> unit user" where
  "pgfault utf s =
     (if utf_err utf AND FEC_WR = 0 then upanic ''pgfault():not cow'' s
      else do {
        pte \<leftarrow> uvpt (PGNUM (utf_fault_va utf)) s;
        if pte AND PTE_COW = 0 then upanic ''pgfault():not cow'' s
        else let addr = ROUNDDOWN (utf_fault_va utf) PGSIZE in
          ubind (must ''sys_page_alloc: %e'' (u_page_alloc 0 PFTEMP (PTE_P OR PTE_U OR PTE_W) s)) (\<lambda>_ s. do {
            bs \<leftarrow> user_load addr 4096 s;
            s \<leftarrow> user_store PFTEMP bs s;
            ubind (must ''sys_page_map: %e'' (u_page_map 0 PFTEMP 0 addr (PTE_U OR PTE_P OR PTE_W) s)) (\<lambda>_ s.
            must ''sys_page_unmap: %e'' (u_page_unmap 0 PFTEMP s)) }) })"

section \<open>duppage\<close>

text \<open>The results of the first and the last call are ignored, as in the code.\<close>

definition duppage :: "u32 \<Rightarrow> u32 \<Rightarrow> kern \<Rightarrow> unit user" where
  "duppage envid pn s = (let addr = pn * PGSIZE in do {
     pte \<leftarrow> uvpt pn s;
     if pte AND PTE_SHARE \<noteq> 0
     then ubind (u_page_map 0 addr envid addr PTE_SYSCALL s) (\<lambda>_ s. uret () s)
     else if pte AND PTE_W \<noteq> 0 \<or> pte AND PTE_COW \<noteq> 0
     then ubind (must ''sys_page_map: %e'' (u_page_map 0 addr envid addr (PTE_COW OR PTE_U OR PTE_P) s)) (\<lambda>_ s.
          must ''sys_page_map: %e'' (u_page_map 0 addr 0 addr (PTE_COW OR PTE_U OR PTE_P) s))
     else ubind (u_page_map 0 addr envid addr (PTE_U OR PTE_P) s) (\<lambda>_ s. uret () s) })"

section \<open>fork\<close>

definition set_pgfault_handler :: "u32 \<Rightarrow> u32 \<Rightarrow> u32 \<Rightarrow> kern \<Rightarrow> u32 user" where
  "set_pgfault_handler upcall old handler s =
     (if old = 0
      then ubind (must ''set_pgfault_handler:sys_page_alloc failed''
                    (u_page_alloc 0 (UXSTACKTOP - PGSIZE) (PTE_W OR PTE_U OR PTE_P) s)) (\<lambda>_ s.
           ubind (syscall_stub True (sys_env_set_pgfault_upcall 0 upcall s)) (\<lambda>_ s.
           uret handler s))
      else uret handler s)"

text \<open>The pages of the parent from \<open>addr\<close> up, to USTACKTOP.\<close>

definition dup_this :: "u32 \<Rightarrow> kern \<Rightarrow> bool option" where
  "dup_this addr s = do {
     pde \<leftarrow> uvpd (PDX addr) s;
     if pde AND PTE_P = 0 then Some False
     else do {
       pte \<leftarrow> uvpt (PGNUM addr) s;
       Some (pte AND PTE_P \<noteq> 0 \<and> pte AND PTE_U \<noteq> 0) } }"

partial_function (option) fork_loop :: "u32 \<Rightarrow> u32 \<Rightarrow> kern \<Rightarrow> unit user" where
  "fork_loop envid addr s =
     (if addr < USTACKTOP
      then do {
        b \<leftarrow> dup_this addr s;
        if b then ubind (duppage envid (PGNUM addr) s) (\<lambda>_ s. fork_loop envid (addr + PGSIZE) s)
        else fork_loop envid (addr + PGSIZE) s }
      else uret () s)"

text \<open>
  The parent's path through \<open>fork\<close>.  \<open>upcall\<close> is the address of \<open>_pgfault_upcall\<close> and
  \<open>handler\<close> that of \<open>pgfault\<close>; the child resumes from \<open>sys_exofork\<close> with 0, sets \<open>thisenv\<close> and
  returns 0.
\<close>

definition fork :: "u32 \<Rightarrow> u32 \<Rightarrow> u32 \<Rightarrow> kern \<Rightarrow> u32 user" where
  "fork upcall old handler s =
     ubind (set_pgfault_handler upcall old handler s) (\<lambda>_ s.
     ubind (syscall_stub False (sys_exofork s)) (\<lambda>r s.
     case r of
       Inl e \<Rightarrow> upanic ''sys_exofork: %e'' s
     | Inr envid \<Rightarrow>
         if envid = 0 then uret 0 s
         else
           ubind (fork_loop envid 0 s) (\<lambda>_ s.
           ubind (must ''sys_page_alloc: %e''
                    (u_page_alloc envid (UXSTACKTOP - PGSIZE) (PTE_P OR PTE_W OR PTE_U) s)) (\<lambda>_ s.
           ubind (syscall_stub True (sys_env_set_pgfault_upcall envid upcall s)) (\<lambda>_ s.
           ubind (must ''sys_env_set_status: %e'' (syscall_stub True (sys_env_set_status envid 2 s))) (\<lambda>_ s.
           uret envid s))))))"

end
