(* ===== verification/ForkProps.thy ===== *)
theory ForkProps
  imports Fork EnvMem
begin

text \<open>
  Copy-on-write: what the page fault handler of \<open>lib/fork.c\<close> does to the faulting page, and
  what \<open>duppage\<close> and \<open>fork\<close> leave in the two address spaces.
\<close>

section \<open>Reading memory in user mode\<close>

lemma mmu_user_slot:
  "mmu_user s d va \<longleftrightarrow> slot s d (unat (PDX va)) AND PTE_U \<noteq> 0 \<and>
     slot s (frame_of (slot s d (unat (PDX va)))) (unat (PTX va)) AND PTE_U \<noteq> 0"
  unfolding mmu_user_def Let_def frame_PTE_ADDR slot_def by simp

lemma mmu_writable_slot:
  "mmu_writable s d va \<longleftrightarrow> slot s d (unat (PDX va)) AND PTE_W \<noteq> 0 \<and>
     slot s (frame_of (slot s d (unat (PDX va)))) (unat (PTX va)) AND PTE_W \<noteq> 0"
  unfolding mmu_writable_def Let_def frame_PTE_ADDR slot_def by simp

lemma vmap_slots:
  assumes "vmap s d (vpn va) = Some e" "va < UTOP"
  obtains f where "table_at s d (unat (PDX va)) = Some f" "present (slot s d (unat (PDX va)))"
    "frame_of (slot s d (unat (PDX va))) = f" "slot s f (unat (PTX va)) = e" "present e"
  using assms pdx_user [OF assms(2)]
  by (auto simp: vmap_table_at vpn_split table_at_def split: if_splits option.splits)

lemma user_access:
  assumes "vmap s d (vpn va) = Some e" "va < UTOP" "user_dirs s D" "d \<in> D"
  shows "e AND PTE_U \<noteq> 0 \<Longrightarrow> mmu_user s d va" "e AND PTE_W \<noteq> 0 \<Longrightarrow> user_page s d va"
proof -
  from vmap_slots [OF assms(1,2)] obtain f where f: "present (slot s d (unat (PDX va)))"
    "frame_of (slot s d (unat (PDX va))) = f" "slot s f (unat (PTX va)) = e" by metis
  have u: "slot s d (unat (PDX va)) AND PTE_U \<noteq> 0" "slot s d (unat (PDX va)) AND PTE_W \<noteq> 0"
    using assms(3,4) f(1) pdx_user [OF assms(2)] by (auto simp: user_dirs_def)
  show "mmu_user s d va" if "e AND PTE_U \<noteq> 0" using u(1) f that by (simp add: mmu_user_slot)
  show "user_page s d va" if "e AND PTE_W \<noteq> 0"
    using u(2) f that assms(1,2) by (simp add: user_page_def maps_def mmu_writable_slot)
qed

text \<open>The bytes of one page.\<close>

definition page_bytes :: "kern \<Rightarrow> nat \<Rightarrow> u8 list" where
  "page_bytes s p = map (\<lambda>i. pmem s (p * 4096 + i)) [0..<4096]"

lemma page_addr:
  assumes "unat va mod 4096 = 0" "i < 4096"
  shows "unat (va + of_nat i) = unat va + i" "vpn (va + of_nat i) = vpn va"
    "unat (va + of_nat i) mod 4096 = i" "va < UTOP \<Longrightarrow> va + of_nat i < UTOP"
proof -
  obtain k where k: "unat va = 4096 * k" using assms(1) by (auto simp: mod_eq_0_iff_dvd)
  have "unat va < 4294967296" using unat_less_32 [of va] by simp
  then have "k < 1048576" using k by simp
  then have n: "unat va + i < 4294967296" using k assms(2) by linarith
  then show *: "unat (va + of_nat i) = unat va + i"
    using assms(2) by (simp add: unat_word_ariths unat_of_nat32)
  show "vpn (va + of_nat i) = vpn va" "unat (va + of_nat i) mod 4096 = i"
    using assms(2) unfolding vpn_def * k by simp_all
  assume "va < UTOP"
  then have "4096 * k < 4005560320" using k by (simp add: word_less_nat_alt)
  then have "k < 977920" by simp
  then have "4096 * k + i < 4005560320" using assms(2) by linarith
  then show "va + of_nat i < UTOP" using * k by (simp add: word_less_nat_alt)
qed

lemma user_load_page:
  assumes "vmap s (cr3 s) (vpn va) = Some e" "e AND PTE_U \<noteq> 0" "unat va mod 4096 = 0"
    "va < UTOP" "user_dirs s D" "cr3 s \<in> D"
  shows "user_load va 4096 s = Some (page_bytes s (frame_of e))"
proof -
  have v: "vmap s (cr3 s) (vpn (va + of_nat i)) = Some e" "va + of_nat i < UTOP" if "i < 4096" for i
  proof -
    show "vmap s (cr3 s) (vpn (va + of_nat i)) = Some e" "va + of_nat i < UTOP"
      using page_addr(2,4) [OF assms(3) that] assms(1,4) by simp_all
  qed
  have "user_ok va 4096 s"
    using user_access(1) [OF v assms(5,6,2)] by (auto simp: user_ok_def list_all_iff)
  moreover have "load_bytes va 4096 s = Some (page_bytes s (frame_of e))"
    unfolding page_bytes_def using v page_addr(3) [OF assms(3)]
    by (intro load_bytes_map) (simp add: load8_def translate_vmap)
  ultimately show ?thesis by (simp add: user_load_def)
qed

lemma load32_bytes:
  assumes "\<And>i. i < 4 \<Longrightarrow> mmu_translate s (cr3 s) (va + of_nat i) = Some (pa + i)"
  shows "map_option (\<lambda>bs. bytes32 bs 0) (load_bytes va 4 s) = Some (load32 s pa)"
proof -
  have "load_bytes va 4 s = Some (map (\<lambda>i. pmem s (pa + i)) [0..<4])"
    using assms by (intro load_bytes_map) (simp add: load8_def)
  then show ?thesis by (simp add: bytes32_def rd32_def load32_def upt_rec numeral_3_eq_3)
qed

lemma uvpt_addr:
  assumes "unat pn < 2 ^ 20" "i < 4"
  shows "unat (PDX (UVPT + 4 * pn + of_nat i)) = 957"
    "unat (PTX (UVPT + 4 * pn + of_nat i)) = unat pn div 1024"
    "unat (UVPT + 4 * pn + of_nat i) mod 4096 = 4 * (unat pn mod 1024) + i"
    "vpn (UVPT + 4 * pn + of_nat i) = 957 * 1024 + unat pn div 1024"
proof -
  define q r where "q = unat pn div 1024" and "r = unat pn mod 1024"
  have n: "unat pn = 1024 * q + r" "r < 1024" "q < 1024" using assms(1) by (simp_all add: q_def r_def)
  have "4 * unat pn + i < 4194304" using n assms(2) by linarith
  then have u: "unat (UVPT + 4 * pn + of_nat i) = 957 * 1024 * 4096 + (4096 * q + (4 * r + i))"
    using assms(2) n by (simp add: unat_word_ariths unat_of_nat32)
  have o: "4 * r + i < 4096" using n(2) assms(2) by linarith
  have "957 * 1024 * 4096 + (4096 * q + (4 * r + i)) = 4096 * (957 * 1024 + q) + (4 * r + i)" by simp
  from page_join [OF this o] have
    d: "(957 * 1024 * 4096 + (4096 * q + (4 * r + i))) div 4096 = 957 * 1024 + q"
      "(957 * 1024 * 4096 + (4096 * q + (4 * r + i))) mod 4096 = 4 * r + i" by blast+
  have v: "vpn (UVPT + 4 * pn + of_nat i) = 957 * 1024 + q"
    unfolding vpn_def u by (rule d(1))
  then show "vpn (UVPT + 4 * pn + of_nat i) = 957 * 1024 + unat pn div 1024"
    unfolding q_def .
  show "unat (UVPT + 4 * pn + of_nat i) mod 4096 = 4 * (unat pn mod 1024) + i"
    unfolding u r_def [symmetric] by (rule d(2))
  show "unat (PDX (UVPT + 4 * pn + of_nat i)) = 957" "unat (PTX (UVPT + 4 * pn + of_nat i)) = unat pn div 1024"
    unfolding vpn_split [symmetric] v q_def [symmetric]
    using n(3) div_mult_self3 [of 1024 957 q] mod_mult_self3 [of 957 1024 q] by simp_all
qed

lemma uvpt_eq:
  assumes self: "self_map s (cr3 s)" and f: "table_at s (cr3 s) (unat pn div 1024) = Some f"
    and u: "slot s (cr3 s) (unat pn div 1024) AND PTE_U \<noteq> 0" and pn: "unat pn < 2 ^ 20"
  shows "uvpt pn s = Some (slot s f (unat pn mod 1024))"
proof -
  have e: "present (slot s (cr3 s) (unat pn div 1024))" "frame_of (slot s (cr3 s) (unat pn div 1024)) = f"
    using f by (auto simp: table_at_def split: if_splits)
  have "vmap s (cr3 s) (957 * 1024 + unat pn div 1024) = Some (slot s (cr3 s) (unat pn div 1024))"
  proof -
    have "unat pn div 1024 < 1024" using pn by simp
    then have "(957 * 1024 + unat pn div 1024) div 1024 = 957"
      "(957 * 1024 + unat pn div 1024) mod 1024 = unat pn div 1024"
      using mod_mult_self3 [of 957 1024 "unat pn div 1024"] by simp_all
    then show ?thesis using self e(1) unfolding vmap_def Let_def self_map_def by simp
  qed
  then have tr: "mmu_translate s (cr3 s) (UVPT + 4 * pn + of_nat i) = Some (f * 4096 + 4 * (unat pn mod 1024) + i)"
    if "i < 4" for i
    unfolding translate_vmap uvpt_addr [OF pn that] using e(2) by simp
  have "user_ok (UVPT + 4 * pn) 4 s"
    using self u uvpt_addr(1,2) [OF pn] by (auto simp: user_ok_def list_all_iff mmu_user_slot self_map_def)
  then show ?thesis
    using load32_bytes [of s "UVPT + 4 * pn", OF tr] by (simp add: uvpt_def user_load_def slot_def)
qed

section \<open>The state of a forking environment\<close>

definition fork_env :: "kern \<Rightarrow> nat list \<Rightarrow> nat set \<Rightarrow> (nat \<Rightarrow> nat) \<Rightarrow> nat \<Rightarrow> nat \<Rightarrow> bool" where
  "fork_env s fl D ext c d \<longleftrightarrow> vm_inv s fl D ext \<and> dirs_in D s \<and> user_dirs s D \<and> self_map s d \<and>
     cr3 s = d \<and> curenv s = Some c \<and> env_pgdir (envs s c) = Some d"

lemma fork_envD:
  assumes "fork_env s fl D ext c d"
  shows "vm_inv s fl D ext" "dirs_in D s" "user_dirs s D" "self_map s d" "cr3 s = d"
    "curenv s = Some c" "env_pgdir (envs s c) = Some d" "d \<in> D" "envid2env 0 True s = Some (Inr c)"
  using assms by (auto simp: fork_env_def dirs_in_def envid2env_def)

lemma fork_env_grow:
  assumes F: "fork_env s fl D ext c d" and inv: "vm_inv s' fl' D ext" and g: "dirs_grow s s' D"
    and k: "envs s' = envs s" "cr3 s' = cr3 s" "curenv s' = curenv s"
  shows "fork_env s' fl' D ext c d"
proof -
  note F = fork_envD [OF F]
  have "slot s' d 957 = slot s d 957"
    using dirs_grow_present [OF g F(8), of 957] F(4) by (simp add: self_map_def)
  then have "self_map s' d" using F(4) by (simp add: self_map_def)
  then show ?thesis
    using inv user_dirs_grow [OF F(3) g] F(2,5,6,7) k by (simp add: fork_env_def dirs_in_def)
qed

lemma fork_env_effect:
  assumes "fork_env s fl D ext c d" "effect D ext s fl s' fl'"
  shows "fork_env s' fl' D ext c d"
  using fork_env_grow [OF assms(1) effectD(1,3) [OF assms(2)]] mem_only_sel [OF effectD(2) [OF assms(2)]]
  by blast

lemma store_page_rule:
  assumes F: "fork_env s fl D ext c d" and m: "vmap s d (vpn va) = Some e"
    and bits: "e AND PTE_U \<noteq> 0" "e AND PTE_W \<noteq> 0" and va: "va < UTOP" "unat va mod 4096 = 0"
    and len: "length bs = 4096"
  shows "\<exists>t. user_store va bs s = Some t \<and> t = s\<lparr>pmem := pmem t\<rparr> \<and> fork_env t fl D ext c d \<and>
    (\<forall>d' \<in> D. \<forall>v < UVPN. vmap t d' v = vmap s d' v) \<and> page_bytes t (frame_of e) = bs \<and>
    (\<forall>a. a div 4096 \<noteq> frame_of e \<longrightarrow> pmem t a = pmem s a) \<and>
    (\<forall>i < 955. table_at t d i = table_at s d i)"
proof -
  note f = fork_envD [OF F]
  let ?p = "frame_of e"
  have v: "vmap s d (vpn (va + of_nat i)) = Some e" "va + of_nat i < UTOP" if "i < 4096" for i
    using page_addr(2,4) [OF va(2) that] m va(1) by simp_all
  have u: "user_page s (cr3 s) (va + of_nat i)" if "i < length bs" for i
    using user_access(2) [OF v f(3,8) bits(2)] that len f(5) by simp
  have ph: "phys s (cr3 s) (va + of_nat i) = ?p * 4096 + i" if "i < 4096" for i
    using v(1) [OF that] page_addr(3) [OF va(2) that] f(5) by (simp add: phys_def maps_def)
  have ok: "user_ok va (length bs) s"
    using user_access(1) [OF v f(3,8) bits(1)] len f(5) by (auto simp: user_ok_def list_all_iff)
  from store_bytes_user [OF f(1) _ _ u, of bs] len f(5,8) obtain t where
    t: "store_bytes va bs s = Some t" "t = s\<lparr>pmem := pmem t\<rparr>" "vm_inv t fl D ext"
      "\<forall>d \<in> D. \<forall>v < UVPN. vmap t d v = vmap s d v"
      "\<forall>i < 4096. pmem t (?p * 4096 + i) = bs ! i"
      "\<forall>a. (\<forall>i < 4096. a \<noteq> ?p * 4096 + i) \<longrightarrow> pmem t a = pmem s a"
    using ph by auto
  have out: "pmem t a = pmem s a" if "a div 4096 \<noteq> ?p" for a
  proof -
    have "a \<noteq> ?p * 4096 + i" if "i < 4096" for i using \<open>a div 4096 \<noteq> ?p\<close> that by auto
    then show ?thesis using t(6) by blast
  qed
  have "?p \<notin> structs s D" using vm_invD(5) [OF f(1,8) vpn_user [OF va(1)], of ?p] m by (simp add: maps_def)
  then have ne: "g \<noteq> ?p" if "g \<in> D" for g using dir_structs [OF that] by metis
  have sl: "slot t g i = slot s g i" if "g \<in> D" "i < 1024" for g i
    using out ne [OF that(1)] by (intro slot_agree [OF _ that(2)]) blast
  have "fork_env t fl D ext c d"
  proof (rule fork_env_grow [OF F t(3)])
    show "dirs_grow s t D" by (rule dirs_grow_same) (rule sl)
    show "envs t = envs s" "cr3 t = cr3 s" "curenv t = curenv s"
      by (subst t(2), simp add: curenv_def)+
  qed
  moreover have "page_bytes t ?p = bs"
    using t(5) len by (intro nth_equalityI) (simp_all add: page_bytes_def)
  moreover have "\<forall>i < 955. table_at t d i = table_at s d i" using sl [OF f(8)] by (simp add: table_at_def)
  ultimately show ?thesis using t(1,2,4) ok out unfolding user_store_def by auto
qed

lemma uvpt_user:
  assumes F: "fork_env s fl D ext c d" and m: "vmap s d (vpn va) = Some e" and va: "va < UTOP"
  shows "uvpt (PGNUM va) s = Some e"
proof -
  note f = fork_envD [OF F]
  obtain t where t: "table_at s d (unat (PDX va)) = Some t" "present (slot s d (unat (PDX va)))"
    "slot s t (unat (PTX va)) = e" using vmap_slots [OF m va] by metis
  have p: "unat (PGNUM va) = vpn va" by (simp add: vpn_def unat_PGNUM)
  then have "unat (PGNUM va) div 1024 = unat (PDX va)" "unat (PGNUM va) mod 1024 = unat (PTX va)"
    using vpn_split [of va] by simp_all
  moreover have "unat (PGNUM va) < 2 ^ 20" using p vpn_user [OF va] by simp
  moreover have "slot s d (unat (PDX va)) AND PTE_U \<noteq> 0"
    using f(3,8) t(2) pdx_user [OF va] by (auto simp: user_dirs_def)
  ultimately show ?thesis using uvpt_eq [of s "PGNUM va" t] f(4,5) t by simp
qed

lemma page_of:
  "unat (ROUNDDOWN va PGSIZE) = 4096 * vpn va" "vpn (ROUNDDOWN va PGSIZE) = vpn va"
  "unat (ROUNDDOWN va PGSIZE) mod 4096 = 0" "va < UTOP \<Longrightarrow> \<not> bad_va (ROUNDDOWN va PGSIZE)"
proof -
  show u: "unat (ROUNDDOWN va PGSIZE) = 4096 * vpn va"
    unfolding unat_ROUNDDOWN vpn_def by (simp add: minus_mod_eq_mult_div)
  then show v: "vpn (ROUNDDOWN va PGSIZE) = vpn va" "unat (ROUNDDOWN va PGSIZE) mod 4096 = 0"
    by (simp_all add: vpn_def)
  assume va: "va < UTOP"
  have "unat (ROUNDDOWN va PGSIZE) \<le> unat va" unfolding u vpn_def by simp
  then have "ROUNDDOWN va PGSIZE < UTOP" using va by (simp add: word_less_nat_alt)
  moreover have "ROUNDDOWN (ROUNDDOWN va PGSIZE) PGSIZE = ROUNDDOWN va PGSIZE"
    by (simp add: word_unat_eq_iff unat_ROUNDDOWN)
  ultimately show "\<not> bad_va (ROUNDDOWN va PGSIZE)" by (simp add: bad_va_def not_le)
qed

lemma entry_bits:
  "((page2pa p OR perm) OR PTE_P) AND PTE_W = perm AND PTE_W"
  "((page2pa p OR perm) OR PTE_P) AND PTE_U = perm AND PTE_U"
  using page2pa_low [of "PTE_W" p] page2pa_low [of "PTE_U" p] by (simp_all add: bit.conj_disj_distrib2)

section \<open>The page fault handler\<close>

lemma stub_ok:
  "syscall_stub check (Some (Returned (Inr 0, s))) = uret (Inr 0) s"
  "must msg (uret (Inr 0) s) = uret () s" "ubind (uret x s) f = f x s"
  by (simp_all add: syscall_stub_def must_def ubind_def)

lemma pftemp: "\<not> bad_va PFTEMP" "PFTEMP < UTOP" "unat PFTEMP mod 4096 = 0" "vpn PFTEMP < UVPN"
  by (simp_all add: bad_va_def ROUNDDOWN_def vpn_def)

text \<open>A fresh page has one reference, its mapping at PFTEMP.\<close>

lemma fresh_ref:
  assumes inv: "vm_inv s (p # fl) D ext" and inv': "vm_inv t fl' D ext" and d: "d \<in> D" and v: "v < UVPN"
    and m: "\<forall>d' \<in> D. \<forall>w < UVPN. maps t d' w = (if d' = d \<and> w = v then Some p else maps s d' w)"
  shows "pp_ref (pages t p) = 1"
proof -
  have free: "maps s d' w \<noteq> Some p" if "d' \<in> D" "w < UVPN" for d' w
    using free_not_mapped [OF inv _ that] by simp
  have "d' = d \<and> w = v" if "d' \<in> D" "w < UVPN" "maps t d' w = Some p" for d' w
  proof (rule ccontr)
    assume "\<not> (d' = d \<and> w = v)"
    from m that(1,2) have "maps t d' w = (if d' = d \<and> w = v then Some p else maps s d' w)" by blast
    also have "\<dots> = maps s d' w" by (rule if_not_P) fact
    finally have "maps t d' w = maps s d' w" .
    then show False using free [OF that(1,2)] that(3) by simp
  qed
  moreover have mp: "maps t d v = Some p"
  proof -
    from m d v have "maps t d v = (if d = d \<and> v = v then Some p else maps s d v)" by blast
    then show ?thesis by (simp only: simp_thms if_True)
  qed
  ultimately have "data_refs (maps t) D p = {(d, v)}" using d v unfolding data_refs_def by blast
  moreover have "card (data_refs (maps s) D p) = 0"
    using free by (auto simp: data_refs_def card_eq_0_iff)
  moreover have "p < npages s" "p \<notin> structs s D" "pp_ref (pages s p) = 0"
    using structs_free(1) [OF inv, of p] pages_wf_free [OF vm_invD(1) [OF inv], of p] by auto
  moreover have "p < npages t" "p \<notin> structs t D" using vm_invD(5) [OF inv' d v mp] by auto
  ultimately have "unat (pp_ref (pages t p)) = 1"
    using vm_invD(6) [OF inv, of p] vm_invD(6) [OF inv', of p] by simp
  then show ?thesis by (metis unat_1 word_unat_eq_iff)
qed

lemma page_bytes_cong: "(\<And>a. a div 4096 = p \<Longrightarrow> pmem t a = pmem s a) \<Longrightarrow> page_bytes t p = page_bytes s p"
  by (simp add: page_bytes_def)

lemma cow_copy:
  assumes F: "fork_env s (p # q # fl) D ext c d" and va: "va < UTOP" "vpn va \<noteq> vpn PFTEMP"
    and m: "vmap s d (vpn va) = Some e" and u: "e AND PTE_U \<noteq> 0"
  shows "\<exists>s1 t flt bs. sys_page_alloc 0 PFTEMP 7 s = Some (Returned (Inr 0, s1)) \<and>
    user_load (ROUNDDOWN va PGSIZE) 4096 s1 = Some bs \<and> user_store PFTEMP bs s1 = Some t \<and>
    fork_env t flt D ext c d \<and> pp_ref (pages t p) = 1 \<and>
    table_at t d (unat (PDX (ROUNDDOWN va PGSIZE))) \<noteq> None \<and>
    (\<forall>d' \<in> D. \<forall>v < UVPN. vmap t d' v =
       (if d' = d \<and> v = vpn PFTEMP then Some ((page2pa p OR 7) OR PTE_P) else vmap s d' v)) \<and>
    page_bytes t p = page_bytes s (frame_of e) \<and>
    (\<forall>d' \<in> D. \<forall>v < UVPN. \<forall>r. maps s d' v = Some r \<longrightarrow> page_bytes t r = page_bytes s r)"
proof -
  note f = fork_envD [OF F]
  let ?e = "(page2pa p OR 7) OR PTE_P" and ?a = "ROUNDDOWN va PGSIZE"
  have p20: "p < 2 ^ 20" using vm_invD(1) [OF f(1)] by (auto simp: pages_wf_def)
  have fe: "frame_of ?e = p" using frame_of_entry(1) [OF p20, of 7] by simp
  have "unat (7 :: u32) < 4096" "\<not> bad_perm 7" by (simp_all add: bad_perm_def)
  from page_alloc_rule [OF f(1,2,9,7) pftemp(1) this] obtain s1 fl1 where
    a: "sys_page_alloc 0 PFTEMP 7 s = Some (Returned (Inr 0, s1))" "effect D ext s (p # q # fl) s1 fl1"
      "\<forall>d' \<in> D. \<forall>v < UVPN. vmap s1 d' v = (if d' = d \<and> v = vpn PFTEMP then Some ?e else vmap s d' v)"
    by auto
  note F1 = fork_env_effect [OF F a(2)]
  note f1 = fork_envD [OF F1]
  have m1: "vmap s1 d (vpn va) = Some e" using a(3) f(8) vpn_user [OF va(1)] va(2) m by simp
  then have ld: "user_load ?a 4096 s1 = Some (page_bytes s1 (frame_of e))"
    using user_load_page [of s1 ?a e D] u page_of(2,3) page_of(4) [OF va(1)] f1(3,5,8)
    by (simp add: bad_va_def not_le)
  have mt: "vmap s1 d (vpn PFTEMP) = Some ?e" using a(3) f(8) pftemp(4) by simp
  have old: "page_bytes s1 (frame_of e) = page_bytes s (frame_of e)"
    using mapped_data_stays [OF f(1) a(2) f(8) vpn_user [OF va(1)]] m
    by (intro page_bytes_cong) (simp add: maps_def)
  obtain t where t: "user_store PFTEMP (page_bytes s1 (frame_of e)) s1 = Some t"
    "t = s1\<lparr>pmem := pmem t\<rparr>" "fork_env t fl1 D ext c d"
    "\<forall>d' \<in> D. \<forall>v < UVPN. vmap t d' v = vmap s1 d' v" "page_bytes t p = page_bytes s1 (frame_of e)"
    "\<forall>a. a div 4096 \<noteq> p \<longrightarrow> pmem t a = pmem s1 a" "\<forall>i < 955. table_at t d i = table_at s1 d i"
    using store_page_rule [OF F1 mt _ _ pftemp(2,3), of "page_bytes s1 (frame_of e)"] entry_bits [of p 7] fe
    by (auto simp: page_bytes_def)
  have vm: "\<forall>d' \<in> D. \<forall>v < UVPN. vmap t d' v = (if d' = d \<and> v = vpn PFTEMP then Some ?e else vmap s d' v)"
    using t(4) a(3) by simp
  have ref: "pp_ref (pages t p) = 1"
    using fresh_ref [OF f(1) fork_envD(1) [OF t(3)] f(8) pftemp(4)] vm fe by (simp add: maps_def)
  have tab: "table_at t d (unat (PDX ?a)) \<noteq> None"
  proof -
    have "vmap t d (vpn ?a) = Some e" using vm f(8) vpn_user [OF va(1)] va(2) m page_of(2) by simp
    from vmap_slots [OF this] page_of(4) [OF va(1)] show ?thesis by (auto simp: bad_va_def not_le)
  qed
  have rest: "page_bytes t r = page_bytes s r" if "d' \<in> D" "v < UVPN" "maps s d' v = Some r" for d' v r
  proof (rule page_bytes_cong)
    fix a assume "a div 4096 = r"
    moreover have "r \<noteq> p" using free_not_mapped [OF f(1) _ that(1,2), of p] that(3) by auto
    ultimately show "pmem t a = pmem s a"
      using t(6) mapped_data_stays [OF f(1) a(2) that] by simp
  qed
  have "page_bytes t p = page_bytes s (frame_of e)" using t(5) old by simp
  then show ?thesis using a(1) ld t(1,3) ref tab vm rest
    by (intro exI [of _ s1] exI [of _ t] exI [of _ fl1] exI [of _ "page_bytes s1 (frame_of e)"] conjI) auto
qed

text \<open>
  C34: copy-on-write.  A write fault on a present copy-on-write page, in an environment with
  two free pages left, returns; the faulting page then maps a fresh frame, writable, with the
  old contents, every other mapping of every address space is as before, and no page that
  anybody maps has changed.
\<close>

theorem cow_fault_private:
  assumes F: "fork_env s fl D ext c d" and len: "2 \<le> length fl"
    and utf: "utf_fault_va utf = va" "utf_err utf AND FEC_WR \<noteq> 0"
    and va: "va < UTOP" "vpn va \<noteq> vpn PFTEMP"
    and m: "vmap s d (vpn va) = Some e" "e AND PTE_U \<noteq> 0" "e AND PTE_COW \<noteq> 0"
    and tmp: "vmap s d (vpn PFTEMP) = None"
  shows "\<exists>s' fl' p. pgfault utf s = Some (Inr (), s') \<and> fork_env s' fl' D ext c d \<and>
    p \<in> set fl \<and> vmap s' d (vpn va) = Some ((page2pa p OR 7) OR PTE_P) \<and>
    page_bytes s' p = page_bytes s (frame_of e) \<and>
    (\<forall>d' \<in> D. \<forall>v < UVPN. (d', v) \<noteq> (d, vpn va) \<longrightarrow> vmap s' d' v = vmap s d' v) \<and>
    (\<forall>d' \<in> D. \<forall>v < UVPN. \<forall>r. maps s d' v = Some r \<longrightarrow> page_bytes s' r = page_bytes s r)"
proof -
  let ?a = "ROUNDDOWN va PGSIZE" and ?e = "\<lambda>p. (page2pa p OR 7) OR PTE_P"
  from len obtain p q fl0 where fl: "fl = p # q # fl0"
    by (metis Suc_le_length_iff numeral_2_eq_2)
  note f = fork_envD [OF F]
  have p20: "p < 2 ^ 20" using vm_invD(1) [OF f(1)] fl by (auto simp: pages_wf_def)
  have fe: "frame_of (?e p) = p" using frame_of_entry(1) [OF p20, of 7] by simp
  from cow_copy [OF F [unfolded fl] va m(1,2)] obtain s1 t flt bs where
    c: "sys_page_alloc 0 PFTEMP 7 s = Some (Returned (Inr 0, s1))"
      "user_load ?a 4096 s1 = Some bs" "user_store PFTEMP bs s1 = Some t"
      "fork_env t flt D ext c d" "pp_ref (pages t p) = 1" "table_at t d (unat (PDX ?a)) \<noteq> None"
    and V: "\<forall>d' \<in> D. \<forall>v < UVPN. vmap t d' v = (if d' = d \<and> v = vpn PFTEMP then Some (?e p) else vmap s d' v)"
    and B: "page_bytes t p = page_bytes s (frame_of e)"
      "\<forall>d' \<in> D. \<forall>v < UVPN. \<forall>r. maps s d' v = Some r \<longrightarrow> page_bytes t r = page_bytes s r"
    by blast
  note ft = fork_envD [OF c(4)]
  have mt: "vmap t d (vpn PFTEMP) = Some (?e p)" using V f(8) pftemp(4) by simp
  have k: "unat (7 :: u32) < 4096" "\<not> bad_perm 7" by (simp_all add: bad_perm_def)
  have w: "7 AND PTE_W \<noteq> 0 \<longrightarrow> ?e p AND PTE_W \<noteq> 0" using entry_bits(1) [of p 7] by simp
  have r: "unat (pp_ref (pages t (frame_of (?e p)))) + 1 < 65536" using c(5) fe by simp
  obtain u flu where u: "sys_page_map 0 PFTEMP 0 ?a 7 t = Some (Returned (Inr 0, u))"
    "effect D ext t flt u flu" "\<forall>d' \<in> D. \<forall>v < UVPN. vmap u d' v =
      (if d' = d \<and> v = vpn ?a then Some (?e p) else vmap t d' v)"
    using page_map_rule [OF ft(1,2,9,9,7,7) pftemp(1) page_of(4) [OF va(1)] k mt w r disjI1 [OF c(6)]] fe
    by auto
  note Fu = fork_env_effect [OF c(4) u(2)]
  note fu = fork_envD [OF Fu]
  obtain s' fl' where s': "sys_page_unmap 0 PFTEMP u = Some (Returned (Inr 0, s'))"
    "effect D ext u flu s' fl'" "\<forall>a. a div 4096 \<notin> structs u D \<longrightarrow> pmem s' a = pmem u a"
    "\<forall>d' \<in> D. \<forall>v < UVPN. vmap s' d' v =
      (if d' = d \<and> v = vpn PFTEMP then None else vmap u d' v)"
    using page_unmap_rule [OF fu(1,2,9,7) pftemp(1)] by blast
  have run: "pgfault utf s = Some (Inr (), s')"
    using utf uvpt_user [OF F m(1) va(1)] m(3) c(1,2,3) u(1) s'(1)
    by (simp add: pgfault_def stub_ok)
  have vm: "vmap s' d' v = (if d' = d \<and> v = vpn va then Some (?e p) else vmap s d' v)"
    if "d' \<in> D" "v < UVPN" for d' v
  proof -
    have "vmap s' d' v = (if d' = d \<and> v = vpn PFTEMP then None else vmap u d' v)"
      "vmap u d' v = (if d' = d \<and> v = vpn ?a then Some (?e p) else vmap t d' v)"
      "vmap t d' v = (if d' = d \<and> v = vpn PFTEMP then Some (?e p) else vmap s d' v)"
      using s'(4) u(3) V that by blast+
    then show ?thesis using tmp va(2) unfolding page_of(2) by presburger
  qed
  have keep: "page_bytes s' r = page_bytes t r" if "d' \<in> D" "v < UVPN" "maps t d' v = Some r" for d' v r
  proof (rule page_bytes_cong)
    fix a assume a: "a div 4096 = r"
    note ok = mapped_page_ok [OF ft(1) that]
    then have "r \<notin> structs u D" using effectD(5) [OF u(2)] by blast
    then show "pmem s' a = pmem t a"
      using s'(3) a mapped_data_stays [OF ft(1) u(2) that a] by simp
  qed
  have tp: "maps t d (vpn PFTEMP) = Some p" using mt fe by (simp add: maps_def)
  have "page_bytes s' p = page_bytes s (frame_of e)" using keep [OF f(8) pftemp(4) tp] B(1) by simp
  moreover have "page_bytes s' r = page_bytes s r" if "d' \<in> D" "v < UVPN" "maps s d' v = Some r" for d' v r
  proof -
    have "(d', v) \<noteq> (d, vpn PFTEMP)" using that(3) tmp by (auto simp: maps_def)
    then have "maps t d' v = Some r" using V that by (auto simp: maps_def)
    then show ?thesis using keep [OF that(1,2)] B(2) that by simp
  qed
  moreover have "vmap s' d (vpn va) = Some (?e p)" using vm [OF f(8) vpn_user [OF va(1)]] by simp
  ultimately show ?thesis using run fork_env_effect [OF Fu s'(2)] fl vm
    by (intro exI [of _ s'] exI [of _ fl'] exI [of _ p] conjI) auto
qed

section \<open>An example\<close>

text \<open>
  The machine of \<open>ex_mapped\<close> with its page tables visible at UVPT, the page mapped
  copy-on-write, and two free pages, 4 and 5.
\<close>

definition ex_cow :: kern where
  "ex_cow = store32 (2 * 4096 + 4 * 1023) 0x3805 (store32 (1 * 4096 + 4 * 957) 0x1005
     (ex_mapped\<lparr>npages := 6, page_free_list := Some 4,
        pages := (\<lambda>p. \<lparr>pp_link = (if p = 4 then Some 5 else None),
                       pp_ref = (if p = 4 \<or> p = 5 then 0 else 1)\<rparr>)\<rparr>))"

lemma ex_cow_sel [simp]:
  "npages ex_cow = 6" "cr3 ex_cow = 1" "page_free_list ex_cow = Some 4" "curenv ex_cow = Some 0"
  "pages ex_cow p = \<lparr>pp_link = (if p = 4 then Some 5 else None), pp_ref = (if p = 4 \<or> p = 5 then 0 else 1)\<rparr>"
  "envs ex_cow = envs ex_mapped"
  using ex_mapped_sel(2,5) by (simp_all add: ex_cow_def store32_def curenv_def)

declare One_nat_def [simp del]

lemma ex_cow_slot:
  assumes "i < 1024"
  shows "slot ex_cow f i = (if f = 2 \<and> i = 1023 then 0x3805 else if f = 1 \<and> i = 957 then 0x1005
     else if f = 1 \<and> i = 954 then 0x2007 else 0)"
proof -
  have "slot (ex_mapped\<lparr>npages := 6, page_free_list := Some 4, pages := pg\<rparr>) f i = slot ex_mapped f i" for pg
    by (rule slot_mem_cong) simp
  then show ?thesis unfolding ex_cow_def
    using slot_store [OF _ assms, of 1023 2] slot_store [OF _ assms, of 957 1] ex_mapped_slot [OF assms] by auto
qed

lemma ex_cow_table: "i < 955 \<Longrightarrow> table_at ex_cow 1 i = (if i = 954 then Some 2 else None)"
  by (simp add: table_at_def ex_cow_slot present_def frame_of_def)

lemma ex_cow_vmap:
  assumes "v < UVPN"
  shows "vmap ex_cow 1 v = (if v = 954 * 1024 + 1023 then Some 0x3805 else None)"
  by (rule single_page [where t = 2 and ti = 954 and tj = 1023]) (use assms in \<open>simp_all add: ex_cow_table ex_cow_slot present_def\<close>)

lemma fork_env_ex_cow: "fork_env ex_cow [4, 5] {1} (\<lambda>p. if p = 0 then 1 else 0) 0 1"
proof -
  have "vm_inv ex_cow [4, 5] {1} (\<lambda>p. if p = 0 then 1 else 0)"
    by (rule single_page_inv [where t = 2 and ti = 954 and tj = 1023 and e = "0x3805" and p = 3])
      (auto simp: ex_cow_table ex_cow_slot present_def frame_of_def pages_wf_def page_link_def)
  moreover have "dirs_in {1} ex_cow" using ex_mapped_refs(2) by (simp add: dirs_in_def)
  moreover have "user_dirs ex_cow {1}" by (simp add: user_dirs_def ex_cow_slot present_def)
  moreover have "self_map ex_cow 1" by (simp add: self_map_def ex_cow_slot present_def frame_of_def)
  ultimately show ?thesis by (simp add: fork_env_def)
qed

theorem cow_fault_private_witness:
  "\<exists>utf s' p. pgfault utf ex_cow = Some (Inr (), s') \<and> (p = 4 \<or> p = 5) \<and>
     maps ex_cow 1 (vpn 0xEEBFF123) = Some 3 \<and> vmap s' 1 (vpn 0xEEBFF123) = Some ((page2pa p OR 7) OR PTE_P) \<and>
     page_bytes s' p = page_bytes ex_cow 3"
proof -
  let ?utf = "\<lparr>utf_fault_va = 0xEEBFF123, utf_err = 7, utf_regs = tf_regs tf0, utf_eip = 0,
    utf_eflags = 0, utf_esp = 0\<rparr>"
  have v: "vpn 0xEEBFF123 = 954 * 1024 + 1023" "vpn PFTEMP = 2047"
    by (simp_all add: vpn_def One_nat_def)
  then have m: "vmap ex_cow 1 (vpn 0xEEBFF123) = Some 0x3805" "vmap ex_cow 1 (vpn PFTEMP) = None"
    using ex_cow_vmap by simp_all
  show ?thesis
    using cow_fault_private [OF fork_env_ex_cow _ _ _ _ _ m(1) _ _ m(2), of ?utf] m(1) v
    by (auto simp: maps_def frame_of_def)
qed

declare One_nat_def [simp]

end
