(* ===== verification/ForkDup.thy ===== *)
theory ForkDup
  imports ForkProps
begin

text \<open>
  \<open>duppage\<close> and the copying loop of \<open>fork\<close>: what they leave in the two address spaces.
\<close>

section \<open>The entries of one page\<close>

text \<open>
  What the child gets for a page that the parent maps with \<open>e\<close>, and what the parent is left
  with.  A shared page that is not writable is not mapped in the child: \<open>sys_page_map\<close> fails
  with PTE_SYSCALL, which contains PTE_W, and the result is ignored.
\<close>

definition entry :: "u32 \<Rightarrow> u32 \<Rightarrow> u32" where
  "entry e perm = (page2pa (frame_of e) OR perm) OR PTE_P"

definition cow_page :: "u32 \<Rightarrow> bool" where
  "cow_page e \<longleftrightarrow> e AND PTE_SHARE = 0 \<and> (e AND PTE_W \<noteq> 0 \<or> e AND PTE_COW \<noteq> 0)"

definition child_entry :: "u32 \<Rightarrow> u32 option" where
  "child_entry e =
     (if e AND PTE_SHARE \<noteq> 0 then if e AND PTE_W \<noteq> 0 then Some (entry e PTE_SYSCALL) else None
      else if cow_page e then Some (entry e 0x805) else Some (entry e 5))"

definition parent_entry :: "u32 \<Rightarrow> u32" where
  "parent_entry e = (if cow_page e then entry e 0x805 else e)"

lemma entry_frame:
  assumes "frame_of e < 2 ^ 20" "unat perm < 4096"
  shows "frame_of (entry e perm) = frame_of e"
  using frame_of_entry(1) [OF assms] by (simp add: entry_def)

lemma entry_perm:
  "unat (0xE07 :: u32) < 4096" "unat (0x805 :: u32) < 4096" "unat (5 :: u32) < 4096"
  "\<not> bad_perm 0xE07" "\<not> bad_perm 0x805" "\<not> bad_perm 5"
  by (simp_all add: bad_perm_def)

lemma upd_other:
  assumes "\<forall>x \<in> D. \<forall>v < (N :: nat). m' x v = (if x = a \<and> v = b then y else m x v)"
    and "x \<in> D" "v < N" "\<not> (x = a \<and> v = b)"
  shows "m' x v = m x v"
proof -
  have "m' x v = (if x = a \<and> v = b then y else m x v)" using assms(1-3) by blast
  also have "\<dots> = m x v" by (rule if_not_P) fact
  finally show ?thesis .
qed

section \<open>duppage\<close>

lemma stub_error: "syscall_stub check (Some (Returned (Inl e, s))) = uret (Inl e) s"
  by (simp add: syscall_stub_def)

lemma page_va:
  assumes "n < UVPN"
  shows "unat (of_nat n * PGSIZE :: u32) = 4096 * n" "of_nat n * PGSIZE < (UTOP :: u32)"
    "vpn (of_nat n * PGSIZE) = n" "\<not> bad_va (of_nat n * PGSIZE)" "PGNUM (of_nat n * PGSIZE) = of_nat n"
proof -
  show u: "unat (of_nat n * PGSIZE :: u32) = 4096 * n"
    using assms by (simp add: unat_word_ariths unat_of_nat32)
  show v: "vpn (of_nat n * PGSIZE) = n" unfolding vpn_def u by simp
  show t: "of_nat n * PGSIZE < (UTOP :: u32)" using assms u by (simp add: word_less_nat_alt)
  have "ROUNDDOWN (of_nat n * PGSIZE) PGSIZE = of_nat n * PGSIZE"
    by (simp add: word_unat_eq_iff unat_ROUNDDOWN u)
  then show "\<not> bad_va (of_nat n * PGSIZE)" using t by (simp add: bad_va_def not_le)
  show "PGNUM (of_nat n * PGSIZE) = of_nat n"
    using assms by (simp add: word_unat_eq_iff unat_PGNUM u unat_of_nat32)
qed

text \<open>A call that adds at most the mapping \<open>(d, v)\<close> adds at most one reference to any page.\<close>

lemma ref_step:
  assumes inv: "vm_inv s fl D ext" "vm_inv t fl' D ext"
    and m: "\<forall>d' \<in> D. \<forall>w < UVPN. (d', w) \<noteq> (d, v) \<longrightarrow> maps t d' w = maps s d' w"
    and p: "p < npages s" "p \<notin> structs s D" "p < npages t" "p \<notin> structs t D"
  shows "unat (pp_ref (pages t p)) \<le> unat (pp_ref (pages s p)) + 1"
proof -
  have "data_refs (maps t) D p \<subseteq> insert (d, v) (data_refs (maps s) D p)"
    using m unfolding data_refs_def by auto
  then have "card (data_refs (maps t) D p) \<le> card (insert (d, v) (data_refs (maps s) D p))"
    using finite_data_refs [OF vm_invD(2) [OF inv(1)]] by (intro card_mono) auto
  also have "\<dots> \<le> Suc (card (data_refs (maps s) D p))"
    using finite_data_refs [OF vm_invD(2) [OF inv(1)]] by (simp add: card_insert_if)
  finally have "card (data_refs (maps t) D p) \<le> Suc (card (data_refs (maps s) D p))" .
  then show ?thesis using vm_invD(6) [OF inv(1) p(1,2)] vm_invD(6) [OF inv(2) p(3,4)] by linarith
qed

definition pair_env :: "kern \<Rightarrow> u32 \<Rightarrow> nat \<Rightarrow> nat \<Rightarrow> bool" where
  "pair_env s envid ce dd \<longleftrightarrow> envid2env envid True s = Some (Inr ce) \<and> env_pgdir (envs s ce) = Some dd"

lemma pair_env_cong:
  "envs s' = envs s \<Longrightarrow> curenv s' = curenv s \<Longrightarrow> pair_env s' envid ce dd = pair_env s envid ce dd"
  unfolding pair_env_def envid2env_def by (simp only:)

text \<open>The memory for a page table of the child, when it is missing.\<close>

definition room :: "kern \<Rightarrow> nat \<Rightarrow> nat \<Rightarrow> nat list \<Rightarrow> bool" where
  "room s dd v fl \<longleftrightarrow> table_at s dd (v div 1024) \<noteq> None \<or> fl \<noteq> []"

text \<open>One call that maps the page \<open>n\<close> of the parent into \<open>dd\<close> with the permissions \<open>perm\<close>.\<close>

lemma dup_map_rule:
  assumes F: "fork_env s fl D ext c d" and P: "pair_env s envid ce dd"
    and n: "n < UVPN" and m: "vmap s d n = Some e" and perm: "unat perm < 4096" "\<not> bad_perm perm"
    and w: "perm AND PTE_W \<noteq> 0 \<longrightarrow> e AND PTE_W \<noteq> 0"
    and ref: "unat (pp_ref (pages s (frame_of e))) + 1 < 65536" and mem: "room s dd n fl"
  shows "\<exists>s' fl'. u_page_map 0 (of_nat n * PGSIZE) envid (of_nat n * PGSIZE) perm s = uret (Inr 0) s' \<and>
    fork_env s' fl' D ext c d \<and> effect D ext s fl s' fl' \<and> envs s' = envs s \<and> pair_env s' envid ce dd \<and>
    length fl \<le> length fl' + (if table_at s dd (n div 1024) = None then 1 else 0) \<and>
    table_at s' dd (n div 1024) \<noteq> None \<and>
    (\<forall>d' \<in> D. \<forall>v < UVPN. vmap s' d' v = (if d' = dd \<and> v = n then Some (entry e perm) else vmap s d' v))"
proof -
  note f = fork_envD [OF F] and va = page_va [OF n]
  let ?va = "of_nat n * PGSIZE :: u32"
  have p: "envid2env envid True s = Some (Inr ce)" "env_pgdir (envs s ce) = Some dd"
    using P by (auto simp: pair_env_def)
  have px: "unat (PDX ?va) = n div 1024" using vpn_split(1) [of ?va] va(3) by simp
  obtain s' fl' where r: "sys_page_map 0 ?va envid ?va perm s = Some (Returned (Inr 0, s'))"
    "effect D ext s fl s' fl'"
    "length fl \<le> length fl' + (if table_at s dd (n div 1024) = None then 1 else 0)"
    "table_at s' dd (n div 1024) \<noteq> None"
    "\<forall>d' \<in> D. \<forall>v < UVPN. vmap s' d' v = (if d' = dd \<and> v = n then Some (entry e perm) else vmap s d' v)"
    using page_map_rule [OF f(1,2,9) p(1) f(7) p(2) va(4,4) perm, of e] m w ref mem
    unfolding va(3) px room_def entry_def by blast
  note e = mem_only_sel(2,8) [OF effectD(2) [OF r(2)]]
  have "pair_env s' envid ce dd" using P pair_env_cong [OF e] by simp
  then show ?thesis using r e fork_env_effect [OF F r(2)] by (auto simp: stub_ok)
qed

text \<open>The effect of a successful \<open>duppage\<close> on every mapping.\<close>

definition dup_map :: "kern \<Rightarrow> nat \<Rightarrow> nat \<Rightarrow> nat \<Rightarrow> nat \<Rightarrow> nat \<Rightarrow> u32 option" where
  "dup_map s d dd n d' v =
     (case vmap s d n of
        None \<Rightarrow> vmap s d' v
      | Some e \<Rightarrow>
          if v \<noteq> n then vmap s d' v
          else if d' = dd then (case child_entry e of None \<Rightarrow> vmap s d' v | Some x \<Rightarrow> Some x)
          else if d' = d then Some (parent_entry e) else vmap s d' v)"

text \<open>The state after \<open>duppage\<close> of page \<open>n\<close>: everything \<open>fork\<close> relies on.\<close>

definition dup_ok :: "kern \<Rightarrow> nat list \<Rightarrow> nat set \<Rightarrow> (nat \<Rightarrow> nat) \<Rightarrow> nat \<Rightarrow> nat \<Rightarrow> u32 \<Rightarrow> nat \<Rightarrow> nat \<Rightarrow>
    nat \<Rightarrow> kern \<Rightarrow> nat list \<Rightarrow> bool" where
  "dup_ok s fl D ext c d envid ce dd n s' fl' \<longleftrightarrow>
     fork_env s' fl' D ext c d \<and> envs s' = envs s \<and> pair_env s' envid ce dd \<and> dirs_grow s s' D \<and>
     length fl \<le> length fl' + (if table_at s dd (n div 1024) = None then 1 else 0) \<and>
     (length fl' < length fl \<longrightarrow> table_at s' dd (n div 1024) \<noteq> None) \<and>
     (\<forall>d' \<in> D. \<forall>v < UVPN. vmap s' d' v = dup_map s d dd n d' v) \<and>
     (\<forall>d' \<in> D. \<forall>v < UVPN. \<forall>r. (d', v) \<noteq> (dd, n) \<longrightarrow> maps s d' v = Some r \<longrightarrow> page_bytes s' r = page_bytes s r)"

lemma frame_bound:
  assumes "vm_inv s fl D ext" "d \<in> D" "v < UVPN" "vmap s d v = Some e"
  shows "frame_of e < npages s" "frame_of e < 2 ^ 20" "frame_of e \<notin> structs s D"
  using vm_invD(5) [OF assms(1-3), of "frame_of e"] assms(4) vm_invD(1) [OF assms(1)]
  by (auto simp: maps_def pages_wf_def)

lemma effect_bytes:
  assumes "vm_inv s fl D ext" "effect D ext s fl s' fl'" "d \<in> D" "v < UVPN" "maps s d v = Some r"
  shows "page_bytes s' r = page_bytes s r"
  using mapped_data_stays [OF assms] by (intro page_bytes_cong)

lemma effect_dirs: "effect D ext s fl s' fl' \<Longrightarrow> dirs_grow s s' D"
  by (rule effectD(3))

lemma pte_user:
  assumes F: "fork_env s fl D ext c d" and n: "n < UVPN" and m: "vmap s d n = Some e"
  shows "uvpt (of_nat n) s = Some e"
  using uvpt_user [OF F, of "of_nat n * PGSIZE" e] page_va [OF n] m by simp

lemma dup_ro_rule:
  assumes F: "fork_env s fl D ext c d" and P: "pair_env s envid ce dd" and dd: "dd \<noteq> d"
    and n: "n < UVPN" and m: "vmap s d n = Some e" and mem: "room s dd n fl"
    and ref: "unat (pp_ref (pages s (frame_of e))) + 2 < 65536"
    and ro: "\<not> cow_page e" "child_entry e = Some (entry e perm)" "unat perm < 4096" "\<not> bad_perm perm"
      "perm AND PTE_W \<noteq> 0 \<longrightarrow> e AND PTE_W \<noteq> 0"
  shows "\<exists>s' fl'. u_page_map 0 (of_nat n * PGSIZE) envid (of_nat n * PGSIZE) perm s = uret (Inr 0) s' \<and>
    dup_ok s fl D ext c d envid ce dd n s' fl'"
proof -
  note f = fork_envD [OF F]
  have r: "unat (pp_ref (pages s (frame_of e))) + 1 < 65536" using ref by simp
  from dup_map_rule [OF F P n m ro(3,4,5) r mem] obtain s' fl' where
    a: "u_page_map 0 (of_nat n * PGSIZE) envid (of_nat n * PGSIZE) perm s = uret (Inr 0) s'"
      "fork_env s' fl' D ext c d" "effect D ext s fl s' fl'" "envs s' = envs s" "pair_env s' envid ce dd"
      "length fl \<le> length fl' + (if table_at s dd (n div 1024) = None then 1 else 0)"
      "table_at s' dd (n div 1024) \<noteq> None"
      "\<forall>d' \<in> D. \<forall>v < UVPN. vmap s' d' v = (if d' = dd \<and> v = n then Some (entry e perm) else vmap s d' v)"
    by blast
  have "vmap s' d' v = dup_map s d dd n d' v" if "d' \<in> D" "v < UVPN" for d' v
    using a(8) that m ro(1,2) by (simp add: dup_map_def parent_entry_def)
  then have "dup_ok s fl D ext c d envid ce dd n s' fl'"
    unfolding dup_ok_def using a effect_dirs [OF a(3)] effect_bytes [OF f(1) a(3)] by blast
  with a(1) show ?thesis by blast
qed

text \<open>Copy-on-write: the child's mapping first, then the parent's own page again.\<close>

lemma dup_cow_rule:
  assumes F: "fork_env s fl D ext c d" and P: "pair_env s envid ce dd" and dd: "dd \<noteq> d" "dd \<in> D"
    and n: "n < UVPN" and m: "vmap s d n = Some e" and mem: "room s dd n fl"
    and ref: "unat (pp_ref (pages s (frame_of e))) + 2 < 65536" and cow: "cow_page e"
  shows "\<exists>s1 s' fl'. u_page_map 0 (of_nat n * PGSIZE) envid (of_nat n * PGSIZE) 0x805 s = uret (Inr 0) s1 \<and>
    u_page_map 0 (of_nat n * PGSIZE) 0 (of_nat n * PGSIZE) 0x805 s1 = uret (Inr 0) s' \<and>
    dup_ok s fl D ext c d envid ce dd n s' fl'"
proof -
  note f = fork_envD [OF F]
  have r: "unat (pp_ref (pages s (frame_of e))) + 1 < 65536" using ref by simp
  have w: "0x805 AND PTE_W \<noteq> 0 \<longrightarrow> e AND PTE_W \<noteq> 0" by simp
  from dup_map_rule [OF F P n m entry_perm(2,5) w r mem] obtain s1 fl1 where
    a: "u_page_map 0 (of_nat n * PGSIZE) envid (of_nat n * PGSIZE) 0x805 s = uret (Inr 0) s1"
      "fork_env s1 fl1 D ext c d" "effect D ext s fl s1 fl1" "envs s1 = envs s" "pair_env s1 envid ce dd"
      "length fl \<le> length fl1 + (if table_at s dd (n div 1024) = None then 1 else 0)"
      "table_at s1 dd (n div 1024) \<noteq> None"
    and V1: "\<forall>d' \<in> D. \<forall>v < UVPN. vmap s1 d' v = (if d' = dd \<and> v = n then Some (entry e 0x805) else vmap s d' v)"
    by blast
  note f1 = fork_envD [OF a(2)]
  have o1: "vmap s1 d' v = vmap s d' v" if "d' \<in> D" "v < UVPN" "(d', v) \<noteq> (dd, n)" for d' v
    using upd_other [OF V1 that(1,2)] that(3) by simp
  have m1: "vmap s1 d n = Some e" using o1 [OF f(8) n] dd m by simp
  have fb: "frame_of e < npages s" "frame_of e < 2 ^ 20" "frame_of e \<notin> structs s D"
    by (rule frame_bound [OF f(1,8) n m])+
  have fb1: "frame_of e < npages s1" "frame_of e \<notin> structs s1 D"
    using frame_bound [OF f1(1,8) n m1] by blast+
  have "\<forall>d' \<in> D. \<forall>v < UVPN. (d', v) \<noteq> (dd, n) \<longrightarrow> maps s1 d' v = maps s d' v"
    using o1 by (simp add: maps_def)
  from ref_step [OF f(1) f1(1) this fb(1,3) fb1] have
    r1: "unat (pp_ref (pages s1 (frame_of e))) + 1 < 65536" using ref by linarith
  have P1: "pair_env s1 0 c d" using f1(7,9) by (simp add: pair_env_def)
  have t1: "table_at s1 d (n div 1024) \<noteq> None"
    using m1 by (auto simp: vmap_table_at split: option.splits)
  then have mem1: "room s1 d n fl1" by (simp add: room_def)
  from dup_map_rule [OF a(2) P1 n m1 entry_perm(2,5) w r1 mem1] obtain s' fl' where
    b: "u_page_map 0 (of_nat n * PGSIZE) 0 (of_nat n * PGSIZE) 0x805 s1 = uret (Inr 0) s'"
      "fork_env s' fl' D ext c d" "effect D ext s1 fl1 s' fl'" "envs s' = envs s1"
      "length fl1 \<le> length fl' + (if table_at s1 d (n div 1024) = None then 1 else 0)"
    and V2: "\<forall>d' \<in> D. \<forall>v < UVPN. vmap s' d' v = (if d' = d \<and> v = n then Some (entry e 0x805) else vmap s1 d' v)"
    by blast
  have V: "vmap s' d' v = dup_map s d dd n d' v" if "d' \<in> D" "v < UVPN" for d' v
  proof -
    have "vmap s' d' v = (if d' = d \<and> v = n then Some (entry e 0x805) else vmap s1 d' v)"
      using V2 that by blast
    also have "vmap s1 d' v = (if d' = dd \<and> v = n then Some (entry e 0x805) else vmap s d' v)"
      using V1 that by blast
    finally show ?thesis using cow m dd
      by (auto simp: dup_map_def parent_entry_def child_entry_def cow_page_def)
  qed
  have g: "dirs_grow s s' D" by (rule dirs_grow_trans [OF effect_dirs [OF a(3)] effect_dirs [OF b(3)]])
  have tb: "table_at s' dd (n div 1024) \<noteq> None"
  proof -
    have "vmap s' dd n = Some (entry e 0x805)"
      using V [OF dd(2) n] m cow by (simp add: dup_map_def child_entry_def cow_page_def)
    then show ?thesis by (auto simp: vmap_table_at split: option.splits)
  qed
  have P2: "pair_env s' envid ce dd"
    using a(5) pair_env_cong [OF mem_only_sel(2,8) [OF effectD(2) [OF b(3)]]] by simp
  have bytes: "page_bytes s' r = page_bytes s r" if "d' \<in> D" "v < UVPN" "(d', v) \<noteq> (dd, n)" "maps s d' v = Some r" for d' v r
  proof -
    have "maps s1 d' v = Some r" using o1 [OF that(1-3)] that(4) by (simp add: maps_def)
    from effect_bytes [OF f1(1) b(3) that(1,2) this] effect_bytes [OF f(1) a(3) that(1,2,4)]
    show ?thesis by simp
  qed
  have len: "length fl \<le> length fl' + (if table_at s dd (n div 1024) = None then 1 else 0)"
    using a(6) b(5) t1 by simp
  have "dup_ok s fl D ext c d envid ce dd n s' fl'"
    unfolding dup_ok_def using b(2,4) a(4) P2 g len tb V bytes by simp
  with a(1) b(1) show ?thesis by blast
qed

text \<open>\<open>duppage\<close> itself, for a page that both environments may share.\<close>

lemma duppage_rule:
  assumes F: "fork_env s fl D ext c d" and P: "pair_env s envid ce dd" and dd: "dd \<noteq> d" "dd \<in> D"
    and n: "n < UVPN" and m: "vmap s d n = Some e" and mem: "room s dd n fl"
    and ref: "unat (pp_ref (pages s (frame_of e))) + 2 < 65536"
  shows "\<exists>s' fl'. duppage envid (of_nat n) s = Some (Inr (), s') \<and> dup_ok s fl D ext c d envid ce dd n s' fl'"
proof -
  note f = fork_envD [OF F] and pte = pte_user [OF F n m]
  consider (no) "e AND PTE_SHARE \<noteq> 0" "e AND PTE_W = 0" | (share) "e AND PTE_SHARE \<noteq> 0" "e AND PTE_W \<noteq> 0"
    | (cow) "cow_page e" | (ro) "e AND PTE_SHARE = 0" "\<not> cow_page e" by (auto simp: cow_page_def)
  then show ?thesis
  proof cases
    case cow
    from dup_cow_rule [OF F P dd n m mem ref this] cow show ?thesis
      by (auto simp: duppage_def pte Let_def cow_page_def stub_ok)
  next
    case ro
    then have "child_entry e = Some (entry e 5)" by (simp add: child_entry_def)
    from dup_ro_rule [OF F P dd(1) n m mem ref ro(2) this entry_perm(3,6)] ro show ?thesis
      by (auto simp: duppage_def pte Let_def cow_page_def stub_ok)
  next
    case share
    then have "\<not> cow_page e" "child_entry e = Some (entry e PTE_SYSCALL)"
      by (simp_all add: child_entry_def cow_page_def)
    from dup_ro_rule [OF F P dd(1) n m mem ref this entry_perm(1,4)] share show ?thesis
      by (auto simp: duppage_def pte Let_def stub_ok)
  next
    case no
    have look: "page_lookup d (of_nat n * PGSIZE) s = Some (Some (frame_of e,
        the (table_at s d (n div 1024)) * 4096 + 4 * (n mod 1024)))"
      using page_lookup_eq [OF f(1,8) page_va(2) [OF n]] page_va(3) [OF n] m vpn_split [of "of_nat n * PGSIZE"]
      by simp
    have ld: "load32 s (the (table_at s d (n div 1024)) * 4096 + 4 * (n mod 1024)) = e"
      using m by (auto simp: vmap_table_at slot_def split: option.splits if_splits)
    have "sys_page_map 0 (of_nat n * PGSIZE) envid (of_nat n * PGSIZE) PTE_SYSCALL s = Some (Returned (Inl E_INVAL, s))"
      using f(7,9) P page_va(4) [OF n] entry_perm(4) no(2) look ld
      by (simp add: sys_page_map_def with_env_def bad_va_def pair_env_def)
    then have "duppage envid (of_nat n) s = Some (Inr (), s)"
      using no(1) by (simp add: duppage_def pte Let_def stub_error stub_ok)
    moreover have "dup_ok s fl D ext c d envid ce dd n s fl"
      using F P no m by (auto simp: dup_ok_def dup_map_def child_entry_def parent_entry_def cow_page_def)
    ultimately show ?thesis by blast
  qed
qed

section \<open>The copying loop\<close>

definition no_tables :: "kern \<Rightarrow> nat \<Rightarrow> nat set" where
  "no_tables s dd = {i. i < 955 \<and> table_at s dd i = None}"

lemma no_tables_finite [simp]: "finite (no_tables s dd)"
  by (simp add: no_tables_def)

lemma tables_grow:
  assumes "dirs_grow s s' D" "dd \<in> D"
  shows "no_tables s' dd \<subseteq> no_tables s dd"
proof
  fix i assume i: "i \<in> no_tables s' dd"
  then have "i < 1024" by (simp add: no_tables_def)
  from dirs_grow_present [OF assms this] i show "i \<in> no_tables s dd"
    by (auto simp: no_tables_def table_at_def split: if_splits)
qed

lemma room_tables: "card (no_tables s dd) \<le> length fl \<Longrightarrow> n < UVPN \<Longrightarrow> room s dd n fl"
proof -
  assume c: "card (no_tables s dd) \<le> length fl" and n: "n < UVPN"
  have "table_at s dd (n div 1024) = None \<Longrightarrow> n div 1024 \<in> no_tables s dd"
    using n by (auto simp: no_tables_def)
  then have "table_at s dd (n div 1024) = None \<Longrightarrow> 0 < card (no_tables s dd)"
    by (auto simp: card_gt_0_iff)
  with c show "room s dd n fl" by (auto simp: room_def)
qed

lemma tables_left:
  assumes ok: "dup_ok s fl D ext c d envid ce dd n s' fl'" and dd: "dd \<in> D" and n: "n < UVPN"
    and c: "card (no_tables s dd) + x \<le> length fl"
  shows "card (no_tables s' dd) + x \<le> length fl'"
proof -
  from ok have g: "dirs_grow s s' D"
    and len: "length fl \<le> length fl' + (if table_at s dd (n div 1024) = None then 1 else 0)"
    and used: "length fl' < length fl \<Longrightarrow> table_at s' dd (n div 1024) \<noteq> None"
    unfolding dup_ok_def by blast+
  note sub = tables_grow [OF g dd]
  show ?thesis
  proof (cases "length fl' < length fl")
    case False
    with card_mono [OF no_tables_finite sub] c show ?thesis by linarith
  next
    case True
    then have t: "table_at s dd (n div 1024) = None" using len by (auto split: if_splits)
    have i: "n div 1024 \<in> no_tables s dd" using t n by (auto simp: no_tables_def)
    have "no_tables s' dd \<subseteq> no_tables s dd - {n div 1024}" using sub used [OF True] by (auto simp: no_tables_def)
    then have "card (no_tables s' dd) \<le> card (no_tables s dd) - 1"
      using card_mono [of "no_tables s dd - {n div 1024}"] card_Diff_singleton [OF i] by simp
    moreover have "0 < card (no_tables s dd)" using i by (auto simp: card_gt_0_iff)
    ultimately show ?thesis using c len t by simp
  qed
qed

lemma uvpd_pn: "UVPT + drop_bit 12 UVPT * 4 + 4 * i = UVPT + 4 * (957 * 1024 + i :: u32)"
  by (simp add: drop_bit_eq_div)

lemma dup_this_rule:
  assumes F: "fork_env s fl D ext c d" and n: "n < UVPN"
  shows "dup_this (of_nat n * PGSIZE) s =
    Some (case vmap s d n of None \<Rightarrow> False | Some e \<Rightarrow> e AND PTE_U \<noteq> 0)"
proof -
  note f = fork_envD [OF F] and va = page_va [OF n]
  let ?i = "n div 1024"
  have i: "?i < 955" using n by auto
  have px: "unat (PDX (of_nat n * PGSIZE)) = ?i" using vpn_split(1) [of "of_nat n * PGSIZE"] va(3) by simp
  have q: "unat (957 * 1024 + PDX (of_nat n * PGSIZE)) = 957 * 1024 + ?i"
    using px i by (simp add: unat_word_ariths)
  have qd: "(957 * 1024 + ?i) div 1024 = 957" "(957 * 1024 + ?i) mod 1024 = ?i"
    using i div_mult_self3 [of 1024 957 ?i] mod_mult_self3 [of 957 1024 ?i] by simp_all
  have "uvpt (957 * 1024 + PDX (of_nat n * PGSIZE)) s = Some (slot s d ?i)"
    using uvpt_eq [of s "957 * 1024 + PDX (of_nat n * PGSIZE)" d] f(4,5) i unfolding q qd
    by (simp add: self_map_def table_at_def)
  then have pde: "uvpd (PDX (of_nat n * PGSIZE)) s = Some (slot s d ?i)"
    unfolding uvpd_def uvpt_def uvpd_pn .
  show ?thesis
  proof (cases "table_at s d ?i")
    case None
    then have "slot s d ?i AND PTE_P = 0" by (auto simp: table_at_def present_def split: if_splits)
    with None show ?thesis by (simp add: dup_this_def pde vmap_table_at)
  next
    case (Some t)
    then have p: "present (slot s d ?i)" by (simp add: table_at_def split: if_splits)
    have u: "slot s d ?i AND PTE_U \<noteq> 0" using f(3,8) p i by (auto simp: user_dirs_def)
    have k: "unat (of_nat n :: u32) = n" using n by (simp add: unat_of_nat32)
    have "uvpt (of_nat n) s = Some (slot s t (n mod 1024))"
      using uvpt_eq [of s "of_nat n" t] f(4,5) Some u n unfolding k by simp
    with p Some show ?thesis unfolding dup_this_def pde va(5)
      by (auto simp: present_def vmap_table_at)
  qed
qed

text \<open>The mappings after the pages below \<open>k\<close> have been copied.\<close>

definition forked :: "kern \<Rightarrow> nat \<Rightarrow> nat \<Rightarrow> nat \<Rightarrow> nat \<Rightarrow> nat \<Rightarrow> u32 option" where
  "forked s d dd k d' v =
     (if v < k
      then (case vmap s d v of
              None \<Rightarrow> vmap s d' v
            | Some e \<Rightarrow> if e AND PTE_U \<noteq> 0 then dup_map s d dd v d' v else vmap s d' v)
      else vmap s d' v)"

definition loop_inv :: "nat \<Rightarrow> kern \<Rightarrow> nat set \<Rightarrow> (nat \<Rightarrow> nat) \<Rightarrow> nat \<Rightarrow> nat \<Rightarrow> u32 \<Rightarrow> nat \<Rightarrow> nat \<Rightarrow>
    nat \<Rightarrow> kern \<Rightarrow> nat list \<Rightarrow> bool" where
  "loop_inv x s D ext c d envid ce dd k t fl \<longleftrightarrow>
     fork_env t fl D ext c d \<and> envs t = envs s \<and> pair_env t envid ce dd \<and>
     card (no_tables t dd) + x \<le> length fl \<and>
     (\<forall>d' \<in> D. \<forall>v < UVPN. vmap t d' v = forked s d dd k d' v) \<and>
     (\<forall>d' \<in> D. \<forall>v < UVPN. \<forall>r. maps s d' v = Some r \<longrightarrow> page_bytes t r = page_bytes s r)"

text \<open>Every page can take one more reference for each page of the parent that maps it.\<close>

definition refs_room :: "kern \<Rightarrow> nat \<Rightarrow> bool" where
  "refs_room s d \<longleftrightarrow> (\<forall>p < npages s.
     unat (pp_ref (pages s p)) + card {v. v < UVPN \<and> maps s d v = Some p} + 1 < 65536)"

lemma forked_frame:
  assumes "vm_inv s fl D ext" "d \<in> D" "d' \<in> D" "d' \<noteq> dd" "v < UVPN"
  shows "map_option frame_of (forked s d dd k d' v) = maps s d' v"
proof -
  have "frame_of (parent_entry e) = frame_of e" if "vmap s d v = Some e" for e
    using entry_frame [OF frame_bound(2) [OF assms(1,2,5) that] entry_perm(2)]
    by (simp add: parent_entry_def)
  then show ?thesis using assms(4)
    by (auto simp: forked_def dup_map_def maps_def split: option.split)
qed

lemma forked_child:
  assumes "vm_inv s fl D ext" "d \<in> D" "v < UVPN" "vmap s dd v = None"
    and "map_option frame_of (forked s d dd k dd v) = Some p"
  shows "v < k \<and> maps s d v = Some p"
proof -
  from assms(4,5) obtain e x where e: "v < k" "vmap s d v = Some e" "child_entry e = Some x" "frame_of x = p"
    by (auto simp: forked_def dup_map_def split: if_splits option.splits)
  have b: "frame_of e < 2 ^ 20" by (rule frame_bound(2) [OF assms(1-3) e(2)])
  have "frame_of x = frame_of e"
    using e(3) entry_frame [OF b entry_perm(1)] entry_frame [OF b entry_perm(2)] entry_frame [OF b entry_perm(3)]
    by (auto simp: child_entry_def split: if_splits)
  then show ?thesis using e by (simp add: maps_def)
qed

lemma loop_refs:
  assumes inv: "vm_inv s fl D ext" "d \<in> D" "dd \<in> D" "dd \<noteq> d" and room: "refs_room s d"
    and empty: "\<forall>v < UVPN. vmap s dd v = None" and L: "loop_inv x s D ext c d envid ce dd k t flt"
    and k: "k < UVPN" and m: "vmap s d k = Some e"
  shows "unat (pp_ref (pages t (frame_of e))) + 2 < 65536"
proof -
  let ?p = "frame_of e" and ?A = "{v. v < UVPN \<and> maps s d v = Some (frame_of e)}"
  from L have F: "fork_env t flt D ext c d"
    and V: "\<And>d' v. d' \<in> D \<Longrightarrow> v < UVPN \<Longrightarrow> vmap t d' v = forked s d dd k d' v"
    by (auto simp only: loop_inv_def)
  note ft = fork_envD [OF F]
  have mt: "vmap t d k = Some e" using V [OF inv(2) k] m by (simp add: forked_def)
  have sub: "data_refs (maps t) D ?p \<subseteq> data_refs (maps s) D ?p \<union> Pair dd ` {v \<in> ?A. v < k}"
  proof
    fix x assume "x \<in> data_refs (maps t) D ?p"
    then obtain d' v where x: "x = (d', v)" "d' \<in> D" "v < UVPN" "maps t d' v = Some ?p"
      by (auto simp: data_refs_def)
    then have fk: "map_option frame_of (forked s d dd k d' v) = Some ?p" using V by (simp add: maps_def)
    show "x \<in> data_refs (maps s) D ?p \<union> Pair dd ` {v \<in> ?A. v < k}"
    proof (cases "d' = dd")
      case True
      with fk have "map_option frame_of (forked s d dd k dd v) = Some ?p" by simp
      from forked_child [OF inv(1,2) x(3) _ this] empty x(3) have "v < k" "maps s d v = Some ?p" by auto
      with x(1,3) True show ?thesis by auto
    next
      case False
      with forked_frame [OF inv(1,2) x(2) _ x(3), of dd k] fk have "maps s d' v = Some ?p" by simp
      with x show ?thesis by (auto simp: data_refs_def)
    qed
  qed
  have fin: "finite (data_refs (maps s) D ?p)" by (rule finite_data_refs [OF vm_invD(2) [OF inv(1)]])
  have "card (data_refs (maps t) D ?p) \<le> card (data_refs (maps s) D ?p \<union> Pair dd ` {v \<in> ?A. v < k})"
    using fin by (intro card_mono [OF _ sub]) simp
  also have "\<dots> \<le> card (data_refs (maps s) D ?p) + card (Pair dd ` {v \<in> ?A. v < k})" by (rule card_Un_le)
  also have "card (Pair dd ` {v \<in> ?A. v < k}) = card {v \<in> ?A. v < k}" by (simp add: card_image inj_on_def)
  finally have c1: "card (data_refs (maps t) D ?p) \<le> card (data_refs (maps s) D ?p) + card {v \<in> ?A. v < k}" .
  have "{v \<in> ?A. v < k} \<subset> ?A" using m k by (auto simp: maps_def)
  then have c2: "card {v \<in> ?A. v < k} < card ?A" by (intro psubset_card_mono) auto
  have b: "?p < npages s" "?p \<notin> structs s D" "?p < npages t" "?p \<notin> structs t D"
    using frame_bound [OF inv(1,2) k m] frame_bound [OF ft(1) inv(2) k mt] by blast+
  have "unat (pp_ref (pages s ?p)) + card ?A + 1 < 65536" using room b(1) unfolding refs_room_def by blast
  then show ?thesis
    using c1 c2 vm_invD(6) [OF inv(1) b(1,2)] vm_invD(6) [OF ft(1) b(3,4)] by linarith
qed

lemma loop_step:
  assumes inv: "vm_inv s fl D ext" "d \<in> D" "dd \<in> D" "dd \<noteq> d" and room: "refs_room s d"
    and empty: "\<forall>v < UVPN. vmap s dd v = None" and L: "loop_inv x s D ext c d envid ce dd k t flt"
    and k: "k < UVPN"
  shows "\<exists>t' flt'. loop_inv x s D ext c d envid ce dd (Suc k) t' flt' \<and>
    (if case vmap s d k of None \<Rightarrow> False | Some e \<Rightarrow> e AND PTE_U \<noteq> 0
     then duppage envid (of_nat k) t = Some (Inr (), t') else t' = t)"
proof (cases "case vmap s d k of None \<Rightarrow> False | Some e \<Rightarrow> e AND PTE_U \<noteq> 0")
  case False
  have "forked s d dd (Suc k) d' v = forked s d dd k d' v" for d' v
    using False by (auto simp: forked_def less_Suc_eq split: option.splits)
  with L have "loop_inv x s D ext c d envid ce dd (Suc k) t flt" by (simp add: loop_inv_def)
  with False show ?thesis by auto
next
  case True
  then obtain e where m: "vmap s d k = Some e" and u: "e AND PTE_U \<noteq> 0" by (auto split: option.splits)
  from L have F: "fork_env t flt D ext c d" and et: "envs t = envs s" and P: "pair_env t envid ce dd"
    and tb: "card (no_tables t dd) + x \<le> length flt"
    and V: "\<And>d' v. d' \<in> D \<Longrightarrow> v < UVPN \<Longrightarrow> vmap t d' v = forked s d dd k d' v"
    and B: "\<And>d' v r. d' \<in> D \<Longrightarrow> v < UVPN \<Longrightarrow> maps s d' v = Some r \<Longrightarrow> page_bytes t r = page_bytes s r"
    unfolding loop_inv_def by blast+
  have mt: "vmap t d k = Some e" using V [OF inv(2) k] m by (simp add: forked_def)
  from duppage_rule [OF F P inv(4,3) k mt room_tables [OF add_leD1 [OF tb] k] loop_refs [OF inv room empty L k m]]
  obtain t' flt' where run: "duppage envid (of_nat k) t = Some (Inr (), t')"
    and ok: "dup_ok t flt D ext c d envid ce dd k t' flt'" by blast
  note OK = ok [unfolded dup_ok_def]
  note F' = OK [THEN conjunct1] and OK = OK [THEN conjunct2]
  note e' = OK [THEN conjunct1] and OK = OK [THEN conjunct2]
  note P' = OK [THEN conjunct1] and OK = OK [THEN conjunct2]
  note OK = OK [THEN conjunct2, THEN conjunct2, THEN conjunct2]
  note Vo = OK [THEN conjunct1] and Bo = OK [THEN conjunct2]
  have V': "vmap t' d' v = dup_map t d dd k d' v" if "d' \<in> D" "v < UVPN" for d' v using Vo that by blast
  have "vmap t' d' v = forked s d dd (Suc k) d' v" if "d' \<in> D" "v < UVPN" for d' v
  proof (cases "v = k")
    case False
    then have "dup_map t d dd k d' v = vmap t d' v" "forked s d dd (Suc k) d' v = forked s d dd k d' v"
      by (simp_all add: dup_map_def forked_def less_Suc_eq split: option.split)
    with V' [OF that] V [OF that] show ?thesis by simp
  next
    case True
    then have "vmap t d' v = vmap s d' v" using V [OF that] by (simp add: forked_def)
    then have "dup_map t d dd k d' v = dup_map s d dd k d' v" using True mt m
      by (cases "child_entry e") (auto simp: dup_map_def)
    also have "\<dots> = forked s d dd (Suc k) d' v" using True m u by (simp add: forked_def)
    finally show ?thesis using V' [OF that] by simp
  qed
  moreover have "page_bytes t' r = page_bytes s r" if "d' \<in> D" "v < UVPN" "maps s d' v = Some r" for d' v r
  proof -
    have ne: "d' \<noteq> dd" using that empty by (auto simp: maps_def)
    then have "maps t d' v = Some r"
      using forked_frame [OF inv(1,2) that(1) _ that(2), of dd k] V [OF that(1,2)] that(3)
      by (simp add: maps_def)
    then have "page_bytes t' r = page_bytes t r" using Bo that(1,2) ne by blast
    then show ?thesis using B [OF that] by simp
  qed
  ultimately have "loop_inv x s D ext c d envid ce dd (Suc k) t' flt'"
    unfolding loop_inv_def using F' e' et P' tables_left [OF ok inv(3) k tb] by simp
  with True run show ?thesis by auto
qed

lemma fork_loop_rule:
  assumes inv: "vm_inv s fl D ext" "d \<in> D" "dd \<in> D" "dd \<noteq> d" and room: "refs_room s d"
    and empty: "\<forall>v < UVPN. vmap s dd v = None"
  shows "loop_inv x s D ext c d envid ce dd k t flt \<Longrightarrow> k \<le> 977918 \<Longrightarrow>
    \<exists>t' flt'. fork_loop envid (of_nat k * PGSIZE) t = Some (Inr (), t') \<and>
      loop_inv x s D ext c d envid ce dd 977918 t' flt'"
proof (induction "977918 - k" arbitrary: k t flt)
  case 0
  then have "k = 977918" by simp
  with 0 show ?case by (auto simp: fork_loop.simps [of envid])
next
  case (Suc m)
  then have k: "k < 977918" "k < UVPN" by simp_all
  then have lt: "of_nat k * PGSIZE < (USTACKTOP :: u32)"
    using page_va(1) [OF k(2)] by (simp add: word_less_nat_alt)
  have nx: "of_nat k * PGSIZE + PGSIZE = (of_nat (Suc k) * PGSIZE :: u32)" by (simp add: algebra_simps)
  from loop_step [OF inv room empty Suc.prems(1) k(2)] obtain t' flt' where
    L': "loop_inv x s D ext c d envid ce dd (Suc k) t' flt'"
    and run: "if case vmap s d k of None \<Rightarrow> False | Some e \<Rightarrow> e AND PTE_U \<noteq> 0
     then duppage envid (of_nat k) t = Some (Inr (), t') else t' = t" by blast
  have "m = 977918 - Suc k" "Suc k \<le> 977918" using Suc.hyps(2) k(1) by linarith+
  from Suc.hyps(1) [OF this(1) L' this(2)] obtain u flu where
    U: "fork_loop envid (of_nat (Suc k) * PGSIZE) t' = Some (Inr (), u)"
      "loop_inv x s D ext c d envid ce dd 977918 u flu" by blast
  have F: "fork_env t flt D ext c d" and V: "vmap t d k = vmap s d k"
    using Suc.prems(1) inv(2) k(2) unfolding loop_inv_def by (blast, simp add: forked_def)
  have "fork_loop envid (of_nat k * PGSIZE) t = Some (Inr (), u)"
    using run U(1) lt dup_this_rule [OF F k(2)] page_va(5) [OF k(2)]
    unfolding fork_loop.simps [of envid "of_nat k * PGSIZE"] nx V
    by (auto simp: stub_ok simp del: of_nat_Suc split: if_splits)
  with U(2) show ?case by blast
qed

end
