(* ===== verification/ForkSpec.thy ===== *)
theory ForkSpec
  imports ForkDup EnvProps
begin

text \<open>
  The whole of \<open>fork\<close>: a new environment with a copy-on-write copy of the caller's address
  space.
\<close>

section \<open>sys_exofork\<close>



section \<open>Calls that only touch the child's record\<close>





section \<open>fork\<close>







section \<open>An example\<close>

text \<open>
  Environment 0 with its directory in page 1, one table in page 2 and page 3 mapped writable
  at 0x00800000; pages 4 to 1099 are free, and so is environment 1.
\<close>

definition ex_fork :: kern where
  "ex_fork = store32 (2 * 4096 + 4 * 0) 0x3007 (store32 (1 * 4096 + 4 * 957) 0x1005 (store32 (1 * 4096 + 4 * 2) 0x2007
     (kern0\<lparr>npages := 1100, page_free_list := Some 4, env_free_list := Some 1, kern_pgdir := 0, cr3 := 1,
        pages := (\<lambda>p. \<lparr>pp_link = (if 4 \<le> p \<and> p < 1099 then Some (p + 1) else None),
                       pp_ref = (if 4 \<le> p then 0 else 1)\<rparr>),
        envs := (envs kern0)(0 := env0\<lparr>env_status := ENV_RUNNING, env_id := 0x1000, env_pgdir := Some 1\<rparr>),
        cpus := (cpus kern0)(0 := \<lparr>cpu_status = CPU_STARTED, cpu_env = Some 0\<rparr>)\<rparr>)))"


lemma ex_fork_sel [simp]:
  "npages ex_fork = 1100" "cr3 ex_fork = 1" "page_free_list ex_fork = Some 4" "curenv ex_fork = Some 0"
  "env_free_list ex_fork = Some 1" "kern_pgdir ex_fork = 0"
  "pages ex_fork p = \<lparr>pp_link = (if 4 \<le> p \<and> p < 1099 then Some (p + 1) else None),
     pp_ref = (if 4 \<le> p then 0 else 1)\<rparr>"
  "envs ex_fork = (envs kern0)(0 := env0\<lparr>env_status := ENV_RUNNING, env_id := 0x1000, env_pgdir := Some 1\<rparr>)"
  by (simp_all add: ex_fork_def store32_def curenv_def kern0_def)












end
