(* ===== verification/Spinlock.thy ===== *)
theory Spinlock
  imports Prelude
begin

text \<open>
  The big kernel lock (\<open>kern/spinlock.c\<close>, with DEBUG_SPINLOCK as \<open>kern/spinlock.h\<close> defines it)
  under every interleaving of the CPUs.  A CPU is at a point of \<open>spin_lock\<close> or \<open>spin_unlock\<close>
  between two accesses to the lock, or in its own code; each step is one access.
\<close>

section \<open>The lock and the code of a CPU\<close>

record spinlock =
  locked :: u32
  lk_cpu :: "nat option"
  lk_pcs :: "u32 list"

definition spin_initlock :: "spinlock \<Rightarrow> spinlock" where
  "spin_initlock lk = lk\<lparr>locked := 0, lk_cpu := None\<rparr>"

definition kernel_lock :: spinlock where
  "kernel_lock = \<lparr>locked = 0, lk_cpu = None, lk_pcs = replicate 10 0\<rparr>"

lemma spin_initlock_kernel_lock: "spin_initlock kernel_lock = kernel_lock"
  by (simp add: spin_initlock_def kernel_lock_def)

text \<open>\<open>xchg\<close> stores the new value and returns the old one in one step.\<close>

definition xchg :: "u32 \<Rightarrow> spinlock \<Rightarrow> u32 \<times> spinlock" where
  "xchg new lk = (locked lk, lk\<lparr>locked := new\<rparr>)"

text \<open>
  The return addresses on the stack of frame pointer \<open>ebp\<close>, at most ten of them, filled up with
  zeros; a frame below ULIM ends the walk.
\<close>

fun follow_ebp :: "nat \<Rightarrow> (u32 \<Rightarrow> u32) \<Rightarrow> u32 \<Rightarrow> u32 list" where
  "follow_ebp 0 m ebp = []"
| "follow_ebp (Suc k) m ebp =
     (if ebp = 0 \<or> ebp < 0xEF800000 then [] else m (ebp + 4) # follow_ebp k m (m ebp))"

definition get_caller_pcs :: "(u32 \<Rightarrow> u32) \<Rightarrow> u32 \<Rightarrow> u32 list" where
  "get_caller_pcs m ebp = (let ps = follow_ebp 10 m ebp in ps @ replicate (10 - length ps) 0)"

text \<open>
  The points of the code: the two reads of \<open>holding\<close> in \<open>spin_lock\<close>, the spinning exchange, the
  two records; the two reads of \<open>holding\<close> in \<open>spin_unlock\<close>, the two resets, the exchange.
\<close>

datatype point =
    Running | Lock_locked | Lock_cpu | Lock_xchg | Lock_record | Lock_pcs
  | Unlock_locked | Unlock_cpu | Unlock_pcs | Unlock_clear | Unlock_xchg | Panicked

text \<open>What CPU \<open>c\<close> does next at a point, with the words \<open>m\<close> and \<open>ebp\<close> of its own stack.\<close>

definition holding_locked :: "spinlock \<Rightarrow> bool" where
  "holding_locked lk \<longleftrightarrow> locked lk \<noteq> 0"

definition holding_cpu :: "nat \<Rightarrow> spinlock \<Rightarrow> bool" where
  "holding_cpu c lk \<longleftrightarrow> lk_cpu lk = Some c"

fun lock_step :: "nat \<Rightarrow> (u32 \<Rightarrow> u32) \<Rightarrow> u32 \<Rightarrow> point \<Rightarrow> spinlock \<Rightarrow> point \<times> spinlock" where
  "lock_step c m ebp Lock_locked lk = (if holding_locked lk then Lock_cpu else Lock_xchg, lk)"
| "lock_step c m ebp Lock_cpu lk = (if holding_cpu c lk then Panicked else Lock_xchg, lk)"
| "lock_step c m ebp Lock_xchg lk =
     (let (old, lk) = xchg 1 lk in (if old \<noteq> 0 then Lock_xchg else Lock_record, lk))"
| "lock_step c m ebp Lock_record lk = (Lock_pcs, lk\<lparr>lk_cpu := Some c\<rparr>)"
| "lock_step c m ebp Lock_pcs lk = (Running, lk\<lparr>lk_pcs := get_caller_pcs m ebp\<rparr>)"
| "lock_step c m ebp Unlock_locked lk = (if holding_locked lk then Unlock_cpu else Panicked, lk)"
| "lock_step c m ebp Unlock_cpu lk = (if holding_cpu c lk then Unlock_pcs else Panicked, lk)"
| "lock_step c m ebp Unlock_pcs lk = (Unlock_clear, lk\<lparr>lk_pcs := (lk_pcs lk)[0 := 0]\<rparr>)"
| "lock_step c m ebp Unlock_clear lk = (Unlock_xchg, lk\<lparr>lk_cpu := None\<rparr>)"
| "lock_step c m ebp Unlock_xchg lk = (let (old, lk) = xchg 0 lk in (Running, lk))"
| "lock_step c m ebp p lk = (p, lk)"

section \<open>All CPUs\<close>

text \<open>
  \<open>inside c\<close>: CPU \<open>c\<close> has returned from \<open>spin_lock\<close> and not called \<open>spin_unlock\<close> since;
  \<open>misused c\<close>: it has called \<open>spin_lock\<close> while inside or \<open>spin_unlock\<close> while not.  Neither is
  part of the program's state.
\<close>

record spin =
  lock :: spinlock
  point :: "nat \<Rightarrow> point"
  inside :: "nat \<Rightarrow> bool"
  misused :: "nat \<Rightarrow> bool"

definition spin0 :: spin where
  "spin0 = \<lparr>lock = kernel_lock, point = (\<lambda>_. Running), inside = (\<lambda>_. False), misused = (\<lambda>_. False)\<rparr>"

definition advance :: "nat \<Rightarrow> (u32 \<Rightarrow> u32) \<Rightarrow> u32 \<Rightarrow> spin \<Rightarrow> spin" where
  "advance c m ebp s =
     (let (p, lk) = lock_step c m ebp (point s c) (lock s)
      in s\<lparr>lock := lk, point := (point s)(c := p),
           inside := (inside s)(c := inside s c \<or> point s c = Lock_pcs)\<rparr>)"

definition call_lock :: "nat \<Rightarrow> spin \<Rightarrow> spin" where
  "call_lock c s = s\<lparr>point := (point s)(c := Lock_locked),
     misused := (misused s)(c := misused s c \<or> inside s c)\<rparr>"

definition call_unlock :: "nat \<Rightarrow> spin \<Rightarrow> spin" where
  "call_unlock c s = s\<lparr>point := (point s)(c := Unlock_locked), inside := (inside s)(c := False),
     misused := (misused s)(c := misused s c \<or> \<not> inside s c)\<rparr>"

inductive spin_step :: "spin \<Rightarrow> spin \<Rightarrow> bool" where
  spin_lock: "point s c = Running \<Longrightarrow> spin_step s (call_lock c s)"
| spin_unlock: "point s c = Running \<Longrightarrow> spin_step s (call_unlock c s)"
| advance: "point s c \<noteq> Running \<Longrightarrow> spin_step s (advance c m ebp s)"

abbreviation spin_reach :: "spin \<Rightarrow> bool" where
  "spin_reach \<equiv> spin_step\<^sup>*\<^sup>* spin0"

inductive_cases spin_stepE: "spin_step s s'"

section \<open>The invariant\<close>

text \<open>
  What holds of one CPU: \<open>own\<close> says whether it is between the exchange that takes the lock and
  the one that gives it back, \<open>rec\<close> whether the lock records it as its owner, and \<open>p\<close>, \<open>i\<close>, \<open>m\<close>
  are its point, \<open>inside\<close> and \<open>misused\<close>.  A CPU that has called wrongly is on its way to a panic.
\<close>

definition cpu_inv :: "bool \<Rightarrow> bool \<Rightarrow> point \<Rightarrow> bool \<Rightarrow> bool \<Rightarrow> bool" where
  "cpu_inv own rec p i m \<longleftrightarrow>
     own = (i \<or> p \<in> {Lock_record, Lock_pcs, Unlock_pcs, Unlock_clear, Unlock_xchg} \<or>
            p \<in> {Unlock_locked, Unlock_cpu} \<and> \<not> m) \<and>
     (rec \<longrightarrow> own) \<and> (own \<longrightarrow> rec = (p \<notin> {Lock_record, Unlock_xchg})) \<and>
     (m \<longrightarrow> p \<in> {Lock_locked, Lock_cpu, Unlock_locked, Unlock_cpu, Panicked}) \<and>
     (p \<in> {Lock_locked, Lock_cpu} \<longrightarrow> m = i) \<and> (p \<in> {Unlock_locked, Unlock_cpu} \<longrightarrow> \<not> i) \<and>
     (i \<longrightarrow> p \<in> {Running, Lock_locked, Lock_cpu, Panicked}) \<and> (p = Panicked \<longrightarrow> m)"

definition spin_inv :: "nat option \<Rightarrow> spin \<Rightarrow> bool" where
  "spin_inv own s \<longleftrightarrow> (locked (lock s) = 0 \<longleftrightarrow> own = None) \<and>
     (\<forall>c. cpu_inv (own = Some c) (lk_cpu (lock s) = Some c) (point s c) (inside s c) (misused s c))"

lemma spin_invD:
  assumes "spin_inv own s"
  shows "locked (lock s) = 0 \<longleftrightarrow> own = None"
    "cpu_inv (own = Some c) (lk_cpu (lock s) = Some c) (point s c) (inside s c) (misused s c)"
  using assms by (auto simp: spin_inv_def)

text \<open>A step of one CPU leaves the others where they are.\<close>

lemma spin_inv_cpu:
  assumes "spin_inv own s" and "locked lk = 0 \<longleftrightarrow> own' = None"
    and "cpu_inv (own' = Some c) (lk_cpu lk = Some c) p i m"
    and "\<And>d. d \<noteq> c \<Longrightarrow> (own' = Some d) = (own = Some d) \<and> (lk_cpu lk = Some d) = (lk_cpu (lock s) = Some d)"
  shows "spin_inv own' \<lparr>lock = lk, point = (point s)(c := p), inside = (inside s)(c := i),
    misused = (misused s)(c := m)\<rparr>"
  using assms(1-3) assms(4) [THEN conjunct1] assms(4) [THEN conjunct2] by (simp add: spin_inv_def)

lemma spin_state:
  "s\<lparr>point := (point s)(c := p), misused := (misused s)(c := m)\<rparr> =
     \<lparr>lock = lock s, point = (point s)(c := p), inside = (inside s)(c := inside s c), misused = (misused s)(c := m)\<rparr>"
  "s\<lparr>point := (point s)(c := p), inside := (inside s)(c := i), misused := (misused s)(c := m)\<rparr> =
     \<lparr>lock = lock s, point = (point s)(c := p), inside = (inside s)(c := i), misused = (misused s)(c := m)\<rparr>"
  "s\<lparr>lock := lk, point := (point s)(c := p), inside := (inside s)(c := i)\<rparr> =
     \<lparr>lock = lk, point = (point s)(c := p), inside = (inside s)(c := i), misused = (misused s)(c := misused s c)\<rparr>"
  by simp_all

definition next_own :: "nat \<Rightarrow> point \<Rightarrow> nat option \<Rightarrow> nat option" where
  "next_own c p own =
     (case p of Lock_xchg \<Rightarrow> (if own = None then Some c else own) | Unlock_xchg \<Rightarrow> None | _ \<Rightarrow> own)"

lemma spin_inv_advance:
  assumes inv: "spin_inv own s" and "point s c \<noteq> Running"
  shows "spin_inv (next_own c (point s c) own) (advance c m ebp s)"
proof -
  note I = spin_invD [OF inv]
  have o: "lk_cpu (lock s) = Some d \<Longrightarrow> own = Some d" for d using I(2) [of d] by (simp add: cpu_inv_def)
  show ?thesis
    unfolding advance_def case_prod_beta Let_def spin_state(3)
  proof (rule spin_inv_cpu [OF inv])
    show "locked (snd (lock_step c m ebp (point s c) (lock s))) = 0 \<longleftrightarrow> next_own c (point s c) own = None"
      using I(1) I(2) [of c] by (cases "point s c") (auto simp: xchg_def cpu_inv_def next_own_def)
    show "cpu_inv (next_own c (point s c) own = Some c) (lk_cpu (snd (lock_step c m ebp (point s c) (lock s))) = Some c)
        (fst (lock_step c m ebp (point s c) (lock s))) (inside s c \<or> point s c = Lock_pcs) (misused s c)"
      using assms(2) I(1) I(2) [of c]
      by (cases "point s c") (auto simp: xchg_def cpu_inv_def holding_locked_def holding_cpu_def next_own_def)
    show "(next_own c (point s c) own = Some d) = (own = Some d) \<and>
        (lk_cpu (snd (lock_step c m ebp (point s c) (lock s))) = Some d) = (lk_cpu (lock s) = Some d)"
      if "d \<noteq> c" for d
      using that I(1) I(2) [of c] I(2) [of d] o
      by (cases "point s c") (auto simp: xchg_def cpu_inv_def next_own_def)
  qed
qed

lemma spin_inv_call:
  assumes "spin_inv own s" "point s c = Running"
  shows "spin_inv own (call_lock c s)" "spin_inv own (call_unlock c s)"
proof -
  note I = spin_invD(1) [OF assms(1)] spin_invD(2) [OF assms(1), of c]
  show "spin_inv own (call_lock c s)" unfolding call_lock_def spin_state(1)
    by (rule spin_inv_cpu [OF assms(1)]) (use I assms(2) in \<open>auto simp: cpu_inv_def\<close>)
  show "spin_inv own (call_unlock c s)" unfolding call_unlock_def spin_state(2)
    by (rule spin_inv_cpu [OF assms(1)]) (use I assms(2) in \<open>auto simp: cpu_inv_def\<close>)
qed

lemma spin_inv_step: "spin_step s s' \<Longrightarrow> spin_inv own s \<Longrightarrow> \<exists>own'. spin_inv own' s'"
  by (erule spin_stepE) (use spin_inv_call spin_inv_advance in blast)+

lemma spin_reach_inv: "spin_reach s \<Longrightarrow> \<exists>own. spin_inv own s"
proof (induction rule: rtranclp_induct)
  case base
  have "spin_inv None spin0" by (simp add: spin_inv_def cpu_inv_def spin0_def kernel_lock_def)
  then show ?case by blast
next
  case (step y z)
  then show ?case using spin_inv_step by blast
qed

section \<open>The owner gives the lock back\<close>

definition to_release :: "point \<Rightarrow> nat" where
  "to_release p = (case p of Lock_record \<Rightarrow> 8 | Lock_pcs \<Rightarrow> 7 | Running \<Rightarrow> 6 | Unlock_locked \<Rightarrow> 5
     | Unlock_cpu \<Rightarrow> 4 | Unlock_pcs \<Rightarrow> 3 | Unlock_clear \<Rightarrow> 2 | _ \<Rightarrow> 1)"

lemma release_step:
  assumes inv: "spin_inv (Some d) s" and m: "\<forall>c. \<not> misused s c"
  shows "\<exists>own s'. spin_step s s' \<and> spin_inv own s' \<and> (\<forall>c. \<not> misused s' c) \<and>
     (\<forall>c. c \<noteq> d \<longrightarrow> point s' c = point s c) \<and>
     (own = None \<or> own = Some d \<and> to_release (point s' d) < to_release (point s d))"
proof (cases "point s d = Running")
  case True
  have i: "inside s d" using spin_invD(2) [OF inv, of d] True by (simp add: cpu_inv_def)
  let ?s = "call_unlock d s"
  have "spin_step s ?s" by (rule spin_unlock [OF True])
  moreover have "spin_inv (Some d) ?s" by (rule spin_inv_call(2) [OF inv True])
  moreover have "(\<forall>c. \<not> misused ?s c) \<and> (\<forall>c. c \<noteq> d \<longrightarrow> point ?s c = point s c) \<and>
      to_release (point ?s d) < to_release (point s d)"
    using i m True by (simp add: call_unlock_def to_release_def)
  ultimately show ?thesis by blast
next
  case False
  let ?s = "advance d undefined 0 s"
  note I = spin_invD [OF inv] and D = spin_invD(2) [OF inv, of d]
  have "spin_step s ?s" "spin_inv (next_own d (point s d) (Some d)) ?s"
    by (rule spin_step.advance [OF False], rule spin_inv_advance [OF inv False])
  moreover have "\<forall>c. misused ?s c = misused s c" "\<forall>c. c \<noteq> d \<longrightarrow> point ?s c = point s c"
    by (simp_all add: advance_def split: prod.split)
  moreover have "next_own d (point s d) (Some d) = None \<or>
      next_own d (point s d) (Some d) = Some d \<and> to_release (point ?s d) < to_release (point s d)"
    using False D I(1) m
    by (cases "point s d")
      (auto simp: next_own_def advance_def cpu_inv_def to_release_def holding_locked_def holding_cpu_def)
  ultimately show ?thesis using m by blast
qed

lemma release:
  "spin_inv (Some d) s \<Longrightarrow> \<forall>c. \<not> misused s c \<Longrightarrow>
   \<exists>s'. spin_step\<^sup>*\<^sup>* s s' \<and> spin_inv None s' \<and> (\<forall>c. \<not> misused s' c) \<and> (\<forall>c. c \<noteq> d \<longrightarrow> point s' c = point s c)"
proof (induction "to_release (point s d)" arbitrary: s rule: less_induct)
  case less
  from release_step [OF less.prems] obtain own t where
    t: "spin_step s t" "spin_inv own t" "\<forall>c. \<not> misused t c" "\<forall>c. c \<noteq> d \<longrightarrow> point t c = point s c"
      "own = None \<or> own = Some d \<and> to_release (point t d) < to_release (point s d)" by blast
  show ?case
  proof (cases "own = None")
    case True
    moreover have "spin_step\<^sup>*\<^sup>* s t" using t(1) by (rule r_into_rtranclp)
    ultimately show ?thesis using t(2-4) by auto
  next
    case False
    with t(5) have "to_release (point t d) < to_release (point s d)" "spin_inv (Some d) t" using t(2) by auto
    from less.hyps [OF this t(3)] obtain u where
      u: "spin_step\<^sup>*\<^sup>* t u" "spin_inv None u" "\<forall>c. \<not> misused u c" "\<forall>c. c \<noteq> d \<longrightarrow> point u c = point t c" by blast
    from t(1) u(1) have "spin_step\<^sup>*\<^sup>* s u" by (rule converse_rtranclp_into_rtranclp)
    then show ?thesis using u(2-4) t(4) by auto
  qed
qed

lemma take_free_lock:
  assumes inv: "spin_inv None s" and m: "\<forall>c. \<not> misused s c" and p: "point s c = Lock_xchg"
  shows "\<exists>s'. spin_step\<^sup>*\<^sup>* s s' \<and> inside s' c \<and> (\<forall>c. \<not> misused s' c)"
proof -
  let ?a = "advance c undefined 0 s" and ?b = "\<lambda>s. advance c undefined 0 s"
  have "locked (lock s) = 0" using spin_invD(1) [OF inv] by simp
  then have pa: "point ?a c = Lock_record" "\<forall>c. \<not> misused ?a c" using p m by (simp_all add: advance_def xchg_def)
  then have pb: "point (?b ?a) c = Lock_pcs" "\<forall>c. \<not> misused (?b ?a) c"
    by (simp_all add: advance_def [of _ _ _ ?a])
  then have pc: "inside (?b (?b ?a)) c" "\<forall>c. \<not> misused (?b (?b ?a)) c" by (simp_all add: advance_def [of _ _ _ "?b ?a"])
  have "spin_step s ?a" "spin_step ?a (?b ?a)" "spin_step (?b ?a) (?b (?b ?a))"
    using p pa(1) pb(1) by (auto intro: spin_step.advance)
  then have "spin_step\<^sup>*\<^sup>* s (?b (?b ?a))"
    by (blast intro: converse_rtranclp_into_rtranclp)
  then show ?thesis using pc by blast
qed

section \<open>Properties\<close>

text \<open>
  C20: whatever the CPUs do, and in whatever order their accesses to the lock are interleaved, at
  most one of them is inside the lock; a CPU panics only after it called \<open>spin_lock\<close> while it
  held the lock or \<open>spin_unlock\<close> while it did not, and such a call never returns.
\<close>

theorem spin_lock_excludes:
  assumes "spin_reach s"
  shows "(inside s c \<and> inside s d \<longrightarrow> c = d) \<and> (point s c = Panicked \<longrightarrow> misused s c) \<and>
    (misused s c \<longrightarrow> point s c \<in> {Lock_locked, Lock_cpu, Unlock_locked, Unlock_cpu, Panicked})"
proof -
  obtain own where inv: "spin_inv own s" using spin_reach_inv [OF assms] by blast
  show ?thesis using spin_invD(2) [OF inv, of c] spin_invD(2) [OF inv, of d] by (auto simp: cpu_inv_def)
qed

lemma spin_reach_intros:
  "spin_reach spin0" "spin_reach s \<Longrightarrow> point s c = Running \<Longrightarrow> spin_reach (call_lock c s)"
  "spin_reach s \<Longrightarrow> point s c \<noteq> Running \<Longrightarrow> spin_reach (advance c m ebp s)"
  by (auto intro: rtranclp.rtrancl_into_rtrancl spin_step.intros)

text \<open>CPU 0 takes the lock; CPU 1 finds it taken and spins.\<close>

abbreviation (input) go :: "nat \<Rightarrow> spin \<Rightarrow> spin" where
  "go c \<equiv> advance c (\<lambda>_. 0) 0"

definition ex_at :: "u32 \<Rightarrow> nat option \<Rightarrow> point \<Rightarrow> point \<Rightarrow> bool \<Rightarrow> spin" where
  "ex_at v k p q i = \<lparr>lock = \<lparr>locked = v, lk_cpu = k, lk_pcs = replicate 10 0\<rparr>,
     point = (\<lambda>_. Running)(0 := p, 1 := q), inside = (\<lambda>_. False)(0 := i), misused = (\<lambda>_. False)\<rparr>"

lemma ex_at_moves:
  "spin0 = ex_at 0 None Running Running False"
  "call_lock 0 (ex_at v k Running q False) = ex_at v k Lock_locked q False"
  "go 0 (ex_at 0 k Lock_locked q i) = ex_at 0 k Lock_xchg q i"
  "go 0 (ex_at 0 k Lock_xchg q i) = ex_at 1 k Lock_record q i"
  "go 0 (ex_at v k Lock_record q i) = ex_at v (Some 0) Lock_pcs q i"
  "go 0 (ex_at v k Lock_pcs q i) = ex_at v k Running q True"
  "call_lock 1 (ex_at v k p Running i) = ex_at v k p Lock_locked i"
  "go 1 (ex_at 1 k p Lock_locked i) = ex_at 1 k p Lock_cpu i"
  "go 1 (ex_at v (Some 0) p Lock_cpu i) = ex_at v (Some 0) p Lock_xchg i"
  by (simp_all add: ex_at_def spin0_def kernel_lock_def call_lock_def advance_def holding_locked_def
      holding_cpu_def xchg_def get_caller_pcs_def eval_nat_numeral) (auto simp: fun_eq_iff)

abbreviation ex_spin :: spin where
  "ex_spin \<equiv> ex_at 1 (Some 0) Running Lock_xchg True"

lemma ex_spin:
  "spin_reach ex_spin" "inside ex_spin 0" "point ex_spin 1 = Lock_xchg" "\<not> misused ex_spin c"
proof -
  have p: "point (ex_at v k p q i) 0 = p" "point (ex_at v k p q i) 1 = q" for v k p q i
    by (simp_all add: ex_at_def)
  have call: "spin_reach s \<Longrightarrow> point s c = Running \<Longrightarrow> call_lock c s = t \<Longrightarrow> spin_reach t"
    and step: "spin_reach s \<Longrightarrow> point s c \<noteq> Running \<Longrightarrow> go c s = t \<Longrightarrow> spin_reach t" for s t c
    using spin_reach_intros(2,3) by blast+
  have "spin_reach (ex_at 0 None Running Running False)" using spin_reach_intros(1) ex_at_moves(1) by simp
  from call [OF this _ ex_at_moves(2)] have "spin_reach (ex_at 0 None Lock_locked Running False)" by (simp add: p)
  from step [OF this _ ex_at_moves(3)] have "spin_reach (ex_at 0 None Lock_xchg Running False)" by (simp add: p)
  from step [OF this _ ex_at_moves(4)] have "spin_reach (ex_at 1 None Lock_record Running False)" by (simp add: p)
  from step [OF this _ ex_at_moves(5)] have "spin_reach (ex_at 1 (Some 0) Lock_pcs Running False)" by (simp add: p)
  from step [OF this _ ex_at_moves(6)] have "spin_reach (ex_at 1 (Some 0) Running Running True)" by (simp add: p)
  from call [OF this _ ex_at_moves(7)] have "spin_reach (ex_at 1 (Some 0) Running Lock_locked True)"
    using p [of 1 "Some 0"] by simp
  from step [OF this _ ex_at_moves(8)] have "spin_reach (ex_at 1 (Some 0) Running Lock_cpu True)"
    using p [of 1 "Some 0"] by simp
  from step [OF this _ ex_at_moves(9)] show "spin_reach ex_spin" using p [of 1 "Some 0"] by simp
qed (simp_all add: ex_at_def)

theorem spin_lock_excludes_witness:
  "\<exists>s. spin_reach s \<and> inside s 0 \<and> point s 1 = Lock_xchg \<and> \<not> inside s 1 \<and> point s 0 \<noteq> Panicked"
proof (intro exI conjI)
  show "\<not> inside ex_spin 1" "point ex_spin 0 \<noteq> Panicked"
    using spin_lock_excludes [OF ex_spin(1), of 0 1] ex_spin(2,4) by auto
qed (rule ex_spin)+

text \<open>
  C36: the lock is free of deadlock: while no CPU misuses it, a CPU that spins can always still
  get the lock, by the owner going on to \<open>spin_unlock\<close>.
\<close>

theorem spin_lock_progress:
  assumes "spin_reach s" "\<forall>c. \<not> misused s c" "point s c = Lock_xchg"
  shows "\<exists>s'. spin_step\<^sup>*\<^sup>* s s' \<and> inside s' c \<and> (\<forall>c. \<not> misused s' c)"
proof -
  obtain own where inv: "spin_inv own s" using spin_reach_inv [OF assms(1)] by blast
  show ?thesis
  proof (cases own)
    case None
    then show ?thesis using take_free_lock [OF _ assms(2,3)] inv by simp
  next
    case (Some d)
    have "own \<noteq> Some c" using spin_invD(2) [OF inv, of c] assms(2) [rule_format, of c] assms(3)
      by (simp add: cpu_inv_def)
    then have d: "c \<noteq> d" using Some by simp
    obtain t where t: "spin_step\<^sup>*\<^sup>* s t" "spin_inv None t" "\<forall>c. \<not> misused t c"
      "\<forall>c. c \<noteq> d \<longrightarrow> point t c = point s c"
      using release [OF inv [unfolded Some] assms(2)] by blast
    have "point t c = Lock_xchg" using t(4) d assms(3) by simp
    from take_free_lock [OF t(2,3) this] show ?thesis using t(1) by (blast intro: rtranclp_trans)
  qed
qed

theorem spin_lock_progress_witness:
  "\<exists>s s'. point s 1 = Lock_xchg \<and> inside s 0 \<and> spin_step\<^sup>*\<^sup>* s s' \<and> inside s' 1"
  using spin_lock_progress [OF ex_spin(1) _ ex_spin(3)] ex_spin(2-4) by blast

end
