(* ===== verification/Pipe.thy ===== *)
theory Pipe
  imports Prelude "HOL-Library.Signed_Division"
begin

text \<open>
  Pipes (\<open>lib/pipe.c\<close>): one environment in \<open>devpipe_read\<close> and one in \<open>devpipe_write\<close> on the page
  they share, under every interleaving of their accesses to it.  A step is one access to the
  page; \<open>_pipeisclosed\<close> looks at the reference counts of the pages, which other environments
  change too, so its observations are an input of the step that calls it.
\<close>

abbreviation (input) PIPEBUFSIZ :: nat where "PIPEBUFSIZ \<equiv> 32"

record pipe =
  p_rpos :: u32
  p_wpos :: u32
  p_buf :: "u8 list"

text \<open>A page fresh from \<open>sys_page_alloc\<close> is an empty pipe.\<close>

definition pipe0 :: pipe where
  "pipe0 = \<lparr>p_rpos = 0, p_wpos = 0, p_buf = replicate PIPEBUFSIZ 0\<rparr>"

text \<open>
  \<open>pos % PIPEBUFSIZ\<close> on an \<open>off_t\<close>; a negative remainder would be an access before the buffer.
\<close>

definition pipe_slot :: "u32 \<Rightarrow> nat option" where
  "pipe_slot pos = (let i = sint pos smod 32 in if 0 \<le> i then Some (nat i) else None)"

text \<open>
  The loop of \<open>_pipeisclosed\<close> over what it observes: \<open>env_runs\<close>, \<open>pageref(fd)\<close>, \<open>pageref(p)\<close>,
  \<open>env_runs\<close>.
\<close>

fun pipeisclosed_loop :: "(u32 \<times> u32 \<times> u32 \<times> u32) list \<Rightarrow> bool option" where
  "pipeisclosed_loop [] = None"
| "pipeisclosed_loop ((n, fd, p, nn) # obs) = (if n = nn then Some (fd = p) else pipeisclosed_loop obs)"

section \<open>devpipe_read\<close>

datatype rpoint = R_idle | R_for | R_empty | R_closed | R_take | R_next

record reader =
  r_at :: rpoint
  r_n :: u32
  r_i :: u32
  r_buf :: "u8 list"

text \<open>
  A reader step leads to the next point, or returns a count.  \<open>obs\<close> is what \<open>_pipeisclosed\<close>
  observes if this step calls it.
\<close>

fun read_step :: "rpoint \<Rightarrow> (u32 \<times> u32 \<times> u32 \<times> u32) list \<Rightarrow> pipe \<Rightarrow> reader \<Rightarrow> (u32 option \<times> pipe \<times> reader) option" where
  "read_step R_for obs p r =
     (if r_i r < r_n r then Some (None, p, r\<lparr>r_at := R_empty\<rparr>) else Some (Some (r_i r), p, r))"
| "read_step R_empty obs p r =
     (if p_rpos p = p_wpos p
      then if 0 < r_i r then Some (Some (r_i r), p, r) else Some (None, p, r\<lparr>r_at := R_closed\<rparr>)
      else Some (None, p, r\<lparr>r_at := R_take\<rparr>))"
| "read_step R_closed obs p r = do {
     closed \<leftarrow> pipeisclosed_loop obs;
     if closed then Some (Some 0, p, r) else Some (None, p, r\<lparr>r_at := R_empty\<rparr>) }"
| "read_step R_take obs p r = do {
     k \<leftarrow> pipe_slot (p_rpos p);
     Some (None, p, r\<lparr>r_buf := (r_buf r)[unat (r_i r) := p_buf p ! k], r_at := R_next\<rparr>) }"
| "read_step R_next obs p r =
     Some (None, p\<lparr>p_rpos := p_rpos p + 1\<rparr>, r\<lparr>r_i := r_i r + 1, r_at := R_for\<rparr>)"
| "read_step R_idle obs p r = None"

section \<open>devpipe_write\<close>

datatype wpoint = W_idle | W_for | W_full | W_closed | W_put | W_next

record writer =
  w_at :: wpoint
  w_n :: u32
  w_i :: u32
  w_buf :: "u8 list"

text \<open>
  \<open>p->p_rpos + sizeof(p->p_buf)\<close> has the type \<open>size_t\<close>, so the comparison with it is unsigned.
\<close>

fun write_step :: "wpoint \<Rightarrow> (u32 \<times> u32 \<times> u32 \<times> u32) list \<Rightarrow> pipe \<Rightarrow> writer \<Rightarrow> (u32 option \<times> pipe \<times> writer) option" where
  "write_step W_for obs p w =
     (if w_i w < w_n w then Some (None, p, w\<lparr>w_at := W_full\<rparr>) else Some (Some (w_i w), p, w))"
| "write_step W_full obs p w =
     Some (None, p, w\<lparr>w_at := (if p_rpos p + 32 \<le> p_wpos p then W_closed else W_put)\<rparr>)"
| "write_step W_closed obs p w = do {
     closed \<leftarrow> pipeisclosed_loop obs;
     if closed then Some (Some 0, p, w) else Some (None, p, w\<lparr>w_at := W_full\<rparr>) }"
| "write_step W_put obs p w = do {
     k \<leftarrow> pipe_slot (p_wpos p);
     Some (None, p\<lparr>p_buf := (p_buf p)[k := w_buf w ! unat (w_i w)]\<rparr>, w\<lparr>w_at := W_next\<rparr>) }"
| "write_step W_next obs p w =
     Some (None, p\<lparr>p_wpos := p_wpos p + 1\<rparr>, w\<lparr>w_i := w_i w + 1, w_at := W_for\<rparr>)"
| "write_step W_idle obs p w = None"

section \<open>The two environments and the page\<close>

text \<open>
  \<open>taken\<close> collects what finished calls of \<open>devpipe_read\<close> delivered, the first bytes of the buffer
  as many as the result says; \<open>given\<close> collects the bytes that finished calls of \<open>devpipe_write\<close>
  stored in the pipe.  The count of \<open>devpipe_write\<close> is not used for that: when the readers are gone
  it returns 0 whatever it has stored.
\<close>

record pipes =
  pg :: pipe
  rd :: reader
  wr :: writer
  taken :: "u8 list"
  given :: "u8 list"

definition pipes0 :: pipes where
  "pipes0 = \<lparr>pg = pipe0, rd = \<lparr>r_at = R_idle, r_n = 0, r_i = 0, r_buf = []\<rparr>,
     wr = \<lparr>w_at = W_idle, w_n = 0, w_i = 0, w_buf = []\<rparr>, taken = [], given = []\<rparr>"

definition read_part :: "reader \<Rightarrow> u8 list" where
  "read_part r = take (unat (r_i r)) (r_buf r)"

definition write_part :: "writer \<Rightarrow> u8 list" where
  "write_part w = take (unat (w_i w)) (w_buf w)"

definition read_call :: "u8 list \<Rightarrow> pipes \<Rightarrow> pipes" where
  "read_call buf s = s\<lparr>rd := \<lparr>r_at = R_for, r_n = of_nat (length buf), r_i = 0, r_buf = buf\<rparr>\<rparr>"

definition write_call :: "u8 list \<Rightarrow> pipes \<Rightarrow> pipes" where
  "write_call buf s = s\<lparr>wr := \<lparr>w_at = W_for, w_n = of_nat (length buf), w_i = 0, w_buf = buf\<rparr>\<rparr>"

definition read_done :: "u32 option \<times> pipe \<times> reader \<Rightarrow> pipes \<Rightarrow> pipes" where
  "read_done = (\<lambda>(ret, p, r) s. case ret of
       None \<Rightarrow> s\<lparr>pg := p, rd := r\<rparr>
     | Some k \<Rightarrow> s\<lparr>pg := p, rd := r\<lparr>r_at := R_idle, r_i := 0\<rparr>, taken := taken s @ take (unat k) (r_buf r)\<rparr>)"

definition write_done :: "u32 option \<times> pipe \<times> writer \<Rightarrow> pipes \<Rightarrow> pipes" where
  "write_done = (\<lambda>(ret, p, w) s. case ret of
       None \<Rightarrow> s\<lparr>pg := p, wr := w\<rparr>
     | Some k \<Rightarrow> s\<lparr>pg := p, wr := w\<lparr>w_at := W_idle, w_i := 0\<rparr>, given := given s @ write_part w\<rparr>)"

inductive pipe_step :: "pipes \<Rightarrow> pipes \<Rightarrow> bool" where
  call_read: "r_at (rd s) = R_idle \<Longrightarrow> length buf < 2 ^ 32 \<Longrightarrow> pipe_step s (read_call buf s)"
| call_write: "w_at (wr s) = W_idle \<Longrightarrow> length buf < 2 ^ 32 \<Longrightarrow> pipe_step s (write_call buf s)"
| step_read: "read_step (r_at (rd s)) obs (pg s) (rd s) = Some x \<Longrightarrow> pipe_step s (read_done x s)"
| step_write: "write_step (w_at (wr s)) obs (pg s) (wr s) = Some x \<Longrightarrow> pipe_step s (write_done x s)"

inductive_cases pipe_stepE: "pipe_step s s'"

abbreviation pipe_reach :: "pipes \<Rightarrow> bool" where
  "pipe_reach \<equiv> pipe_step\<^sup>*\<^sup>* pipes0"

text \<open>The bytes that have come out of the pipe and that have gone in, the running calls included.\<close>

definition received :: "pipes \<Rightarrow> u8 list" where
  "received s = taken s @ read_part (rd s)"

definition sent :: "pipes \<Rightarrow> u8 list" where
  "sent s = given s @ write_part (wr s)"

section \<open>The page as a bounded queue\<close>

definition pipe_ok :: "pipe \<Rightarrow> bool" where
  "pipe_ok p \<longleftrightarrow> unat (p_rpos p) \<le> unat (p_wpos p) \<and> unat (p_wpos p) \<le> unat (p_rpos p) + 32 \<and>
     unat (p_wpos p) < 2 ^ 31 \<and> length (p_buf p) = 32"

definition pipe_items :: "pipe \<Rightarrow> u8 list" where
  "pipe_items p = map (\<lambda>k. p_buf p ! (k mod 32)) [unat (p_rpos p)..<unat (p_wpos p)]"

definition pipe_put :: "u8 \<Rightarrow> pipe \<Rightarrow> pipe" where
  "pipe_put x p = p\<lparr>p_buf := (p_buf p)[the (pipe_slot (p_wpos p)) := x], p_wpos := p_wpos p + 1\<rparr>"

definition pipe_get :: "pipe \<Rightarrow> u8 \<times> pipe" where
  "pipe_get p = (p_buf p ! the (pipe_slot (p_rpos p)), p\<lparr>p_rpos := p_rpos p + 1\<rparr>)"

definition pipe_room :: "pipe \<Rightarrow> nat" where
  "pipe_room p = min (unat (p_rpos p) + 32 - unat (p_wpos p)) (2 ^ 31 - 1 - unat (p_wpos p))"

lemma pipe_slot_small: "unat a < 2 ^ 31 \<Longrightarrow> pipe_slot a = Some (unat a mod 32)"
proof -
  assume a: "unat a < 2 ^ 31"
  have "uint a smod 32 = uint a mod 32"
    by (cases "a = 0"; simp add: signed_modulo_int_def signed_divide_int_def)
  moreover have "nat (uint a mod 32) = unat a mod 32" by (simp add: nat_mod_distrib)
  ultimately show ?thesis using sint_small [OF a] by (simp add: pipe_slot_def)
qed

lemma unat_next: "unat a < 2 ^ 31 \<Longrightarrow> unat (a + 1 :: u32) = Suc (unat a)"
  using unat_add_no_wrap [of a 1] by simp

lemma pipe_items_length: "length (pipe_items p) = unat (p_wpos p) - unat (p_rpos p)"
  by (simp add: pipe_items_def)

text \<open>Storing a byte in the free slot, and then counting it in.\<close>

lemma pipe_store:
  fixes p :: pipe and x :: u8
  assumes "pipe_ok p" "unat (p_wpos p) < unat (p_rpos p) + 32"
  defines "q \<equiv> p\<lparr>p_buf := (p_buf p)[unat (p_wpos p) mod 32 := x]\<rparr>"
  shows "pipe_ok q" "pipe_items q = pipe_items p" "p_buf q ! (unat (p_wpos p) mod 32) = x"
proof -
  have "unat (p_wpos p) mod 32 \<noteq> k mod 32" if "unat (p_rpos p) \<le> k" "k < unat (p_wpos p)" for k
  proof
    assume "unat (p_wpos p) mod 32 = k mod 32"
    then have "32 dvd unat (p_wpos p) - k" using that(2) by (metis mod_eq_dvd_iff_nat less_imp_le)
    from dvd_imp_le [OF this] show False using that assms(2) by simp
  qed
  then show "pipe_items q = pipe_items p" by (simp add: q_def pipe_items_def)
  show "pipe_ok q" "p_buf q ! (unat (p_wpos p) mod 32) = x" using assms(1) by (simp_all add: q_def pipe_ok_def)
qed

lemma pipe_bump:
  fixes p :: pipe
  assumes "pipe_ok p" "unat (p_wpos p) < unat (p_rpos p) + 32" "unat (p_wpos p) < 2 ^ 31 - 1"
  defines "q \<equiv> p\<lparr>p_wpos := p_wpos p + 1\<rparr>"
  shows "pipe_ok q" "pipe_items q = pipe_items p @ [p_buf p ! (unat (p_wpos p) mod 32)]"
    "unat (p_wpos q) = Suc (unat (p_wpos p))"
proof -
  have "unat (p_wpos p + 1) = Suc (unat (p_wpos p))" using unat_next assms(3) by simp
  then show "pipe_ok q" "pipe_items q = pipe_items p @ [p_buf p ! (unat (p_wpos p) mod 32)]"
    "unat (p_wpos q) = Suc (unat (p_wpos p))"
    using assms by (simp_all add: pipe_ok_def pipe_items_def)
qed

lemma pipe_put_ok:
  assumes "pipe_ok p" "0 < pipe_room p"
  shows "pipe_ok (pipe_put x p) \<and> pipe_items (pipe_put x p) = pipe_items p @ [x] \<and>
    pipe_room p \<le> Suc (pipe_room (pipe_put x p))"
proof -
  have b: "unat (p_wpos p) < unat (p_rpos p) + 32" "unat (p_wpos p) < 2 ^ 31 - 1"
    using assms by (simp_all add: pipe_room_def)
  let ?q = "p\<lparr>p_buf := (p_buf p)[unat (p_wpos p) mod 32 := x]\<rparr>"
  have q: "pipe_put x p = ?q\<lparr>p_wpos := p_wpos ?q + 1\<rparr>" using pipe_slot_small b(2) by (simp add: pipe_put_def)
  note st = pipe_store [OF assms(1) b(1), of x]
  have "unat (p_wpos ?q) < unat (p_rpos ?q) + 32" "unat (p_wpos ?q) < 2 ^ 31 - 1" using b by simp_all
  note bu = pipe_bump [OF st(1) this]
  show ?thesis unfolding q using bu st by (simp add: pipe_room_def)
qed

lemma pipe_get_ok:
  assumes "pipe_ok p" "pipe_items p = x # xs"
  shows "fst (pipe_get p) = x \<and> pipe_ok (snd (pipe_get p)) \<and> pipe_items (snd (pipe_get p)) = xs"
proof -
  have l: "unat (p_rpos p) < unat (p_wpos p)" using arg_cong [OF assms(2), of length] by (simp add: pipe_items_length)
  then have r: "unat (p_rpos p) < 2 ^ 31" using assms(1) by (simp add: pipe_ok_def)
  have "[unat (p_rpos p)..<unat (p_wpos p)] = unat (p_rpos p) # [Suc (unat (p_rpos p))..<unat (p_wpos p)]"
    using l by (rule upt_conv_Cons)
  then show ?thesis using assms l unat_next [OF r] pipe_slot_small [OF r]
    by (auto simp: pipe_ok_def pipe_items_def pipe_get_def)
qed

interpretation pipe_queue: fifo pipe_ok pipe_items pipe_room pipe_put pipe_get
  by unfold_locales (use pipe_put_ok pipe_get_ok in blast)+

section \<open>The invariant\<close>

definition reader_ok :: "pipe \<Rightarrow> reader \<Rightarrow> bool" where
  "reader_ok p r \<longleftrightarrow> unat (r_n r) = length (r_buf r) \<and> r_i r \<le> r_n r \<and>
     (r_at r \<in> {R_empty, R_closed, R_take, R_next} \<longrightarrow> r_i r < r_n r) \<and>
     (r_at r \<in> {R_idle, R_closed} \<longrightarrow> r_i r = 0) \<and>
     (r_at r \<in> {R_take, R_next} \<longrightarrow> pipe_items p \<noteq> []) \<and>
     (r_at r = R_next \<longrightarrow> r_buf r ! unat (r_i r) = hd (pipe_items p))"

definition writer_local :: "writer \<Rightarrow> bool" where
  "writer_local w \<longleftrightarrow> unat (w_n w) = length (w_buf w) \<and> w_i w \<le> w_n w \<and>
     (w_at w \<in> {W_full, W_closed, W_put, W_next} \<longrightarrow> w_i w < w_n w) \<and> (w_at w = W_idle \<longrightarrow> w_i w = 0)"

definition writer_ok :: "pipe \<Rightarrow> writer \<Rightarrow> bool" where
  "writer_ok p w \<longleftrightarrow> writer_local w \<and>
     (w_at w \<in> {W_put, W_next} \<longrightarrow> unat (p_wpos p) < unat (p_rpos p) + 32) \<and>
     (w_at w = W_next \<longrightarrow> p_buf p ! (unat (p_wpos p) mod 32) = w_buf w ! unat (w_i w))"

definition pipes_inv :: "pipes \<Rightarrow> bool" where
  "pipes_inv s \<longleftrightarrow> pipe_ok (pg s) \<and> unat (p_rpos (pg s)) = length (received s) \<and>
     sent s = received s @ pipe_items (pg s) \<and>
     reader_ok (pg s) (rd s) \<and> writer_ok (pg s) (wr s)"

lemma next_index:
  assumes "(i :: u32) < n" "unat n = length xs"
  shows "take (unat (i + 1)) xs = take (unat i) xs @ [xs ! unat i]" "i + 1 \<le> n" "unat i < length xs"
proof -
  have l: "unat i < length xs" using assms by (simp add: word_less_nat_alt)
  have "unat (i + 1) = Suc (unat i)"
    using unat_add_no_wrap [of i 1] l assms(2) unat_less_32 [of n] by simp
  then show "take (unat (i + 1)) xs = take (unat i) xs @ [xs ! unat i]" "i + 1 \<le> n" "unat i < length xs"
    using l assms(2) by (simp_all add: take_Suc_conv_app_nth word_le_nat_alt)
qed

lemmas step_simps = pipes_inv_def read_done_def write_done_def reader_ok_def writer_ok_def writer_local_def received_def
  sent_def read_part_def write_part_def

lemma pipes_invD:
  assumes "pipes_inv s"
  shows "pipe_ok (pg s)" "unat (p_rpos (pg s)) < 2 ^ 31" "unat (p_wpos (pg s)) < 2 ^ 31"
    "p_rpos (pg s) \<noteq> p_wpos (pg s) \<Longrightarrow> pipe_items (pg s) \<noteq> []"
    "pipe_items (pg s) \<noteq> [] \<Longrightarrow> hd (pipe_items (pg s)) = p_buf (pg s) ! (unat (p_rpos (pg s)) mod 32)"
    "unat (p_wpos (pg s)) = length (sent s)"
proof -
  show ok: "pipe_ok (pg s)" using assms by (simp add: pipes_inv_def)
  then show "unat (p_rpos (pg s)) < 2 ^ 31" "unat (p_wpos (pg s)) < 2 ^ 31" by (simp_all add: pipe_ok_def)
  show "unat (p_wpos (pg s)) = length (sent s)"
    using assms pipe_items_length [of "pg s"] by (simp add: pipes_inv_def pipe_ok_def)
  show "pipe_items (pg s) \<noteq> []" if "p_rpos (pg s) \<noteq> p_wpos (pg s)"
  proof -
    have "unat (p_rpos (pg s)) \<noteq> unat (p_wpos (pg s))" using that by (simp add: word_unat_eq_iff)
    then show ?thesis using ok by (simp add: pipe_items_def pipe_ok_def)
  qed
  show "hd (pipe_items (pg s)) = p_buf (pg s) ! (unat (p_rpos (pg s)) mod 32)" if "pipe_items (pg s) \<noteq> []"
    using that by (simp add: pipe_items_def hd_map)
qed

text \<open>The reader sees only the items; more of them do not disturb it.\<close>

lemma reader_ok_items:
  assumes "reader_ok p r" "pipe_items q = pipe_items p @ xs"
  shows "reader_ok q r"
  using assms(1) unfolding reader_ok_def assms(2) by (auto simp: hd_append)

lemma writer_ok_rpos:
  "writer_ok p w \<Longrightarrow> unat (p_rpos p) \<le> unat (p_rpos q) \<Longrightarrow> p_wpos q = p_wpos p \<Longrightarrow> p_buf q = p_buf p \<Longrightarrow> writer_ok q w"
  by (auto simp: writer_ok_def)

text \<open>A step that leaves the page alone, and the return of a call.\<close>

lemma quiet_steps:
  assumes "pipes_inv s"
  shows "reader_ok (pg s) r \<Longrightarrow> read_part r = read_part (rd s) \<Longrightarrow> pipes_inv (read_done (None, pg s, r) s)"
    "r_i (rd s) = k \<Longrightarrow> pipes_inv (read_done (Some k, pg s, rd s) s)"
    "writer_ok (pg s) w \<Longrightarrow> write_part w = write_part (wr s) \<Longrightarrow> pipes_inv (write_done (None, pg s, w) s)"
    "pipes_inv (write_done (Some k, pg s, wr s) s)"
proof -
  note I = assms [unfolded pipes_inv_def]
  show "pipes_inv (read_done (None, pg s, r) s)" if "reader_ok (pg s) r" "read_part r = read_part (rd s)"
    using I that by (simp add: pipes_inv_def read_done_def received_def sent_def)
  show "pipes_inv (write_done (None, pg s, w) s)" if "writer_ok (pg s) w" "write_part w = write_part (wr s)"
    using I that by (simp add: pipes_inv_def write_done_def received_def sent_def)
  have "received (read_done (Some k, pg s, rd s) s) = received s" "reader_ok (pg s) (rd s\<lparr>r_at := R_idle, r_i := 0\<rparr>)"
    if "r_i (rd s) = k"
    using I that by (simp_all add: received_def read_done_def read_part_def reader_ok_def)
  then show "pipes_inv (read_done (Some k, pg s, rd s) s)" if "r_i (rd s) = k"
    using I that by (simp add: pipes_inv_def) (simp add: read_done_def sent_def)
  have "sent (write_done (Some k, pg s, wr s) s) = sent s" "writer_ok (pg s) (wr s\<lparr>w_at := W_idle, w_i := 0\<rparr>)"
    using I by (simp_all add: sent_def write_done_def write_part_def writer_ok_def writer_local_def)
  then show "pipes_inv (write_done (Some k, pg s, wr s) s)"
    using I by (simp add: pipes_inv_def) (simp add: write_done_def received_def)
qed

lemma reader_inv:
  assumes inv: "pipes_inv s" and step: "read_step (r_at (rd s)) obs (pg s) (rd s) = Some x"
  shows "pipes_inv (read_done x s)"
proof -
  note I = inv [unfolded pipes_inv_def] and D = pipes_invD [OF inv] and Q = quiet_steps(1,2) [OF inv]
  have ro: "reader_ok (pg s) (rd s)" using I by simp
  show ?thesis
  proof (cases "r_at (rd s)")
    case R_for
    then show ?thesis using ro step Q by (auto simp: reader_ok_def read_part_def split: if_splits)
  next
    case R_empty
    then show ?thesis using ro step D(4) Q
      by (auto simp: reader_ok_def read_part_def word_gt_0 split: if_splits)
  next
    case R_closed
    then show ?thesis using ro step Q
      by (auto simp: reader_ok_def read_part_def split: if_splits bind_splits)
  next
    case R_take
    then have "r_i (rd s) < r_n (rd s)" "unat (r_n (rd s)) = length (r_buf (rd s))" "pipe_items (pg s) \<noteq> []"
      using I by (simp_all add: reader_ok_def)
    note r = this
    let ?r = "(rd s)\<lparr>r_buf := (r_buf (rd s))[unat (r_i (rd s)) := hd (pipe_items (pg s))], r_at := R_next\<rparr>"
    have "x = (None, pg s, ?r)" using step R_take D(5) [OF r(3)] pipe_slot_small [OF D(2)] by simp
    moreover have "reader_ok (pg s) ?r" "read_part ?r = read_part (rd s)"
      using ro r next_index(3) [OF r(1,2)] by (simp_all add: reader_ok_def read_part_def)
    ultimately show ?thesis using Q(1) by simp
  next
    case R_next
    then have r: "r_i (rd s) < r_n (rd s)" "unat (r_n (rd s)) = length (r_buf (rd s))"
      "r_buf (rd s) ! unat (r_i (rd s)) = hd (pipe_items (pg s))" "pipe_items (pg s) \<noteq> []"
      using I by (simp_all add: reader_ok_def)
    let ?q = "(pg s)\<lparr>p_rpos := p_rpos (pg s) + 1\<rparr>"
    let ?r = "(rd s)\<lparr>r_i := r_i (rd s) + 1, r_at := R_for\<rparr>"
    have "x = (None, ?q, ?r)" using step R_next by simp
    then have x: "read_done x s = s\<lparr>pg := ?q, rd := ?r\<rparr>" by (simp add: read_done_def)
    have q: "pipe_ok ?q" "pipe_items (pg s) = hd (pipe_items (pg s)) # pipe_items ?q"
      using pipe_get_ok [OF D(1), of "hd (pipe_items (pg s))" "tl (pipe_items (pg s))"] r(4)
      by (simp_all add: pipe_get_def)
    have "received (read_done x s) = received s @ [hd (pipe_items (pg s))]" "sent (read_done x s) = sent s"
      unfolding x using r(3) next_index(1) [OF r(1,2)] by (simp_all add: received_def sent_def read_part_def)
    moreover have "reader_ok ?q ?r" using ro next_index(2) [OF r(1,2)] by (simp add: reader_ok_def)
    moreover have "writer_ok ?q (wr s)" using I unat_next [OF D(2)] writer_ok_rpos [of "pg s" "wr s" ?q] by simp
    ultimately show ?thesis using I q unat_next [OF D(2)] unfolding x by (simp add: pipes_inv_def)
  qed (use step in simp)
qed

lemma writer_inv:
  assumes inv: "pipes_inv s" and step: "write_step (w_at (wr s)) obs (pg s) (wr s) = Some x"
    and bound: "length (sent (write_done x s)) < 2 ^ 31"
  shows "pipes_inv (write_done x s)"
proof -
  note I = inv [unfolded pipes_inv_def] and D = pipes_invD [OF inv] and Q = quiet_steps(3,4) [OF inv]
  have wo: "writer_ok (pg s) (wr s)" using I by simp
  show ?thesis
  proof (cases "w_at (wr s)")
    case W_for
    then show ?thesis using wo step Q by (auto simp: writer_ok_def writer_local_def write_part_def split: if_splits)
  next
    case W_full
    have "unat (p_rpos (pg s) + 32) = unat (p_rpos (pg s)) + 32"
      using D(2) unat_add_no_wrap [of "p_rpos (pg s)" 32] by simp
    then have "p_rpos (pg s) + 32 \<le> p_wpos (pg s) \<longleftrightarrow> \<not> unat (p_wpos (pg s)) < unat (p_rpos (pg s)) + 32"
      by (simp add: word_le_nat_alt not_less)
    then show ?thesis using wo step W_full Q
      by (auto simp: writer_ok_def writer_local_def write_part_def split: if_splits)
  next
    case W_closed
    then show ?thesis using wo step Q
      by (auto simp: writer_ok_def writer_local_def write_part_def split: if_splits bind_splits)
  next
    case W_put
    then have "unat (p_wpos (pg s)) < unat (p_rpos (pg s)) + 32" using I by (simp add: writer_ok_def writer_local_def)
    note st = pipe_store [OF D(1) this, of "w_buf (wr s) ! unat (w_i (wr s))"]
    let ?q = "(pg s)\<lparr>p_buf := (p_buf (pg s))[unat (p_wpos (pg s)) mod 32 := w_buf (wr s) ! unat (w_i (wr s))]\<rparr>"
      and ?w = "(wr s)\<lparr>w_at := W_next\<rparr>"
    have "x = (None, ?q, ?w)" using step W_put pipe_slot_small [OF D(3)] by simp
    then have "write_done x s = s\<lparr>pg := ?q, wr := ?w\<rparr>" by (simp add: write_done_def)
    moreover have "writer_ok ?q ?w" using wo W_put st(3) by (simp add: writer_ok_def writer_local_def)
    moreover have "reader_ok ?q (rd s)" using I reader_ok_items [of "pg s" "rd s" ?q] st(2) by simp
    ultimately show ?thesis using I st by (simp add: pipes_inv_def) (simp add: received_def sent_def write_part_def)
  next
    case W_next
    then have w: "w_i (wr s) < w_n (wr s)" "unat (w_n (wr s)) = length (w_buf (wr s))"
      "unat (p_wpos (pg s)) < unat (p_rpos (pg s)) + 32"
      "p_buf (pg s) ! (unat (p_wpos (pg s)) mod 32) = w_buf (wr s) ! unat (w_i (wr s))"
      using I by (simp_all add: writer_ok_def writer_local_def)
    let ?q = "(pg s)\<lparr>p_wpos := p_wpos (pg s) + 1\<rparr>" and ?w = "(wr s)\<lparr>w_i := w_i (wr s) + 1, w_at := W_for\<rparr>"
    have "x = (None, ?q, ?w)" using step W_next by simp
    then have x: "write_done x s = s\<lparr>pg := ?q, wr := ?w\<rparr>" by (simp add: write_done_def)
    have st: "sent (write_done x s) = sent s @ [w_buf (wr s) ! unat (w_i (wr s))]"
      unfolding x using next_index(1) [OF w(1,2)] by (simp add: sent_def write_part_def)
    have "unat (p_wpos (pg s)) < 2 ^ 31 - 1" using bound D(6) unfolding st by simp
    note bu = pipe_bump [OF D(1) w(3) this]
    have "received (write_done x s) = received s" unfolding x by (simp add: received_def)
    moreover have "writer_ok ?q ?w" using wo next_index(2) [OF w(1,2)] by (simp add: writer_ok_def writer_local_def)
    moreover have "reader_ok ?q (rd s)" using I reader_ok_items [of "pg s" "rd s" ?q] bu(2) by simp
    ultimately show ?thesis using I bu w(4) st unfolding x by (simp add: pipes_inv_def)
  qed (use step in simp)
qed

text \<open>The writer's own variables, and that nothing that was sent is taken back, need no bound.\<close>

lemma writer_local_step:
  assumes "write_step (w_at w) obs p w = Some (ret, p', w')" "writer_local w"
  shows "writer_local w' \<and> length (write_part w) \<le> length (write_part w')"
proof (cases "w_at w")
  case W_next
  then have "w_i w < w_n w" "unat (w_n w) = length (w_buf w)" using assms(2) by (simp_all add: writer_local_def)
  note n = next_index [OF this]
  have w: "w' = w\<lparr>w_i := w_i w + 1, w_at := W_for\<rparr>" using assms(1) W_next by simp
  have "write_part w' = write_part w @ [w_buf w ! unat (w_i w)]" using n(1) by (simp add: w write_part_def)
  then show ?thesis using assms(2) n(2) by (simp add: w writer_local_def)
qed (use assms in \<open>auto simp: writer_local_def write_part_def split: if_splits bind_splits\<close>)

lemma sent_grows:
  assumes "pipe_step s s'" "writer_local (wr s)"
  shows "writer_local (wr s') \<and> length (sent s) \<le> length (sent s')"
  using assms(1)
proof (rule pipe_stepE)
  show ?thesis if "s' = read_call buf s" for buf using assms(2) by (simp add: that read_call_def sent_def)
  show ?thesis if "s' = write_call buf s" "w_at (wr s) = W_idle" "length buf < 4294967296" for buf
    using that assms(2) by (simp add: write_call_def sent_def writer_local_def write_part_def unat_of_nat32)
  show ?thesis if "s' = read_done x s" for x
    using assms(2) by (simp add: that read_done_def sent_def split: prod.split option.split)
  show ?thesis if s': "s' = write_done x s" and st: "write_step (w_at (wr s)) obs (pg s) (wr s) = Some x" for obs x
  proof -
    obtain ret p w where x: "x = (ret, p, w)" by (cases x)
    from writer_local_step [OF st [unfolded x] assms(2)] show ?thesis
      unfolding s' x by (cases ret) (auto simp: write_done_def sent_def write_part_def writer_local_def)
  qed
qed

lemma pipes_inv_step:
  assumes "pipe_step s s'" "pipes_inv s" "length (sent s') < 2 ^ 31"
  shows "pipes_inv s'"
  using assms(1)
proof (rule pipe_stepE)
  note I = assms(2) [unfolded pipes_inv_def]
  show ?thesis if s': "s' = read_call buf s" and b: "r_at (rd s) = R_idle" "length buf < 4294967296" for buf
  proof -
    have "received s' = received s" "sent s' = sent s" "reader_ok (pg s) (rd s')" "pg s' = pg s" "wr s' = wr s"
      using I b by (simp_all add: s' read_call_def received_def sent_def read_part_def reader_ok_def unat_of_nat32)
    then show ?thesis using I by (simp add: pipes_inv_def)
  qed
  show ?thesis if s': "s' = write_call buf s" and b: "w_at (wr s) = W_idle" "length buf < 4294967296" for buf
  proof -
    have "received s' = received s" "sent s' = sent s" "writer_ok (pg s) (wr s')" "pg s' = pg s" "rd s' = rd s"
      using I b by (simp_all add: s' write_call_def received_def sent_def write_part_def writer_ok_def
          writer_local_def unat_of_nat32)
    then show ?thesis using I by (simp add: pipes_inv_def)
  qed
qed (use assms(2,3) reader_inv writer_inv in blast)+

lemma pipe_reach_inv:
  "pipe_reach s \<Longrightarrow> writer_local (wr s) \<and> (length (sent s) < 2 ^ 31 \<longrightarrow> pipes_inv s)"
proof (induction rule: rtranclp_induct)
  case base
  show ?case by (simp add: pipes0_def pipe0_def step_simps pipe_ok_def pipe_items_def)
next
  case (step s t)
  then show ?case using sent_grows [of s t] pipes_inv_step [of s t] by force
qed

section \<open>Properties\<close>

text \<open>
  C21: whatever the interleaving, the bytes that the reader has got are the bytes the writer has put
  in, all of them but at most 32 and in order, no access is outside the buffer, and reader and
  writer are never blocked together - as long as fewer than two gigabytes have gone through the
  pipe.
\<close>

theorem pipe_fifo:
  assumes "pipe_reach s" "length (sent s) < 2 ^ 31"
  shows "(\<exists>rest. sent s = received s @ rest \<and> length rest \<le> 32) \<and>
    pipe_slot (p_rpos (pg s)) \<noteq> None \<and> pipe_slot (p_wpos (pg s)) \<noteq> None \<and>
    \<not> (p_rpos (pg s) = p_wpos (pg s) \<and> p_rpos (pg s) + 32 \<le> p_wpos (pg s))"
proof -
  have inv: "pipes_inv s" using pipe_reach_inv assms by blast
  note D = pipes_invD [OF inv]
  have "length (pipe_items (pg s)) \<le> 32" using D(1) unfolding pipe_items_length pipe_ok_def by linarith
  moreover have "unat (p_rpos (pg s) + 32) = unat (p_rpos (pg s)) + 32"
    using D(2) unat_add_no_wrap [of "p_rpos (pg s)" 32] by simp
  ultimately show ?thesis
    using inv pipe_slot_small [OF D(2)] pipe_slot_small [OF D(3)]
    by (auto simp: pipes_inv_def word_le_nat_alt)
qed

text \<open>Running given steps: \<open>True\<close> a step of the reader, \<open>False\<close> one of the writer.\<close>

fun pipe_run :: "bool list \<Rightarrow> pipes \<Rightarrow> pipes option" where
  "pipe_run [] s = Some s"
| "pipe_run (b # bs) s =
     (if b then do { x \<leftarrow> read_step (r_at (rd s)) [] (pg s) (rd s); pipe_run bs (read_done x s) }
      else do { x \<leftarrow> write_step (w_at (wr s)) [] (pg s) (wr s); pipe_run bs (write_done x s) })"

lemma pipe_run_reach: "pipe_reach s \<Longrightarrow> pipe_run bs s = Some s' \<Longrightarrow> pipe_reach s'"
proof (induction bs arbitrary: s)
  case (Cons b bs)
  then show ?case
    by (auto split: if_splits bind_splits intro: rtranclp.rtrancl_into_rtrancl step_read step_write)
qed simp

definition ex_pipe :: pipes where
  "ex_pipe = (let s = write_call [0x61, 0x62] (read_call [0, 0, 0] pipes0)
     in the (pipe_run [False, False, False, False, True, True, True, True, False, False, False, False] s))"

lemma ex_pipe:
  "pipe_reach ex_pipe" "sent ex_pipe = [0x61, 0x62]" "received ex_pipe = [0x61]"
proof -
  have zeros: "replicate 32 (0 :: u8) = 0 # 0 # replicate 30 0" by (simp add: eval_nat_numeral)
  have full: "\<not> (33 :: u32) \<le> 1" by (simp add: word_le_nat_alt)
  have run: "\<exists>s. pipe_run [False, False, False, False, True, True, True, True, False, False, False, False]
      (write_call [0x61, 0x62] (read_call [0, 0, 0] pipes0)) = Some s \<and> sent s = [0x61, 0x62] \<and> received s = [0x61]"
    using pipe_slot_small [of 0] pipe_slot_small [of 1] full
    by (simp add: pipes0_def pipe0_def zeros write_call_def read_call_def write_done_def read_done_def
        sent_def received_def write_part_def read_part_def)
  have "pipe_step pipes0 (read_call [0, 0, 0] pipes0)" by (rule call_read) (simp_all add: pipes0_def)
  moreover have "pipe_step (read_call [0, 0, 0] pipes0) (write_call [0x61, 0x62] (read_call [0, 0, 0] pipes0))"
    by (rule call_write) (simp_all add: pipes0_def read_call_def)
  ultimately have "pipe_reach (write_call [0x61, 0x62] (read_call [0, 0, 0] pipes0))"
    by (blast intro: converse_rtranclp_into_rtranclp)
  note start = this
  obtain s where s: "pipe_run [False, False, False, False, True, True, True, True, False, False, False, False]
      (write_call [0x61, 0x62] (read_call [0, 0, 0] pipes0)) = Some s" "sent s = [0x61, 0x62]" "received s = [0x61]"
    using run by blast
  have "ex_pipe = s" by (simp only: ex_pipe_def Let_def s(1) option.sel)
  then show "pipe_reach ex_pipe" "sent ex_pipe = [0x61, 0x62]" "received ex_pipe = [0x61]"
    using s(2,3) pipe_run_reach [OF start s(1)] by simp_all
qed

theorem pipe_fifo_witness:
  "\<exists>s rest. pipe_reach s \<and> received s = [0x61] \<and> sent s = [0x61] @ rest \<and> length rest \<le> 32"
  using pipe_fifo [OF ex_pipe(1)] ex_pipe by auto

end
