(* ===== verification/Kdebug.thy ===== *)
theory Kdebug
  imports Ustring "HOL-Library.Signed_Division"
begin

text \<open>
  Symbols for addresses (\<open>kern/kdebug.c\<close>): the search in the stabs table, and what
  \<open>debuginfo_eip\<close> finds out about an address.  The table and its strings lie in memory; the
  indices are C's \<open>int\<close>, and a table of fewer than 2^30 entries keeps them in range.
\<close>

abbreviation (input) N_FUN :: u8 where "N_FUN \<equiv> 0x24"
abbreviation (input) N_SLINE :: u8 where "N_SLINE \<equiv> 0x44"
abbreviation (input) N_SO :: u8 where "N_SO \<equiv> 0x64"
abbreviation (input) N_SOL :: u8 where "N_SOL \<equiv> 0x84"
abbreviation (input) N_PSYM :: u8 where "N_PSYM \<equiv> 0xa0"

record stab =
  n_strx :: u32
  n_type :: u8
  n_other :: u8
  n_desc :: u16
  n_value :: u32

section \<open>stab_binsearch\<close>

text \<open>The last entry of the type at or below \<open>m\<close> and not below \<open>l\<close>; \<open>l - 1\<close> if there is none.\<close>

function stab_scan :: "(int \<Rightarrow> stab) \<Rightarrow> u8 \<Rightarrow> int \<Rightarrow> int \<Rightarrow> int" where
  "stab_scan st ty l m = (if l \<le> m \<and> n_type (st m) \<noteq> ty then stab_scan st ty l (m - 1) else m)"
  by pat_completeness auto
termination by (relation "measure (\<lambda>(st, ty, l, m). nat (m - l + 1))") auto

declare stab_scan.simps [simp del]

lemma stab_scan_spec:
  "l \<le> m + 1 \<Longrightarrow> l - 1 \<le> stab_scan st ty l m \<and> stab_scan st ty l m \<le> m \<and>
     (l \<le> stab_scan st ty l m \<longrightarrow> n_type (st (stab_scan st ty l m)) = ty) \<and>
     (\<forall>i. stab_scan st ty l m < i \<and> i \<le> m \<longrightarrow> n_type (st i) \<noteq> ty)"
proof (induction st ty l m rule: stab_scan.induct)
  case (1 st ty l m)
  show ?case
  proof (cases "l \<le> m \<and> n_type (st m) \<noteq> ty")
    case True
    with 1 have IH: "l - 1 \<le> stab_scan st ty l (m - 1) \<and> stab_scan st ty l (m - 1) \<le> m - 1 \<and>
        (l \<le> stab_scan st ty l (m - 1) \<longrightarrow> n_type (st (stab_scan st ty l (m - 1))) = ty) \<and>
        (\<forall>i. stab_scan st ty l (m - 1) < i \<and> i \<le> m - 1 \<longrightarrow> n_type (st i) \<noteq> ty)" by auto
    have e: "stab_scan st ty l m = stab_scan st ty l (m - 1)" using True by (subst stab_scan.simps) simp
    show ?thesis unfolding e using IH True by (metis add.commute add_le_cancel_left diff_add_cancel linorder_not_le
      order.trans zle_diff1_eq zless_add1_eq)
  next
    case False
    then have "stab_scan st ty l m = m" by (subst stab_scan.simps) auto
    then show ?thesis using False 1(2) by auto
  qed
qed

text \<open>The last loop: back from \<open>l\<close> to an entry of the type, but not beyond \<open>rl\<close>.\<close>

function stab_back :: "(int \<Rightarrow> stab) \<Rightarrow> u8 \<Rightarrow> int \<Rightarrow> int \<Rightarrow> int" where
  "stab_back st ty rl l = (if rl < l \<and> n_type (st l) \<noteq> ty then stab_back st ty rl (l - 1) else l)"
  by pat_completeness auto
termination by (relation "measure (\<lambda>(st, ty, rl, l). nat (l - rl))") auto

declare stab_back.simps [simp del]

lemma stab_measure:
  "a' < a \<Longrightarrow> 0 < a \<Longrightarrow> 2 * nat a' + (if P then 1 else 0) < 2 * nat a + (if Q then 1 else (0 :: nat))"
  by auto

lemma stab_middle: "l \<le> r \<Longrightarrow> l \<le> (l + r) div 2 \<and> (l + r) div 2 \<le> r \<and> stab_scan st ty l ((l + r) div 2) \<le> r"
  for l r :: int
proof -
  assume "l \<le> r"
  then have "l \<le> (l + r) div 2" "(l + r) div 2 \<le> r" by linarith+
  then show ?thesis using stab_scan_spec [of l "(l + r) div 2" st ty] by force
qed

text \<open>
  The loop: \<open>rl\<close> and \<open>rr\<close> are \<open>*region_left\<close> and \<open>*region_right\<close>, \<open>hit\<close> is \<open>any_matches\<close>.
\<close>

function stab_loop :: "(int \<Rightarrow> stab) \<Rightarrow> u8 \<Rightarrow> int \<Rightarrow> int \<Rightarrow> u32 \<Rightarrow> int \<Rightarrow> int \<Rightarrow> bool \<Rightarrow> int \<times> int \<times> bool" where
  "stab_loop st ty l r addr rl rr hit =
     (if l \<le> r
      then let true_m = (l + r) div 2; m = stab_scan st ty l true_m in
           if m < l then stab_loop st ty (true_m + 1) r addr rl rr hit
           else if n_value (st m) < addr then stab_loop st ty (true_m + 1) r addr m rr True
           else if addr < n_value (st m) then stab_loop st ty l (m - 1) addr rl (m - 1) True
           else stab_loop st ty m r (addr + 1) m rr True
      else (rl, rr, hit))"
  by pat_completeness auto
termination
proof (relation "measure (\<lambda>(st, ty, l, r, addr, rl, rr, hit).
    2 * nat (r - l + 1) + (if n_value (st (stab_scan st ty l ((l + r) div 2))) = addr then 1 else 0))", goal_cases)
  case 1
  then show ?case by simp
next
  case (2 st ty l r addr rl rr hit tm m)
  then show ?case using stab_middle [of l r] by (simp only: in_measure split_conv) (rule stab_measure; simp)
next
  case (3 st ty l r addr rl rr hit tm m)
  then show ?case using stab_middle [of l r] by (simp only: in_measure split_conv) (rule stab_measure; simp)
next
  case (4 st ty l r addr rl rr hit tm m)
  then show ?case using stab_middle [of l r st ty] by (simp only: in_measure split_conv) (rule stab_measure; simp)
next
  case (5 st ty l r addr rl rr hit tm m)
  show ?case
  proof (cases "m = l")
    case True
    then show ?thesis using 5 by simp
  next
    case False
    with 5 have "l < m" by simp
    with 5 show ?thesis by (simp only: in_measure split_conv) (rule stab_measure; simp)
  qed
qed

declare stab_loop.simps [simp del]

definition stab_binsearch :: "(int \<Rightarrow> stab) \<Rightarrow> int \<Rightarrow> int \<Rightarrow> u8 \<Rightarrow> u32 \<Rightarrow> int \<times> int" where
  "stab_binsearch st region_left region_right ty addr =
     (case stab_loop st ty region_left region_right addr region_left region_right False of (rl, rr, hit) \<Rightarrow>
        if \<not> hit then (rl, rl - 1) else (stab_back st ty rl rr, rr))"

section \<open>debuginfo_eip\<close>

text \<open>A name in the string table, or the literal it starts out with.\<close>

datatype sname = Unknown | Name u32

record eipdebuginfo =
  eip_file :: sname
  eip_line :: int
  eip_fn_name :: sname
  eip_fn_namelen :: int
  eip_fn_addr :: u32
  eip_fn_narg :: int

text \<open>The tables: the stabs and the strings, each with its end.\<close>

record stabdata =
  stabs :: u32
  stab_end :: u32
  stabstr :: u32
  stabstr_end :: u32

definition word_at :: "mem \<Rightarrow> u32 \<Rightarrow> u32" where
  "word_at m p = ucast (m p) OR push_bit 8 (ucast (m (p + 1))) OR push_bit 16 (ucast (m (p + 2)))
     OR push_bit 24 (ucast (m (p + 3)))"

definition half_at :: "mem \<Rightarrow> u32 \<Rightarrow> u16" where
  "half_at m p = ucast (m p) OR push_bit 8 (ucast (m (p + 1)))"

text \<open>Entry \<open>i\<close> of an array of \<open>struct Stab\<close>, twelve bytes each.\<close>

definition stab_at :: "mem \<Rightarrow> u32 \<Rightarrow> int \<Rightarrow> stab" where
  "stab_at m base i = (let p = base + of_int (12 * i) in
     \<lparr>n_strx = word_at m p, n_type = m (p + 4), n_other = m (p + 5), n_desc = half_at m (p + 6),
      n_value = word_at m (p + 8)\<rparr>)"

text \<open>The backward search for the file name and the count of the parameters.\<close>

function stab_file :: "(int \<Rightarrow> stab) \<Rightarrow> int \<Rightarrow> int \<Rightarrow> int" where
  "stab_file st lfile lline =
     (if lfile \<le> lline \<and> n_type (st lline) \<noteq> N_SOL \<and> (n_type (st lline) \<noteq> N_SO \<or> n_value (st lline) = 0)
      then stab_file st lfile (lline - 1) else lline)"
  by pat_completeness auto
termination by (relation "measure (\<lambda>(st, lfile, lline). nat (lline - lfile + 1))") auto

function stab_params :: "(int \<Rightarrow> stab) \<Rightarrow> int \<Rightarrow> int \<Rightarrow> int \<Rightarrow> int" where
  "stab_params st rfun lline narg =
     (if lline < rfun \<and> n_type (st lline) = N_PSYM then stab_params st rfun (lline + 1) (narg + 1) else narg)"
  by pat_completeness auto
termination by (relation "measure (\<lambda>(st, rfun, lline, narg). nat (rfun - lline))") auto

declare stab_file.simps [simp del] stab_params.simps [simp del]

text \<open>
  \<open>debuginfo_eip\<close>: \<open>kdata\<close> are the tables the linker lays out for the kernel, \<open>usd_ok\<close> is what
  \<open>user_mem_check\<close> says of the structure at USTABDATA, whose pointers are followed as they are.
  The result is 0 or -1 and the information; \<open>None\<close> is a name that never ends.
\<close>

definition usd_at :: "mem \<Rightarrow> stabdata" where
  "usd_at m = \<lparr>stabs = word_at m 0x200000, stab_end = word_at m 0x200004,
     stabstr = word_at m 0x200008, stabstr_end = word_at m 0x20000C\<rparr>"

definition fn_namelen :: "mem \<Rightarrow> sname \<Rightarrow> int option" where
  "fn_namelen m name = (case name of Unknown \<Rightarrow> Some 9
     | Name p \<Rightarrow> map_option (\<lambda>q. sint (q - p)) (strfind m p 0x3A))"

definition debuginfo_eip :: "mem \<Rightarrow> stabdata \<Rightarrow> bool \<Rightarrow> u32 \<Rightarrow> (int \<times> eipdebuginfo) option" where
  "debuginfo_eip m kdata usd_ok addr =
     (let info = \<lparr>eip_file = Unknown, eip_line = 0, eip_fn_name = Unknown, eip_fn_namelen = 9,
                  eip_fn_addr = addr, eip_fn_narg = 0\<rparr> in
      if addr < 0xEF800000 \<and> \<not> usd_ok then Some (-1, info)
      else let d = (if 0xEF800000 \<le> addr then kdata else usd_at m);
               st = stab_at m (stabs d); strlen = stabstr_end d - stabstr d in
      if stabstr_end d \<le> stabstr d \<or> m (stabstr_end d - 1) \<noteq> 0 then Some (-1, info)
      else let (lfile, rfile) = stab_binsearch st 0 (sint (stab_end d - stabs d) sdiv 12 - 1) N_SO addr in
      if lfile = 0 then Some (-1, info)
      else let (lfun, rfun) = stab_binsearch st lfile rfile N_FUN addr;
               found = (lfun \<le> rfun);
               info = (if found then info\<lparr>eip_fn_name :=
                         (if n_strx (st lfun) < strlen then Name (stabstr d + n_strx (st lfun)) else Unknown),
                         eip_fn_addr := n_value (st lfun)\<rparr> else info);
               addr = (if found then addr - n_value (st lfun) else addr);
               (lline, rline) = (if found then (lfun, rfun) else (lfile, rfile)) in do {
        len \<leftarrow> fn_namelen m (eip_fn_name info);
        let info = info\<lparr>eip_fn_namelen := len\<rparr>;
        let (lline, rline) = stab_binsearch st lline rline N_SLINE addr;
        let info = (if lline \<le> rline then info\<lparr>eip_line := uint (n_desc (st lline))\<rparr> else info);
        let lline = stab_file st lfile lline;
        let info = (if lfile \<le> lline \<and> n_strx (st lline) < strlen
                    then info\<lparr>eip_file := Name (stabstr d + n_strx (st lline))\<rparr> else info);
        Some (0, if lfun < rfun then info\<lparr>eip_fn_narg := stab_params st rfun (lfun + 1) 0\<rparr> else info) })"

section \<open>What the search finds\<close>

text \<open>The entries of the type in the region; \<open>gap\<close>: none is one above \<open>addr\<close> if one is at \<open>addr\<close>.\<close>

definition entry :: "(int \<Rightarrow> stab) \<Rightarrow> u8 \<Rightarrow> int \<Rightarrow> int \<Rightarrow> int \<Rightarrow> bool" where
  "entry st ty L R i \<longleftrightarrow> L \<le> i \<and> i \<le> R \<and> n_type (st i) = ty"

definition ascending :: "(int \<Rightarrow> stab) \<Rightarrow> (int \<Rightarrow> bool) \<Rightarrow> bool" where
  "ascending st E \<longleftrightarrow> (\<forall>i j. E i \<longrightarrow> E j \<longrightarrow> i < j \<longrightarrow> n_value (st i) < n_value (st j))"

definition gap :: "(int \<Rightarrow> stab) \<Rightarrow> (int \<Rightarrow> bool) \<Rightarrow> u32 \<Rightarrow> bool" where
  "gap st E addr \<longleftrightarrow>
     (\<forall>i j. E i \<longrightarrow> E j \<longrightarrow> n_value (st i) = addr \<longrightarrow> addr < addr + 1 \<and> n_value (st j) \<noteq> addr + 1)"

definition search_inv ::
  "(int \<Rightarrow> stab) \<Rightarrow> u8 \<Rightarrow> int \<Rightarrow> int \<Rightarrow> u32 \<Rightarrow> int \<Rightarrow> int \<Rightarrow> u32 \<Rightarrow> int \<Rightarrow> int \<Rightarrow> bool \<Rightarrow> bool" where
  "search_inv st ty L R a l r addr rl rr hit \<longleftrightarrow>
     (let E = entry st ty L R in
      L \<le> l \<and> L - 1 \<le> r \<and> r \<le> R \<and> rr = r \<and> (r = R \<or> E (r + 1)) \<and>
      (\<forall>i. E i \<longrightarrow> i < l \<longrightarrow> n_value (st i) \<le> a) \<and> (\<forall>i. E i \<longrightarrow> r < i \<longrightarrow> a < n_value (st i)) \<and>
      (addr = a \<or> addr = a + 1 \<and> (\<exists>i. E i \<and> n_value (st i) = a)) \<and>
      (E rl \<and> n_value (st rl) \<le> a \<or> rl = L \<and> (\<forall>i. E i \<longrightarrow> l \<le> i)) \<and>
      (if hit then (\<exists>i. E i) else rl = L \<and> r = R \<and> (\<forall>i. E i \<longrightarrow> l \<le> i)))"

lemma less_next: "(a :: u32) < a + 1 \<Longrightarrow> x < a + 1 \<Longrightarrow> x \<le> a"
  by (simp add: word_less_nat_alt word_le_nat_alt unat_word_ariths mod_Suc split: if_splits)

lemma search_steps:
  assumes asc: "ascending st (entry st ty L R)" and gap: "gap st (entry st ty L R) a"
    and inv: "search_inv st ty L R a l r addr rl rr hit" and lr: "l \<le> r"
  defines "t \<equiv> (l + r) div 2" and "m \<equiv> stab_scan st ty l ((l + r) div 2)"
  shows "m < l \<Longrightarrow> search_inv st ty L R a (t + 1) r addr rl rr hit"
    "l \<le> m \<Longrightarrow> n_value (st m) < addr \<Longrightarrow> search_inv st ty L R a (t + 1) r addr m rr True"
    "l \<le> m \<Longrightarrow> addr < n_value (st m) \<Longrightarrow> search_inv st ty L R a l (m - 1) addr rl (m - 1) True"
    "l \<le> m \<Longrightarrow> n_value (st m) = addr \<Longrightarrow> search_inv st ty L R a m r (addr + 1) m rr True"
proof -
  let ?E = "entry st ty L R"
  have t: "l \<le> t" "t \<le> r" using lr by (simp_all add: t_def)
  have S: "m \<le> t" "l \<le> m \<Longrightarrow> n_type (st m) = ty" "\<And>i. m < i \<Longrightarrow> i \<le> t \<Longrightarrow> n_type (st i) \<noteq> ty"
    using stab_scan_spec [of l t st ty] t(1) by (auto simp: m_def t_def)
  note I = inv [unfolded search_inv_def Let_def]
  have Em: "l \<le> m \<Longrightarrow> ?E m" using S t I by (auto simp: entry_def)
  have sides: "i \<le> m \<or> t < i" if "?E i" for i using S(3) [of i] that by (fastforce simp: entry_def not_less)
  have up: "?E i \<Longrightarrow> ?E j \<Longrightarrow> i \<le> j \<Longrightarrow> n_value (st i) \<le> n_value (st j)" for i j
    using asc by (cases "i = j") (auto simp: ascending_def order.order_iff_strict)
  have adr: "addr = a \<or> addr = a + 1 \<and> a < a + 1 \<and> (\<forall>j. ?E j \<longrightarrow> n_value (st j) \<noteq> a + 1) \<and>
      (\<exists>i. ?E i \<and> n_value (st i) = a)"
    using I gap by (auto simp: gap_def)
  have below: "n_value (st i) < addr \<Longrightarrow> n_value (st i) \<le> a" for i
    using adr less_next by (auto intro: less_imp_le)
  have above: "addr < n_value (st i) \<Longrightarrow> a < n_value (st i)" for i using adr by (auto intro: less_trans)
  show "search_inv st ty L R a (t + 1) r addr rl rr hit" if m: "m < l"
  proof -
    have n: "i < l" if "?E i" "i < t + 1" for i using sides [OF that(1)] that(2) m by auto
    then have "t + 1 \<le> i" if "?E i" "l \<le> i" for i using that by fastforce
    with n show ?thesis unfolding search_inv_def Let_def using I t by auto
  qed
  show "search_inv st ty L R a (t + 1) r addr m rr True" if m: "l \<le> m" "n_value (st m) < addr"
  proof -
    have "n_value (st i) \<le> a" if "?E i" "i < t + 1" for i
      using up [OF that(1) Em [OF m(1)]] sides [OF that(1)] that(2) below [OF m(2)] by auto
    then show ?thesis unfolding search_inv_def Let_def using I t Em [OF m(1)] below [OF m(2)] m(1) by auto
  qed
  show "search_inv st ty L R a l (m - 1) addr rl (m - 1) True" if m: "l \<le> m" "addr < n_value (st m)"
  proof -
    have "a < n_value (st i)" if "?E i" "m - 1 < i" for i
      using up [OF Em [OF m(1)] that(1)] that(2) above [OF m(2)] by auto
    then show ?thesis unfolding search_inv_def Let_def using I t S(1) Em [OF m(1)] m(1) by auto
  qed
  show "search_inv st ty L R a m r (addr + 1) m rr True" if m: "l \<le> m" "n_value (st m) = addr"
  proof -
    have "addr = a" using adr m(2) Em [OF m(1)] by auto
    moreover have "n_value (st i) \<le> a" if "?E i" "i < m" for i
      using up [OF that(1) Em [OF m(1)]] that(2) m(2) calculation by auto
    ultimately show ?thesis unfolding search_inv_def Let_def using I t S(1) Em [OF m(1)] m by auto
  qed
qed

lemma search_loop:
  "ascending st (entry st ty L R) \<Longrightarrow> gap st (entry st ty L R) a \<Longrightarrow>
   search_inv st ty L R a l r addr rl rr hit \<Longrightarrow>
   \<exists>l' r' addr'. r' < l' \<and> (case stab_loop st ty l r addr rl rr hit of (rl', rr', hit') \<Rightarrow>
      search_inv st ty L R a l' r' addr' rl' rr' hit')"
proof (induction st ty l r addr rl rr hit rule: stab_loop.induct)
  case (1 st ty l r addr rl rr hit)
  show ?case
  proof (cases "l \<le> r")
    case False
    then have "stab_loop st ty l r addr rl rr hit = (rl, rr, hit)" by (subst stab_loop.simps) simp
    then show ?thesis using False 1(7) by (intro exI [of _ l] exI [of _ r] exI [of _ addr]) auto
  next
    case True
    let ?t = "(l + r) div 2" let ?m = "stab_scan st ty l ?t"
    note S = search_steps [OF 1(5,6,7) True]
    note IH = 1(1-4) [OF True refl refl] and pre = 1(5,6)
    consider "?m < l" | "l \<le> ?m" "n_value (st ?m) < addr" | "l \<le> ?m" "addr < n_value (st ?m)"
      | "l \<le> ?m" "n_value (st ?m) = addr" by fastforce
    then show ?thesis
    proof cases
      case 1
      then show ?thesis using IH(1) S(1) True pre by (subst stab_loop.simps) (simp add: Let_def)
    next
      case 2
      then show ?thesis using IH(2) S(2) True pre by (subst stab_loop.simps) (simp add: Let_def)
    next
      case 3
      then have "\<not> n_value (st ?m) < addr" by simp
      then show ?thesis using 3 IH(3) S(3) True pre by (subst stab_loop.simps) (simp add: Let_def)
    next
      case 4
      then show ?thesis using IH(4) S(4) True pre by (subst stab_loop.simps) (simp add: Let_def)
    qed
  qed
qed

lemma stab_back_spec:
  "rl \<le> l \<Longrightarrow> rl \<le> stab_back st ty rl l \<and> stab_back st ty rl l \<le> l \<and>
     (rl < stab_back st ty rl l \<longrightarrow> n_type (st (stab_back st ty rl l)) = ty) \<and>
     (\<forall>i. stab_back st ty rl l < i \<and> i \<le> l \<longrightarrow> n_type (st i) \<noteq> ty)"
proof (induction st ty rl l rule: stab_back.induct)
  case (1 st ty rl l)
  show ?case
  proof (cases "rl < l \<and> n_type (st l) \<noteq> ty")
    case True
    then have "stab_back st ty rl l = stab_back st ty rl (l - 1)" by (subst stab_back.simps) simp
    moreover have "i \<le> l - 1 \<or> i = l \<or> l < i" for i by linarith
    ultimately show ?thesis using 1 True by (smt (verit))
  next
    case False
    then have "stab_back st ty rl l = l" by (subst stab_back.simps) auto
    then show ?thesis using False 1(2) by auto
  qed
qed

text \<open>
  C37: in a region whose entries of the type ascend, the search terminates and finds the last
  entry at or below the address and the end of its range - provided that no entry lies one above
  the address when one lies exactly at it.  When there are entries but all lie above the address, the right end
  is the place before the first of them and the left end is the smaller of the two, so the range may be non-empty although no
  entry contains the address.
\<close>

theorem stab_binsearch_spec:
  assumes "ascending st (entry st ty L R)" "gap st (entry st ty L R) a"
    and "stab_binsearch st L R ty a = (l, r)" "L \<le> R + 1"
  shows "if \<forall>i. \<not> entry st ty L R i then l = L \<and> r = L - 1
    else (\<forall>i. entry st ty L R i \<longrightarrow> (i \<le> r \<longleftrightarrow> n_value (st i) \<le> a)) \<and> (r = R \<or> entry st ty L R (r + 1)) \<and>
      (if \<forall>i. entry st ty L R i \<longrightarrow> a < n_value (st i) then l = min L r
       else entry st ty L R l \<and> n_value (st l) \<le> a \<and>
         (\<forall>i. entry st ty L R i \<longrightarrow> n_value (st i) \<le> a \<longrightarrow> i \<le> l))"
proof -
  let ?E = "entry st ty L R"
  have "search_inv st ty L R a L R a L R False" using assms(4) by (auto simp: search_inv_def entry_def)
  note S = search_loop [OF assms(1,2) this]
  obtain rl rr hit where loop: "stab_loop st ty L R a L R False = (rl, rr, hit)" by (metis prod_cases3)
  obtain l' r' addr' where
    x: "r' < l'" "stab_loop st ty L R a L R False = (rl, rr, hit)" "search_inv st ty L R a l' r' addr' rl rr hit"
    using S loop by auto
  note I = x(3) [unfolded search_inv_def Let_def]
  show ?thesis
  proof (cases hit)
    case False
    then have "\<forall>i. \<not> ?E i" using I x(1) by (force simp: entry_def)
    then show ?thesis using False I x(2) assms(3) by (simp add: stab_binsearch_def)
  next
    case True
    then have e: "\<not> (\<forall>i. \<not> ?E i)" and lr: "l = stab_back st ty rl rr" "r = rr" "rr = r'"
      using I x(2) assms(3) by (auto simp: stab_binsearch_def)
    have side: "i \<le> r \<longleftrightarrow> n_value (st i) \<le> a" if "?E i" for i
    proof
      show "n_value (st i) \<le> a" if "i \<le> r" using I x(1) lr that \<open>?E i\<close> by auto
      show "i \<le> r" if "n_value (st i) \<le> a"
      proof (rule ccontr)
        assume "\<not> i \<le> r"
        then have "a < n_value (st i)" using I lr(2,3) \<open>?E i\<close> by simp
        then show False using that by simp
      qed
    qed
    have r: "r = R \<or> ?E (r + 1)" "r \<le> R" "L - 1 \<le> r" using I lr by auto
    have "if \<forall>i. ?E i \<longrightarrow> a < n_value (st i) then l = min L r
       else ?E l \<and> n_value (st l) \<le> a \<and> (\<forall>i. ?E i \<longrightarrow> n_value (st i) \<le> a \<longrightarrow> i \<le> l)"
    proof (cases "?E rl \<and> n_value (st rl) \<le> a")
      case True
      then have "rl \<le> r" using side by blast
      note B = stab_back_spec [OF this, of st ty, folded lr(2), folded lr(1) [unfolded lr(2) [symmetric]]]
      have El: "?E l" using B True r(2) by (cases "l = rl") (auto simp: entry_def)
      moreover have "i \<le> l" if "?E i" "n_value (st i) \<le> a" for i
        using B side [OF that(1)] that by (force simp: entry_def)
      ultimately show ?thesis using side [OF El] B True by (auto simp: not_less)
    next
      case False
      then have f: "rl = L" "\<And>i. ?E i \<Longrightarrow> l' \<le> i" using I by auto
      have all: "a < n_value (st i)" if "?E i" for i using f(2) [OF that] x(1) lr side [OF that] by auto
      have "l = min L r"
      proof (cases "L \<le> r")
        case True
        note B = stab_back_spec [OF this, of st ty, folded f(1), folded lr(2), folded lr(1) [unfolded lr(2) [symmetric]]]
        have "\<not> rl < l"
        proof
          assume "rl < l"
          then have "?E l" using B r(2) f(1) by (auto simp: entry_def)
          then show False using all B side by (meson not_le)
        qed
        then show ?thesis using B f(1) True by simp
      next
        case False
        then show ?thesis using lr f(1) by (simp add: stab_back.simps)
      qed
      then show ?thesis using all by simp
    qed
    then show ?thesis unfolding if_not_P [OF e] using side r(1) by blast
  qed
qed

text \<open>The entries of the example in the comment on \<open>stab_binsearch\<close>.\<close>

definition ex_so :: "int \<Rightarrow> u32" where
  "ex_so i = (if i = 0 then 0xf0100000 else if i = 13 then 0xf0100040 else if i = 117 then 0xf0100176
     else if i = 118 then 0xf0100178 else if i = 555 then 0xf0100652 else if i = 556 then 0xf0100654
     else if i = 657 then 0xf0100849 else 0)"

definition ex_stabs :: "int \<Rightarrow> stab" where
  "ex_stabs i = \<lparr>n_strx = 0, n_type = (if i \<in> {0, 13, 117, 118, 555, 556, 657} then N_SO else N_SLINE),
     n_other = 0, n_desc = 0, n_value = ex_so i\<rparr>"

lemma ex_entry: "entry ex_stabs N_SO 0 657 i \<longleftrightarrow> i \<in> {0, 13, 117, 118, 555, 556, 657}"
  by (auto simp: entry_def ex_stabs_def)

theorem stab_binsearch_spec_witness:
  "stab_binsearch ex_stabs 0 657 N_SO 0xf0100184 = (118, 554)"
proof -
  obtain l r where lr: "stab_binsearch ex_stabs 0 657 N_SO 0xf0100184 = (l, r)" by fastforce
  have v: "n_value (ex_stabs i) = ex_so i" for i by (simp add: ex_stabs_def)
  have asc: "ascending ex_stabs (entry ex_stabs N_SO 0 657)"
    unfolding ascending_def ex_entry v by (auto simp: ex_so_def word_less_nat_alt)
  have gap: "gap ex_stabs (entry ex_stabs N_SO 0 657) 0xf0100184"
    unfolding gap_def ex_entry v by (auto simp: ex_so_def)
  have le: "n_value (ex_stabs i) \<le> 0xf0100184 \<longleftrightarrow> i \<le> 118" if "i \<in> {0, 13, 117, 118, 555, 556, 657}" for i
    using that unfolding v by (auto simp: ex_so_def word_le_nat_alt)
  have "(0 :: int) \<le> 657 + 1" by simp
  note S = stab_binsearch_spec [OF asc gap lr this, unfolded ex_entry]
  have n: "\<not> (\<forall>i :: int. i \<notin> {0, 13, 117, 118, 555, 556, 657})"
    "\<not> (\<forall>i. i \<in> {0, 13, 117, 118, 555, 556, 657} \<longrightarrow> 0xf0100184 < n_value (ex_stabs i))"
    using le [of 0] by (auto simp: not_less)
  note S1 = S [unfolded if_not_P [OF n(1)] if_not_P [OF n(2)]]
  note A = S1 [THEN conjunct1, rule_format] S1 [THEN conjunct2, THEN conjunct1]
    S1 [THEN conjunct2, THEN conjunct2]
  have r: "118 \<le> r" "\<not> 555 \<le> r" using A(1) [of 118] A(1) [of 555] le [of 118] le [of 555] by simp_all
  have "r + 1 = 555" using A(2) r by auto
  moreover have "l \<le> 118" using A(3) le [of l] by blast
  moreover have "118 \<le> l" using A(3) le [of 118] by blast
  ultimately show ?thesis using lr by simp
qed

text \<open>The search goes wrong on entries one apart: for address 5 it finds the entry of address 6.\<close>

lemma stab_binsearch_adjacent:
  "stab_binsearch (\<lambda>i. \<lparr>n_strx = 0, n_type = N_FUN, n_other = 0, n_desc = 0, n_value = (if i = 0 then 5 else 6)\<rparr>)
     0 1 N_FUN 5 = (1, 1)"
  by (simp add: stab_binsearch_def stab_loop.simps stab_scan.simps stab_back.simps Let_def)

end
