(* ===== verification/Cmdline.thy ===== *)
theory Cmdline
  imports Prelude "HOL-Library.Char_ord"
begin

text \<open>
  Command lines: reading one (\<open>lib/readline.c\<close>), splitting it in the kernel monitor
  (\<open>kern/monitor.c\<close>) and in the shell (\<open>user/sh.c\<close>).  A line is a NUL-terminated string in a buffer,
  a list of bytes; a pointer into it is an index.  \<open>None\<close> is an access past the end of the buffer.
\<close>

section \<open>Strings in a buffer\<close>

definition str_at :: "u8 list \<Rightarrow> nat \<Rightarrow> u8 list \<Rightarrow> bool" where
  "str_at b i xs \<longleftrightarrow> i + length xs < length b \<and> (\<forall>k < length xs. b ! (i + k) = xs ! k) \<and> 0 \<notin> set xs \<and>
     b ! (i + length xs) = 0"

definition str_of :: "u8 list \<Rightarrow> nat \<Rightarrow> u8 list" where
  "str_of b i = takeWhile (\<lambda>c. c \<noteq> 0) (drop i b)"

lemma str_at_Nil: "str_at b i [] \<longleftrightarrow> i < length b \<and> b ! i = 0"
  by (simp add: str_at_def)

lemma str_at_Cons: "str_at b i (x # xs) \<longleftrightarrow> i < length b \<and> b ! i = x \<and> x \<noteq> 0 \<and> str_at b (Suc i) xs"
proof -
  have "(\<forall>k < length (x # xs). b ! (i + k) = (x # xs) ! k) \<longleftrightarrow> b ! i = x \<and> (\<forall>k < length xs. b ! (Suc i + k) = xs ! k)"
    by (simp add: All_less_Suc2)
  then show ?thesis by (auto simp: str_at_def)
qed

lemma str_at_drop: "str_at b i (xs @ ys) \<Longrightarrow> str_at b (i + length xs) ys"
proof (induction xs arbitrary: i)
  case (Cons x xs)
  from Cons.IH [of "Suc i"] Cons.prems show ?case by (simp add: str_at_Cons)
qed simp

lemma str_at_cong:
  "length b' = length b \<Longrightarrow> (\<And>a. i \<le> a \<Longrightarrow> a \<le> i + length xs \<Longrightarrow> b' ! a = b ! a) \<Longrightarrow> str_at b' i xs = str_at b i xs"
  by (auto simp: str_at_def)

lemma str_of_at: "str_at b i xs \<Longrightarrow> str_of b i = xs"
proof (induction xs arbitrary: i)
  case Nil
  then have "drop i b = b ! i # drop (Suc i) b" "b ! i = 0" by (simp_all add: str_at_Nil Cons_nth_drop_Suc [symmetric])
  then show ?case by (simp add: str_of_def)
next
  case (Cons x xs)
  then have "drop i b = x # drop (Suc i) b" "x \<noteq> 0" "str_of b (Suc i) = xs"
    using Cons_nth_drop_Suc [of i b] by (auto simp: str_at_Cons)
  then show ?case by (simp add: str_of_def)
qed

section \<open>The two loops over a line\<close>

text \<open>
  \<open>WHITESPACE\<close> and \<open>SYMBOLS\<close>; \<open>strchr\<close> finds a character of the literal and never its NUL.
\<close>

definition white :: "u8 \<Rightarrow> bool" where
  "white c \<longleftrightarrow> c \<in> {0x20, 0x09, 0x0D, 0x0A}"

definition symbol :: "u8 \<Rightarrow> bool" where
  "symbol c \<longleftrightarrow> c \<in> {0x3C, 0x7C, 0x3E, 0x26, 0x3B, 0x28, 0x29}"

text \<open>\<open>while (strchr(WHITESPACE, *s)) *s++ = 0;\<close>\<close>

function gobble :: "u8 list \<Rightarrow> nat \<Rightarrow> (u8 list \<times> nat) option" where
  "gobble b i = (if length b \<le> i then None
     else if white (b ! i) then gobble (b[i := 0]) (i + 1) else Some (b, i))"
  by pat_completeness auto
termination by (relation "measure (\<lambda>(b, i). length b - i)") auto

text \<open>\<open>while (*s && !strchr(stop, *s)) s++;\<close>\<close>

function scan_word :: "(u8 \<Rightarrow> bool) \<Rightarrow> u8 list \<Rightarrow> nat \<Rightarrow> nat option" where
  "scan_word stop b i = (if length b \<le> i then None
     else if b ! i \<noteq> 0 \<and> \<not> stop (b ! i) then scan_word stop b (i + 1) else Some i)"
  by pat_completeness auto
termination by (relation "measure (\<lambda>(stop, b, i). length b - i)") auto

declare gobble.simps [simp del] scan_word.simps [simp del]

lemma not_white_0 [simp]: "\<not> white 0" by (simp add: white_def)

lemma gobble_str:
  "str_at b i xs \<Longrightarrow> \<exists>b'. gobble b i = Some (b', i + length (takeWhile white xs)) \<and> length b' = length b \<and>
     (\<forall>a. b' ! a = (if i \<le> a \<and> a < i + length (takeWhile white xs) \<and> a < length b then 0 else b ! a)) \<and>
     str_at b' (i + length (takeWhile white xs)) (dropWhile white xs)"
proof (induction xs arbitrary: b i)
  case Nil
  then show ?case by (subst gobble.simps) (auto simp: str_at_Nil)
next
  case (Cons x xs)
  then have x: "i < length b" "b ! i = x" "str_at b (Suc i) xs" by (simp_all add: str_at_Cons)
  show ?case
  proof (cases "white x")
    case False
    then show ?thesis using Cons.prems x by (subst gobble.simps) auto
  next
    case True
    have "str_at (b[i := 0]) (Suc i) xs" using x(3) str_at_cong [of "b[i := 0]" b "Suc i" xs] by simp
    from Cons.IH [OF this] True x show ?thesis
      by (subst gobble.simps) (auto simp: nth_list_update)
  qed
qed

lemma scan_word_str:
  "str_at b i xs \<Longrightarrow> scan_word stop b i = Some (i + length (takeWhile (\<lambda>c. \<not> stop c) xs))"
proof (induction xs arbitrary: i)
  case Nil
  then show ?case by (subst scan_word.simps) (auto simp: str_at_Nil)
next
  case (Cons x xs)
  then show ?case by (subst scan_word.simps) (auto simp: str_at_Cons)
qed

lemma gobble_bound: "gobble b i = Some (b', j) \<Longrightarrow> length b' = length b \<and> i \<le> j \<and> j < length b \<and> \<not> white (b' ! j)"
proof (induction b i rule: gobble.induct)
  case (1 b i)
  show ?case
  proof (cases "white (b ! i)")
    case True
    then show ?thesis using 1 gobble.simps [of b i] by (fastforce split: if_splits)
  next
    case False
    then show ?thesis using 1(2) gobble.simps [of b i] by (auto split: if_splits)
  qed
qed

lemma scan_word_bound: "scan_word stop b i = Some j \<Longrightarrow> i \<le> j \<and> j < length b \<and> (b ! i \<noteq> 0 \<and> \<not> stop (b ! i) \<longrightarrow> i < j)"
proof (induction stop b i rule: scan_word.induct)
  case (1 stop b i)
  then show ?case using scan_word.simps [of stop b i] by (fastforce split: if_splits)
qed

section \<open>readline\<close>

text \<open>
  \<open>readline_loop cs i b\<close>: \<open>cs\<close> are the results of \<open>getchar\<close> to come and \<open>i\<close> the position in the
  buffer.  The result is \<open>Inl\<close> the characters left when NULL is returned, or \<open>Inr\<close> the buffer and
  the characters left; \<open>None\<close> is a call that still waits for input.
\<close>

abbreviation (input) BUFLEN :: nat where "BUFLEN \<equiv> 1024"

fun readline_loop :: "int list \<Rightarrow> nat \<Rightarrow> u8 list \<Rightarrow> (int list + u8 list \<times> int list) option" where
  "readline_loop [] i b = None"
| "readline_loop (c # cs) i b =
     (if c < 0 then Some (Inl cs)
      else if (c = 8 \<or> c = 127) \<and> 0 < i then readline_loop cs (i - 1) b
      else if 32 \<le> c \<and> i < BUFLEN - 1 then readline_loop cs (i + 1) (b[i := of_int c])
      else if c = 10 \<or> c = 13 then Some (Inr (b[i := 0], cs))
      else readline_loop cs i b)"

definition readline :: "int list \<Rightarrow> u8 list \<Rightarrow> (int list + u8 list \<times> int list) option" where
  "readline cs b = readline_loop cs 0 b"

text \<open>What is on the line after some characters.\<close>

definition edit :: "u8 list \<Rightarrow> int \<Rightarrow> u8 list" where
  "edit l c = (if (c = 8 \<or> c = 127) \<and> l \<noteq> [] then butlast l
     else if 32 \<le> c \<and> length l < 1023 then l @ [of_int c] else l)"

lemma readline_loop_edit:
  assumes "length b = BUFLEN" "\<forall>c \<in> set cs. 0 \<le> c \<and> c \<noteq> 10 \<and> c \<noteq> 13" "e = 10 \<or> e = 13" "length l < BUFLEN"
    "take (length l) b = l"
  shows "\<exists>b'. readline_loop (cs @ e # rest) (length l) b = Some (Inr (b', rest)) \<and> length b' = BUFLEN \<and>
    length (foldl edit l cs) < BUFLEN \<and> take (length (foldl edit l cs)) b' = foldl edit l cs \<and>
    b' ! length (foldl edit l cs) = 0"
  using assms
proof (induction cs arbitrary: l b)
  case Nil
  then show ?case by auto
next
  case (Cons c cs)
  have c: "0 \<le> c" "c \<noteq> 10" "c \<noteq> 13" and cs: "\<forall>c \<in> set cs. 0 \<le> c \<and> c \<noteq> 10 \<and> c \<noteq> 13" using Cons.prems(2) by auto
  consider (erase) "(c = 8 \<or> c = 127) \<and> l \<noteq> []" | (put) "\<not> ((c = 8 \<or> c = 127) \<and> l \<noteq> [])" "32 \<le> c \<and> length l < 1023"
    | (skip) "\<not> ((c = 8 \<or> c = 127) \<and> l \<noteq> [])" "\<not> (32 \<le> c \<and> length l < 1023)" by blast
  then show ?case
  proof cases
    case erase
    have "take (length (butlast l)) b = butlast l" using Cons.prems(5) by (metis butlast_take length_butlast
      Cons.prems(1,4) less_imp_le)
    from Cons.IH [OF Cons.prems(1) cs Cons.prems(3) _ this] erase Cons.prems(4) show ?thesis
      by (auto simp: edit_def)
  next
    case put
    have "take (length (l @ [of_int c])) (b[length l := of_int c]) = l @ [of_int c]"
      using Cons.prems(1,4,5) by (simp add: take_Suc_conv_app_nth)
    from Cons.IH [OF _ cs Cons.prems(3) _ this] put c Cons.prems(1,4) show ?thesis
      by (auto simp: edit_def)
  next
    case skip
    from Cons.IH [OF Cons.prems(1) cs Cons.prems(3-5)] skip c show ?thesis
      by (auto simp: edit_def)
  qed
qed

section \<open>The monitor's runcmd\<close>

abbreviation (input) MAXARGS :: nat where "MAXARGS \<equiv> 16"

datatype args = Too_many | Args "u8 list" "nat list"

function split_args :: "u8 list \<Rightarrow> nat \<Rightarrow> nat list \<Rightarrow> args option" where
  "split_args b i argv =
     (case gobble b i of None \<Rightarrow> None
      | Some (b, i) \<Rightarrow>
          if b ! i = 0 then Some (Args b argv)
          else if length argv = MAXARGS - 1 then Some Too_many
          else case scan_word white b i of None \<Rightarrow> None | Some j \<Rightarrow> split_args b j (argv @ [i]))"
  by pat_completeness auto
termination
  by (relation "measure (\<lambda>(b, i, argv). length b - i)") (auto dest!: gobble_bound scan_word_bound)

declare split_args.simps [simp del]

definition commands :: "string list" where
  "commands = [''help'', ''kerninfo'', ''backtrace'']"

text \<open>What \<open>runcmd\<close> does with a line: nothing, a message, or the command of that index with its arguments.\<close>

datatype cmd = No_command | Too_many_arguments | Unknown_command | Command nat "u8 list" "nat list"

definition char_bytes :: "string \<Rightarrow> u8 list" where
  "char_bytes = map of_char"

fun find_command :: "u8 list \<Rightarrow> string list \<Rightarrow> nat \<Rightarrow> nat option" where
  "find_command name [] i = None"
| "find_command name (c # cs) i = (if name = char_bytes c then Some i else find_command name cs (i + 1))"

definition runcmd :: "u8 list \<Rightarrow> cmd option" where
  "runcmd b = do {
     r \<leftarrow> split_args b 0 [];
     case r of
       Too_many \<Rightarrow> Some Too_many_arguments
     | Args b argv \<Rightarrow>
         if argv = [] then Some No_command
         else case find_command (str_of b (hd argv)) commands 0 of
                Some k \<Rightarrow> Some (Command k b argv)
              | None \<Rightarrow> Some Unknown_command }"

text \<open>The words of a line.\<close>

function words_of :: "u8 list \<Rightarrow> u8 list list" where
  "words_of xs = (case dropWhile white xs of [] \<Rightarrow> []
     | y # ys \<Rightarrow> takeWhile (\<lambda>c. \<not> white c) (y # ys) # words_of (dropWhile (\<lambda>c. \<not> white c) ys))"
  by pat_completeness auto
termination
proof (relation "measure length", goal_cases)
  case (2 xs y ys)
  have "length (dropWhile (\<lambda>c. \<not> white c) ys) \<le> length ys" by (rule length_dropWhile_le)
  moreover have "length (y # ys) \<le> length xs" using 2 length_dropWhile_le [of white xs] by simp
  ultimately show ?case by simp
qed simp

declare words_of.simps [simp del]

lemma words_of_Nil: "dropWhile white xs = [] \<Longrightarrow> words_of xs = []"
  by (subst words_of.simps) (simp only: list.case)

lemma words_of_Cons:
  assumes "dropWhile white xs = y # ys"
  shows "words_of xs = takeWhile (\<lambda>c. \<not> white c) (y # ys) # words_of (dropWhile (\<lambda>c. \<not> white c) (y # ys))"
proof -
  have "\<not> white y" using hd_dropWhile [of white xs] assms by simp
  then show ?thesis by (subst words_of.simps) (simp add: assms)
qed

text \<open>The first word of a string in the buffer, and what is behind it.\<close>

lemma first_word:
  assumes "str_at b i xs" "\<not> stop y" "y # ys = xs"
  defines "w \<equiv> takeWhile (\<lambda>c. \<not> stop c) xs" and "r \<equiv> dropWhile (\<lambda>c. \<not> stop c) xs"
  shows "scan_word stop b i = Some (i + length w)" "str_at b (i + length w) r" "length r < length xs" "w \<noteq> []"
    "r = [] \<or> stop (hd r)"
    "length b' = length b \<Longrightarrow> \<forall>a < i + length w. b' ! a = b ! a \<Longrightarrow> b' ! (i + length w) = 0 \<Longrightarrow> str_at b' i w"
proof -
  have xs: "xs = w @ r" by (simp add: w_def r_def)
  show "scan_word stop b i = Some (i + length w)" using scan_word_str [OF assms(1)] by (simp add: w_def)
  show "str_at b (i + length w) r" using assms(1) str_at_drop unfolding xs by blast
  show w: "w \<noteq> []" using assms(2,3) by (auto simp: w_def)
  then show "length r < length xs" by (simp add: xs)
  show "r = [] \<or> stop (hd r)" using hd_dropWhile [of "\<lambda>c. \<not> stop c" xs] by (auto simp: r_def)
  show "str_at b' i w" if "length b' = length b" "\<forall>a < i + length w. b' ! a = b ! a" "b' ! (i + length w) = 0"
    using assms(1) that by (auto simp: xs str_at_def nth_append)
qed

lemma split_args_str:
  "str_at b i xs \<Longrightarrow> length argv + length (words_of xs) \<le> 15 \<Longrightarrow>
   \<exists>b' qs. split_args b i argv = Some (Args b' (argv @ qs)) \<and> length b' = length b \<and> (\<forall>a < i. b' ! a = b ! a) \<and>
     (xs = [] \<or> white (hd xs) \<longrightarrow> b' ! i = 0) \<and> list_all2 (\<lambda>p w. i \<le> p \<and> str_at b' p w) qs (words_of xs)"
proof (induction "length xs" arbitrary: b i xs argv rule: less_induct)
  case less
  let ?n = "length (takeWhile white xs)"
  obtain b1 where g: "gobble b i = Some (b1, i + ?n)" "length b1 = length b"
    "\<forall>a. b1 ! a = (if i \<le> a \<and> a < i + ?n \<and> a < length b then 0 else b ! a)" "str_at b1 (i + ?n) (dropWhile white xs)"
    using gobble_str [OF less.prems(1)] by blast
  have len: "i < length b" using less.prems(1) by (simp add: str_at_def)
  have z: "b1 ! i = 0" if "xs = [] \<or> white (hd xs)"
  proof (cases xs)
    case Nil
    then show ?thesis using g(4) by (simp add: str_at_Nil)
  next
    case (Cons x ys)
    then show ?thesis using that g(3) len by simp
  qed
  show ?case
  proof (cases "dropWhile white xs")
    case Nil
    have "b1 ! (i + ?n) = 0" using g(4) [unfolded Nil] by (simp add: str_at_Nil)
    then have "split_args b i argv = Some (Args b1 argv)" using g(1) by (subst split_args.simps) simp
    then show ?thesis using g(2,3) z words_of_Nil [OF Nil] by auto
  next
    case (Cons y ys)
    note W = words_of_Cons [OF Cons]
    have y: "\<not> white y" "b1 ! (i + ?n) = y" "y \<noteq> 0" using hd_dropWhile [of white xs] Cons g(4) by (auto simp: str_at_Cons)
    let ?w = "takeWhile (\<lambda>c. \<not> white c) (y # ys)" and ?r = "dropWhile (\<lambda>c. \<not> white c) (y # ys)"
    let ?i1 = "i + ?n" let ?j = "?i1 + length ?w"
    note F = first_word [where stop = white, OF g(4) [unfolded Cons] y(1) refl]
    have "length (y # ys) \<le> length xs" using length_dropWhile_le [of white xs] Cons by simp
    then have l: "length ?r < length xs" using F(3) by simp
    have "length (argv @ [?i1]) + length (words_of ?r) \<le> 15" using less.prems(2) W by simp
    from less.hyps [OF l F(2) this] obtain b' qs where
      h: "split_args b1 ?j (argv @ [?i1]) = Some (Args b' ((argv @ [?i1]) @ qs))" "length b' = length b1"
        "\<forall>a < ?j. b' ! a = b1 ! a" "?r = [] \<or> white (hd ?r) \<longrightarrow> b' ! ?j = 0"
        "list_all2 (\<lambda>p w. ?j \<le> p \<and> str_at b' p w) qs (words_of ?r)" by blast
    have "length argv \<noteq> 15" using less.prems(2) W by simp
    then have "split_args b i argv = Some (Args b' (argv @ ?i1 # qs))"
      using g(1) y F(1) h(1) by (subst split_args.simps) simp
    moreover have "str_at b' ?i1 ?w" using F(5,6) h(2-4) by simp
    moreover have "list_all2 (\<lambda>p w. i \<le> p \<and> str_at b' p w) qs (words_of ?r)"
      using h(5) by (rule list_all2_mono) auto
    moreover have "\<forall>a < i. b' ! a = b ! a" using h(3) g(3) by simp
    moreover have "b' ! i = b1 ! i" using h(3) F(4) by (cases ?w) auto
    ultimately show ?thesis using h(2) g(2) z W by (intro exI [of _ b'] exI [of _ "?i1 # qs"]) simp
  qed
qed

lemma split_args_too_many:
  "str_at b i xs \<Longrightarrow> length argv \<le> 15 \<Longrightarrow> 15 < length argv + length (words_of xs) \<Longrightarrow> split_args b i argv = Some Too_many"
proof (induction "length xs" arbitrary: b i xs argv rule: less_induct)
  case less
  let ?n = "length (takeWhile white xs)"
  obtain b1 where g: "gobble b i = Some (b1, i + ?n)" "str_at b1 (i + ?n) (dropWhile white xs)"
    using gobble_str [OF less.prems(1)] by blast
  have "dropWhile white xs \<noteq> []" using less.prems(2,3) words_of_Nil by force
  then obtain y ys where Cons: "dropWhile white xs = y # ys" by (cases "dropWhile white xs") auto
  note W = words_of_Cons [OF Cons]
  have y: "\<not> white y" "b1 ! (i + ?n) = y" "y \<noteq> 0" using hd_dropWhile [of white xs] Cons g(2) by (auto simp: str_at_Cons)
  note F = first_word [where stop = white, OF g(2) [unfolded Cons] y(1) refl]
  have l: "length (dropWhile (\<lambda>c. \<not> white c) (y # ys)) < length xs"
    using F(3) length_dropWhile_le [of white xs] Cons by simp
  show ?case
  proof (cases "length argv = 15")
    case True
    then show ?thesis using g(1) y by (subst split_args.simps) simp
  next
    case False
    then have "split_args b1 (i + ?n + length (takeWhile (\<lambda>c. \<not> white c) (y # ys))) (argv @ [i + ?n]) = Some Too_many"
      using less.prems(2,3) W by (intro less.hyps [OF l F(2)]) simp_all
    then show ?thesis using False g(1) y F(1) by (subst split_args.simps) simp
  qed
qed

lemma edit_chars:
  assumes "\<forall>c \<in> set cs. 0 \<le> c \<and> c < 256" "0 \<notin> set l"
  shows "0 \<notin> set (foldl edit l cs)"
  using assms
proof (induction cs arbitrary: l)
  case (Cons c cs)
  have "(of_int c :: u8) \<noteq> 0" if "32 \<le> c"
  proof
    assume "(of_int c :: u8) = 0"
    then have "c mod 256 = 0" using uint_word_of_int [where 'a = 8, of c] by simp
    then show False using that Cons.prems(1) by simp
  qed
  then have "0 \<notin> set (edit l c)" using Cons.prems(2) by (auto simp: edit_def dest: in_set_butlastD)
  then show ?case using Cons by simp
qed simp

text \<open>
  C38: typing a line into the monitor and ending it with return runs the command that the words of the
  line name: every argument is a word of the edited line and in its place, too many words and
  unknown commands are reported, and an empty line does nothing.
\<close>

theorem monitor_runs_line:
  assumes "\<forall>c \<in> set cs. 0 \<le> c \<and> c < 256 \<and> c \<noteq> 10 \<and> c \<noteq> 13" "length buf = 1024"
  defines "line \<equiv> foldl edit [] cs"
  shows "\<exists>b. readline (cs @ 13 # rest) buf = Some (Inr (b, rest)) \<and>
    (if words_of line = [] then runcmd b = Some No_command
     else if 15 < length (words_of line) then runcmd b = Some Too_many_arguments
     else case find_command (hd (words_of line)) commands 0 of
       None \<Rightarrow> runcmd b = Some Unknown_command
     | Some k \<Rightarrow> \<exists>b' argv. runcmd b = Some (Command k b' argv) \<and> list_all2 (str_at b') argv (words_of line))"
proof -
  obtain b where b: "readline (cs @ 13 # rest) buf = Some (Inr (b, rest))" "length b = 1024"
    "length line < 1024" "take (length line) b = line" "b ! length line = 0"
    using readline_loop_edit [of buf cs 13 "[]" rest] assms(1,2) by (auto simp: readline_def line_def)
  have "str_at b 0 line"
    using b edit_chars [of cs "[]"] assms(1) nth_take [of _ "length line" b] by (auto simp: str_at_def line_def)
  note S = split_args_str [OF this, of "[]"] split_args_too_many [OF this, of "[]"]
  show ?thesis
  proof (intro exI conjI)
    show "readline (cs @ 13 # rest) buf = Some (Inr (b, rest))" by (rule b(1))
    show "if words_of line = [] then runcmd b = Some No_command
     else if 15 < length (words_of line) then runcmd b = Some Too_many_arguments
     else case find_command (hd (words_of line)) commands 0 of
       None \<Rightarrow> runcmd b = Some Unknown_command
     | Some k \<Rightarrow> \<exists>b' argv. runcmd b = Some (Command k b' argv) \<and> list_all2 (str_at b') argv (words_of line)"
    proof (cases "15 < length (words_of line)")
      case True
      then show ?thesis using S(2) by (auto simp: runcmd_def)
    next
      case False
      then obtain b' qs where q: "split_args b 0 [] = Some (Args b' qs)" "list_all2 (str_at b') qs (words_of line)"
        using S(1) by (auto intro: list_all2_mono)
      then have "qs \<noteq> [] \<Longrightarrow> str_of b' (hd qs) = hd (words_of line)" "qs = [] \<longleftrightarrow> words_of line = []"
        by (auto simp: list_all2_Cons1 str_of_at neq_Nil_conv)
      then show ?thesis using q False by (auto simp: runcmd_def split: option.split)
    qed
  qed
qed

theorem monitor_runs_line_witness:
  "\<exists>b b' argv. readline [0x68, 0x65, 0x6C, 0x71, 0x08, 0x70, 0x20, 0x78, 13] (replicate 1024 0) = Some (Inr (b, [])) \<and>
     runcmd b = Some (Command 0 b' argv) \<and> length argv = 2 \<and> str_at b' (hd argv) (char_bytes ''help'')"
proof -
  let ?cs = "[0x68, 0x65, 0x6C, 0x71, 0x08, 0x70, 0x20, 0x78] :: int list"
  have e: "foldl edit [] ?cs = [0x68, 0x65, 0x6C, 0x70, 0x20, 0x78]" by (simp add: edit_def)
  have w: "words_of [0x68, 0x65, 0x6C, 0x70, 0x20, 0x78] = [[0x68, 0x65, 0x6C, 0x70], [0x78]]"
    by (simp add: words_of.simps white_def)
  have f: "char_bytes ''help'' = [0x68, 0x65, 0x6C, 0x70]" by (simp add: char_bytes_def)
  have k: "find_command [0x68, 0x65, 0x6C, 0x70] commands 0 = Some 0" by (simp add: commands_def f)
  show ?thesis
    using monitor_runs_line [of ?cs "replicate 1024 0" "[]", unfolded e w] k
    by (auto simp: f list_all2_Cons2)
qed

end
