(* ===== verification/Shell.thy ===== *)
theory Shell
  imports Cmdline
begin

text \<open>
  The tokens of the shell (\<open>user/sh.c\<close>): \<open>_gettoken\<close>, which cuts one token out of the line, and
  \<open>gettoken\<close> with its static variables, which is always one token ahead.
\<close>

section \<open>_gettoken and gettoken\<close>

text \<open>
  \<open>get_token b s pp\<close> is \<open>_gettoken(s, &p1, &p2)\<close> with the old values \<open>pp\<close> of the two pointers, which
  a NULL string leaves alone; the result is the token's id, the pointers and the buffer.
\<close>

type_synonym pointers = "nat option \<times> nat option"

definition get_token :: "u8 list \<Rightarrow> nat option \<Rightarrow> pointers \<Rightarrow> (u8 \<times> pointers \<times> u8 list) option" where
  "get_token b s pp =
     (case s of None \<Rightarrow> Some (0, pp, b)
      | Some i \<Rightarrow> do {
          (b, i) \<leftarrow> gobble b i;
          if b ! i = 0 then Some (0, (None, None), b)
          else if symbol (b ! i) then Some (b ! i, (Some i, Some (i + 1)), b[i := 0])
          else do {
            j \<leftarrow> scan_word (\<lambda>c. white c \<or> symbol c) b i;
            Some (0x77, (Some i, Some j), b) } })"

record tokenizer =
  tk_nc :: u8
  tk_np :: pointers
  tk_buf :: "u8 list"

definition gettoken_set :: "nat \<Rightarrow> tokenizer \<Rightarrow> tokenizer option" where
  "gettoken_set s t = do {
     (nc, np, b) \<leftarrow> get_token (tk_buf t) (Some s) (tk_np t);
     Some \<lparr>tk_nc = nc, tk_np = np, tk_buf = b\<rparr> }"

definition gettoken :: "tokenizer \<Rightarrow> (u8 \<times> nat option \<times> tokenizer) option" where
  "gettoken t = do {
     (nc, np, b) \<leftarrow> get_token (tk_buf t) (snd (tk_np t)) (tk_np t);
     Some (tk_nc t, fst (tk_np t), \<lparr>tk_nc = nc, tk_np = np, tk_buf = b\<rparr>) }"

fun gettokens :: "nat \<Rightarrow> tokenizer \<Rightarrow> ((u8 \<times> nat option) list \<times> tokenizer) option" where
  "gettokens 0 t = Some ([], t)"
| "gettokens (Suc n) t = do {
     (c, p, t) \<leftarrow> gettoken t;
     (out, t) \<leftarrow> gettokens n t;
     Some ((c, p) # out, t) }"

section \<open>The tokens of a line\<close>

datatype token = Word "u8 list" | Symbol u8

primrec token_id :: "token \<Rightarrow> u8" where
  "token_id (Word w) = 0x77"
| "token_id (Symbol c) = c"

abbreviation special :: "u8 \<Rightarrow> bool" where
  "special c \<equiv> white c \<or> symbol c"

function tokens :: "u8 list \<Rightarrow> token list" where
  "tokens xs = (case dropWhile white xs of [] \<Rightarrow> []
     | y # ys \<Rightarrow> if symbol y then Symbol y # tokens ys
         else Word (takeWhile (\<lambda>c. \<not> special c) (y # ys)) # tokens (dropWhile (\<lambda>c. \<not> special c) ys))"
  by pat_completeness auto
termination
proof (relation "measure length", goal_cases)
  case (2 xs y ys)
  then show ?case using length_dropWhile_le [of white xs] by simp
next
  case (3 xs y ys)
  have "length (dropWhile (\<lambda>c. \<not> special c) ys) \<le> length ys" by (rule length_dropWhile_le)
  moreover have "length (y # ys) \<le> length xs" using 3 length_dropWhile_le [of white xs] by simp
  ultimately show ?case by simp
qed simp

declare tokens.simps [simp del]

lemma symbol_0 [simp]: "\<not> symbol 0" by (simp add: symbol_def)

lemma tokens_cases:
  "dropWhile white xs = [] \<Longrightarrow> tokens xs = []"
  "dropWhile white xs = y # ys \<Longrightarrow> symbol y \<Longrightarrow> tokens xs = Symbol y # tokens ys"
  "dropWhile white xs = y # ys \<Longrightarrow> \<not> symbol y \<Longrightarrow>
     tokens xs = Word (takeWhile (\<lambda>c. \<not> special c) (y # ys)) # tokens (dropWhile (\<lambda>c. \<not> special c) (y # ys))"
proof -
  show "tokens xs = []" if "dropWhile white xs = []" by (subst tokens.simps) (simp only: that list.case)
  show "tokens xs = Symbol y # tokens ys" if "dropWhile white xs = y # ys" "symbol y"
    by (subst tokens.simps) (simp add: that)
  show "tokens xs = Word (takeWhile (\<lambda>c. \<not> special c) (y # ys)) # tokens (dropWhile (\<lambda>c. \<not> special c) (y # ys))"
    if "dropWhile white xs = y # ys" "\<not> symbol y"
    using hd_dropWhile [of white xs] that by (subst tokens.simps) simp
qed

text \<open>The tokens cut out so far: the id and, for a word, the word itself in the buffer.\<close>

definition token_at :: "u8 list \<Rightarrow> nat \<Rightarrow> u8 \<times> nat option \<Rightarrow> token \<Rightarrow> bool" where
  "token_at b i = (\<lambda>(c, p) t. c = token_id t \<and> (\<exists>k. p = Some k \<and> i \<le> k \<and> (\<forall>w. t = Word w \<longrightarrow> str_at b k w)))"

lemma gettokens_step:
  "gettoken t = Some (c, p, t1) \<Longrightarrow> gettokens n t1 = Some (out, t2) \<Longrightarrow> gettokens (Suc n) t = Some ((c, p) # out, t2)"
  by simp

lemma gettokens_line:
  "str_at b i xs \<Longrightarrow>
   \<exists>nc np b1 out t. get_token b (Some i) pp = Some (nc, np, b1) \<and>
     gettokens (Suc (length (tokens xs))) \<lparr>tk_nc = nc, tk_np = np, tk_buf = b1\<rparr> = Some (out @ [(0, None)], t) \<and>
     length (tk_buf t) = length b \<and> (\<forall>a < i. tk_buf t ! a = b ! a) \<and>
     (xs = [] \<or> special (hd xs) \<longrightarrow> tk_buf t ! i = 0) \<and> list_all2 (token_at (tk_buf t) i) out (tokens xs)"
proof (induction "length xs" arbitrary: b i xs pp rule: less_induct)
  case less
  let ?n = "length (takeWhile white xs)"
  obtain b1 where g: "gobble b i = Some (b1, i + ?n)" "length b1 = length b"
    "\<forall>a. b1 ! a = (if i \<le> a \<and> a < i + ?n \<and> a < length b then 0 else b ! a)" "str_at b1 (i + ?n) (dropWhile white xs)"
    using gobble_str [OF less.prems(1)] by blast
  have len: "i < length b" using less.prems(1) by (simp add: str_at_def)
  show ?case
  proof (cases "dropWhile white xs")
    case Nil
    have "b1 ! (i + ?n) = 0" using g(4) [unfolded Nil] by (simp add: str_at_Nil)
    then have gt: "get_token b (Some i) pp = Some (0, (None, None), b1)" using g(1) by (simp add: get_token_def)
    have "b1 ! i = 0" using \<open>b1 ! (i + ?n) = 0\<close> g(3) len by (cases "?n = 0") auto
    then show ?thesis using gt g(2,3) tokens_cases(1) [OF Nil]
      by (intro exI [of _ 0] exI [of _ "(None, None)"] exI [of _ b1] exI [of _ "[]"])
        (auto simp: gettoken_def get_token_def)
  next
    case (Cons y ys)
    have y: "\<not> white y" "b1 ! (i + ?n) = y" "y \<noteq> 0" using hd_dropWhile [of white xs] Cons g(4) by (auto simp: str_at_Cons)
    let ?i1 = "i + ?n"
    have i1: "?i1 < length b1" using g(4) Cons by (simp add: str_at_def)
    have l: "length (y # ys) \<le> length xs" using length_dropWhile_le [of white xs] Cons by simp
    have step: ?thesis
      if gt: "get_token b (Some i) pp = Some (token_id tk, (Some ?i1, Some j), bt)" and bt: "length bt = length b"
        "?i1 < j" "\<forall>a < i. bt ! a = b ! a" "xs = [] \<or> special (hd xs) \<longrightarrow> bt ! i = 0"
        and r: "str_at bt j r" "length r < length xs" "tokens xs = tk # tokens r"
        and w: "\<And>b' w. length b' = length bt \<Longrightarrow> \<forall>a < j. b' ! a = bt ! a \<Longrightarrow> r = [] \<or> special (hd r) \<longrightarrow> b' ! j = 0 \<Longrightarrow>
          tk = Word w \<Longrightarrow> str_at b' ?i1 w" for tk j bt r
    proof -
      from less.hyps [OF r(2,1), of "(Some ?i1, Some j)"] obtain nc np b3 out t where
        h: "get_token bt (Some j) (Some ?i1, Some j) = Some (nc, np, b3)"
          "gettokens (Suc (length (tokens r))) \<lparr>tk_nc = nc, tk_np = np, tk_buf = b3\<rparr> = Some (out @ [(0, None)], t)"
          "length (tk_buf t) = length bt" "\<forall>a < j. tk_buf t ! a = bt ! a"
          "r = [] \<or> special (hd r) \<longrightarrow> tk_buf t ! j = 0" "list_all2 (token_at (tk_buf t) j) out (tokens r)" by blast
      have "gettokens (Suc (length (tokens xs))) \<lparr>tk_nc = token_id tk, tk_np = (Some ?i1, Some j), tk_buf = bt\<rparr> =
          Some (((token_id tk, Some ?i1) # out) @ [(0, None)], t)"
        unfolding append_Cons r(3) list.size(4) add_0_right add_Suc_right
        by (rule gettokens_step [OF _ h(2)]) (simp add: gettoken_def h(1))
      moreover have "token_at (tk_buf t) i (token_id tk, Some ?i1) tk" using w h(3-5) by (simp add: token_at_def)
      moreover have "list_all2 (token_at (tk_buf t) i) out (tokens r)"
        using h(6) bt(2) by (auto simp: token_at_def intro!: list_all2_mono [OF h(6)])
      ultimately show ?thesis using gt h(3,4) bt r(3) by fastforce
    qed
    show ?thesis
    proof (cases "symbol y")
      case True
      let ?bt = "b1[?i1 := 0]"
      have ys: "str_at b1 (Suc ?i1) ys" using g(4) unfolding Cons str_at_Cons by simp
      show ?thesis
      proof (rule step [where tk = "Symbol y" and j = "Suc ?i1" and bt = ?bt and r = ys])
        show "get_token b (Some i) pp = Some (token_id (Symbol y), (Some ?i1, Some (Suc ?i1)), ?bt)"
          using g(1) y True by (simp add: get_token_def)
        show "str_at ?bt (Suc ?i1) ys" using ys str_at_cong [of ?bt b1 "Suc ?i1" ys] by simp
        show "tokens xs = Symbol y # tokens ys" by (rule tokens_cases(2) [OF Cons True])
        show "xs = [] \<or> special (hd xs) \<longrightarrow> ?bt ! i = 0" using g(3) i1 len by (cases "?n = 0") auto
      qed (use g(2,3) l in auto)
    next
      case False
      let ?w = "takeWhile (\<lambda>c. \<not> special c) (y # ys)" and ?r = "dropWhile (\<lambda>c. \<not> special c) (y # ys)"
      have sp: "\<not> special y" using y(1) False by simp
      note F = first_word [where stop = special, OF g(4) [unfolded Cons] sp refl]
      show ?thesis
      proof (rule step [where tk = "Word ?w" and j = "?i1 + length ?w" and bt = b1 and r = ?r])
        show "get_token b (Some i) pp = Some (token_id (Word ?w), (Some ?i1, Some (?i1 + length ?w)), b1)"
          using g(1) y False F(1) by (simp add: get_token_def)
        show "?i1 < ?i1 + length ?w" using F(4) by simp
        show "str_at b1 (?i1 + length ?w) ?r" by (rule F(2))
        show "length ?r < length xs" using F(3) l by simp
        show "tokens xs = Word ?w # tokens ?r" by (rule tokens_cases(3) [OF Cons False])
        show "xs = [] \<or> special (hd xs) \<longrightarrow> b1 ! i = 0"
        proof (cases "?n = 0")
          case True
          then have "xs = y # ys" using Cons by (cases xs) (auto split: if_splits)
          then show ?thesis using sp by simp
        qed (use g(3) len in auto)
        show "str_at b' ?i1 w" if "length b' = length b1" "\<forall>a < ?i1 + length ?w. b' ! a = b1 ! a"
          "?r = [] \<or> special (hd ?r) \<longrightarrow> b' ! (?i1 + length ?w) = 0" "Word ?w = Word w" for b' w
          using F(5,6) that by simp
      qed (use g(2,3) in auto)
    qed
  qed
qed

text \<open>
  C39: calling \<open>gettoken\<close> on a line until it returns 0 yields exactly the tokens of the line, in order;
  each word it hands out is a NUL-terminated string in the buffer.
\<close>

theorem shell_tokens:
  assumes "str_at (tk_buf t0) i line"
  shows "\<exists>t out t'. gettoken_set i t0 = Some t \<and>
    gettokens (Suc (length (tokens line))) t = Some (out @ [(0, None)], t') \<and>
    list_all2 (token_at (tk_buf t') i) out (tokens line)"
  using gettokens_line [OF assms, of "tk_np t0"] by (auto simp: gettoken_set_def)

text \<open>\<open>ls >a\<close>\<close>

theorem shell_tokens_witness:
  "\<exists>t out t'. gettoken_set 0 \<lparr>tk_nc = 0, tk_np = (None, None), tk_buf = [0x6C, 0x73, 0x20, 0x3E, 0x61, 0]\<rparr> = Some t \<and>
     gettokens 4 t = Some (out @ [(0, None)], t') \<and>
     list_all2 (token_at (tk_buf t') 0) out [Word [0x6C, 0x73], Symbol 0x3E, Word [0x61]]"
proof -
  have t: "tokens [0x6C, 0x73, 0x20, 0x3E, 0x61] = [Word [0x6C, 0x73], Symbol 0x3E, Word [0x61]]"
    by (simp add: tokens.simps white_def symbol_def)
  have s: "str_at [0x6C, 0x73, 0x20, 0x3E, 0x61, 0] 0 [0x6C, 0x73, 0x20, 0x3E, 0x61]"
    by (simp add: str_at_Cons str_at_Nil)
  show ?thesis
    using shell_tokens [of "\<lparr>tk_nc = 0, tk_np = (None, None), tk_buf = [0x6C, 0x73, 0x20, 0x3E, 0x61, 0]\<rparr>" 0
      "[0x6C, 0x73, 0x20, 0x3E, 0x61]", unfolded t] s by (simp add: eval_nat_numeral)
qed

end
