(* ===== verification/Args.thy ===== *)
theory Args
  imports Prelude
begin

text \<open>
  Command-line flags (\<open>lib/args.c\<close>).  A string is the list of its bytes up to the NUL, a pointer into a string is what is
  left of it, and \<open>argv\<close> is the list of the arguments, without the NULL behind the last.
\<close>

section \<open>The code\<close>

type_synonym str = "u8 list"

record argstate =
  a_argc :: nat
  a_argv :: "str list"
  a_curarg :: "str option"
  a_argvalue :: "str option"

definition argstart :: "nat \<Rightarrow> str list \<Rightarrow> argstate" where
  "argstart argc argv = \<lparr>a_argc = argc, a_argv = argv, a_curarg = (if 1 < argc then Some [] else None), a_argvalue = None\<rparr>"

text \<open>\<open>memmove(argv + 1, argv + 2, ...); argc--\<close>\<close>

definition shift_args :: "argstate \<Rightarrow> argstate" where
  "shift_args a = a\<lparr>a_argv := take 1 (a_argv a) @ drop 2 (a_argv a), a_argc := a_argc a - 1\<rparr>"

text \<open>\<open>None\<close> as the first component is the result -1.\<close>

definition next_char :: "argstate \<Rightarrow> u8 \<Rightarrow> str \<Rightarrow> (u8 option \<times> argstate)" where
  "next_char a c cs = (Some c, a\<lparr>a_curarg := Some cs\<rparr>)"

definition argnext :: "argstate \<Rightarrow> (u8 option \<times> argstate)" where
  "argnext a =
     (let a = a\<lparr>a_argvalue := None\<rparr>;
          end_of_args = (\<lambda>a. (None, a\<lparr>a_curarg := None\<rparr>))
      in case a_curarg a of
           None \<Rightarrow> (None, a)
         | Some (c # cs) \<Rightarrow> next_char a c cs
         | Some [] \<Rightarrow>
             if a_argc a = 1 then end_of_args a
             else (case a_argv a ! 1 of
                 dash # c # cs \<Rightarrow>
                   if dash \<noteq> 0x2D then end_of_args a
                   else let a = shift_args (a\<lparr>a_curarg := Some (c # cs)\<rparr>)
                        in if c = 0x2D \<and> cs = [] then end_of_args a else next_char a c cs
               | _ \<Rightarrow> end_of_args a))"

definition argnextvalue :: "argstate \<Rightarrow> (str option \<times> argstate)" where
  "argnextvalue a =
     (case a_curarg a of
        None \<Rightarrow> (None, a)
      | Some s \<Rightarrow>
          let a = (if s \<noteq> [] then a\<lparr>a_argvalue := Some s, a_curarg := Some []\<rparr>
                   else if 1 < a_argc a then shift_args (a\<lparr>a_argvalue := Some (a_argv a ! 1)\<rparr>)
                   else a\<lparr>a_argvalue := None, a_curarg := None\<rparr>)
          in (a_argvalue a, a))"

definition argvalue :: "argstate \<Rightarrow> (str option \<times> argstate)" where
  "argvalue a = (case a_argvalue a of Some v \<Rightarrow> (Some v, a) | None \<Rightarrow> argnextvalue a)"

section \<open>The flags of a command line\<close>

text \<open>The flags, in order, and the arguments that are left.\<close>

fun flags :: "str list \<Rightarrow> u8 list \<times> str list" where
  "flags [] = ([], [])"
| "flags (w # ws) =
     (case w of
        dash # c # cs \<Rightarrow> if dash \<noteq> 0x2D then ([], w # ws)
                         else if c = 0x2D \<and> cs = [] then ([], ws)
                         else (let (fs, rest) = flags ws in (c # cs @ fs, rest))
      | _ \<Rightarrow> ([], w # ws))"

fun argnexts :: "nat \<Rightarrow> argstate \<Rightarrow> (u8 option list \<times> argstate)" where
  "argnexts 0 a = ([], a)"
| "argnexts (Suc n) a = (let (r, a) = argnext a; (rs, a) = argnexts n a in (r # rs, a))"

definition args_wf :: "argstate \<Rightarrow> bool" where
  "args_wf a \<longleftrightarrow> a_argc a = length (a_argv a) \<and> a_argv a \<noteq> []"

lemma argnexts_chars:
  "a_curarg a = Some s \<Longrightarrow> argnexts (length s + n) a =
     (map Some s @ fst (argnexts n (a\<lparr>a_curarg := Some [], a_argvalue := (if s = [] then a_argvalue a else None)\<rparr>)),
      snd (argnexts n (a\<lparr>a_curarg := Some [], a_argvalue := (if s = [] then a_argvalue a else None)\<rparr>)))"
proof (induction s arbitrary: a)
  case Nil
  then have "a\<lparr>a_curarg := Some [], a_argvalue := a_argvalue a\<rparr> = a" by simp
  then show ?case by simp
next
  case (Cons c cs)
  have n: "argnext a = (Some c, a\<lparr>a_argvalue := None, a_curarg := Some cs\<rparr>)"
    using Cons.prems by (simp add: argnext_def Let_def next_char_def)
  show ?case using Cons.IH [of "a\<lparr>a_argvalue := None, a_curarg := Some cs\<rparr>"] n by (simp add: Let_def split_beta)
qed

text \<open>Between two words: the arguments not looked at are \<open>ws\<close>.\<close>

lemma argnexts_words:
  assumes "a_argc a = Suc (length ws)" "a_argv a = a0 # ws" "a_curarg a = Some []"
  shows "\<exists>a'. argnexts (Suc (length (fst (flags ws)))) a = (map Some (fst (flags ws)) @ [None], a') \<and>
    a_argv a' = a0 # snd (flags ws) \<and> a_argc a' = Suc (length (snd (flags ws))) \<and> a_curarg a' = None"
  using assms
proof (induction ws arbitrary: a)
  case Nil
  then show ?case by (simp add: argnext_def Let_def)
next
  case (Cons w ws)
  consider (flag) c cs where "w = 0x2D # c # cs" "\<not> (c = 0x2D \<and> cs = [])" | (dashes) "w = [0x2D, 0x2D]"
    | (other) "\<And>c cs. w \<noteq> 0x2D # c # cs" by blast
  then show ?case
  proof cases
    case flag
    let ?b = "a\<lparr>a_argvalue := None, a_argv := a0 # ws, a_argc := Suc (length ws), a_curarg := Some cs\<rparr>"
    have n: "argnext a = (Some c, ?b)"
      using Cons.prems flag by (auto simp: argnext_def Let_def shift_args_def next_char_def)
    let ?e = "?b\<lparr>a_curarg := Some [], a_argvalue := None\<rparr>"
    obtain a' where I: "argnexts (Suc (length (fst (flags ws)))) ?e = (map Some (fst (flags ws)) @ [None], a')"
      "a_argv a' = a0 # snd (flags ws)" "a_argc a' = Suc (length (snd (flags ws)))" "a_curarg a' = None"
      using Cons.IH [of ?e] by auto
    have "argnexts (length cs + Suc (length (fst (flags ws)))) ?b = (map Some cs @ map Some (fst (flags ws)) @ [None], a')"
      using argnexts_chars [of ?b cs "Suc (length (fst (flags ws)))"] I(1) by (simp del: argnexts.simps)
    then show ?thesis using n flag I(2-4) by (auto simp: Let_def split_beta)
  next
    case dashes
    then show ?thesis using Cons.prems by (simp add: argnext_def Let_def shift_args_def)
  next
    case other
    then have "flags (w # ws) = ([], w # ws)" by (auto split: list.splits)
    moreover have "argnext a = (None, a\<lparr>a_argvalue := None, a_curarg := None\<rparr>)"
      using Cons.prems other by (auto simp: argnext_def Let_def split: list.splits)
    ultimately show ?thesis using Cons.prems by simp
  qed
qed

text \<open>
  C40: calling \<open>argnext\<close> until it returns -1 yields the flags of the command line - the characters of the words that begin
  with a dash, up to the first other word or \<open>--\<close> - in order, and leaves exactly the arguments that are not flags.
\<close>

theorem args_flags:
  assumes "ws \<noteq> []"
  shows "\<exists>a. argnexts (Suc (length (fst (flags ws)))) (argstart (Suc (length ws)) (a0 # ws)) =
      (map Some (fst (flags ws)) @ [None], a) \<and> a_argv a = a0 # snd (flags ws) \<and> a_argc a = Suc (length (snd (flags ws)))"
  using argnexts_words [of "argstart (Suc (length ws)) (a0 # ws)" ws a0] assms by (auto simp: argstart_def)

text \<open>\<open>sh -dx file\<close>\<close>

theorem args_flags_witness:
  "\<exists>a. argnexts 3 (argstart 3 [[0x73, 0x68], [0x2D, 0x64, 0x78], [0x66]]) = ([Some 0x64, Some 0x78, None], a) \<and>
     a_argv a = [[0x73, 0x68], [0x66]]"
  using args_flags [of "[[0x2D, 0x64, 0x78], [0x66]]" "[0x73, 0x68]"] by (auto simp: numeral_eq_Suc simp del: argnexts.simps)

text \<open>The value of a flag: the rest of its word, or the next argument.\<close>

lemma argvalue_rest:
  assumes "argnext a = (Some c, b)" "a_curarg b = Some s" "s \<noteq> []"
  shows "argvalue b = (Some s, b\<lparr>a_argvalue := Some s, a_curarg := Some []\<rparr>)"
proof -
  have "a_argvalue b = None"
    using assms(1) by (auto simp: argnext_def next_char_def Let_def shift_args_def split: option.splits list.splits if_splits)
  then show ?thesis using assms(2,3) by (simp add: argvalue_def argnextvalue_def Let_def)
qed

lemma argvalue_next:
  assumes "a_argvalue b = None" "a_curarg b = Some []" "a_argv b = a0 # w # ws" "a_argc b = Suc (Suc (length ws))"
  obtains b' where "argvalue b = (Some w, b')" "a_argv b' = a0 # ws" "a_argc b' = Suc (length ws)" "a_curarg b' = Some []"
  using assms by (auto simp: argvalue_def argnextvalue_def Let_def shift_args_def)

end
