(* ===== verification/FdLib.thy ===== *)
theory FdLib
  imports FsServ
begin

text \<open>
  The client's side of files: descriptors (\<open>lib/fd.c\<close>), the file device and its requests to the file
  server (\<open>lib/file.c\<close>, over \<open>lib/ipc.c\<close>), the console device (\<open>lib/console.c\<close>) and \<open>user/cat.c\<close>.  A
  result is the \<open>int\<close> the code returns; \<open>None\<close> is a fault, a failed assertion, a panic of the server or a
  call that never returns.
\<close>

section \<open>The client and its memory\<close>

text \<open>
  A page of the client is a frame of its own or a page of the file server that is mapped here too
  (\<open>struct Fd\<close>); \<open>c_pages\<close> is what \<open>uvpt\<close> shows, by page number.  \<open>fsipcbuf\<close> is the address of the request
  page.  \<open>no_table\<close> are the regions of 4 MB without a page table for which the kernel cannot allocate
  one.  \<open>cons_in\<close> are the results of the next calls of \<open>sys_cgetc\<close>, \<open>cons_out\<close> is what \<open>sys_cputs\<close> printed.
\<close>

datatype cpage = Own nat | Server u32

record cl =
  srv :: fs
  c_pages :: "u32 \<Rightarrow> cpage option"
  c_frames :: "nat \<Rightarrow> mem"
  fsipcbuf :: u32
  no_table :: "u32 \<Rightarrow> bool"
  cons_in :: "u32 list"
  cons_out :: "u8 list"

definition cl_at :: "u32 \<Rightarrow> cl \<Rightarrow> (mem \<times> u32) option" where
  "cl_at a c = (case c_pages c (PGNUM a) of
     None \<Rightarrow> None
   | Some (Own k) \<Rightarrow> Some (c_frames c k, a mod PGSIZE)
   | Some (Server p) \<Rightarrow> Some (fmem (srv c), p * PGSIZE + a mod PGSIZE))"

definition cl_ld8 :: "u32 \<Rightarrow> cl \<Rightarrow> u8 option" where
  "cl_ld8 a c = map_option (\<lambda>(m, x). m x) (cl_at a c)"

definition cl_ld32 :: "u32 \<Rightarrow> cl \<Rightarrow> u32 option" where
  "cl_ld32 a c = map_option (\<lambda>(m, x). get32 m x) (cl_at a c)"

definition cl_upd :: "u32 \<Rightarrow> (u32 \<Rightarrow> mem \<Rightarrow> mem) \<Rightarrow> cl \<Rightarrow> cl option" where
  "cl_upd a g c = (case c_pages c (PGNUM a) of
     None \<Rightarrow> None
   | Some (Own k) \<Rightarrow> Some (c\<lparr>c_frames := (c_frames c)(k := g (a mod PGSIZE) (c_frames c k))\<rparr>)
   | Some (Server p) \<Rightarrow> Some (c\<lparr>srv := (srv c)\<lparr>fmem := g (p * PGSIZE + a mod PGSIZE) (fmem (srv c))\<rparr>\<rparr>))"

definition cl_st8 :: "u32 \<Rightarrow> u8 \<Rightarrow> cl \<Rightarrow> cl option" where
  "cl_st8 a b = cl_upd a (\<lambda>x m. m(x := b))"

definition cl_st32 :: "u32 \<Rightarrow> u32 \<Rightarrow> cl \<Rightarrow> cl option" where
  "cl_st32 a w = cl_upd a (\<lambda>x. put32 x w)"

fun cl_load :: "u32 \<Rightarrow> nat \<Rightarrow> cl \<Rightarrow> u8 list option" where
  "cl_load a 0 c = Some []"
| "cl_load a (Suc n) c = do { b \<leftarrow> cl_ld8 a c; bs \<leftarrow> cl_load (a + 1) n c; Some (b # bs) }"

fun cl_store :: "u32 \<Rightarrow> u8 list \<Rightarrow> cl \<Rightarrow> cl option" where
  "cl_store a [] c = Some c"
| "cl_store a (b # bs) c = do { c \<leftarrow> cl_st8 a b c; cl_store (a + 1) bs c }"

text \<open>\<open>memmove\<close> copies as if through a buffer of its own; \<open>strcpy\<close> goes byte by byte.\<close>

definition cl_memmove :: "u32 \<Rightarrow> u32 \<Rightarrow> u32 \<Rightarrow> cl \<Rightarrow> cl option" where
  "cl_memmove d a n c = do { bs \<leftarrow> cl_load a (unat n) c; cl_store d bs c }"

partial_function (option) cl_strcpy :: "u32 \<Rightarrow> u32 \<Rightarrow> cl \<Rightarrow> cl option" where
  "cl_strcpy d a c = do {
     b \<leftarrow> cl_ld8 a c;
     c \<leftarrow> cl_st8 d b c;
     if b = 0 then Some c else cl_strcpy (d + 1) (a + 1) c }"

section \<open>Mapping pages\<close>

text \<open>
  \<open>sys_page_unmap (0, va)\<close> and the mapping half of \<open>sys_page_map\<close> and \<open>sys_ipc_try_send\<close>: the kernel counts the
  references to the server's pages, which the server reads with \<open>pageref\<close>.
\<close>

definition add_ref :: "cpage option \<Rightarrow> int \<Rightarrow> cl \<Rightarrow> cl" where
  "add_ref pg d c = (case pg of
     Some (Server p) \<Rightarrow> c\<lparr>srv := (srv c)\<lparr>page_refs := (page_refs (srv c))(p := nat (int (page_refs (srv c) p) + d))\<rparr>\<rparr>
   | _ \<Rightarrow> c)"

definition cl_unmap :: "u32 \<Rightarrow> cl \<Rightarrow> cl" where
  "cl_unmap va c =
     (if 0xEEC00000 \<le> va \<or> va mod PGSIZE \<noteq> 0 then c
      else (add_ref (c_pages c (PGNUM va)) (-1) c)\<lparr>c_pages := (c_pages c)(PGNUM va := None)\<rparr>)"

definition cl_map :: "u32 \<Rightarrow> cpage \<Rightarrow> cl \<Rightarrow> (error + unit) \<times> cl" where
  "cl_map va pg c =
     (if 0xEEC00000 \<le> va \<or> va mod PGSIZE \<noteq> 0 then (Inl E_INVAL, c)
      else if no_table c (PDX va) then (Inl E_NO_MEM, c)
      else (Inr (), (cl_unmap va (add_ref (Some pg) 1 c))\<lparr>c_pages := (c_pages c)(PGNUM va := Some pg)\<rparr>))"

section \<open>Requests to the file server\<close>

text \<open>
  While a request is handled the client's request page is the server's page \<open>fsreq\<close>, so what the server
  writes there the client finds in \<open>fsipcbuf\<close>.  A page of the reply is mapped at \<open>dstva\<close>; when that fails,
  \<open>ipc_send\<close> panics in the server.
\<close>

definition request_page :: "mem \<Rightarrow> fs \<Rightarrow> fs" where
  "request_page m s = s\<lparr>fmem := (\<lambda>x. if PGNUM x = PGNUM fsreq then m (x mod PGSIZE) else fmem s x),
     mapped := (mapped s)(PGNUM fsreq := True), pdirty := (pdirty s)(PGNUM fsreq := False),
     page_refs := (page_refs s)(PGNUM fsreq := 2)\<rparr>"

definition fsipc :: "u32 \<Rightarrow> u32 option \<Rightarrow> cl \<Rightarrow> (u32 \<times> cl) option" where
  "fsipc type dstva c = (case c_pages c (PGNUM (fsipcbuf c)) of
     Some (Own k) \<Rightarrow> do {
       (reply, s) \<leftarrow> serve_request type (PTE_P OR PTE_W OR PTE_U) (request_page (c_frames c k) (srv c));
       (r, pg, perm) \<leftarrow> reply;
       let c = c\<lparr>srv := s, c_frames := (c_frames c)(k := (\<lambda>x. fmem s (fsreq + x mod PGSIZE)))\<rparr>;
       case dstva of
         Some va \<Rightarrow>
           if pg = 0 then Some (r, c)
           else (case cl_map va (Server (PGNUM pg)) c of (Inl e, c) \<Rightarrow> None | (Inr u, c) \<Rightarrow> Some (r, c))
       | None \<Rightarrow> Some (r, c) }
   | _ \<Rightarrow> None)"

text \<open>The devices: the operations a \<open>struct Dev\<close> leaves NULL are \<open>None\<close>; \<open>dev_at\<close> is the address of the structure.\<close>

record dev =
  dev_id :: u32
  dev_at :: u32
  dev_read :: "(u32 \<Rightarrow> u32 \<Rightarrow> u32 \<Rightarrow> cl \<Rightarrow> (u32 \<times> cl) option) option"
  dev_write :: "(u32 \<Rightarrow> u32 \<Rightarrow> u32 \<Rightarrow> cl \<Rightarrow> (u32 \<times> cl) option) option"
  dev_close :: "(u32 \<Rightarrow> cl \<Rightarrow> (u32 \<times> cl) option) option"
  dev_stat :: "(u32 \<Rightarrow> u32 \<Rightarrow> cl \<Rightarrow> (u32 \<times> cl) option) option"
  dev_trunc :: "(u32 \<Rightarrow> u32 \<Rightarrow> cl \<Rightarrow> (u32 \<times> cl) option) option"

section \<open>Descriptors\<close>

abbreviation (input) MAXFD :: nat where "MAXFD \<equiv> 32"
abbreviation (input) FDTABLE :: u32 where "FDTABLE \<equiv> 0xD0000000"
abbreviation (input) FILEDATA :: u32 where "FILEDATA \<equiv> 0xD0020000"

definition index2fd :: "u32 \<Rightarrow> u32" where "index2fd i = FDTABLE + i * PGSIZE"
definition index2data :: "u32 \<Rightarrow> u32" where "index2data i = FILEDATA + i * PGSIZE"
definition fd2num :: "u32 \<Rightarrow> u32" where "fd2num fd = (fd - FDTABLE) div PGSIZE"
definition fd2data :: "u32 \<Rightarrow> u32" where "fd2data fd = index2data (fd2num fd)"

definition page_present :: "u32 \<Rightarrow> cl \<Rightarrow> bool" where
  "page_present va c \<longleftrightarrow> c_pages c (PGNUM va) \<noteq> None"

definition fd_alloc :: "cl \<Rightarrow> error + u32" where
  "fd_alloc c = (case find (\<lambda>i. \<not> page_present (index2fd (of_nat i)) c) [0..<MAXFD] of
     Some i \<Rightarrow> Inr (index2fd (of_nat i))
   | None \<Rightarrow> Inl E_MAX_OPEN)"

definition fd_lookup :: "u32 \<Rightarrow> cl \<Rightarrow> error + u32" where
  "fd_lookup fdnum c =
     (if sint fdnum < 0 \<or> int MAXFD \<le> sint fdnum \<or> \<not> page_present (index2fd fdnum) c then Inl E_INVAL
      else Inr (index2fd fdnum))"

definition dev_lookup :: "dev list \<Rightarrow> u32 \<Rightarrow> error + dev" where
  "dev_lookup devs did = (case find (\<lambda>d. dev_id d = did) devs of Some d \<Rightarrow> Inr d | None \<Rightarrow> Inl E_INVAL)"

definition fd_close :: "dev list \<Rightarrow> u32 \<Rightarrow> bool \<Rightarrow> cl \<Rightarrow> (u32 \<times> cl) option" where
  "fd_close devs fd must_exist c = (case fd_lookup (fd2num fd) c of
     Inl e \<Rightarrow> Some (if must_exist then code (Inl e) else 0, c)
   | Inr fd2 \<Rightarrow>
       if fd \<noteq> fd2 then Some (0, c)
       else do {
         did \<leftarrow> cl_ld32 (fd_dev_id fd) c;
         (r, c) \<leftarrow> (case dev_lookup devs did of
             Inl e \<Rightarrow> Some (code (Inl e), c)
           | Inr d \<Rightarrow> (case dev_close d of Some g \<Rightarrow> g fd c | None \<Rightarrow> Some (0, c)));
         Some (r, cl_unmap fd c) })"

definition close :: "dev list \<Rightarrow> u32 \<Rightarrow> cl \<Rightarrow> (u32 \<times> cl) option" where
  "close devs fdnum c = (case fd_lookup fdnum c of
     Inl e \<Rightarrow> Some (code (Inl e), c)
   | Inr fd \<Rightarrow> fd_close devs fd True c)"

fun close_from :: "dev list \<Rightarrow> nat \<Rightarrow> u32 \<Rightarrow> cl \<Rightarrow> cl option" where
  "close_from devs 0 i c = Some c"
| "close_from devs (Suc n) i c = do { (r, c) \<leftarrow> close devs i c; close_from devs n (i + 1) c }"

definition close_all :: "dev list \<Rightarrow> cl \<Rightarrow> cl option" where
  "close_all devs = close_from devs MAXFD 0"

text \<open>The pages of \<open>oldfd\<close> and of its data are looked up when they are mapped.\<close>

definition dup_page :: "u32 \<Rightarrow> u32 \<Rightarrow> cl \<Rightarrow> (error + unit) \<times> cl" where
  "dup_page ova nva c = (case c_pages c (PGNUM ova) of
     None \<Rightarrow> (Inl E_INVAL, c)
   | Some pg \<Rightarrow> cl_map nva pg c)"

definition dup :: "dev list \<Rightarrow> u32 \<Rightarrow> u32 \<Rightarrow> cl \<Rightarrow> (u32 \<times> cl) option" where
  "dup devs oldfdnum newfdnum c = (case fd_lookup oldfdnum c of
     Inl e \<Rightarrow> Some (code (Inl e), c)
   | Inr oldfd \<Rightarrow> do {
       (r, c) \<leftarrow> close devs newfdnum c;
       let newfd = index2fd newfdnum;
       let ova = fd2data oldfd;
       let nva = fd2data newfd;
       let failed = (\<lambda>e c. Some (code (Inl e), cl_unmap nva (cl_unmap newfd c)));
       case (if page_present ova c then dup_page ova nva c else (Inr (), c)) of
         (Inl e, c) \<Rightarrow> failed e c
       | (Inr u, c) \<Rightarrow> (case dup_page oldfd newfd c of
           (Inl e, c) \<Rightarrow> failed e c
         | (Inr u, c) \<Rightarrow> Some (newfdnum, c)) })"

text \<open>What \<open>read\<close>, \<open>write\<close>, \<open>ftruncate\<close> and \<open>fstat\<close> begin with.\<close>

definition with_fd :: "dev list \<Rightarrow> u32 \<Rightarrow> (u32 \<Rightarrow> dev \<Rightarrow> cl \<Rightarrow> (u32 \<times> cl) option) \<Rightarrow> cl \<Rightarrow> (u32 \<times> cl) option" where
  "with_fd devs fdnum g c = (case fd_lookup fdnum c of
     Inl e \<Rightarrow> Some (code (Inl e), c)
   | Inr fd \<Rightarrow> do {
       did \<leftarrow> cl_ld32 (fd_dev_id fd) c;
       case dev_lookup devs did of
         Inl e \<Rightarrow> Some (code (Inl e), c)
       | Inr d \<Rightarrow> g fd d c })"

abbreviation (input) O_RDONLY :: u32 where "O_RDONLY \<equiv> 0"
abbreviation (input) O_WRONLY :: u32 where "O_WRONLY \<equiv> 1"
abbreviation (input) O_RDWR :: u32 where "O_RDWR \<equiv> 2"

definition fd_read :: "dev list \<Rightarrow> u32 \<Rightarrow> u32 \<Rightarrow> u32 \<Rightarrow> cl \<Rightarrow> (u32 \<times> cl) option" where
  "fd_read devs fdnum buf n = with_fd devs fdnum (\<lambda>fd d c. do {
     omode \<leftarrow> cl_ld32 (fd_omode fd) c;
     if omode AND O_ACCMODE = O_WRONLY then Some (code (Inl E_INVAL), c)
     else case dev_read d of
       None \<Rightarrow> Some (code (Inl E_NOT_SUPP), c)
     | Some g \<Rightarrow> g fd buf n c })"

definition fd_write :: "dev list \<Rightarrow> u32 \<Rightarrow> u32 \<Rightarrow> u32 \<Rightarrow> cl \<Rightarrow> (u32 \<times> cl) option" where
  "fd_write devs fdnum buf n = with_fd devs fdnum (\<lambda>fd d c. do {
     omode \<leftarrow> cl_ld32 (fd_omode fd) c;
     if omode AND O_ACCMODE = O_RDONLY then Some (code (Inl E_INVAL), c)
     else case dev_write d of
       None \<Rightarrow> Some (code (Inl E_NOT_SUPP), c)
     | Some g \<Rightarrow> g fd buf n c })"

partial_function (option) readn_from :: "dev list \<Rightarrow> u32 \<Rightarrow> u32 \<Rightarrow> u32 \<Rightarrow> u32 \<Rightarrow> cl \<Rightarrow> (u32 \<times> cl) option" where
  "readn_from devs fdnum buf n tot c =
     (if tot < n then do {
        (m, c) \<leftarrow> fd_read devs fdnum (buf + tot) (n - tot) c;
        if sint m < 0 then Some (m, c)
        else if m = 0 then Some (tot, c)
        else readn_from devs fdnum buf n (tot + m) c }
      else Some (tot, c))"

definition readn :: "dev list \<Rightarrow> u32 \<Rightarrow> u32 \<Rightarrow> u32 \<Rightarrow> cl \<Rightarrow> (u32 \<times> cl) option" where
  "readn devs fdnum buf n = readn_from devs fdnum buf n 0"

definition seek :: "u32 \<Rightarrow> u32 \<Rightarrow> cl \<Rightarrow> (u32 \<times> cl) option" where
  "seek fdnum off c = (case fd_lookup fdnum c of
     Inl e \<Rightarrow> Some (code (Inl e), c)
   | Inr fd \<Rightarrow> do { c \<leftarrow> cl_st32 (fd_offset fd) off c; Some (0, c) })"

definition ftruncate :: "dev list \<Rightarrow> u32 \<Rightarrow> u32 \<Rightarrow> cl \<Rightarrow> (u32 \<times> cl) option" where
  "ftruncate devs fdnum newsize = with_fd devs fdnum (\<lambda>fd d c. do {
     omode \<leftarrow> cl_ld32 (fd_omode fd) c;
     if omode AND O_ACCMODE = O_RDONLY then Some (code (Inl E_INVAL), c)
     else case dev_trunc d of
       None \<Rightarrow> Some (code (Inl E_NOT_SUPP), c)
     | Some g \<Rightarrow> g fd newsize c })"

text \<open>The fields of a \<open>struct Stat\<close>: the name, then the size, the kind and the device.\<close>

definition fstat :: "dev list \<Rightarrow> u32 \<Rightarrow> u32 \<Rightarrow> cl \<Rightarrow> (u32 \<times> cl) option" where
  "fstat devs fdnum st = with_fd devs fdnum (\<lambda>fd d c. case dev_stat d of
     None \<Rightarrow> Some (code (Inl E_NOT_SUPP), c)
   | Some g \<Rightarrow> do {
       c \<leftarrow> cl_st8 st 0 c;
       c \<leftarrow> cl_st32 (st + 128) 0 c;
       c \<leftarrow> cl_st32 (st + 132) 0 c;
       c \<leftarrow> cl_st32 (st + 136) (dev_at d) c;
       g fd st c })"

section \<open>The file device\<close>

definition devfile_flush :: "u32 \<Rightarrow> cl \<Rightarrow> (u32 \<times> cl) option" where
  "devfile_flush fd c = do {
     fid \<leftarrow> cl_ld32 (fd_file_id fd) c;
     c \<leftarrow> cl_st32 (fsipcbuf c) fid c;
     fsipc 6 None c }"

definition devfile_read :: "u32 \<Rightarrow> u32 \<Rightarrow> u32 \<Rightarrow> cl \<Rightarrow> (u32 \<times> cl) option" where
  "devfile_read fd buf n c = do {
     fid \<leftarrow> cl_ld32 (fd_file_id fd) c;
     c \<leftarrow> cl_st32 (fsipcbuf c) fid c;
     c \<leftarrow> cl_st32 (fsipcbuf c + 4) n c;
     (r, c) \<leftarrow> fsipc 3 None c;
     if sint r < 0 then Some (r, c)
     else if \<not> (r \<le> n \<and> r \<le> PGSIZE) then None
     else do { c \<leftarrow> cl_memmove buf (fsipcbuf c) r c; Some (r, c) } }"

definition devfile_write :: "u32 \<Rightarrow> u32 \<Rightarrow> u32 \<Rightarrow> cl \<Rightarrow> (u32 \<times> cl) option" where
  "devfile_write fd buf n c = do {
     fid \<leftarrow> cl_ld32 (fd_file_id fd) c;
     c \<leftarrow> cl_st32 (fsipcbuf c) fid c;
     c \<leftarrow> cl_st32 (fsipcbuf c + 4) n c;
     c \<leftarrow> cl_memmove (fsipcbuf c + 8) buf n c;
     fsipc 4 None c }"

definition devfile_stat :: "u32 \<Rightarrow> u32 \<Rightarrow> cl \<Rightarrow> (u32 \<times> cl) option" where
  "devfile_stat fd st c = do {
     fid \<leftarrow> cl_ld32 (fd_file_id fd) c;
     c \<leftarrow> cl_st32 (fsipcbuf c) fid c;
     (r, c) \<leftarrow> fsipc 5 None c;
     if sint r < 0 then Some (r, c)
     else do {
       c \<leftarrow> cl_strcpy st (fsipcbuf c) c;
       sz \<leftarrow> cl_ld32 (fsipcbuf c + 128) c;
       c \<leftarrow> cl_st32 (st + 128) sz c;
       d \<leftarrow> cl_ld32 (fsipcbuf c + 132) c;
       c \<leftarrow> cl_st32 (st + 132) d c;
       Some (0, c) } }"

definition devfile_trunc :: "u32 \<Rightarrow> u32 \<Rightarrow> cl \<Rightarrow> (u32 \<times> cl) option" where
  "devfile_trunc fd newsize c = do {
     fid \<leftarrow> cl_ld32 (fd_file_id fd) c;
     c \<leftarrow> cl_st32 (fsipcbuf c) fid c;
     c \<leftarrow> cl_st32 (fsipcbuf c + 4) newsize c;
     fsipc 2 None c }"

definition devfile :: "u32 \<Rightarrow> dev" where
  "devfile at = \<lparr>dev_id = 0x66, dev_at = at, dev_read = Some devfile_read, dev_write = Some devfile_write,
     dev_close = Some devfile_flush, dev_stat = Some devfile_stat, dev_trunc = Some devfile_trunc\<rparr>"

text \<open>The path is the list of its bytes without the NUL.\<close>

definition file_open' :: "dev list \<Rightarrow> u8 list \<Rightarrow> u32 \<Rightarrow> cl \<Rightarrow> (u32 \<times> cl) option" where
  "file_open' devs path omode c =
     (if 1024 \<le> length path then Some (code (Inl E_BAD_PATH), c)
      else case fd_alloc c of
        Inl e \<Rightarrow> Some (code (Inl e), c)
      | Inr fd \<Rightarrow> do {
          c \<leftarrow> cl_store (fsipcbuf c) (path @ [0]) c;
          c \<leftarrow> cl_st32 (fsipcbuf c + 1024) omode c;
          (r, c) \<leftarrow> fsipc 1 (Some fd) c;
          if sint r < 0 then do { (r', c) \<leftarrow> fd_close devs fd False c; Some (r, c) }
          else Some (fd2num fd, c) })"

definition sync :: "cl \<Rightarrow> (u32 \<times> cl) option" where
  "sync = fsipc 8 None"

definition stat :: "dev list \<Rightarrow> u8 list \<Rightarrow> u32 \<Rightarrow> cl \<Rightarrow> (u32 \<times> cl) option" where
  "stat devs path st c = do {
     (fd, c) \<leftarrow> file_open' devs path O_RDONLY c;
     if sint fd < 0 then Some (fd, c)
     else do {
       (r, c) \<leftarrow> fstat devs fd st c;
       (r', c) \<leftarrow> close devs fd c;
       Some (r, c) } }"

section \<open>The console device\<close>

text \<open>\<open>sys_cputs\<close> prints with "%.*s", up to a NUL.\<close>

definition cl_cputs :: "u8 list \<Rightarrow> cl \<Rightarrow> cl" where
  "cl_cputs bs c = c\<lparr>cons_out := cons_out c @ takeWhile (\<lambda>b. b \<noteq> 0) bs\<rparr>"

fun cons_wait :: "u32 list \<Rightarrow> (u32 \<times> u32 list) option" where
  "cons_wait [] = None"
| "cons_wait (ch # chs) = (if ch = 0 then cons_wait chs else Some (ch, chs))"

definition devcons_read :: "u32 \<Rightarrow> u32 \<Rightarrow> u32 \<Rightarrow> cl \<Rightarrow> (u32 \<times> cl) option" where
  "devcons_read fd buf n c =
     (if n = 0 then Some (0, c)
      else do {
        (ch, rest) \<leftarrow> cons_wait (cons_in c);
        let c = c\<lparr>cons_in := rest\<rparr>;
        if sint ch < 0 then Some (ch, c)
        else if ch = 4 then Some (0, c)
        else do { c \<leftarrow> cl_st8 buf (ucast ch) c; Some (1, c) } })"

partial_function (option) devcons_write_from :: "u32 \<Rightarrow> u32 \<Rightarrow> u32 \<Rightarrow> cl \<Rightarrow> (u32 \<times> cl) option" where
  "devcons_write_from buf n tot c =
     (if tot < n then do {
        let m = (if 127 < n - tot then 127 else n - tot);
        bs \<leftarrow> cl_load (buf + tot) (unat m) c;
        devcons_write_from buf n (tot + m) (cl_cputs bs c) }
      else Some (tot, c))"

definition devcons_write :: "u32 \<Rightarrow> u32 \<Rightarrow> u32 \<Rightarrow> cl \<Rightarrow> (u32 \<times> cl) option" where
  "devcons_write fd buf n = devcons_write_from buf n 0"

definition devcons_close :: "u32 \<Rightarrow> cl \<Rightarrow> (u32 \<times> cl) option" where
  "devcons_close fd c = Some (0, c)"

definition devcons_stat :: "u32 \<Rightarrow> u32 \<Rightarrow> cl \<Rightarrow> (u32 \<times> cl) option" where
  "devcons_stat fd st c = do { c \<leftarrow> cl_store st (map of_char ''<cons>'' @ [0]) c; Some (0, c) }"

definition devcons :: "u32 \<Rightarrow> dev" where
  "devcons at = \<lparr>dev_id = 0x63, dev_at = at, dev_read = Some devcons_read, dev_write = Some devcons_write,
     dev_close = Some devcons_close, dev_stat = Some devcons_stat, dev_trunc = None\<rparr>"

definition getchar :: "dev list \<Rightarrow> u32 \<Rightarrow> cl \<Rightarrow> (u32 \<times> cl) option" where
  "getchar devs tmp c = do {
     (r, c) \<leftarrow> fd_read devs 0 tmp 1 c;
     if sint r < 0 then Some (r, c)
     else if sint r < 1 then Some (code (Inl E_EOF), c)
     else do { b \<leftarrow> cl_ld8 tmp c; Some (ucast b, c) } }"

definition iscons :: "u32 \<Rightarrow> cl \<Rightarrow> (u32 \<times> cl) option" where
  "iscons fdnum c = (case fd_lookup fdnum c of
     Inl e \<Rightarrow> Some (code (Inl e), c)
   | Inr fd \<Rightarrow> do { did \<leftarrow> cl_ld32 (fd_dev_id fd) c; Some (if did = 0x63 then 1 else 0, c) })"

text \<open>\<open>devtab\<close>, with the devices of \<open>lib/sockets.c\<close> and \<open>lib/pipe.c\<close> as parameters.\<close>

definition devtab :: "u32 \<Rightarrow> dev \<Rightarrow> dev \<Rightarrow> u32 \<Rightarrow> dev list" where
  "devtab file_at devsock devpipe cons_at = [devfile file_at, devsock, devpipe, devcons cons_at]"

section \<open>Copying a file to the standard output\<close>

text \<open>The function \<open>cat\<close> of \<open>user/cat.c\<close>; \<open>buf\<close> is its buffer of 8192 bytes.\<close>

partial_function (option) cat :: "dev list \<Rightarrow> u32 \<Rightarrow> u32 \<Rightarrow> cl \<Rightarrow> cl option" where
  "cat devs buf f c = do {
     (n, c) \<leftarrow> fd_read devs f buf 8192 c;
     if 0 <s n
     then do {
       (r, c) \<leftarrow> fd_write devs 1 buf n c;
       if r = n then cat devs buf f c else None }
     else if n <s 0 then None else Some c }"

end
