(* ===== verification/FdMem.thy ===== *)
theory FdMem
  imports FdLib FsServProps
begin

text \<open>
  The client's memory: copies between its own pages, and what a store, a request to the file server and an
  access to a shared page leave as they were.
\<close>

section \<open>Own pages\<close>

definition own :: "cl \<Rightarrow> u32 \<Rightarrow> bool" where
  "own c a \<longleftrightarrow> (\<exists>k. c_pages c (PGNUM a) = Some (Own k))"

definition frames_inj :: "cl \<Rightarrow> bool" where
  "frames_inj c \<longleftrightarrow> (\<forall>p q k. c_pages c p = Some (Own k) \<and> c_pages c q = Some (Own k) \<longrightarrow> p = q)"

lemma same_place:
  assumes "PGNUM a = PGNUM b" "a mod PGSIZE = b mod PGSIZE"
  shows "a = b"
proof -
  have "unat (PGNUM a) = unat (PGNUM b)" "unat (a mod PGSIZE) = unat (b mod PGSIZE)" using assms by simp_all
  then have "unat a div 4096 = unat b div 4096" "unat a mod 4096 = unat b mod 4096"
    by (simp_all add: unat_PGNUM unat_mod)
  then have "unat a = unat b" using page_split(1) [of "unat a"] page_split(1) [of "unat b"] by simp
  then show ?thesis by (simp add: word_unat_eq_iff)
qed

lemma cl_st8_own:
  assumes "frames_inj c" "own c d"
  obtains F where "cl_st8 d b c = Some (c\<lparr>c_frames := F\<rparr>)"
    "\<And>a. cl_ld8 a (c\<lparr>c_frames := F\<rparr>) = (if a = d then Some b else cl_ld8 a c)"
proof -
  obtain k where k: "c_pages c (PGNUM d) = Some (Own k)" using assms(2) by (auto simp: own_def)
  let ?F = "(c_frames c)(k := (c_frames c k)(d mod PGSIZE := b))"
  have "cl_ld8 a (c\<lparr>c_frames := ?F\<rparr>) = (if a = d then Some b else cl_ld8 a c)" for a
    using k assms(1) same_place [of a d]
    by (auto simp: cl_ld8_def cl_at_def frames_inj_def split: option.splits cpage.splits)
  with that [of ?F] k show thesis by (simp add: cl_st8_def cl_upd_def)
qed

lemma cl_store_own:
  assumes "frames_inj c" "\<And>i. i < length bs \<Longrightarrow> own c (d + of_nat i)" "length bs < 2 ^ 32"
  shows "\<exists>F. cl_store d bs c = Some (c\<lparr>c_frames := F\<rparr>) \<and>
    (\<forall>a. cl_ld8 a (c\<lparr>c_frames := F\<rparr>) = (if unat (a - d) < length bs then Some (bs ! unat (a - d)) else cl_ld8 a c))"
  using assms
proof (induction bs arbitrary: c d)
  case Nil
  then show ?case by (intro exI [of _ "c_frames c"]) simp
next
  case (Cons b bs)
  obtain F where F: "cl_st8 d b c = Some (c\<lparr>c_frames := F\<rparr>)"
    "\<And>a. cl_ld8 a (c\<lparr>c_frames := F\<rparr>) = (if a = d then Some b else cl_ld8 a c)"
    using cl_st8_own [OF Cons.prems(1), of d b] Cons.prems(2) [of 0] by auto
  let ?c = "c\<lparr>c_frames := F\<rparr>"
  have "own ?c (d + 1 + of_nat i)" if "i < length bs" for i
    using Cons.prems(2) [of "Suc i"] that by (simp add: own_def add.assoc)
  then obtain G where G: "cl_store (d + 1) bs ?c = Some (?c\<lparr>c_frames := G\<rparr>)"
    "\<forall>a. cl_ld8 a (?c\<lparr>c_frames := G\<rparr>) = (if unat (a - (d + 1)) < length bs then Some (bs ! unat (a - (d + 1))) else cl_ld8 a ?c)"
    using Cons.IH [of ?c "d + 1"] Cons.prems(1,3) by (auto simp: frames_inj_def)
  have "cl_ld8 a (?c\<lparr>c_frames := G\<rparr>) = (if unat (a - d) < length (b # bs) then Some ((b # bs) ! unat (a - d)) else cl_ld8 a c)" for a
  proof (cases "a = d")
    case True
    then have "a - (d + 1) = 0xFFFFFFFF" by simp
    then have "unat (a - (d + 1)) = 0xFFFFFFFF" by (simp only:) simp
    then show ?thesis using G(2) F(2) True Cons.prems(3) by simp
  next
    case False
    then have z: "a - d \<noteq> 0" by simp
    have "unat (a - (d + 1)) = unat (a - d) - 1"
      using unat_minus_one [OF z] unfolding diff_diff_eq .
    moreover have "0 < unat (a - d)" using z by (simp add: unat_gt_0)
    ultimately have u: "unat (a - d) = Suc (unat (a - (d + 1)))" by linarith
    then show ?thesis using G(2) F(2) False by simp
  qed
  with F(1) G(1) show ?case by (intro exI [of _ G]) simp
qed

lemma cl_load_map:
  "(\<And>i. i < n \<Longrightarrow> cl_ld8 (a + of_nat i) c \<noteq> None) \<Longrightarrow>
   cl_load a n c = Some (map (\<lambda>i. the (cl_ld8 (a + of_nat i) c)) [0..<n])"
proof (induction n arbitrary: a)
  case 0
  then show ?case by simp
next
  case (Suc n)
  have "cl_load (a + 1) n c = Some (map (\<lambda>i. the (cl_ld8 (a + 1 + of_nat i) c)) [0..<n])"
    by (rule Suc.IH) (use Suc.prems [of "Suc _"] in \<open>simp add: add.assoc\<close>)
  moreover have "[0..<Suc n] = 0 # map Suc [0..<n]" by (simp add: map_Suc_upt upt_conv_Cons del: upt_Suc)
  ultimately show ?case using Suc.prems [of 0] by (auto simp: add.assoc o_def)
qed

lemma own_ld8: "own c a \<Longrightarrow> cl_ld8 a c \<noteq> None"
  by (auto simp: own_def cl_ld8_def cl_at_def)

text \<open>\<open>memmove\<close> to own pages, from anywhere that is mapped.\<close>

lemma cl_memmove_own:
  assumes "frames_inj c" "\<And>i. i < n \<Longrightarrow> own c (d + i)" "\<And>i. i < n \<Longrightarrow> cl_ld8 (a + i) c \<noteq> None"
  obtains F where "cl_memmove d a n c = Some (c\<lparr>c_frames := F\<rparr>)"
    "\<And>x. cl_ld8 x (c\<lparr>c_frames := F\<rparr>) = (if x - d < n then cl_ld8 (a + (x - d)) c else cl_ld8 x c)"
proof -
  have w: "of_nat i < n" "unat (of_nat i :: u32) = i" if "i < unat n" for i
    using that unat_less_32 [of n] by (simp_all add: word_less_nat_alt unat_of_nat32)
  let ?bs = "map (\<lambda>i. the (cl_ld8 (a + of_nat i) c)) [0..<unat n]"
  have l: "cl_load a (unat n) c = Some ?bs" by (rule cl_load_map) (use assms(3) w in blast)
  have o: "own c (d + of_nat i)" if "i < length ?bs" for i using assms(2) w that by simp
  have "length ?bs < 2 ^ 32" using unat_less_32 [of n] by simp
  from cl_store_own [OF assms(1) o this] obtain F where F: "cl_store d ?bs c = Some (c\<lparr>c_frames := F\<rparr>)"
    "cl_ld8 x (c\<lparr>c_frames := F\<rparr>) = (if unat (x - d) < length ?bs then Some (?bs ! unat (x - d)) else cl_ld8 x c)" for x
    by blast
  have "cl_ld8 x (c\<lparr>c_frames := F\<rparr>) = (if x - d < n then cl_ld8 (a + (x - d)) c else cl_ld8 x c)" for x
    unfolding F(2) using assms(3) [of "x - d"] by (auto simp: word_less_nat_alt)
  with that l F(1) show thesis by (auto simp: cl_memmove_def)
qed

section \<open>Words\<close>

lemma cl_ld8_frames: "cl_ld8 a (c\<lparr>c_frames := F\<rparr>) = cl_ld8 a c" if "\<And>k. F k (a mod PGSIZE) = c_frames c k (a mod PGSIZE)"
  using that by (auto simp: cl_ld8_def cl_at_def split: option.splits cpage.splits)

lemma cl_st32_own:
  assumes "frames_inj c" "c_pages c (PGNUM d) = Some (Own k)"
  shows "cl_st32 d w c = Some (c\<lparr>c_frames := (c_frames c)(k := put32 (d mod PGSIZE) w (c_frames c k))\<rparr>)"
  using assms by (simp add: cl_st32_def cl_upd_def)

end
