(* ===== verification/FsHandlers.thy ===== *)
theory FsHandlers
  imports FsServProps
begin

text \<open>
  The read and write handlers of the file server as rules on its view: what a well-formed request
  on an open file does, when it stays inside the request page.
\<close>

section \<open>An open file\<close>

text \<open>Entry \<open>i\<close> of the table serves the file at \<open>f\<close>, and some client has its \<open>struct Fd\<close> page mapped.\<close>

definition served :: "fs \<Rightarrow> nat \<Rightarrow> u32 \<Rightarrow> bool" where
  "served s i f \<longleftrightarrow> i < MAXOPEN \<and> o_fd (opentab s i) = FILEVA + of_nat i * PGSIZE \<and> o_file (opentab s i) = f \<and>
     unat (o_fileid (opentab s i)) mod MAXOPEN = i \<and> 2 \<le> pageref (o_fd (opentab s i)) s"

abbreviation (input) fd_page :: "nat \<Rightarrow> u32" where "fd_page i \<equiv> FILEVA + of_nat i * PGSIZE"

lemma served_ext: "ext s t \<Longrightarrow> served s i f \<Longrightarrow> served t i f"
  using fileva_page(1) [of i 0] by (auto simp: served_def ext_def pageref_def)

lemma served_cong:
  "opentab t = opentab s \<Longrightarrow> mapped t = mapped s \<Longrightarrow> page_refs t = page_refs s \<Longrightarrow> served t i f = served s i f"
  by (simp add: served_def pageref_def)

lemma served_lookup: "served s i f \<Longrightarrow> openfile_lookup (o_fileid (opentab s i)) s = Inr i"
  by (auto simp: served_def openfile_lookup_def Let_def)

text \<open>The words of a \<open>struct Fd\<close> and of the request page.\<close>

lemma fd_word:
  assumes "i < MAXOPEN" "unat x < 4096" "x mod 4 = 0"
  shows "(fd_page i + x) mod 4 = 0" "safe v (fd_page i + x)" "served s0 i f \<Longrightarrow> accv s0 v (fd_page i + x)"
proof -
  have "unat (fd_page i + x) = 0xD0000000 + i * 4096 + unat x"
    by (subst unat_add_no_wrap) (use assms in \<open>simp_all add: unat_fileva\<close>)
  then show "(fd_page i + x) mod 4 = 0" using assms(3) by (simp add: unat_aligned) presburger
  note p = fileva_page [OF assms(1,2)]
  show "safe v (fd_page i + x)" using p(1) by (simp add: safe_def)
  assume "served s0 i f"
  then show "accv s0 v (fd_page i + x)" using p(2) by (auto simp: served_def accv_def pageref_def split: if_splits)
qed

lemma req_word:
  assumes "mapped s0 (PGNUM fsreq)" "unat x < 4096"
  shows "accv s0 v (fsreq + x)" "\<not> in_map (fsreq + x)" "mapped s0 (PGNUM (fsreq + x))"
  using fsreq_page [of "fsreq + x"] assms by (simp_all add: accv_def word_less_nat_alt)

lemma with_file_rule:
  assumes "becomes s0 v s" "served s0 i f" "mapped s0 (PGNUM fsreq)" "get32 v fsreq = o_fileid (opentab s0 i)"
    "\<And>t. becomes s0 v t \<Longrightarrow> runs (g i t) Q"
  shows "runs (with_file g s) Q"
  unfolding with_file_def runs_bind req_fileid_def
proof (rule ld32_rule [OF assms(1)])
  show "accv s0 v fsreq" "fsreq mod 4 = 0" using req_word(1) [OF assms(3), of 0] by simp_all
  fix t assume t: "becomes s0 v t"
  then have e: "ext s0 t" by (simp add: becomes_def)
  have "openfile_lookup (get32 v fsreq) t = Inr i"
    using served_lookup [OF served_ext [OF e assms(2)]] e assms(4) by (simp add: ext_def)
  then show "runs (case (get32 v fsreq, t) of (fileid, s) \<Rightarrow>
      case openfile_lookup fileid s of Inl e \<Rightarrow> Some (code (Inl e), s) | Inr i \<Rightarrow> g i s) Q"
    using assms(5) [OF t] by simp
qed

lemma becomes_opentab: "becomes s0 v t \<Longrightarrow> opentab t = opentab s0"
  by (simp add: becomes_def ext_def)

section \<open>Reading\<close>

text \<open>Only the bytes up to the end of the file are read.\<close>

lemma read_to_end_rule:
  assumes "becomes s0 v s" "file_ok v f" "unat (get32 v (f_size f)) < 2 ^ 31" "off \<le> get32 v (f_size f)"
    "m = min n (get32 v (f_size f) - off)"
    "\<And>p. off \<le> p \<Longrightarrow> p < off + m \<Longrightarrow> fptr v f (p div BLKSIZE) \<noteq> 0"
    "\<And>i. i < m \<Longrightarrow> \<not> in_map (buf + i) \<and> mapped s0 (PGNUM (buf + i))"
    "\<And>s'. becomes s0 (copied f off m buf v) s' \<Longrightarrow> Q (Inr m, s')"
  shows "runs (file_read f buf n off s) Q"
proof -
  let ?sz = "get32 v (f_size f)"
  note sf = size_field [OF becomesD(3) [OF assms(1)] assms(2)]
  have d: "unat (?sz - off) = unat ?sz - unat off" "unat off \<le> unat ?sz"
    using assms(4) by (simp_all add: unat_sub word_le_nat_alt)
  then have le: "unat off + unat m \<le> unat ?sz" using assms(5) by (simp add: min_def word_le_nat_alt split: if_splits)
  have m: "min m (?sz - off) = min n (?sz - off)" using assms(5) by simp
  have "runs (file_read f buf m off s) Q" 
    by (rule read_rule [OF assms(1-3) le]) (use assms(6-8) in blast)+
  moreover obtain t where t: "ld32 (f_size f) s = Some (?sz, t)"
    using ld32_rule [OF assms(1) sf(3,1), of "\<lambda>(w, t). w = ?sz"] by (auto simp: runs_def split: option.splits)
  then have "file_read f buf n off s = file_read f buf m off s"
    by (simp only: file_read_def t Option.bind.simps prod.case Let_def m)
  ultimately show ?thesis by simp
qed

lemma serve_read_rule:
  assumes "becomes s0 v s" "served s0 i f" "mapped s0 (PGNUM fsreq)" "get32 v fsreq = o_fileid (opentab s0 i)"
    "file_ok v f" "unat (get32 v (f_size f)) < 2 ^ 31" "get32 v (fsreq + 4) = n"
    "get32 v (fd_page i + 4) = off" "off \<le> get32 v (f_size f)"
    "m = min n (get32 v (f_size f) - off)" "unat m \<le> 4096"
    "\<And>p. off \<le> p \<Longrightarrow> p < off + m \<Longrightarrow> fptr v f (p div BLKSIZE) \<noteq> 0"
    "\<And>t. becomes s0 (put32 (fd_page i + 4) (off + m) (copied f off m fsreq v)) t \<Longrightarrow> Q (m, t)"
  shows "runs (serve_read s) Q"
proof -
  have i: "i < MAXOPEN" "o_fd (opentab s0 i) = fd_page i" "o_file (opentab s0 i) = f"
    using assms(2) by (simp_all add: served_def)
  have "unat (4 :: u32) < 4096" "(4 :: u32) mod 4 = 0" by simp_all
  note w4 = fd_word [OF i(1) this] and r4 = req_word [OF assms(3) this(1)]
  define a4 where "a4 = fd_page i + 4"
  note o4 = w4 [folded a4_def] and f4 = fileva_page [OF i(1), of 4, folded a4_def, simplified]
  have fd: "o_fd (opentab s0 i) + 4 = a4" using i(2) by (simp add: a4_def)
  note a9 = assms(8) [folded a4_def]
  have n31: "\<not> sint m < 0" using sint_small [of m] assms(11) by simp
  have keep: "get32 (copied f off m fsreq v) a4 = get32 v a4"
  proof (rule get32_page [OF o4(1)])
    fix x assume p: "PGNUM x = PGNUM a4"
    have "\<not> x - fsreq < m"
    proof
      assume "x - fsreq < m"
      then have "x - fsreq < 4096" using assms(11) by (simp add: word_less_nat_alt)
      then have "PGNUM a4 = PGNUM fsreq" using fsreq_page [of x] p by simp
      then show False using f4(2) unat_fileva [OF i(1)]
        by (simp add: word_unat_eq_iff unat_PGNUM)
    qed
    then show "copied f off m fsreq v x = v x" by (simp add: copied_def)
  qed
  show ?thesis unfolding serve_read_def
  proof (rule with_file_rule [OF assms(1-4)])
    fix t assume t: "becomes s0 v t"
    show "runs (do {
       (n, s) \<leftarrow> ld32 req_arg t;
       (off, s) \<leftarrow> ld32 (fd_offset (o_fd (opentab s i))) s;
       (r, s) \<leftarrow> file_read (o_file (opentab s i)) fsreq n off s;
       if sint (code r) < 0 then Some (code r, s)
       else do {
         (off, s) \<leftarrow> ld32 (fd_offset (o_fd (opentab s i))) s;
         s \<leftarrow> st32 (fd_offset (o_fd (opentab s i))) (off + code r) s;
         Some (code r, s) } }) Q"
      unfolding runs_bind req_arg_def fd_offset_def
      apply (rule ld32_rule [OF t r4(1)], simp)
      apply (simp add: assms(7) [simplified] becomes_opentab fd i(3) a9)
      apply (rule ld32_rule [OF _ o4(3) [OF assms(2)] o4(1)], assumption)
      apply (simp add: becomes_opentab fd i(3) a9)
      apply (rule read_to_end_rule [OF _ assms(5,6,9,10)], assumption)
        apply (rule assms(12), assumption, assumption)
       apply (use req_word [OF assms(3)] assms(11) in \<open>simp add: word_less_nat_alt\<close>)
      apply (simp add: code_def n31 becomes_opentab fd i(3) a9)
      apply (rule ld32_rule [OF _ o4(3) [OF assms(2)] o4(1)], assumption)
      apply (simp add: keep becomes_opentab fd i(3) a9)
      apply (rule safe_store_rule [OF _ o4(3) [OF assms(2)] o4(1) o4(2)], assumption)
      apply (simp add: assms(13) [folded a4_def])
      done
  qed
qed

section \<open>Writing\<close>

lemma serve_write_rule:
  assumes "becomes s0 v s" "served s0 i f" "mapped s0 (PGNUM fsreq)" "get32 v fsreq = o_fileid (opentab s0 i)"
    "file_ok v f" "unat (get32 v (f_size f)) < 2 ^ 31" "get32 v (fsreq + 4) = n" "unat n \<le> 4088"
    "get32 v (fd_page i + 4) = off" "unat off + unat n \<le> 4235264"
    "unat off + unat n \<le> 40960 \<or> get32 v (f_indirect f) \<noteq> 0"
    "\<And>v' t. (\<And>b. \<not> isfree v' b) \<Longrightarrow> becomes s0 v' t \<Longrightarrow> Q (code (Inl E_NO_DISK), t)"
    "\<And>v1 v' t. wrote f off (off + n) req_buf v1 v' \<Longrightarrow> (\<And>x. \<not> in_map x \<Longrightarrow> v1 x = v x) \<Longrightarrow>
       get32 v' (f_size f) = max (get32 v (f_size f)) (off + n) \<Longrightarrow>
       becomes s0 (put32 (fd_page i + 4) (off + n) v') t \<Longrightarrow> Q (n, t)"
  shows "runs (serve_write s) Q"
proof -
  have i: "i < MAXOPEN" "o_fd (opentab s0 i) = fd_page i" "o_file (opentab s0 i) = f"
    using assms(2) by (simp_all add: served_def)
  have "unat (4 :: u32) < 4096" "(4 :: u32) mod 4 = 0" by simp_all
  note w4 = fd_word [OF i(1) this] and r4 = req_word [OF assms(3) this(1)]
  define a4 where "a4 = fd_page i + 4"
  note o4 = w4 [folded a4_def] and f4 = fileva_page [OF i(1), of 4, folded a4_def, simplified]
  have fd: "o_fd (opentab s0 i) + 4 = a4" using i(2) by (simp add: a4_def)
  note a9 = assms(9) [folded a4_def]
  have n31: "\<not> sint n < 0" using sint_small [of n] assms(8) by simp
  have e: "sint (code (Inl E_NO_DISK)) < 0" by (simp add: code_def)
  have buf: "\<not> in_map (req_buf + j) \<and> mapped s0 (PGNUM (req_buf + j))" if "j < n" for j
  proof -
    have "unat (8 + j) < 4096"
      by (subst unat_add_no_wrap) (use that assms(8) in \<open>simp_all add: word_less_nat_alt\<close>)
    then show ?thesis using req_word(2,3) [OF assms(3), of "8 + j"] by (simp add: req_buf_def add.assoc [symmetric])
  qed
  have c: "code (Inr n) = n" by (simp add: code_def)
  have round: "runs (do {
       (off, s) \<leftarrow> ld32 (o_fd (opentab t i) + 4) t;
       s \<leftarrow> st32 (o_fd (opentab s i) + 4) (off + n) s;
       (m, s) \<leftarrow> ld32 (fsreq + 4) s;
       if m \<le> n then Some (n, s) else serve_write_loop i n s }) Q"
    if w: "wrote f off (off + n) req_buf v1 v'" "\<And>x. \<not> in_map x \<Longrightarrow> v1 x = v x"
      "get32 v' (f_size f) = max (get32 v (f_size f)) (off + n)" and t: "becomes s0 v' t" for v1 v' t
  proof -
    have out: "v' x = v x" if "\<not> in_map x" for x using w(1,2) that by (simp add: wrote_def)
    let ?v2 = "put32 a4 (off + n) v'"
    have word: "get32 v' a = get32 v a" if "a mod 4 = 0" "\<not> in_map a" for a
      by (rule get32_page [OF that(1)]) (use out same_page_in_map that(2) in blast)
    have 1: "get32 v' a4 = off"
      using word [OF o4(1) f4(1)] a9 by simp
    have ne: "a4 \<noteq> fsreq + 4" using f4(3) by auto
    have al: "(fsreq + 4) mod 4 = (0 :: u32)" by simp
    have "get32 ?v2 (fsreq + 4) = get32 v' (fsreq + 4)" by (rule get32_put32_other [OF o4(1) al ne])
    also have "\<dots> = n" using word [OF al r4(2)] assms(7) by simp
    finally have 2: "get32 ?v2 (fsreq + 4) = n" .
    show ?thesis
      unfolding runs_bind
      unfolding becomes_opentab [OF t] fd
      apply (rule ld32_rule [OF t o4(3) [OF assms(2)] o4(1)])
      apply (simp add: 1 becomes_opentab fd)
      apply (rule safe_store_rule [OF _ o4(3) [OF assms(2)] o4(1) o4(2)], assumption)
      apply (rule ld32_rule [OF _ r4(1) [simplified]], assumption, simp)
      apply (simp add: 2 [simplified] assms(13) [OF w, folded a4_def])
      done
  qed
  show ?thesis unfolding serve_write_def
  proof (rule with_file_rule [OF assms(1-4)])
    fix t assume t: "becomes s0 v t"
    show "runs (serve_write_loop i 0 t) Q"
      apply (subst serve_write_loop.simps)
      unfolding runs_bind req_arg_def fd_offset_def
      apply (rule ld32_rule [OF t r4(1)], simp)
      apply (simp add: assms(7) [simplified] becomes_opentab fd i(3) a9)
      apply (rule ld32_rule [OF _ o4(3) [OF assms(2)] o4(1)], assumption)
      apply (simp add: becomes_opentab fd i(3) a9)
      apply (rule write_rule [OF _ assms(5,6,10,11)], assumption)
        apply (rule buf, assumption)
       apply (simp add: e)
       apply (rule assms(12), blast, assumption)
      subgoal for s1 s2 v1 v' s3
        using round [of v1 v' s3] n31 by (simp add: c runs_bind cong: if_cong)
      done
  qed
qed

end
