(* ===== verification/FdProps.thy ===== *)
theory FdProps
  imports FdMem FsHandlers
begin

text \<open>
  Files as a client sees them: a descriptor that is open on a file of the server, and what a read or a write
  through it does, from the client's buffer through the request page to the blocks of the file and back.
\<close>

section \<open>The request page\<close>

lemma view_request_page:
  "view (request_page m s) = (\<lambda>x. if PGNUM x = PGNUM fsreq then m (x mod PGSIZE) else view s x)"
proof
  fix x
  have "PGNUM x = PGNUM fsreq \<Longrightarrow> \<not> in_map x" using same_page_in_map [of x fsreq] fsreq_page [of fsreq] by simp
  then show "view (request_page m s) x = (if PGNUM x = PGNUM fsreq then m (x mod PGSIZE) else view s x)"
    by (auto simp: view_def request_page_def disk_byte_def)
qed

lemma fs_ok_outside:
  assumes "fs_ok s" "\<And>x. in_map x \<Longrightarrow> view t x = view s x"
    "\<And>p. (\<exists>x. PGNUM x = p \<and> in_map x) \<Longrightarrow> mapped t p = mapped s p \<and> pdirty t p = pdirty s p"
    "super t = super s" "bitmap t = bitmap s" "disk t = disk s" "diskno t = diskno s"
    "bad_sector t = bad_sector s" "free_pages t = free_pages s"
  shows "fs_ok t"
proof -
  note ok = fs_okD [OF assms(1)]
  have w: "get32 (view t) a = get32 (view s) a" if "a mod 4 = 0" "in_map a" for a
    by (rule get32_page [OF that(1)]) (use assms(2) same_page_in_map that(2) in blast)
  have vs: "vol_same (view s) (view t)"
    by (rule vol_same_safe [OF ok(3)]) (use assms(2) in \<open>auto simp: safe_def\<close>)
  note sm = vol_sameD [OF vs]
  have pg: "mapped t (PGNUM x) = mapped s (PGNUM x) \<and> pdirty t (PGNUM x) = pdirty s (PGNUM x)" if "in_map x" for x
    using assms(3) that by blast
  have bl: "b < 0xC0000 \<Longrightarrow> in_map (blockaddr b)" for b using blockaddr_offset(1) [of b 0] by simp
  have nb: "b < nblk (view s) \<Longrightarrow> b < 0xC0000" for b using vol_okD(6) [OF ok(3)] by blast
  have "uncached t = uncached s"
    using pg bl nb sm(1) by (auto simp: uncached_def)
  moreover have "mapped t (PGNUM (blockaddr b)) = mapped s (PGNUM (blockaddr b))" if "unat b < resv (view s)" for b
  proof -
    have "b < nblk (view s)" using that ok(3) by (simp add: vol_ok_def word_less_nat_alt)
    then show ?thesis using pg bl nb by blast
  qed
  moreover have "fmem t a = disk_byte t a" if a: "in_map a" "mapped t (PGNUM a)" "\<not> pdirty t (PGNUM a)" for a
  proof -
    have m: "mapped s (PGNUM a)" "\<not> pdirty s (PGNUM a)" using a pg by auto
    have "fmem t a = view t a" using a by (simp add: view_def)
    also have "\<dots> = fmem s a" using assms(2) [OF a(1)] m by (simp add: view_def)
    also have "\<dots> = disk_byte s a" using assms(1) a(1) m by (simp add: fs_ok_def)
    finally show ?thesis using assms(6,7) by (simp add: disk_byte_def)
  qed
  ultimately show ?thesis
    using assms(1,4-9) sm(3,4) by (auto simp: fs_ok_def)
qed

lemma not_fsreq: "in_map x \<Longrightarrow> PGNUM x \<noteq> PGNUM fsreq"
  using same_page_in_map [of x fsreq] fsreq_page [of fsreq] by auto

lemma request_page_ok:
  assumes "fs_ok s"
  shows "fs_ok (request_page m s)" "opentab (request_page m s) = opentab s"
    "mapped (request_page m s) (PGNUM fsreq)" "served (request_page m s) i f = served s i f"
proof -
  show "fs_ok (request_page m s)"
    by (rule fs_ok_outside [OF assms], simp add: view_request_page not_fsreq)
      (auto simp: request_page_def dest: not_fsreq)
  show "opentab (request_page m s) = opentab s" "mapped (request_page m s) (PGNUM fsreq)"
    by (simp_all add: request_page_def)
  have "PGNUM (fd_page j) \<noteq> PGNUM fsreq" if "j < MAXOPEN" for j
    using fileva_page(3) [OF that, of 0] fsreq_page [of "fd_page j"] unat_fileva [OF that]
    by (auto simp: word_unat_eq_iff unat_PGNUM)
  then show "served (request_page m s) i f = served s i f"
    by (auto simp: served_def request_page_def pageref_def)
qed

lemma unmap_req_ok:
  assumes "fs_ok s"
  shows "fs_ok (user_page_unmap fsreq s)" "view (user_page_unmap fsreq s) = view s"
    "opentab (user_page_unmap fsreq s) = opentab s" "served (user_page_unmap fsreq s) i f = served s i f"
proof -
  show v: "view (user_page_unmap fsreq s) = view s"
    by (auto simp: view_def user_page_unmap_def disk_byte_def fun_eq_iff dest: not_fsreq)
  show "fs_ok (user_page_unmap fsreq s)"
    by (rule fs_ok_outside [OF assms], simp add: v) (auto simp: user_page_unmap_def dest: not_fsreq)
  have "PGNUM (fd_page j) \<noteq> PGNUM fsreq" if "j < MAXOPEN" for j
    using unat_fileva [OF that] by (auto simp: word_unat_eq_iff unat_PGNUM)
  then show "served (user_page_unmap fsreq s) i f = served s i f"
    by (auto simp: served_def user_page_unmap_def pageref_def)
qed (simp add: user_page_unmap_def)

lemma fsipc_rule:
  assumes "c_pages c (PGNUM (fsipcbuf c)) = Some (Own k)" "handlers type = Some h"
    "runs (h (request_page (c_frames c k) (srv c))) (\<lambda>(r, t). Q (r, c\<lparr>srv := user_page_unmap fsreq t,
       c_frames := (c_frames c)(k := (\<lambda>x. fmem t (fsreq + x mod PGSIZE)))\<rparr>))"
  shows "runs (fsipc type None c) Q"
proof -
  have "type \<noteq> 1" using assms(2) by (auto simp: handlers_def)
  moreover have "(PTE_P OR PTE_W OR PTE_U) AND PTE_P \<noteq> 0" by simp
  ultimately show ?thesis
    using assms by (auto simp: fsipc_def serve_request_def runs_def user_page_unmap_def)
qed

section \<open>A descriptor that is open on a file\<close>

definition client_ok :: "cl \<Rightarrow> bool" where
  "client_ok c \<longleftrightarrow> fs_ok (srv c) \<and> frames_inj c \<and> own c (fsipcbuf c) \<and> fsipcbuf c mod PGSIZE = 0"

text \<open>The server's view, and the word at an offset of the \<open>struct Fd\<close> that entry \<open>i\<close> shares with its clients.\<close>

abbreviation (input) sview :: "cl \<Rightarrow> mem" where "sview c \<equiv> view (srv c)"

definition fd_field :: "cl \<Rightarrow> nat \<Rightarrow> u32 \<Rightarrow> u32" where
  "fd_field c i x = get32 (sview c) (fd_page i + x)"

text \<open>\<open>fdnum\<close> is open on the file \<open>f\<close> of entry \<open>i\<close>, with the access mode \<open>md\<close>.\<close>

definition file_fd :: "u32 \<Rightarrow> cl \<Rightarrow> u32 \<Rightarrow> nat \<Rightarrow> u32 \<Rightarrow> bool" where
  "file_fd md c fdnum i f \<longleftrightarrow> unat fdnum < MAXFD \<and>
     c_pages c (PGNUM (index2fd fdnum)) = Some (Server (PGNUM (fd_page i))) \<and> served (srv c) i f \<and>
     fd_field c i 0 = 0x66 \<and> fd_field c i 8 AND O_ACCMODE = md \<and>
     fd_field c i 12 = o_fileid (opentab (srv c) i) \<and> file_ok (sview c) f \<and>
     unat (get32 (sview c) (f_size f)) \<le> 4235264"

lemma index2fd_word:
  assumes "unat fdnum < MAXFD" "unat x < 4096"
  shows "PGNUM (index2fd fdnum + x) = PGNUM (index2fd fdnum)" "(index2fd fdnum + x) mod PGSIZE = x"
proof -
  have b: "unat (index2fd fdnum) = 0xD0000000 + unat fdnum * 4096"
    unfolding index2fd_def by (subst unat_add_no_wrap) (use assms(1) in \<open>simp_all add: unat_word_ariths\<close>)
  have u: "unat (index2fd fdnum + x) = 0xD0000000 + unat fdnum * 4096 + unat x"
    by (subst unat_add_no_wrap) (use assms b in simp_all)
  have "unat (index2fd fdnum + x) div 4096 = 0xD0000 + unat fdnum \<and> unat (index2fd fdnum + x) mod 4096 = unat x"
    by (rule page_join) (use assms(2) u in simp_all)
  then show "PGNUM (index2fd fdnum + x) = PGNUM (index2fd fdnum)" "(index2fd fdnum + x) mod PGSIZE = x"
    using b by (simp_all add: word_unat_eq_iff unat_PGNUM unat_mod)
qed

lemma page_base: "i < MAXOPEN \<Longrightarrow> PGNUM (fd_page i) * PGSIZE = fd_page i"
proof -
  assume i: "i < MAXOPEN"
  have "unat (PGNUM (fd_page i)) = 0xD0000 + i" using unat_fileva [OF i] by (simp add: unat_PGNUM)
  then have "unat (PGNUM (fd_page i) * PGSIZE) = 0xD0000000 + i * 4096"
    using i by (simp add: unat_word_ariths)
  then show ?thesis using unat_fileva [OF i] by (simp add: word_unat_eq_iff)
qed

lemma get32_view: "a mod 4 = 0 \<Longrightarrow> \<not> in_map a \<Longrightarrow> get32 (fmem s) a = get32 (view s) a"
proof (rule get32_page)
  fix y assume "\<not> in_map a" "PGNUM y = PGNUM a"
  then have "\<not> in_map y" using same_page_in_map by blast
  then show "fmem s y = view s y" by (simp add: view_def)
qed

lemma put32_at: "m y = m' y \<Longrightarrow> put32 a w m y = put32 a w m' y"
  by (auto simp: put32_def put4_def)

text \<open>Loads and stores through a shared \<open>struct Fd\<close>.\<close>

lemma cl_ld32_fd:
  assumes "unat fdnum < MAXFD" "i < MAXOPEN" "c_pages c (PGNUM (index2fd fdnum)) = Some (Server (PGNUM (fd_page i)))"
    "unat x < 4096" "x mod 4 = 0"
  shows "cl_ld32 (index2fd fdnum + x) c = Some (fd_field c i x)"
  using index2fd_word [OF assms(1,4)] assms(3) page_base [OF assms(2)] fd_word(1) [OF assms(2,4,5)]
    fileva_page(1) [OF assms(2,4)] get32_view [of "fd_page i + x"]
  by (simp add: cl_ld32_def cl_at_def fd_field_def)

lemma cl_st32_fd:
  assumes "unat fdnum < MAXFD" "i < MAXOPEN" "c_pages c (PGNUM (index2fd fdnum)) = Some (Server (PGNUM (fd_page i)))"
    "unat x < 4096"
  shows "cl_st32 (index2fd fdnum + x) w c = Some (c\<lparr>srv := (srv c)\<lparr>fmem := put32 (fd_page i + x) w (fmem (srv c))\<rparr>\<rparr>)"
  using index2fd_word [OF assms(1,4)] assms(3) page_base [OF assms(2)]
  by (simp add: cl_st32_def cl_upd_def)

text \<open>Stores of the client to a \<open>struct Fd\<close> keep the server's invariant.\<close>

lemma fd_store_ok:
  assumes "fs_ok s" "i < MAXOPEN" "unat x < 4096" "x mod 4 = 0"
  shows "fs_ok (s\<lparr>fmem := put32 (fd_page i + x) w (fmem s)\<rparr>)"
    "view (s\<lparr>fmem := put32 (fd_page i + x) w (fmem s)\<rparr>) = put32 (fd_page i + x) w (view s)"
proof -
  note w = fd_word(1) [OF assms(2-4)] and m = fileva_page(1) [OF assms(2,3)]
  have same: "put32 (fd_page i + x) w u y = u y" if "in_map y" for u y
    using put32_changed [OF w] same_page_in_map m that by blast
  show v: "view (s\<lparr>fmem := put32 (fd_page i + x) w (fmem s)\<rparr>) = put32 (fd_page i + x) w (view s)"
  proof
    fix y
    have p: "put32 (fd_page i + x) w (fmem s) y = put32 (fd_page i + x) w (view s) y" if "\<not> in_map y"
      by (rule put32_at) (use that in \<open>simp add: view_def\<close>)
    show "view (s\<lparr>fmem := put32 (fd_page i + x) w (fmem s)\<rparr>) y = put32 (fd_page i + x) w (view s) y"
    proof (cases "in_map y")
      case True
      then show ?thesis by (simp add: same) (simp add: view_def same disk_byte_def)
    next
      case False
      then show ?thesis using p by (simp add: view_def)
    qed
  qed
  show "fs_ok (s\<lparr>fmem := put32 (fd_page i + x) w (fmem s)\<rparr>)"
    by (rule fs_ok_outside [OF assms(1)]) (simp_all add: v same)
qed

section \<open>Filling the request page\<close>

lemma in_page:
  assumes "b mod PGSIZE = 0" "unat (x :: u32) < 4096"
  shows "PGNUM (b + x) = PGNUM b" "(b + x) mod PGSIZE = x"
proof -
  have m: "unat b mod 4096 = 0" using assms(1) by (simp add: word_unat_eq_iff unat_mod)
  have "unat b div 4096 < 1048576" using unat_less_32 [of b] by (simp add: less_mult_imp_div_less)
  then have le: "unat b + 4096 \<le> 2 ^ 32" using m page_split(1) [of "unat b"] by simp
  have u: "unat (b + x) = unat b + unat x" by (rule unat_add_no_wrap) (use le assms(2) in simp)
  have "unat (b + x) div 4096 = unat b div 4096 \<and> unat (b + x) mod 4096 = unat x"
    by (rule page_join) (use m assms(2) u page_split(1) [of "unat b"] in simp_all)
  then show "PGNUM (b + x) = PGNUM b" "(b + x) mod PGSIZE = x"
    by (simp_all add: word_unat_eq_iff unat_PGNUM unat_mod)
qed

text \<open>What the client keeps: its mappings and the contents of its own pages, the request page apart.\<close>

definition keeps :: "cl \<Rightarrow> cl \<Rightarrow> bool" where
  "keeps c c' \<longleftrightarrow> c_pages c' = c_pages c \<and> fsipcbuf c' = fsipcbuf c \<and> cons_out c' = cons_out c \<and>
     (\<forall>a. own c a \<and> PGNUM a \<noteq> PGNUM (fsipcbuf c) \<longrightarrow> cl_ld8 a c' = cl_ld8 a c)"

lemma keeps_refl [simp]: "keeps c c"
  by (simp add: keeps_def)

lemma keeps_trans: "keeps c c' \<Longrightarrow> keeps c' c'' \<Longrightarrow> keeps c c''"
  by (simp add: keeps_def own_def)

lemma keeps_frame:
  assumes "frames_inj c" "c_pages c (PGNUM (fsipcbuf c)) = Some (Own k)"
  shows "keeps c (c\<lparr>srv := s, c_frames := (c_frames c)(k := m)\<rparr>)" "keeps c (c\<lparr>c_frames := (c_frames c)(k := m)\<rparr>)"
    "keeps c (c\<lparr>srv := s\<rparr>)"
proof -
  have "(PGNUM a = PGNUM (fsipcbuf c)) = (j = k)" if "c_pages c (PGNUM a) = Some (Own j)" for a j
    using assms that by (auto simp: frames_inj_def)
  then show "keeps c (c\<lparr>srv := s, c_frames := (c_frames c)(k := m)\<rparr>)" "keeps c (c\<lparr>c_frames := (c_frames c)(k := m)\<rparr>)"
    "keeps c (c\<lparr>srv := s\<rparr>)"
    by (auto simp: keeps_def own_def cl_ld8_def cl_at_def)
qed

lemma keeps_pages:
  assumes "keeps c c'"
  shows "c_pages c' = c_pages c" "fsipcbuf c' = fsipcbuf c" "own c' a = own c a" "frames_inj c' = frames_inj c"
    "own c a \<Longrightarrow> PGNUM a \<noteq> PGNUM (fsipcbuf c) \<Longrightarrow> cl_ld8 a c' = cl_ld8 a c"
    "cons_out c' = cons_out c"
  using assms by (simp_all add: keeps_def own_def frames_inj_def)

lemma buf_byte:
  assumes "fsipcbuf c mod PGSIZE = 0" "c_pages c (PGNUM (fsipcbuf c)) = Some (Own k)" "unat x < 4096"
  shows "cl_ld8 (fsipcbuf c + x) c = Some (c_frames c k x)"
  using in_page [OF assms(1,3)] assms(2) by (simp add: cl_ld8_def cl_at_def)

lemma buf_word:
  assumes "fsipcbuf c mod PGSIZE = 0" "c_pages c (PGNUM (fsipcbuf c)) = Some (Own k)" "unat x < 4096"
  shows "cl_st32 (fsipcbuf c + x) w c = Some (c\<lparr>c_frames := (c_frames c)(k := put32 x w (c_frames c k))\<rparr>)"
  using in_page [OF assms(1,3)] assms(2) by (simp add: cl_st32_def cl_upd_def)

text \<open>The header of a request: the file's id and one argument.\<close>

lemma request_header:
  assumes "frames_inj c" "fsipcbuf c mod PGSIZE = 0" "c_pages c (PGNUM (fsipcbuf c)) = Some (Own k)"
  obtains m where
    "(do { c \<leftarrow> cl_st32 (fsipcbuf c) fid c; cl_st32 (fsipcbuf c + 4) n c }) = Some (c\<lparr>c_frames := (c_frames c)(k := m)\<rparr>)"
    "get32 m 0 = fid" "get32 m 4 = n"
proof -
  let ?c1 = "c\<lparr>c_frames := (c_frames c)(k := put32 0 fid (c_frames c k))\<rparr>"
  have 1: "cl_st32 (fsipcbuf c) fid c = Some ?c1" using buf_word [OF assms(2,3), of 0] by simp
  have 2: "cl_st32 (fsipcbuf c + 4) n ?c1 = Some (?c1\<lparr>c_frames := (c_frames ?c1)(k := put32 4 n (c_frames ?c1 k))\<rparr>)"
    using buf_word [of ?c1 k 4 n] assms(2,3) by simp
  have "get32 (put32 4 n (put32 0 fid (c_frames c k))) 0 = fid"
    using get32_put32_other [of 4 0 n "put32 0 fid (c_frames c k)"] by simp
  then show thesis using that [of "put32 4 n (put32 0 fid (c_frames c k))"] 1 2 by simp
qed

lemma get32_request:
  assumes "x mod 4 = 0" "unat x < 4096"
  shows "get32 (view (request_page m s)) (fsreq + x) = get32 m x"
proof -
  have b: "view (request_page m s) (fsreq + (x + of_nat j)) = m (x + of_nat j)" if "j < 4" for j
  proof -
    have u: "unat (x + of_nat j) = unat x + j" by (rule aligned_offset [OF assms(1) that])
    moreover have "unat x mod 4 = 0" using assms(1) by (simp add: unat_aligned)
    ultimately have "unat (x + of_nat j) < 4096" using assms(2) that by presburger
    from in_page [of fsreq, OF _ this] show ?thesis by (simp add: view_request_page)
  qed
  show ?thesis
    using b [of 0] b [of 1] b [of 2] b [of 3] by (simp add: get32_def add.assoc)
qed

text \<open>Storing \<open>n\<close> bytes of the client behind the header.\<close>

lemma request_data:
  assumes "frames_inj c" "fsipcbuf c mod PGSIZE = 0" "c_pages c (PGNUM (fsipcbuf c)) = Some (Own k)" "unat n \<le> 4088"
    "\<And>j. j < n \<Longrightarrow> own c (src + j)"
  obtains F where "cl_memmove (fsipcbuf c + 8) src n c = Some (c\<lparr>c_frames := F\<rparr>)" "keeps c (c\<lparr>c_frames := F\<rparr>)"
    "get32 (F k) 0 = get32 (c_frames c k) 0" "get32 (F k) 4 = get32 (c_frames c k) 4"
    "\<And>j. j < n \<Longrightarrow> Some (F k (8 + j)) = cl_ld8 (src + j) c"
proof -
  have off: "unat (8 + j) = 8 + unat j \<and> unat (8 + j) < 4096" if "j < n" for j
    using that assms(4) by (subst (1 2) unat_add_no_wrap) (simp_all add: word_less_nat_alt)
  have o: "own c (fsipcbuf c + 8 + j)" if "j < n" for j
    using in_page(1) [OF assms(2), of "8 + j"] off [OF that] assms(3) by (simp add: own_def add.assoc)
  obtain F where F: "cl_memmove (fsipcbuf c + 8) src n c = Some (c\<lparr>c_frames := F\<rparr>)"
    "\<And>x. cl_ld8 x (c\<lparr>c_frames := F\<rparr>) = (if x - (fsipcbuf c + 8) < n then cl_ld8 (src + (x - (fsipcbuf c + 8))) c else cl_ld8 x c)"
    using cl_memmove_own [OF assms(1) o own_ld8 [OF assms(5)]] by blast
  have b: "Some (F k x) = cl_ld8 (fsipcbuf c + x) (c\<lparr>c_frames := F\<rparr>)" if "unat x < 4096" for x
    using buf_byte [of "c\<lparr>c_frames := F\<rparr>" k x] assms(2,3) that by simp
  have low: "F k x = c_frames c k x" if "unat x < 8" for x
  proof -
    have "\<not> (fsipcbuf c + x) - (fsipcbuf c + 8) < n"
    proof -
      have "unat (x - 8) = 2 ^ 32 + unat x - 8"
        using that by (simp add: unat_sub_if_size word_size word_le_nat_alt)
      then show ?thesis using assms(4) by (simp add: word_less_nat_alt)
    qed
    then show ?thesis using b [of x] buf_byte [OF assms(2,3), of x] that F(2) [of "fsipcbuf c + x"] by simp
  qed
  have "cl_ld8 a (c\<lparr>c_frames := F\<rparr>) = cl_ld8 a c" if "PGNUM a \<noteq> PGNUM (fsipcbuf c)" for a
  proof -
    have "\<not> a - (fsipcbuf c + 8) < n"
    proof
      assume l: "a - (fsipcbuf c + 8) < n"
      have "a = fsipcbuf c + (8 + (a - (fsipcbuf c + 8)))" by simp
      then have "PGNUM a = PGNUM (fsipcbuf c)" using in_page(1) [OF assms(2)] off [OF l] by metis
      then show False using that by simp
    qed
    then show ?thesis using F(2) by simp
  qed
  then have kp: "keeps c (c\<lparr>c_frames := F\<rparr>)" by (simp add: keeps_def)
  have "get32 (F k) 0 = get32 (c_frames c k) 0" "get32 (F k) 4 = get32 (c_frames c k) 4"
    using low by (simp_all add: get32_def)
  moreover have "Some (F k (8 + j)) = cl_ld8 (src + j) c" if "j < n" for j
    using b [of "8 + j"] off [OF that] F(2) [of "fsipcbuf c + (8 + j)"] that by (simp add: algebra_simps)
  ultimately show thesis using that F(1) kp by blast
qed

section \<open>A request and its reply\<close>

lemma fd_page_other:
  assumes "i < MAXOPEN" "unat x < 4096"
  shows "PGNUM (fd_page i + x) \<noteq> PGNUM fsreq"
  using fileva_page(2) [OF assms] unat_fileva [OF assms(1)] by (simp add: word_unat_eq_iff unat_PGNUM)

lemma file_fdD:
  assumes "file_fd md c fdnum i f"
  shows "i < MAXOPEN" "unat fdnum < MAXFD" "c_pages c (PGNUM (index2fd fdnum)) = Some (Server (PGNUM (fd_page i)))"
    "served (srv c) i f" "file_ok (sview c) f" "unat (get32 (sview c) (f_size f)) < 2 ^ 31"
  using assms by (auto simp: file_fd_def served_def)

text \<open>What the server starts from when the request page holds \<open>m\<close>.\<close>

lemma request_start:
  assumes "client_ok c" "file_fd md c fdnum i f" "get32 m 0 = fd_field c i 12"
  defines "s0 \<equiv> request_page m (srv c)"
  shows "becomes s0 (view s0) s0" "served s0 i f" "mapped s0 (PGNUM fsreq)"
    "get32 (view s0) fsreq = o_fileid (opentab s0 i)" "file_ok (view s0) f"
    "get32 (view s0) (f_size f) = get32 (sview c) (f_size f)"
    "get32 (view s0) (f_indirect f) = get32 (sview c) (f_indirect f)"
    "fptr (view s0) f k = fptr (sview c) f k"
    "fptr (sview c) f (p div BLKSIZE) \<noteq> 0 \<Longrightarrow> fbyte (view s0) f p = fbyte (sview c) f p"
    "unat x < 4096 \<Longrightarrow> x mod 4 = 0 \<Longrightarrow> get32 (view s0) (fd_page i + x) = fd_field c i x"
proof -
  have ok: "fs_ok (srv c)" using assms(1) by (simp add: client_ok_def)
  note fd = file_fdD [OF assms(2)] and rp = request_page_ok [OF ok, of m, folded s0_def]
  show "becomes s0 (view s0) s0" by (rule becomes_refl [OF rp(1)])
  show "served s0 i f" "mapped s0 (PGNUM fsreq)" using rp(3,4) fd(4) by simp_all
  have "get32 (view s0) fsreq = get32 m 0" using get32_request [of 0 m "srv c", folded s0_def] by simp
  then show "get32 (view s0) fsreq = o_fileid (opentab s0 i)"
    using assms(2,3) rp(2) by (simp add: file_fd_def)
  have v: "view s0 x = sview c x" if "PGNUM x \<noteq> PGNUM fsreq" for x
    using that by (simp add: s0_def view_request_page)
  note os = outside_same [where v' = "view s0", OF fs_okD(3) [OF ok] fd(5) v [OF not_fsreq]]
  show "file_ok (view s0) f" "get32 (view s0) (f_size f) = get32 (sview c) (f_size f)"
    "get32 (view s0) (f_indirect f) = get32 (sview c) (f_indirect f)" "fptr (view s0) f k = fptr (sview c) f k"
    using os(2-5) by simp_all
  show "fptr (sview c) f (p div BLKSIZE) \<noteq> 0 \<Longrightarrow> fbyte (view s0) f p = fbyte (sview c) f p" using os(7) by simp
  assume x: "unat x < 4096" "x mod 4 = 0"
  show "get32 (view s0) (fd_page i + x) = fd_field c i x" unfolding fd_field_def
    by (rule get32_page [OF fd_word(1) [OF fd(1) x]]) (use v fd_page_other [OF fd(1) x(1)] in auto)
qed

text \<open>What the client has when the server, having reached a view \<open>v'\<close> that differs only in files and in the request
  page, sets the descriptor's position to \<open>w\<close> and replies.\<close>

lemma request_done:
  assumes "client_ok c" "file_fd md c fdnum i f" "keeps c c1" "c_pages c (PGNUM (fsipcbuf c)) = Some (Own k)" "srv c1 = srv c"
    "becomes (request_page m (srv c)) (put32 (fd_page i + 4) w v') t"
    "\<And>x. \<not> in_map x \<Longrightarrow> PGNUM x \<noteq> PGNUM fsreq \<Longrightarrow> v' x = sview c x" "file_ok v' f"
    "unat (get32 v' (f_size f)) \<le> 4235264"
  defines "c' \<equiv> c1\<lparr>srv := user_page_unmap fsreq t, c_frames := (c_frames c1)(k := (\<lambda>x. fmem t (fsreq + x mod PGSIZE)))\<rparr>"
  shows "client_ok c' \<and> file_fd md c' fdnum i f \<and> keeps c c' \<and> fd_field c' i 4 = w \<and>
    get32 (sview c') (f_size f) = get32 v' (f_size f) \<and> get32 (sview c') (f_indirect f) = get32 v' (f_indirect f) \<and>
    (\<forall>k. fptr (sview c') f k = fptr v' f k) \<and>
    (\<forall>p. fptr v' f (p div BLKSIZE) \<noteq> 0 \<longrightarrow> fbyte (sview c') f p = fbyte v' f p)"
proof -
  have cok: "fs_ok (srv c)" "frames_inj c" using assms(1) by (simp_all add: client_ok_def)
  note fd = file_fdD [OF assms(2)]
  note kp = keeps_pages [OF assms(3)]
  have four: "unat (4 :: u32) < 4096" "(4 :: u32) mod 4 = 0" by simp_all
  define a4 where "a4 = fd_page i + 4"
  note w4 = fd_word(1) [OF fd(1) four, folded a4_def] and m4 = fileva_page(1) [OF fd(1) four(1), folded a4_def]
  have tk: "fs_ok t" "view t = put32 a4 w v'" "ext (request_page m (srv c)) t"
    using assms(6) by (simp_all add: becomes_def a4_def)
  note um = unmap_req_ok [OF tk(1)]
  have sv: "sview c' = put32 a4 w v'" by (simp add: c'_def um(2) tk(2))
  have out: "put32 a4 w v' x = v' x" if "in_map x" for x
    using put32_changed [OF w4] same_page_in_map m4 that by blast
  have "vol_same (put32 a4 w v') v'"
    by (rule vol_same_safe) (use fs_okD(3) [OF tk(1)] tk(2) out in \<open>auto simp: safe_def\<close>)
  then have vol: "vol_ok v'" using vol_sameD(4) fs_okD(3) [OF tk(1)] tk(2) by simp
  note os = outside_same [where v' = "put32 a4 w v'", OF vol assms(8) out]
  have pages: "c_pages c' = c_pages c" by (simp add: c'_def kp(1))
  have k1: "keeps c1 c'"
    unfolding c'_def by (rule keeps_frame(1)) (use kp assms(4) cok in simp_all)
  have ser: "served (srv c') i f"
    using um(4) served_ext [OF tk(3)] request_page_ok(4) [OF cok(1)] fd(4) by (simp add: c'_def)
  have ot: "opentab (srv c') = opentab (srv c)"
    using um(3) tk(3) by (simp add: c'_def ext_def request_page_def)
  have fld: "fd_field c' i x = (if x = 4 then w else fd_field c i x)" if x: "x mod 4 = 0" "unat x < 4096" for x
  proof -
    have "get32 v' (fd_page i + x) = fd_field c i x" unfolding fd_field_def
    proof (rule get32_page [OF fd_word(1) [OF fd(1) x(2,1)]])
      fix y assume p: "PGNUM y = PGNUM (fd_page i + x)"
      then have "\<not> in_map y" using same_page_in_map fileva_page(1) [OF fd(1) x(2)] by blast
      moreover have "PGNUM y \<noteq> PGNUM fsreq" using p fd_page_other [OF fd(1) x(2)] by simp
      ultimately show "v' y = sview c y" by (rule assms(7))
    qed
    moreover have "x \<noteq> 4 \<Longrightarrow> get32 (put32 a4 w v') (fd_page i + x) = get32 v' (fd_page i + x)"
      by (rule get32_put32_other [OF w4 fd_word(1) [OF fd(1) x(2,1)]]) (auto simp: a4_def)
    ultimately show ?thesis by (simp add: fd_field_def sv) (simp add: a4_def)
  qed
  have "client_ok c'"
    using assms(1) kp um(1) cok(2) by (auto simp: client_ok_def c'_def own_def frames_inj_def)
  moreover have "file_fd md c' fdnum i f"
    using assms(2,9) ser os(2,4) fld by (simp add: file_fd_def pages ot sv)
  ultimately show ?thesis
    using keeps_trans [OF assms(3) k1] fld [of 4] os by (simp add: sv)
qed

text \<open>The code in front of a request: the header is filled in from the descriptor and the argument.\<close>

lemma header_rule:
  assumes "client_ok c" "file_fd md c fdnum i f" "c_pages c (PGNUM (fsipcbuf c)) = Some (Own k)"
  obtains m where "get32 m 0 = fd_field c i 12" "get32 m 4 = n" "keeps c (c\<lparr>c_frames := (c_frames c)(k := m)\<rparr>)"
    "\<And>g :: cl \<Rightarrow> (u32 \<times> cl) option. (do { fid \<leftarrow> cl_ld32 (fd_file_id (index2fd fdnum)) c; c \<leftarrow> cl_st32 (fsipcbuf c) fid c;
       c \<leftarrow> cl_st32 (fsipcbuf c + 4) n c; g c }) = g (c\<lparr>c_frames := (c_frames c)(k := m)\<rparr>)"
proof -
  have inj: "frames_inj c" and al: "fsipcbuf c mod PGSIZE = 0" using assms(1) by (simp_all add: client_ok_def)
  note fd = file_fdD [OF assms(2)]
  obtain m where m: "(do { c \<leftarrow> cl_st32 (fsipcbuf c) (fd_field c i 12) c; cl_st32 (fsipcbuf c + 4) n c }) =
      Some (c\<lparr>c_frames := (c_frames c)(k := m)\<rparr>)" "get32 m 0 = fd_field c i 12" "get32 m 4 = n"
    using request_header [OF inj al assms(3)] by blast
  have ld: "cl_ld32 (fd_file_id (index2fd fdnum)) c = Some (fd_field c i 12)"
    using cl_ld32_fd [OF fd(2,1,3), of 12] by (simp add: fd_file_id_def)
  have "(do { fid \<leftarrow> cl_ld32 (fd_file_id (index2fd fdnum)) c; c \<leftarrow> cl_st32 (fsipcbuf c) fid c;
       c \<leftarrow> cl_st32 (fsipcbuf c + 4) n c; g c }) =
     (do { c \<leftarrow> (do { c \<leftarrow> cl_st32 (fsipcbuf c) (fd_field c i 12) c; cl_st32 (fsipcbuf c + 4) n c }); g c })" for g
    by (simp add: ld)
  then have "(do { fid \<leftarrow> cl_ld32 (fd_file_id (index2fd fdnum)) c; c \<leftarrow> cl_st32 (fsipcbuf c) fid c;
       c \<leftarrow> cl_st32 (fsipcbuf c + 4) n c; g c }) = g (c\<lparr>c_frames := (c_frames c)(k := m)\<rparr>)" for g
    by (simp only: m(1) Option.bind.simps)
  with that m(2,3) keeps_frame(2) [OF inj assms(3)] show thesis by blast
qed

section \<open>Writing\<close>

lemma devfile_write_rule:
  assumes c: "client_ok c" "file_fd md c fdnum i f" and n: "unat n \<le> 4088" and off: "fd_field c i 4 = off"
    "unat off + unat n \<le> 4235264" "unat off + unat n \<le> 40960 \<or> get32 (sview c) (f_indirect f) \<noteq> 0"
    and src: "\<And>j. j < n \<Longrightarrow> own c (src + j) \<and> PGNUM (src + j) \<noteq> PGNUM (fsipcbuf c)"
    and full: "\<And>c'. \<forall>b. \<not> isfree (sview c') b \<Longrightarrow> Q (code (Inl E_NO_DISK), c')"
    and fin: "\<And>c'. client_ok c' \<Longrightarrow> file_fd md c' fdnum i f \<Longrightarrow> keeps c c' \<Longrightarrow> fd_field c' i 4 = off + n \<Longrightarrow>
      unat off + unat n \<le> unat (get32 (sview c') (f_size f)) \<Longrightarrow>
      \<forall>p. off \<le> p \<and> p < off + n \<longrightarrow> fptr (sview c') f (p div BLKSIZE) \<noteq> 0 \<and>
        Some (fbyte (sview c') f p) = cl_ld8 (src + (p - off)) c \<Longrightarrow> Q (n, c')"
  shows "runs (devfile_write (index2fd fdnum) src n c) Q"
proof -
  note fd = file_fdD [OF c(2)]
  obtain k where k: "c_pages c (PGNUM (fsipcbuf c)) = Some (Own k)" using c(1) by (auto simp: client_ok_def own_def)
  have inj: "frames_inj c" and al: "fsipcbuf c mod PGSIZE = 0" using c(1) by (simp_all add: client_ok_def)
  obtain m where m: "get32 m 0 = fd_field c i 12" "get32 m 4 = n" "keeps c (c\<lparr>c_frames := (c_frames c)(k := m)\<rparr>)"
    "\<And>g :: cl \<Rightarrow> (u32 \<times> cl) option. (do { fid \<leftarrow> cl_ld32 (fd_file_id (index2fd fdnum)) c; c \<leftarrow> cl_st32 (fsipcbuf c) fid c;
       c \<leftarrow> cl_st32 (fsipcbuf c + 4) n c; g c }) = g (c\<lparr>c_frames := (c_frames c)(k := m)\<rparr>)"
    using header_rule [OF c k] by blast
  let ?c1 = "c\<lparr>c_frames := (c_frames c)(k := m)\<rparr>"
  note k1 = m(3)
  note kp1 = keeps_pages [OF k1]
  obtain F where F: "cl_memmove (fsipcbuf ?c1 + 8) src n ?c1 = Some (?c1\<lparr>c_frames := F\<rparr>)" "keeps ?c1 (?c1\<lparr>c_frames := F\<rparr>)"
    "get32 (F k) 0 = get32 m 0" "get32 (F k) 4 = get32 m 4" "\<And>j. j < n \<Longrightarrow> Some (F k (8 + j)) = cl_ld8 (src + j) ?c1"
  proof (rule request_data [of ?c1 k n src])
    show "frames_inj ?c1" "fsipcbuf ?c1 mod PGSIZE = 0" "c_pages ?c1 (PGNUM (fsipcbuf ?c1)) = Some (Own k)"
      using inj al k kp1(4) by simp_all
    show "unat n \<le> 4088" by (rule n)
    show "own ?c1 (src + j)" if "j < n" for j using src [OF that] kp1(3) by simp
  qed simp
  let ?c2 = "?c1\<lparr>c_frames := F\<rparr>"
  have k2: "keeps c ?c2" by (rule keeps_trans [OF k1 F(2)])
  let ?s0 = "request_page (F k) (srv c)"
  note st = request_start [OF c, of "F k", unfolded F(3) m(1), OF refl]
  have four: "unat (4 :: u32) < 4096" "(4 :: u32) mod 4 = 0" by simp_all
  have arg: "get32 (view ?s0) (fsreq + 4) = n" using get32_request [OF four(2,1)] F(4) m(2) by simp
  have vol: "vol_ok (view ?s0)" using fs_okD(3) [of ?s0] st(1) by (simp add: becomes_def)
  have ipc: "runs (fsipc 4 None ?c2) Q"
  proof (rule fsipc_rule)
    show "c_pages ?c2 (PGNUM (fsipcbuf ?c2)) = Some (Own k)" "handlers 4 = Some serve_write"
      using k by (simp_all add: handlers_def)
    let ?c' = "\<lambda>t. ?c2\<lparr>srv := user_page_unmap fsreq t, c_frames := (c_frames ?c2)(k := (\<lambda>x. fmem t (fsreq + x mod PGSIZE)))\<rparr>"
    have "runs (serve_write ?s0) (\<lambda>(r, t). Q (r, ?c' t))"
    proof (rule serve_write_rule [OF st(1-5)])
      show "unat (get32 (view ?s0) (f_size f)) < 2 ^ 31" "get32 (view ?s0) (fd_page i + 4) = off"
        "unat off + unat n \<le> 40960 \<or> get32 (view ?s0) (f_indirect f) \<noteq> 0"
        using st(6,7) fd(6) st(10) [OF four] off by (simp_all only:)
      show "get32 (view ?s0) (fsreq + 4) = n" "unat n \<le> 4088" "unat off + unat n \<le> 4235264"
        using arg n off(2) by simp_all
      fix v' t assume "\<And>b. \<not> isfree v' b" "becomes ?s0 v' t"
      then have "\<forall>b. \<not> isfree (sview (?c' t)) b" using unmap_req_ok(2) [of t] by (simp add: becomes_def)
      then have "Q (code (Inl E_NO_DISK), ?c' t)" by (rule full)
      then show "case (code (Inl E_NO_DISK), t) of (r, t) \<Rightarrow> Q (r, ?c' t)" by simp
    next
      fix v1 v' t
      assume w: "wrote f off (off + n) req_buf v1 v'" "\<And>x. \<not> in_map x \<Longrightarrow> v1 x = view ?s0 x"
        "get32 v' (f_size f) = max (get32 (view ?s0) (f_size f)) (off + n)"
        and t: "becomes ?s0 (put32 (fd_page i + 4) (off + n) v') t"
      have lim: "unat (off + n) = unat off + unat n" by (rule unat_add_no_wrap) (use off(2) in simp)
      have "file_ok v' f" and out: "\<And>x. \<not> in_map x \<Longrightarrow> PGNUM x \<noteq> PGNUM fsreq \<Longrightarrow> v' x = sview c x"
        using w(1,2) by (auto simp: wrote_def view_request_page)
      have "unat (get32 v' (f_size f)) \<le> 4235264"
        using w(3) st(6) c(2) lim off(2) by (simp add: file_fd_def max_def)
      from request_done [OF c k2 k _ t out \<open>file_ok v' f\<close> this]
      have rd: "client_ok (?c' t)" "file_fd md (?c' t) fdnum i f" "keeps c (?c' t)" "fd_field (?c' t) i 4 = off + n"
        "get32 (sview (?c' t)) (f_size f) = get32 v' (f_size f)" "\<forall>k. fptr (sview (?c' t)) f k = fptr v' f k"
        "\<And>p. fptr v' f (p div BLKSIZE) \<noteq> 0 \<Longrightarrow> fbyte (sview (?c' t)) f p = fbyte v' f p"
        by simp_all
      have "fptr v' f (p div BLKSIZE) \<noteq> 0 \<and> Some (fbyte v' f p) = cl_ld8 (src + (p - off)) c"
        if p: "off \<le> p" "p < off + n" for p
      proof -
        have j: "p - off < n" using p lim by (simp add: word_less_nat_alt word_le_nat_alt unat_sub)
        then have "unat (8 + (p - off)) < 4096"
          by (subst unat_add_no_wrap) (use n in \<open>simp_all add: word_less_nat_alt\<close>)
        note ip = in_page [OF _ this, of fsreq]
        have "fsreq mod PGSIZE = (0 :: u32)" by simp
        note ip = ip [OF this]
        have "fsreq + (8 + (p - off)) = req_buf + (p - off)" by (simp only: req_buf_def add.assoc)
        note q = ip [unfolded this]
        then have "\<not> in_map (req_buf + (p - off))" using not_fsreq by blast
        then have "v1 (req_buf + (p - off)) = F k (8 + (p - off))" using w(2) q by (simp add: view_request_page)
        moreover have "fptr v' f (p div BLKSIZE) \<noteq> 0" "fbyte v' f p = v1 (req_buf + (p - off))"
          using w(1) p by (auto simp: wrote_def)
        moreover have "cl_ld8 (src + (p - off)) ?c1 = cl_ld8 (src + (p - off)) c"
          using kp1(5) src [OF j] by simp
        ultimately show ?thesis using F(5) [OF j] by simp
      qed
      then have "\<forall>p. off \<le> p \<and> p < off + n \<longrightarrow> fptr (sview (?c' t)) f (p div BLKSIZE) \<noteq> 0 \<and>
          Some (fbyte (sview (?c' t)) f p) = cl_ld8 (src + (p - off)) c"
        using rd(6,7) by simp
      moreover have "unat off + unat n \<le> unat (get32 (sview (?c' t)) (f_size f))"
        using rd(5) w(3) lim by (simp add: max_def word_le_nat_alt)
      ultimately have "Q (n, ?c' t)" by (rule fin [OF rd(1-4), rotated])
      then show "case (n, t) of (r, t) \<Rightarrow> Q (r, ?c' t)" by simp
    qed
    then show "runs (serve_write (request_page (c_frames ?c2 k) (srv ?c2))) (\<lambda>(r, t). Q (r, ?c' t))" by simp
  qed
  show ?thesis unfolding devfile_write_def m(4) F(1) Option.bind.simps by (rule ipc)
qed

section \<open>Reading\<close>

lemma frames_only [simp]:
  "client_ok (c\<lparr>c_frames := F\<rparr>) = client_ok c" "file_fd md (c\<lparr>c_frames := F\<rparr>) fdnum i f = file_fd md c fdnum i f"
  "fd_field (c\<lparr>c_frames := F\<rparr>) i x = fd_field c i x"
  by (simp_all add: client_ok_def file_fd_def fd_field_def own_def frames_inj_def)

text \<open>The byte at an offset of the request page when the server is done reading.\<close>

lemma reply_byte:
  assumes "i < MAXOPEN" "becomes s0 (put32 (fd_page i + 4) w (copied f off n fsreq v)) t" "unat n \<le> 4096" "j < n"
  shows "fmem t (fsreq + j mod PGSIZE) = fbyte v f (off + j)"
proof -
  have j: "unat j < 4096" using assms(3,4) by (simp add: word_less_nat_alt)
  then have jm: "j mod PGSIZE = j" by (simp add: word_unat_eq_iff unat_mod)
  have f: "\<not> in_map (fsreq + j)" "PGNUM (fsreq + j) = PGNUM fsreq"
    using fsreq_page [of "fsreq + j"] j by (simp_all add: word_less_nat_alt)
  then have "fmem t (fsreq + j) = view t (fsreq + j)" by (simp add: view_def)
  also have "\<dots> = copied f off n fsreq v (fsreq + j)"
  proof (rule ccontr)
    have four: "unat (4 :: u32) < 4096" "(4 :: u32) mod 4 = 0" by simp_all
    assume "view t (fsreq + j) \<noteq> copied f off n fsreq v (fsreq + j)"
    then have "PGNUM (fsreq + j) = PGNUM (fd_page i + 4)"
      using assms(2) put32_changed [OF fd_word(1) [OF assms(1) four]] by (auto simp: becomes_def)
    then show False using f(2) fd_page_other [OF assms(1) four(1)] by simp
  qed
  also have "\<dots> = fbyte v f (off + j)" using assms(4) by (simp add: copied_def)
  finally show ?thesis unfolding jm .
qed

lemma devfile_read_rule:
  assumes c: "client_ok c" "file_fd md c fdnum i f" and off: "fd_field c i 4 = off" "off \<le> get32 (sview c) (f_size f)"
    and r: "r = min n (get32 (sview c) (f_size f) - off)" "unat r \<le> 4096"
    and data: "\<And>p. off \<le> p \<Longrightarrow> p < off + r \<Longrightarrow> fptr (sview c) f (p div BLKSIZE) \<noteq> 0"
    and dst: "\<And>j. j < r \<Longrightarrow> own c (dst + j)"
    and fin: "\<And>c'. client_ok c' \<Longrightarrow> file_fd md c' fdnum i f \<Longrightarrow> c_pages c' = c_pages c \<Longrightarrow> fsipcbuf c' = fsipcbuf c \<Longrightarrow>
      cons_out c' = cons_out c \<Longrightarrow> fd_field c' i 4 = off + r \<Longrightarrow>
      \<forall>p. fptr (sview c) f (p div BLKSIZE) \<noteq> 0 \<longrightarrow>
        fptr (sview c') f (p div BLKSIZE) \<noteq> 0 \<and> fbyte (sview c') f p = fbyte (sview c) f p \<Longrightarrow>
      get32 (sview c') (f_size f) = get32 (sview c) (f_size f) \<Longrightarrow>
      \<forall>a. own c a \<and> PGNUM a \<noteq> PGNUM (fsipcbuf c) \<longrightarrow>
        cl_ld8 a c' = (if a - dst < r then Some (fbyte (sview c) f (off + (a - dst))) else cl_ld8 a c) \<Longrightarrow> Q (r, c')"
  shows "runs (devfile_read (index2fd fdnum) dst n c) Q"
proof -
  note fd = file_fdD [OF c(2)]
  obtain k where k: "c_pages c (PGNUM (fsipcbuf c)) = Some (Own k)" using c(1) by (auto simp: client_ok_def own_def)
  obtain m where m: "get32 m 0 = fd_field c i 12" "get32 m 4 = n" "keeps c (c\<lparr>c_frames := (c_frames c)(k := m)\<rparr>)"
    "\<And>g :: cl \<Rightarrow> (u32 \<times> cl) option. (do { fid \<leftarrow> cl_ld32 (fd_file_id (index2fd fdnum)) c; c \<leftarrow> cl_st32 (fsipcbuf c) fid c;
       c \<leftarrow> cl_st32 (fsipcbuf c + 4) n c; g c }) = g (c\<lparr>c_frames := (c_frames c)(k := m)\<rparr>)"
    using header_rule [OF c k] by blast
  let ?c1 = "c\<lparr>c_frames := (c_frames c)(k := m)\<rparr>"
  let ?s0 = "request_page m (srv c)"
  let ?v0 = "view ?s0"
  note st = request_start [OF c, of m, OF m(1)]
  have lim: "unat off + unat r \<le> unat (get32 (sview c) (f_size f))"
    using r(1) off(2) by (simp add: min_def word_le_nat_alt unat_sub split: if_splits)
  have four: "unat (4 :: u32) < 4096" "(4 :: u32) mod 4 = 0" by simp_all
  have arg: "get32 ?v0 (fsreq + 4) = n" using get32_request [OF four(2,1)] m(2) by simp
  let ?rest = "\<lambda>(r, c). if sint r < 0 then Some (r, c)
      else if \<not> (r \<le> n \<and> r \<le> PGSIZE) then None
      else do { c \<leftarrow> cl_memmove dst (fsipcbuf c) r c; Some (r, c) }"
  have "runs (fsipc 3 None ?c1) (\<lambda>x. runs (?rest x) Q)"
  proof (rule fsipc_rule)
    show "c_pages ?c1 (PGNUM (fsipcbuf ?c1)) = Some (Own k)" "handlers 3 = Some serve_read"
      using k by (simp_all add: handlers_def)
    let ?c' = "\<lambda>t. ?c1\<lparr>srv := user_page_unmap fsreq t, c_frames := (c_frames ?c1)(k := (\<lambda>x. fmem t (fsreq + x mod PGSIZE)))\<rparr>"
    have "runs (serve_read ?s0) (\<lambda>(r, t). runs (?rest (r, ?c' t)) Q)"
    proof (rule serve_read_rule [OF st(1-5)])
      show "unat (get32 ?v0 (f_size f)) < 2 ^ 31" "get32 ?v0 (fd_page i + 4) = off"
        "off \<le> get32 ?v0 (f_size f)" "get32 ?v0 (fsreq + 4) = n" "unat r \<le> 4096"
        "r = min n (get32 ?v0 (f_size f) - off)"
        using st(6) fd(6) st(10) [OF four] off arg r by (simp_all only:)
      show "fptr ?v0 f (p div BLKSIZE) \<noteq> 0" if "off \<le> p" "p < off + r" for p
        using data [OF that] st(8) by simp
      fix t assume t: "becomes ?s0 (put32 (fd_page i + 4) (off + r) (copied f off r fsreq ?v0)) t"
      let ?v' = "copied f off r fsreq ?v0"
      have out: "?v' x = ?v0 x" if "PGNUM x \<noteq> PGNUM fsreq" for x
        using fsreq_page [of x] that r(2) by (auto simp: copied_def word_less_nat_alt)
      have rv: "?v' x = sview c x" if "PGNUM x \<noteq> PGNUM fsreq" for x
        using out [OF that] that by (simp add: view_request_page)
      note os = outside_same [where v' = ?v', OF fs_okD(3) st(5) out [OF not_fsreq]]
      have ok0: "fs_ok ?s0" using st(1) by (simp add: becomes_def)
      have "unat (get32 ?v' (f_size f)) \<le> 4235264"
        using os(4) [OF ok0] st(6) c(2) by (simp add: file_fd_def)
      from request_done [OF c m(3) k _ t rv os(2) [OF ok0] this]
      have rd: "client_ok (?c' t)" "file_fd md (?c' t) fdnum i f" "keeps c (?c' t)" "fd_field (?c' t) i 4 = off + r"
        "get32 (sview (?c' t)) (f_size f) = get32 ?v' (f_size f)" "\<And>k. fptr (sview (?c' t)) f k = fptr ?v' f k"
        "\<And>p. fptr ?v' f (p div BLKSIZE) \<noteq> 0 \<Longrightarrow> fbyte (sview (?c' t)) f p = fbyte ?v' f p"
        by simp_all
      have byte: "cl_ld8 (fsipcbuf c + j) (?c' t) = Some (fbyte (sview c) f (off + j))" if j: "j < r" for j
      proof -
        have ul: "unat (off + j) = unat off + unat j" "unat (off + r) = unat off + unat r"
          by (rule unat_add_no_wrap, use j lim fd(6) in \<open>simp add: word_less_nat_alt\<close>)+
        have p: "off \<le> off + j" "off + j < off + r" using ul j by (simp_all add: word_le_nat_alt word_less_nat_alt)
        have "unat j < 4096" using j r(2) by (simp add: word_less_nat_alt)
        then have "cl_ld8 (fsipcbuf c + j) (?c' t) = Some (fmem t (fsreq + j mod PGSIZE))"
          using buf_byte [of "?c' t" k j] c(1) k by (simp add: client_ok_def)
        then show ?thesis using reply_byte [OF fd(1) t r(2) j] st(9) [OF data [OF p]] by simp
      qed
      note kp = keeps_pages [OF rd(3)]
      obtain F where F: "cl_memmove dst (fsipcbuf c) r (?c' t) = Some ((?c' t)\<lparr>c_frames := F\<rparr>)"
        "\<And>x. cl_ld8 x ((?c' t)\<lparr>c_frames := F\<rparr>) =
           (if x - dst < r then cl_ld8 (fsipcbuf c + (x - dst)) (?c' t) else cl_ld8 x (?c' t))"
        using cl_memmove_own [of "?c' t" r dst "fsipcbuf c"] rd(1) dst kp(3) byte by (auto simp: client_ok_def)
      let ?c2 = "(?c' t)\<lparr>c_frames := F\<rparr>"
      have "\<forall>a. own c a \<and> PGNUM a \<noteq> PGNUM (fsipcbuf c) \<longrightarrow>
          cl_ld8 a ?c2 = (if a - dst < r then Some (fbyte (sview c) f (off + (a - dst))) else cl_ld8 a c)"
        using F(2) byte kp(5) by auto
      note mem = this
      have "\<forall>p. fptr (sview c) f (p div BLKSIZE) \<noteq> 0 \<longrightarrow>
          fptr (sview ?c2) f (p div BLKSIZE) \<noteq> 0 \<and> fbyte (sview ?c2) f p = fbyte (sview c) f p"
        using rd(6,7) os(5,7) [OF ok0] st(8,9) by simp
      moreover have "get32 (sview ?c2) (f_size f) = get32 (sview c) (f_size f)" using rd(5) os(4) [OF ok0] st(6) by simp
      ultimately have q: "Q (r, ?c2)" by (intro fin mem) (use rd(1,2,4) kp(1,2,6) in simp_all)
      have "\<not> sint r < 0" "r \<le> PGSIZE"
        using sint_small [of r] r(2) by (simp_all add: word_le_nat_alt)
      moreover have "r \<le> n" using r(1) by simp
      ultimately show "case (r, t) of (r, t) \<Rightarrow> runs (?rest (r, ?c' t)) Q" using q F(1) by simp
    qed
    then show "runs (serve_read (request_page (c_frames ?c1 k) (srv ?c1))) (\<lambda>(r, t). runs (?rest (r, ?c' t)) Q)" by simp
  qed
  then show ?thesis unfolding devfile_read_def m(4) runs_bind .
qed

section \<open>The descriptor layer\<close>

lemma fd_lookup_file:
  assumes "file_fd md c fdnum i f"
  shows "fd_lookup fdnum c = Inr (index2fd fdnum)"
proof -
  note fd = file_fdD [OF assms]
  have "sint fdnum = int (unat fdnum)" by (rule sint_small) (use fd(2) in simp)
  then have "\<not> sint fdnum < 0 \<and> \<not> int MAXFD \<le> sint fdnum" using fd(2) by linarith
  then show ?thesis using fd(3) by (simp add: fd_lookup_def page_present_def)
qed

lemma with_fd_file:
  assumes "file_fd md c fdnum i f"
  shows "with_fd (devtab fa ds dp ca) fdnum g c = g (index2fd fdnum) (devfile fa) c"
proof -
  note fd = file_fdD [OF assms]
  have "cl_ld32 (fd_dev_id (index2fd fdnum)) c = Some 0x66"
    using cl_ld32_fd [OF fd(2,1,3), of 0] assms by (simp add: fd_dev_id_def file_fd_def)
  then show ?thesis
    by (simp add: with_fd_def fd_lookup_file [OF assms] dev_lookup_def devtab_def devfile_def)
qed

lemma omode_file:
  assumes "file_fd md c fdnum i f"
  shows "cl_ld32 (fd_omode (index2fd fdnum)) c = Some (fd_field c i 8)" "fd_field c i 8 AND O_ACCMODE = md"
proof -
  note fd = file_fdD [OF assms]
  show "cl_ld32 (fd_omode (index2fd fdnum)) c = Some (fd_field c i 8)"
    using cl_ld32_fd [OF fd(2,1,3), of 8] by (simp add: fd_omode_def)
  show "fd_field c i 8 AND O_ACCMODE = md" using assms by (simp add: file_fd_def)
qed

lemma rw_file:
  assumes "file_fd md c fdnum i f"
  shows "md \<noteq> O_RDONLY \<Longrightarrow> fd_write (devtab fa ds dp ca) fdnum src n c = devfile_write (index2fd fdnum) src n c"
    "md \<noteq> O_WRONLY \<Longrightarrow> fd_read (devtab fa ds dp ca) fdnum dst n c = devfile_read (index2fd fdnum) dst n c"
  using omode_file [OF assms] by (simp_all add: fd_write_def fd_read_def with_fd_file [OF assms] devfile_def)

lemma seek_rule:
  assumes "client_ok c" "file_fd md c fdnum i f"
  obtains c' where "seek fdnum off c = Some (0, c')" "client_ok c'" "file_fd md c' fdnum i f" "keeps c c'"
    "fd_field c' i 4 = off" "get32 (sview c') (f_size f) = get32 (sview c) (f_size f)"
    "\<And>k. fptr (sview c') f k = fptr (sview c) f k"
    "\<And>p. fptr (sview c) f (p div BLKSIZE) \<noteq> 0 \<Longrightarrow> fbyte (sview c') f p = fbyte (sview c) f p"
proof -
  note fd = file_fdD [OF assms(2)]
  have four: "unat (4 :: u32) < 4096" "(4 :: u32) mod 4 = 0" by simp_all
  note w4 = fd_word(1) [OF fd(1) four] and m4 = fileva_page(1) [OF fd(1) four(1)]
  obtain k where k: "frames_inj c" "c_pages c (PGNUM (fsipcbuf c)) = Some (Own k)"
    using assms(1) by (auto simp: client_ok_def own_def)
  have ok: "fs_ok (srv c)" using assms(1) by (simp add: client_ok_def)
  let ?s = "(srv c)\<lparr>fmem := put32 (fd_page i + 4) off (fmem (srv c))\<rparr>"
  let ?c = "c\<lparr>srv := ?s\<rparr>"
  note st = fd_store_ok [OF ok fd(1) four, of off]
  have same: "view ?s x = sview c x" if "in_map x" for x
    unfolding st(2) using put32_changed [OF w4] same_page_in_map m4 that by blast
  note os = outside_same [where v' = "view ?s", OF fs_okD(3) [OF ok] fd(5) same]
  have fld: "fd_field ?c i x = (if x = 4 then off else fd_field c i x)" if x: "x mod 4 = 0" "unat x < 4096" for x
  proof (cases "x = 4")
    case True
    then show ?thesis using st(2) by (simp add: fd_field_def)
  next
    case False
    then have "fd_page i + 4 \<noteq> fd_page i + x" by auto
    from get32_put32_other [OF w4 fd_word(1) [OF fd(1) x(2,1)] this]
    have "get32 (view ?s) (fd_page i + x) = get32 (sview c) (fd_page i + x)" unfolding st(2) .
    then show ?thesis using False by (simp add: fd_field_def)
  qed
  have "seek fdnum off c = Some (0, ?c)"
    using cl_st32_fd [OF fd(2,1,3) four(1), of off] by (simp add: seek_def fd_lookup_file [OF assms(2)] fd_offset_def)
  moreover have "client_ok ?c" using assms(1) st(1) by (simp add: client_ok_def own_def frames_inj_def)
  moreover have "served ?s i f" using fd(4) served_cong [of ?s "srv c"] by simp
  then have "file_fd md ?c fdnum i f" using assms(2) fld os(2,4) by (simp add: file_fd_def)
  moreover have "keeps c ?c" by (rule keeps_frame(3) [OF k])
  ultimately show thesis using that fld [of 4] os(4,5,7) by simp
qed

end
