(* ===== verification/FdFiles.thy ===== *)
theory FdFiles
  imports FdProps
begin

text \<open>
  The properties of files as a client sees them.
\<close>

section \<open>Writing and reading back\<close>

lemma rdwr: "O_RDWR \<noteq> (O_RDONLY :: u32)" "O_RDWR \<noteq> (O_WRONLY :: u32)"
  by simp_all

text \<open>
  C22: what a client writes to a file, it reads back.  \<open>write\<close> of at most 4088 bytes, the room of the request page, through a
  descriptor that is open for reading and writing on a file of the server copies the buffer to the request page, and the server
  stores it in the blocks of the file.  If the range needs no new indirect block (it ends in the first ten blocks, or the file
  has its indirect block already) and lies below the largest file size, the call never faults or panics, and
  either it fails with no free block left on the disk or all bytes are written and the position moves behind them.  After
  \<open>seek\<close> back, \<open>read\<close> returns the same number of bytes, and any other buffer of the client then holds what the first one did.
\<close>

theorem client_write_read:
  assumes "client_ok c" "file_fd O_RDWR c fdnum i f" "unat n \<le> 4088" "fd_field c i 4 = off"
    "unat off + unat n \<le> 4235264" "unat off + unat n \<le> 40960 \<or> get32 (view (srv c)) (f_indirect f) \<noteq> 0"
    "\<forall>j < n. own c (src + j) \<and> PGNUM (src + j) \<noteq> PGNUM (fsipcbuf c)"
    "\<forall>j < n. own c (dst + j) \<and> PGNUM (dst + j) \<noteq> PGNUM (fsipcbuf c)"
  shows "runs (fd_write (devtab fa devsock devpipe ca) fdnum src n c) (\<lambda>(r, c1).
    r = code (Inl E_NO_DISK) \<and> (\<forall>b. \<not> isfree (view (srv c1)) b) \<or> r = n \<and> fd_field c1 i 4 = off + n \<and>
    runs (seek fdnum off c1) (\<lambda>(r, c2). r = 0 \<and> runs (fd_read (devtab fa devsock devpipe ca) fdnum dst n c2)
      (\<lambda>(r, c3). r = n \<and> (\<forall>j < n. cl_ld8 (dst + j) c3 = cl_ld8 (src + j) c))))"
  unfolding rw_file(1) [OF assms(2) rdwr(1)]
proof (rule devfile_write_rule [OF assms(1-6)])
  show "own c (src + j) \<and> PGNUM (src + j) \<noteq> PGNUM (fsipcbuf c)" if "j < n" for j using assms(7) that by blast
next
  fix c1
  assume c1: "client_ok c1" "file_fd O_RDWR c1 fdnum i f" and k1: "keeps c c1" and pos: "fd_field c1 i 4 = off + n"
    and sz: "unat off + unat n \<le> unat (get32 (view (srv c1)) (f_size f))"
    and wr: "\<forall>p. off \<le> p \<and> p < off + n \<longrightarrow> fptr (view (srv c1)) f (p div BLKSIZE) \<noteq> 0 \<and>
      Some (fbyte (view (srv c1)) f p) = cl_ld8 (src + (p - off)) c"
  obtain c2 where c2: "seek fdnum off c1 = Some (0, c2)" "client_ok c2" "file_fd O_RDWR c2 fdnum i f" "keeps c1 c2"
    "fd_field c2 i 4 = off" "get32 (view (srv c2)) (f_size f) = get32 (view (srv c1)) (f_size f)"
    "\<And>k. fptr (view (srv c2)) f k = fptr (view (srv c1)) f k"
    "\<And>p. fptr (view (srv c1)) f (p div BLKSIZE) \<noteq> 0 \<Longrightarrow> fbyte (view (srv c2)) f p = fbyte (view (srv c1)) f p"
    using seek_rule [OF c1] by blast
  note kp = keeps_pages [OF keeps_trans [OF k1 c2(4)]]
  have lim: "unat (off + n) = unat off + unat n" by (rule unat_add_no_wrap) (use assms(5) in simp)
  have "runs (fd_read (devtab fa devsock devpipe ca) fdnum dst n c2)
      (\<lambda>(r, c3). r = n \<and> (\<forall>j < n. cl_ld8 (dst + j) c3 = cl_ld8 (src + j) c))"
    unfolding rw_file(2) [OF c2(3) rdwr(2)]
  proof (rule devfile_read_rule [OF c2(2,3,5)])
    show o: "off \<le> get32 (view (srv c2)) (f_size f)" using sz c2(6) by (simp add: word_le_nat_alt)
    have "n \<le> get32 (view (srv c2)) (f_size f) - off"
      unfolding word_le_nat_alt unat_sub [OF o] using sz c2(6) by simp
    then show "n = min n (get32 (view (srv c2)) (f_size f) - off)" by (simp add: min_absorb1)
    show "unat n \<le> 4096" using assms(3) by simp
    show "fptr (view (srv c2)) f (p div BLKSIZE) \<noteq> 0" if "off \<le> p" "p < off + n" for p
      using wr c2(7) that by simp
    show "own c2 (dst + j)" if "j < n" for j using assms(8) kp(3) that by simp
    fix c3
    assume r: "\<forall>a. own c2 a \<and> PGNUM a \<noteq> PGNUM (fsipcbuf c2) \<longrightarrow>
      cl_ld8 a c3 = (if a - dst < n then Some (fbyte (view (srv c2)) f (off + (a - dst))) else cl_ld8 a c2)"
    have "cl_ld8 (dst + j) c3 = cl_ld8 (src + j) c" if j: "j < n" for j
    proof -
      have "unat (off + j) = unat off + unat j"
        by (rule unat_add_no_wrap) (use j assms(5) in \<open>simp add: word_less_nat_alt\<close>)
      then have "off \<le> off + j \<and> off + j < off + n" using j lim by (simp add: word_le_nat_alt word_less_nat_alt)
      then have "Some (fbyte (view (srv c2)) f (off + j)) = cl_ld8 (src + j) c" using wr c2(8) by fastforce
      then show ?thesis using r assms(8) kp(2,3) j by simp
    qed
    then show "case (n, c3) of (r, c3) \<Rightarrow> r = n \<and> (\<forall>j < n. cl_ld8 (dst + j) c3 = cl_ld8 (src + j) c)" by simp
  qed
  then show "case (n, c1) of (r, c1) \<Rightarrow>
    r = code (Inl E_NO_DISK) \<and> (\<forall>b. \<not> isfree (view (srv c1)) b) \<or> r = n \<and> fd_field c1 i 4 = off + n \<and>
    runs (seek fdnum off c1) (\<lambda>(r, c2). r = 0 \<and> runs (fd_read (devtab fa devsock devpipe ca) fdnum dst n c2)
      (\<lambda>(r, c3). r = n \<and> (\<forall>j < n. cl_ld8 (dst + j) c3 = cl_ld8 (src + j) c)))"
    using pos c2(1) by simp
qed simp

text \<open>
  A client of a server whose disk has the contents \<open>v\<close>: descriptor 0 is open on the file at the start of block 3, descriptor 1 is
  the console, and two pages are the request page and a buffer.
\<close>

definition ex_fd_view :: "u32 \<Rightarrow> mem \<Rightarrow> mem" where
  "ex_fd_view md v = put32 (FILEVA + 8) md (put32 FILEVA 0x66 v)"

definition ex_client :: "u32 \<Rightarrow> mem \<Rightarrow> cl" where
  "ex_client md v = \<lparr>srv = (ex_on (ex_fd_view md v))\<lparr>opentab := (\<lambda>i. \<lparr>o_fileid = of_nat i, o_file = blockaddr 3, o_mode = 0,
      o_fd = FILEVA + of_nat i * PGSIZE\<rparr>), page_refs := (\<lambda>_. 2)\<rparr>,
     c_pages = [0xD0000 \<mapsto> Server (PGNUM FILEVA), 0xD0001 \<mapsto> Own 2, 0x800 \<mapsto> Own 0, 0x900 \<mapsto> Own 1],
     c_frames = (\<lambda>k. if k = 2 then put32 8 2 (put32 0 0x63 (\<lambda>_. 0)) else ucast), fsipcbuf = 0x800000,
     no_table = (\<lambda>_. False), cons_in = [], cons_out = []\<rparr>"

definition ex_base :: "mem \<Rightarrow> bool" where
  "ex_base v \<longleftrightarrow> vol_ok v \<and> resv v = 3 \<and> file_ok v (blockaddr 3) \<and> unat (get32 v (f_size (blockaddr 3))) \<le> 4096 \<and>
     (\<forall>x. \<not> in_map x \<longrightarrow> v x = 0)"

lemma ex_fd_same: "in_map x \<Longrightarrow> ex_fd_view md v x = v x"
  by (auto simp: ex_fd_view_def put32_def put4_def in_map_def)

lemma ex_fd_zero:
  assumes "ex_base v" "y mod 4 = 0" "\<not> in_map y" "y \<noteq> FILEVA" "y \<noteq> FILEVA + 8"
  shows "get32 (ex_fd_view md v) y = 0"
proof -
  have "get32 (ex_fd_view md v) y = get32 v y"
    using get32_put32_other [of "FILEVA + 8" y md "put32 FILEVA 0x66 v"] get32_put32_other [of FILEVA y "0x66" v]
      assms by (simp add: ex_fd_view_def)
  also have "\<dots> = get32 (\<lambda>_. 0) y"
  proof (rule get32_page [OF assms(2)])
    fix x assume "PGNUM x = PGNUM y"
    then have "\<not> in_map x" using assms(3) same_page_in_map by blast
    then show "v x = 0" using assms(1) by (simp add: ex_base_def)
  qed
  finally show ?thesis by (simp add: get32_def)
qed

lemma ex_client_view: "view (srv (ex_client md v)) = ex_fd_view md v"
proof -
  have "view (srv (ex_client md v)) = view (ex_on (ex_fd_view md v))" by (simp add: view_def ex_client_def disk_byte_def cong: if_cong)
  then show ?thesis by (simp add: view_ex_on)
qed

lemma ex_client_pages:
  "c_pages (ex_client md v) = [0xD0000 \<mapsto> Server (PGNUM FILEVA), 0xD0001 \<mapsto> Own 2, 0x800 \<mapsto> Own 0, 0x900 \<mapsto> Own 1]"
  "fsipcbuf (ex_client md v) = 0x800000" "cons_out (ex_client md v) = []"
  by (simp_all add: ex_client_def)

lemma ex_client_ok:
  assumes "ex_base v"
  shows "client_ok (ex_client md v)"
proof -
  have vs: "vol_ok v" "resv v = 3" using assms by (simp_all add: ex_base_def)
  have "vol_same v (ex_fd_view md v)"
    by (rule vol_same_safe [OF vs(1)]) (use ex_fd_same in \<open>auto simp: safe_def\<close>)
  from vol_sameD [OF this] vs have ok: "fs_ok (ex_on (ex_fd_view md v))" by (intro fs_ok_ex_on) simp_all
  have "fs_ok (srv (ex_client md v))"
    by (rule fs_ok_outside [OF ok]) (simp add: ex_client_view view_ex_on, simp_all add: ex_client_def)
  moreover have "frames_inj (ex_client md v)" "own (ex_client md v) 0x800000"
    by (auto simp: frames_inj_def own_def ex_client_pages PGNUM_def split: if_splits)
  ultimately show ?thesis by (simp add: client_ok_def ex_client_pages)
qed

lemma ex_client_fd:
  assumes "ex_base v" "md AND O_ACCMODE = md"
  shows "file_fd md (ex_client md v) 0 0 (blockaddr 3)"
proof -
  have b: "vol_ok v" "file_ok v (blockaddr 3)" "unat (get32 v (f_size (blockaddr 3))) \<le> 4096"
    using assms by (simp_all add: ex_base_def)
  note os = outside_same [where v' = "ex_fd_view md v", OF b(1,2) ex_fd_same]
  have w: "get32 (ex_fd_view md v) FILEVA = 0x66" "get32 (ex_fd_view md v) (FILEVA + 8) = md" "get32 (ex_fd_view md v) (FILEVA + 12) = 0"
    using get32_put32_other [of "FILEVA + 8" FILEVA md "put32 FILEVA 0x66 v"] ex_fd_zero [OF assms(1), of "FILEVA + 12"]
    by (simp_all add: ex_fd_view_def in_map_unat)
  have "served (srv (ex_client md v)) 0 (blockaddr 3)"
    by (simp add: served_def ex_client_def pageref_def ex_on_def ex_fs_def PGNUM_def)
  moreover have "c_pages (ex_client md v) (PGNUM (index2fd 0)) = Some (Server (PGNUM (fd_page 0)))"
    by (simp add: ex_client_pages index2fd_def PGNUM_def)
  moreover have "opentab (srv (ex_client md v)) 0 = \<lparr>o_fileid = 0, o_file = blockaddr 3, o_mode = 0, o_fd = FILEVA\<rparr>"
    by (simp add: ex_client_def)
  ultimately show ?thesis
    using os(2,4) w b(3) assms(2) by (simp add: file_fd_def fd_field_def ex_client_view)
qed

lemma ex_client_pos: "ex_base v \<Longrightarrow> fd_field (ex_client md v) 0 4 = 0"
  using ex_fd_zero [of v "FILEVA + 4"] by (simp add: fd_field_def ex_client_view in_map_unat)

lemma ex_client_own:
  assumes "unat j < 4096"
  shows "own (ex_client md v) (0x900000 + j) \<and> PGNUM (0x900000 + j) \<noteq> PGNUM (fsipcbuf (ex_client md v)) \<and>
    PGNUM (0x900000 + j) \<noteq> PGNUM (index2fd 1)"
proof -
  have pg: "PGNUM (0x900000 + j) = 0x900" using in_page(1) [of "0x900000" j] assms by (simp add: PGNUM_def)
  show ?thesis unfolding own_def pg by (simp add: ex_client_pages index2fd_def PGNUM_def)
qed

lemma ex_base_vol: "ex_base ex_vol"
proof -
  have "ex_vol x = 0" if "\<not> in_map x" for x
    using that same_page_in_map [of x "blockaddr 1"] same_page_in_map [of x "blockaddr 2"] by (intro ex_vol_zero) auto
  then show ?thesis using vol_ok_ex resv_ex file_ok_ex ex_indirect by (simp add: ex_base_def)
qed

text \<open>A table of devices, with stand-ins of the right number for those of sockets and pipes.\<close>

definition ex_devs :: "dev list" where
  "ex_devs = devtab 0 ((devfile 0)\<lparr>dev_id := 0x73\<rparr>) ((devfile 0)\<lparr>dev_id := 0x70\<rparr>) 0"

theorem client_write_read_witness:
  "runs (fd_write ex_devs 0 0x900000 5 (ex_client O_RDWR ex_vol)) (\<lambda>(r, c1).
     r = code (Inl E_NO_DISK) \<and> (\<forall>b. \<not> isfree (view (srv c1)) b) \<or> r = 5 \<and> fd_field c1 0 4 = 5 \<and>
     runs (seek 0 0 c1) (\<lambda>(r, c2). r = 0 \<and> runs (fd_read ex_devs 0 0x900100 5 c2)
       (\<lambda>(r, c3). r = 5 \<and> (\<forall>j < 5. cl_ld8 (0x900100 + j) c3 = cl_ld8 (0x900000 + j) (ex_client O_RDWR ex_vol)))))"
proof -
  have s: "unat (j :: u32) < 4096 \<and> unat (0x100 + j) < 4096" if "j < 5" for j
    using that by (subst unat_add_no_wrap) (simp_all add: word_less_nat_alt)
  have o: "own (ex_client O_RDWR ex_vol) (0x900100 + j) \<and> PGNUM (0x900100 + j) \<noteq> PGNUM (fsipcbuf (ex_client O_RDWR ex_vol))" if "j < 5" for j
    using ex_client_own [of "0x100 + j"] s [OF that] by (simp add: add.assoc [symmetric])
  note x = ex_client_ok [OF ex_base_vol, of O_RDWR] ex_client_fd [OF ex_base_vol, of O_RDWR, simplified] ex_client_pos [OF ex_base_vol, of O_RDWR]
  from client_write_read [OF x(1,2) _ x(3), where n = 5 and src = "0x900000" and dst = "0x900100"
      and fa = 0 and ca = 0 and devsock = "(devfile 0)\<lparr>dev_id := 0x73\<rparr>" and devpipe = "(devfile 0)\<lparr>dev_id := 0x70\<rparr>"]
    ex_client_own o s
  show ?thesis by (simp add: ex_devs_def)
qed

section \<open>Printing a file\<close>

text \<open>A descriptor of the console: its \<open>struct Fd\<close> lies in a page of the client's own.\<close>

definition cons_fd :: "cl \<Rightarrow> u32 \<Rightarrow> bool" where
  "cons_fd c fdnum \<longleftrightarrow> unat fdnum < MAXFD \<and> own c (index2fd fdnum) \<and> cl_ld32 (index2fd fdnum) c = Some 0x63 \<and>
     (\<exists>m. cl_ld32 (index2fd fdnum + 8) c = Some m \<and> m AND O_ACCMODE = O_RDWR)"

lemma cl_ld8_cons [simp]: "cl_ld8 a (c\<lparr>cons_out := xs\<rparr>) = cl_ld8 a c"
  by (simp add: cl_ld8_def cl_at_def cong: option.case_cong cpage.case_cong)

lemma devcons_write_from_rule:
  assumes "tot \<le> n" "\<And>j. j < n \<Longrightarrow> \<exists>b. cl_ld8 (buf + j) c = Some b \<and> b \<noteq> 0"
  shows "devcons_write_from buf n tot c = Some (n, c\<lparr>cons_out := cons_out c @
    map (\<lambda>j. the (cl_ld8 (buf + of_nat j) c)) [unat tot..<unat n]\<rparr>)"
  using assms
proof (induction "unat n - unat tot" arbitrary: tot c rule: less_induct)
  case less
  show ?case
  proof (cases "tot < n")
    case False
    then have "tot = n" using less.prems(1) by simp
    then show ?thesis by (subst devcons_write_from.simps) simp
  next
    case True
    define m where m_def: "m = (if 127 < n - tot then 127 else n - tot)"
    let ?b = "\<lambda>j. the (cl_ld8 (buf + of_nat j) c)"
    have d: "unat (n - tot) = unat n - unat tot" using True by (simp add: unat_sub)
    have lt: "unat tot < unat n" using True by (simp add: word_less_nat_alt)
    have m: "0 < unat m" "unat m \<le> unat n - unat tot"
      using lt d by (auto simp: m_def word_less_nat_alt)
    have t: "unat (tot + m) = unat tot + unat m"
      by (rule unat_add_no_wrap) (use m lt unat_less_32 [of n] in simp)
    have w: "tot + of_nat j < n" "buf + tot + of_nat j = buf + of_nat (unat tot + j)" if "j < unat m" for j
    proof -
      have "unat (of_nat j :: u32) = j" using that m unat_less_32 [of n] by (simp add: unat_of_nat32)
      then have "unat (tot + of_nat j) = unat tot + j"
        by (subst unat_add_no_wrap) (use that m lt unat_less_32 [of n] in simp)+
      then show "tot + of_nat j < n" using that m by (simp add: word_less_nat_alt)
    qed (simp add: add.assoc)
    have "cl_ld8 (buf + tot + of_nat j) c \<noteq> None" if "j < unat m" for j
      using less.prems(2) [OF w(1) [OF that]] by (auto simp: add.assoc)
    then have l: "cl_load (buf + tot) (unat m) c = Some (map (\<lambda>j. ?b (unat tot + j)) [0..<unat m])"
      using cl_load_map [of "unat m" "buf + tot" c] by (simp add: add.assoc)
    have nz: "?b j \<noteq> 0" if "j < unat n" for j
      using less.prems(2) [of "of_nat j"] that unat_less_32 [of n] by (auto simp: word_less_nat_alt unat_of_nat32)
    have "takeWhile (\<lambda>b. b \<noteq> 0) (map (\<lambda>j. ?b (unat tot + j)) [0..<unat m]) = map (\<lambda>j. ?b (unat tot + j)) [0..<unat m]"
      unfolding takeWhile_eq_all_conv
    proof
      fix y assume "y \<in> set (map (\<lambda>j. ?b (unat tot + j)) [0..<unat m])"
      then obtain j where j: "j < unat m" "y = ?b (unat tot + j)" by (force simp del: of_nat_add)
      show "y \<noteq> 0" unfolding j(2) by (rule nz) (use j(1) m lt in linarith)
    qed
    also have "\<dots> = map ?b [unat tot..<unat (tot + m)]"
      unfolding t by (rule nth_equalityI) simp_all
    finally have tw: "takeWhile (\<lambda>b. b \<noteq> 0) (map (\<lambda>j. ?b (unat tot + j)) [0..<unat m]) = map ?b [unat tot..<unat (tot + m)]" .
    have split: "[unat tot..<unat n] = [unat tot..<unat (tot + m)] @ [unat (tot + m)..<unat n]"
      using upt_add_eq_append [of "unat tot" "unat (tot + m)" "unat n - unat (tot + m)"] t m lt by simp
    define c' where c'_def: "c' = cl_cputs (map (\<lambda>j. ?b (unat tot + j)) [0..<unat m]) c"
    have c: "c' = c\<lparr>cons_out := cons_out c @ map ?b [unat tot..<unat (tot + m)]\<rparr>" by (simp only: c'_def cl_cputs_def tw)
    have "devcons_write_from buf n (tot + m) c' = Some (n, c'\<lparr>cons_out := cons_out c' @
        map (\<lambda>j. the (cl_ld8 (buf + of_nat j) c')) [unat (tot + m)..<unat n]\<rparr>)"
      by (rule less.hyps) (use t m lt less.prems(2) in \<open>simp_all add: word_le_nat_alt c del: of_nat_add\<close>)
    then have "devcons_write_from buf n (tot + m) c' = Some (n, c\<lparr>cons_out := cons_out c @ map ?b [unat tot..<unat n]\<rparr>)"
      by (simp add: c split)
    then show ?thesis
      by (subst devcons_write_from.simps) (simp only: True if_True Let_def m_def [symmetric] l c'_def [symmetric] Option.bind.simps)
  qed
qed

lemma cons_only [simp]:
  "client_ok (c\<lparr>cons_out := xs\<rparr>) = client_ok c" "file_fd md (c\<lparr>cons_out := xs\<rparr>) fdnum i f = file_fd md c fdnum i f"
  "fd_field (c\<lparr>cons_out := xs\<rparr>) i x = fd_field c i x" "own (c\<lparr>cons_out := xs\<rparr>) a = own c a"
  by (simp_all add: client_ok_def file_fd_def fd_field_def own_def frames_inj_def)

lemma cl_ld32_same:
  assumes "own c a" "a mod 4 = 0" "c_pages c' = c_pages c" "\<And>j. j < 4 \<Longrightarrow> cl_ld8 (a + of_nat j) c' = cl_ld8 (a + of_nat j) c"
  shows "cl_ld32 a c' = cl_ld32 a c"
proof -
  obtain k where k: "c_pages c (PGNUM a) = Some (Own k)" using assms(1) by (auto simp: own_def)
  have b: "c_frames c' k (a mod PGSIZE + of_nat j) = c_frames c k (a mod PGSIZE + of_nat j)" if "j < 4" for j
  proof -
    have p: "PGNUM (a + of_nat j) = PGNUM a" by (rule page_of_word [OF assms(2) that])
    have u: "unat (a + of_nat j) = unat a + j" by (rule aligned_offset [OF assms(2) that])
    have d: "(unat a + j) div 4096 = unat a div 4096"
      using arg_cong [OF p, of unat] u by (simp add: unat_PGNUM)
    then have "(unat a + j) mod 4096 = unat a mod 4096 + j"
      using page_split(1) [of "unat a + j"] page_split(1) [of "unat a"] by linarith
    moreover have "unat (a mod PGSIZE + of_nat j) = unat a mod 4096 + j"
      by (subst unat_add_no_wrap) (use that in \<open>simp_all add: unat_mod unat_of_nat32\<close>)
    ultimately have "(a + of_nat j) mod PGSIZE = a mod PGSIZE + of_nat j"
      using u by (simp add: word_unat_eq_iff unat_mod)
    then show ?thesis using assms(3) assms(4) [OF that] k p by (simp add: cl_ld8_def cl_at_def)
  qed
  have "get32 (c_frames c' k) (a mod PGSIZE) = get32 (c_frames c k) (a mod PGSIZE)"
    using get32_same [of "c_frames c' k" "a mod PGSIZE" "c_frames c k"] b by blast
  then show ?thesis using k assms(3) by (simp add: cl_ld32_def cl_at_def)
qed

lemma cons_fd_same:
  assumes "cons_fd c d" "c_pages c' = c_pages c"
    "\<And>x. unat x < 4096 \<Longrightarrow> cl_ld8 (index2fd d + x) c' = cl_ld8 (index2fd d + x) c"
  shows "cons_fd c' d"
proof -
  have d: "unat d < MAXFD" "own c (index2fd d)" using assms(1) by (simp_all add: cons_fd_def)
  have "cl_ld32 (index2fd d + x) c' = cl_ld32 (index2fd d + x) c" if x: "x = 0 \<or> x = 8" for x
  proof (rule cl_ld32_same [OF _ _ assms(2)])
    have l: "unat x < 4096" using x by auto
    show "own c (index2fd d + x)" using d(2) index2fd_word(1) [OF d(1) l] by (simp add: own_def)
    have "unat (index2fd d) = 0xD0000000 + unat d * 4096"
      unfolding index2fd_def by (subst unat_add_no_wrap) (use d(1) in \<open>simp_all add: unat_word_ariths\<close>)
    then have "unat (index2fd d + x) mod 4 = 0"
      using x d(1) by (subst unat_add_no_wrap) auto
    then show "(index2fd d + x) mod 4 = 0" by (simp add: unat_aligned)
    fix j :: nat assume j: "j < 4"
    have "unat (x + of_nat j) < 4096" using x j by (subst unat_add_no_wrap) (auto simp: unat_of_nat32)
    from assms(3) [OF this] show "cl_ld8 (index2fd d + x + of_nat j) c' = cl_ld8 (index2fd d + x + of_nat j) c"
      by (simp add: add.assoc)
  qed
  from this [of 0] this [of 8] show ?thesis
    using assms(1,2) by (simp add: cons_fd_def own_def)
qed

lemma write_cons:
  assumes "cons_fd c d" "dev_id ds = 0x73" "dev_id dp = 0x70" "\<And>j. j < n \<Longrightarrow> \<exists>b. cl_ld8 (buf + j) c = Some b \<and> b \<noteq> 0"
  shows "fd_write (devtab fa ds dp ca) d buf n c = Some (n, c\<lparr>cons_out := cons_out c @
    map (\<lambda>j. the (cl_ld8 (buf + of_nat j) c)) [0..<unat n]\<rparr>)"
proof -
  have d: "unat d < MAXFD" "own c (index2fd d)" using assms(1) by (simp_all add: cons_fd_def)
  have "sint d = int (unat d)" by (rule sint_small) (use d(1) in simp)
  then have "\<not> sint d < 0 \<and> \<not> int MAXFD \<le> sint d" using d(1) by linarith
  then have "fd_lookup d c = Inr (index2fd d)" using d(2) by (auto simp: fd_lookup_def page_present_def own_def)
  moreover have "cl_ld32 (fd_dev_id (index2fd d)) c = Some 0x63" using assms(1) by (simp add: cons_fd_def fd_dev_id_def)
  moreover obtain m where "cl_ld32 (fd_omode (index2fd d)) c = Some m" "m AND O_ACCMODE = O_RDWR"
    using assms(1) by (auto simp: cons_fd_def fd_omode_def)
  moreover have "devcons_write (index2fd d) buf n c = Some (n, c\<lparr>cons_out := cons_out c @
      map (\<lambda>j. the (cl_ld8 (buf + of_nat j) c)) [0..<unat n]\<rparr>)"
    using devcons_write_from_rule [of 0 n buf c] assms(4) by (simp add: devcons_write_def)
  ultimately show ?thesis
    using assms(2,3) by (simp add: fd_write_def with_fd_def dev_lookup_def devtab_def devfile_def devcons_def)
qed

text \<open>Reading with the buffer of \<open>cat\<close>, which is larger than the rest of the file.\<close>

lemma read_rest:
  assumes c: "client_ok c" "file_fd md c fdnum i f" "md \<noteq> O_WRONLY" and pos: "fd_field c i 4 \<le> get32 (view (srv c)) (f_size f)"
    and r: "r = get32 (view (srv c)) (f_size f) - fd_field c i 4" "unat r \<le> 4096"
    and data: "\<And>p. fd_field c i 4 \<le> p \<Longrightarrow> p < fd_field c i 4 + r \<Longrightarrow> fptr (view (srv c)) f (p div BLKSIZE) \<noteq> 0"
    and dst: "\<And>j. j < r \<Longrightarrow> own c (buf + j)"
  obtains c' where "fd_read (devtab fa ds dp ca) fdnum buf 8192 c = Some (r, c')" "client_ok c'" "file_fd md c' fdnum i f"
    "c_pages c' = c_pages c" "fsipcbuf c' = fsipcbuf c" "cons_out c' = cons_out c"
    "fd_field c' i 4 = get32 (view (srv c')) (f_size f)"
    "\<forall>a. own c a \<and> PGNUM a \<noteq> PGNUM (fsipcbuf c) \<longrightarrow>
        cl_ld8 a c' = (if a - buf < r then Some (fbyte (view (srv c)) f (fd_field c i 4 + (a - buf))) else cl_ld8 a c)"
proof -
  have m: "r = min 8192 r" using r(2) by (simp add: min_def word_le_nat_alt)
  have "runs (devfile_read (index2fd fdnum) buf 8192 c) (\<lambda>(r', c'). r' = r \<and> client_ok c' \<and> file_fd md c' fdnum i f \<and>
    c_pages c' = c_pages c \<and> fsipcbuf c' = fsipcbuf c \<and> cons_out c' = cons_out c \<and>
    fd_field c' i 4 = get32 (view (srv c')) (f_size f) \<and>
    (\<forall>a. own c a \<and> PGNUM a \<noteq> PGNUM (fsipcbuf c) \<longrightarrow>
        cl_ld8 a c' = (if a - buf < r then Some (fbyte (view (srv c)) f (fd_field c i 4 + (a - buf))) else cl_ld8 a c)))"
    by (rule devfile_read_rule [OF c(1,2) refl pos m [unfolded r(1)], folded r(1), OF r(2) data dst]) (simp_all add: r(1))
  then show thesis using that by (auto simp: runs_def rw_file(2) [OF c(2,3)])
qed

text \<open>At the end of the file the loop of \<open>cat\<close> stops.\<close>

lemma cat_end:
  assumes "client_ok c" "file_fd md c fdnum i f" "md \<noteq> O_WRONLY" "fd_field c i 4 = get32 (view (srv c)) (f_size f)"
  shows "runs (cat (devtab fa ds dp ca) buf fdnum c) (\<lambda>c'. cons_out c' = cons_out c)"
proof -
  obtain c' where "fd_read (devtab fa ds dp ca) fdnum buf 8192 c = Some (0, c')" "cons_out c' = cons_out c"
    by (rule read_rest [OF assms(1-3), of 0 buf fa ds dp ca]) (use assms(4) in \<open>simp_all add: word_le_nat_alt [symmetric]\<close>)
  then show ?thesis by (subst cat.simps) (simp add: runs_def)
qed

lemma rdonly: "O_RDONLY \<noteq> (O_WRONLY :: u32)"
  by simp

text \<open>
  C23: \<open>cat\<close> prints the file.  For a file of at most a page, without holes and NUL characters, that is open for reading with the
  position at its start, when descriptor 1 is the console and the buffer lies in pages of its own, the program returns, and the
  console has received exactly the bytes of the file, in order and once.
\<close>

theorem cat_prints:
  assumes "client_ok c" "file_fd O_RDONLY c fdnum i f" "cons_fd c 1" "dev_id devsock = 0x73" "dev_id devpipe = 0x70"
    "fd_field c i 4 = 0" "n = get32 (view (srv c)) (f_size f)" "unat n \<le> 4096"
    "\<forall>p < n. fptr (view (srv c)) f (p div BLKSIZE) \<noteq> 0 \<and> fbyte (view (srv c)) f p \<noteq> 0"
    "\<forall>j < n. own c (buf + j) \<and> PGNUM (buf + j) \<noteq> PGNUM (fsipcbuf c) \<and> PGNUM (buf + j) \<noteq> PGNUM (index2fd 1)"
    "PGNUM (index2fd 1) \<noteq> PGNUM (fsipcbuf c)"
  shows "runs (cat (devtab fa devsock devpipe ca) buf fdnum c) (\<lambda>c'. cons_out c' =
    cons_out c @ map (\<lambda>p. fbyte (view (srv c)) f (of_nat p)) [0..<unat n])"
proof -
  let ?byte = "\<lambda>p. fbyte (view (srv c)) f p"
  let ?devs = "devtab fa devsock devpipe ca"
  obtain c1 where c1: "fd_read ?devs fdnum buf 8192 c = Some (n, c1)" "client_ok c1" "file_fd O_RDONLY c1 fdnum i f"
    "c_pages c1 = c_pages c" "fsipcbuf c1 = fsipcbuf c" "cons_out c1 = cons_out c"
    "fd_field c1 i 4 = get32 (view (srv c1)) (f_size f)"
    "\<forall>a. own c a \<and> PGNUM a \<noteq> PGNUM (fsipcbuf c) \<longrightarrow>
       cl_ld8 a c1 = (if a - buf < n then Some (?byte (fd_field c i 4 + (a - buf))) else cl_ld8 a c)"
    by (rule read_rest [OF assms(1,2) rdonly, of n buf fa devsock devpipe ca]) (use assms(6-10) in simp_all)
  have byte: "cl_ld8 (buf + j) c1 = Some (?byte j)" if "j < n" for j
    using c1(8) assms(6,10) that by simp
  have "cl_ld8 (index2fd 1 + x) c1 = cl_ld8 (index2fd 1 + x) c" if x: "unat x < 4096" for x
  proof -
    have p: "PGNUM (index2fd 1 + x) = PGNUM (index2fd 1)" by (rule index2fd_word(1)) (use x in simp_all)
    then have "\<not> index2fd 1 + x - buf < n" using assms(10) by (metis add_diff_cancel_left' diff_add_cancel add.commute)
    moreover have "own c (index2fd 1 + x)" using assms(3) p by (simp add: cons_fd_def own_def)
    ultimately show ?thesis using c1(8) p assms(11) by simp
  qed
  then have con: "cons_fd c1 1" by (rule cons_fd_same [OF assms(3) c1(4)])
  have out: "map (\<lambda>j. the (cl_ld8 (buf + of_nat j) c1)) [0..<unat n] = map (\<lambda>p. ?byte (of_nat p)) [0..<unat n]"
    using byte unat_less_32 [of n] by (auto simp: word_less_nat_alt unat_of_nat32)
  let ?c2 = "c1\<lparr>cons_out := cons_out c @ map (\<lambda>p. ?byte (of_nat p)) [0..<unat n]\<rparr>"
  have w: "fd_write ?devs 1 buf n c1 = Some (n, ?c2)"
    using write_cons [OF con assms(4,5), of n buf fa ca] byte assms(9) unfolding out c1(6) by auto
  have "runs (cat ?devs buf fdnum ?c2) (\<lambda>c'. cons_out c' = cons_out ?c2)"
    by (rule cat_end [where md = O_RDONLY]) (use c1(2,3,7) in simp_all)
  moreover have "sint n = int (unat n)" by (rule sint_small) (use assms(8) in simp)
  then have "0 <s n \<longleftrightarrow> n \<noteq> 0" "\<not> n <s 0" by (auto simp: word_sless_alt less_le uint_0_iff)
  ultimately show ?thesis using c1(1,6) w
    by (subst cat.simps) (auto simp: runs_def)
qed

text \<open>The file with the four bytes of "Hi!" and a newline, in block 4.\<close>

definition ex_text :: mem where
  "ex_text = put32 (f_size (blockaddr 3)) 4 (put32 (blockaddr 4) 0x0A216948 (with_block (blockaddr 3) 0 4 ex_vol))"

lemma ex_text:
  "ex_base ex_text" "get32 ex_text (f_size (blockaddr 3)) = 4" "fptr ex_text (blockaddr 3) 0 = 4"
  "unat p < 4 \<Longrightarrow> ex_text (blockaddr 4 + p) = [0x48, 0x69, 0x21, 0x0A] ! unat p"
proof -
  let ?f = "blockaddr 3" and ?v = "with_block (blockaddr 3) 0 4 ex_vol"
  let ?u = "put32 (blockaddr 4) 0x0A216948 ?v"
  have h: "has_slot ex_vol ?f 0" by (simp add: has_slot_def)
  have i4: "isfree ex_vol 4" by (simp add: isfree_ex)
  note w = with_block [OF vol_ok_ex file_ok_ex h i4]
  have al: "blockaddr 4 mod 4 = 0" using blockaddr_aligned [of 0 4] by simp
  have b4: "in_map (blockaddr 4)" "blockno (blockaddr 4) = 4" using blockaddr_offset [of 4 0] by simp_all
  have b3: "blockno ?f = 3" using blockaddr_offset [of 3 0] by simp
  have rv: "resv ?v = 3" using w(2) nblk_ex by (simp add: resv_def)
  have vs: "vol_same ?v ?u" by (rule vol_same_put32 [OF w(1) al]) (use b4 rv in \<open>simp add: safe_def\<close>)
  note sm = vol_sameD [OF vs]
  note at = file_okD(1) [OF w(8)]
  have same: "get32 ?u y = get32 ?v y" if "y mod 4 = 0" "blockno y \<noteq> 4" for y
    by (rule get32_put32_other [OF al that(1)]) (use that b4 in auto)
  have ind0: "get32 ?v (f_indirect ?f) = 0" using w(4) ex_indirect by simp
  have ind: "get32 ?u (f_indirect ?f) = get32 ?v (f_indirect ?f)"
    by (rule same [OF field_aligned(1) [OF at]]) (use file_field(2) [OF at, of 176] b3 in \<open>simp add: f_indirect_def\<close>)
  have sl: "get32 ?u (slot ?v ?f k) = get32 ?v (slot ?v ?f k)" if hk: "has_slot ?v ?f k" for k
  proof (rule same [OF slot_place(1) [OF w(1,8) hk]])
    have "k < NDIRECT" using hk ind0 by (simp add: has_slot_def)
    then show "blockno (slot ?v ?f k) \<noteq> 4" using slot_place(5) [OF w(1,8) hk] b3 by simp
  qed
  note fp = fptr_cong [OF ind sl]
  have fu: "file_ok ?u ?f" by (rule file_ok_cong [OF w(8) ind fp(3)]) (use datab_same [OF vs] in simp_all)
  have vu: "vol_ok ?u" using sm(4) w(1) by simp
  note sz = set_size_file [OF vu fu, of 4, folded ex_text_def] and sf = size_field [OF vu fu]
  note st = vol_sameD [OF vol_same_put32 [OF vu sf(1,2), of 4], folded ex_text_def]
  show z: "get32 ex_text (f_size ?f) = 4" by (simp add: ex_text_def)
  show "ex_text (blockaddr 4 + p) = [0x48, 0x69, 0x21, 0x0A] ! unat p" if p: "unat p < 4"
  proof -
    have l: "unat p < 4096" using p by simp
    have "PGNUM (blockaddr 4 + p) \<noteq> PGNUM (f_size ?f)"
      using blockaddr_offset(1,2) [of 4 p] l file_field(1,2) [OF at, of 128] b3
      by (subst same_page_block) (simp_all add: f_size_def)
    then have "ex_text (blockaddr 4 + p) = ?u (blockaddr 4 + p)"
      unfolding ex_text_def using put32_changed [OF sf(1)] by blast
    moreover have "p = 0 \<or> p = 1 \<or> p = 2 \<or> p = 3" using p by (simp add: word_unat_eq_iff) linarith
    ultimately show ?thesis by (auto simp: put32_def put4_def)
  qed
  show "fptr ex_text ?f 0 = 4" using sz(3) fp(3) w(6) by simp
  have "ex_text x = 0" if x: "\<not> in_map x" for x
  proof -
    have "\<not> in_map (f_size ?f) \<Longrightarrow> False" using file_field(1) [OF at, of 128] by (simp add: f_size_def)
    then have "ex_text x = ?v x"
      using put32_changed [OF sf(1), of 4 ?u x] put32_changed [OF al, of "0x0A216948" ?v x] same_page_in_map [of x] x b4(1)
      unfolding ex_text_def by metis
    also have "\<dots> = ex_vol x" by (rule w(9)) (use x in \<open>auto simp: safe_def\<close>)
    finally show ?thesis using x ex_base_vol by (simp add: ex_base_def)
  qed
  then show "ex_base ex_text" using st sm vu rv sz(1) z by (simp add: ex_base_def)
qed

theorem cat_prints_witness:
  "runs (cat ex_devs 0x900000 0 (ex_client O_RDONLY ex_text)) (\<lambda>c'. cons_out c' = [0x48, 0x69, 0x21, 0x0A])"
proof -
  let ?c = "ex_client O_RDONLY ex_text" and ?f = "blockaddr 3"
  note b = ex_text(1)
  have v: "vol_ok ex_text" "file_ok ex_text ?f" using b by (simp_all add: ex_base_def)
  note os = outside_same [where v' = "ex_fd_view O_RDONLY ex_text", OF v ex_fd_same]
  have lt: "unat p < 4" if "p < 4" for p :: u32 using that by (simp add: word_less_nat_alt)
  have blk: "p div BLKSIZE = 0" "p mod BLKSIZE = p" if "p < 4" for p :: u32
    using lt [OF that] by (simp_all add: word_unat_eq_iff unat_div unat_mod)
  have fb: "fbyte (ex_fd_view O_RDONLY ex_text) ?f p = [0x48, 0x69, 0x21, 0x0A] ! unat p" if "p < 4" for p
    using os(7) [of p] ex_text(3,4) lt [OF that] blk [OF that] by (simp add: fbyte_def)
  have con: "cons_fd ?c 1"
    using get32_put32_other [of 8 0 2 "put32 0 0x63 (\<lambda>_. 0)"]
    by (simp add: cons_fd_def own_def ex_client_pages index2fd_def PGNUM_def cl_ld32_def cl_at_def) (simp add: ex_client_def)
  have "runs (cat (devtab 0 ((devfile 0)\<lparr>dev_id := 0x73\<rparr>) ((devfile 0)\<lparr>dev_id := 0x70\<rparr>) 0) 0x900000 0 ?c)
     (\<lambda>c'. cons_out c' = cons_out ?c @ map (\<lambda>p. fbyte (view (srv ?c)) ?f (of_nat p)) [0..<unat (4 :: u32)])"
  proof (rule cat_prints [OF ex_client_ok [OF b] ex_client_fd [OF b, of O_RDONLY, simplified] con _ _ ex_client_pos [OF b]])
    show "\<forall>p < 4. fptr (view (srv ?c)) ?f (p div BLKSIZE) \<noteq> 0 \<and> fbyte (view (srv ?c)) ?f p \<noteq> 0"
    proof (intro allI impI)
      fix p :: u32 assume p: "p < 4"
      have "unat p = 0 \<or> unat p = 1 \<or> unat p = 2 \<or> unat p = 3" using lt [OF p] by linarith
      then show "fptr (view (srv ?c)) ?f (p div BLKSIZE) \<noteq> 0 \<and> fbyte (view (srv ?c)) ?f p \<noteq> 0"
        using os(5) [of 0] ex_text(3) fb [OF p] blk [OF p] by (auto simp: ex_client_view)
    qed
    show "\<forall>j < 4. own ?c (0x900000 + j) \<and> PGNUM (0x900000 + j) \<noteq> PGNUM (fsipcbuf ?c) \<and> PGNUM (0x900000 + j) \<noteq> PGNUM (index2fd 1)"
      using ex_client_own lt by fastforce
  qed (use os(4) ex_text(2) in \<open>simp_all add: ex_client_view ex_client_pages index2fd_def PGNUM_def\<close>)
  moreover have four: "[0..<4] = [0, 1, 2, 3 :: nat]" by (simp add: upt_rec)
  have "map (\<lambda>p. fbyte (view (srv ?c)) ?f (of_nat p)) [0..<unat (4 :: u32)] = [0x48, 0x69, 0x21, 0x0A]"
    using fb [of 0] fb [of 1] fb [of 2] fb [of 3] by (simp add: ex_client_view four)
  ultimately show ?thesis by (simp add: ex_client_pages ex_devs_def)
qed

section \<open>Duplicating a descriptor\<close>

lemma dup_maps:
  assumes "client_ok c" "file_fd md c old i f" "unat new < MAXFD" "\<not> page_present (index2fd new) c"
    "\<not> no_table c (PDX (index2fd new))" "\<not> page_present (index2data old) c"
  obtains c' where "dup devs old new c = Some (new, c')"
    "c' = c\<lparr>srv := (srv c)\<lparr>page_refs := (page_refs (srv c))(PGNUM (fd_page i) := page_refs (srv c) (PGNUM (fd_page i)) + 1)\<rparr>,
       c_pages := (c_pages c)(PGNUM (index2fd new) \<mapsto> Server (PGNUM (fd_page i)))\<rparr>"
proof -
  note fd = file_fdD [OF assms(2)]
  let ?pg = "Server (PGNUM (fd_page i))" and ?refs = "page_refs (srv c)"
  let ?c = "c\<lparr>srv := (srv c)\<lparr>page_refs := ?refs(PGNUM (fd_page i) := ?refs (PGNUM (fd_page i)) + 1)\<rparr>,
       c_pages := (c_pages c)(PGNUM (index2fd new) \<mapsto> ?pg)\<rparr>"
  have none: "c_pages c (PGNUM (index2fd new)) = None" using assms(4) by (simp add: page_present_def)
  have "close devs new c = Some (code (Inl E_INVAL), c)" using assms(4) by (simp add: close_def fd_lookup_def)
  moreover have "fd2num (index2fd old) = old"
  proof -
    have "unat (index2fd old - FDTABLE) = unat old * 4096"
      using fd(2) by (simp add: index2fd_def unat_word_ariths)
    then show ?thesis by (simp add: fd2num_def word_unat_eq_iff unat_div)
  qed
  then have "\<not> page_present (fd2data (index2fd old)) c" using assms(6) by (simp add: fd2data_def)
  moreover have "unat (index2fd new) = 0xD0000000 + unat new * 4096"
    unfolding index2fd_def by (subst unat_add_no_wrap) (use assms(3) in \<open>simp_all add: unat_word_ariths\<close>)
  then have "\<not> 0xEEC00000 \<le> index2fd new" "index2fd new mod PGSIZE = 0"
    using assms(3) by (simp_all add: word_le_nat_alt word_unat_eq_iff unat_mod)
  then have "dup_page (index2fd old) (index2fd new) c = (Inr (), ?c)"
    using fd(3) none assms(5) by (simp add: dup_page_def cl_map_def cl_unmap_def add_ref_def nat_add_distrib)
  ultimately have "dup devs old new c = Some (new, ?c)"
    by (simp add: dup_def fd_lookup_file [OF assms(2)] Let_def)
  then show thesis using that by blast
qed

text \<open>
  C24: a duplicate shares its position.  \<open>dup\<close> onto a free descriptor makes it open on the same entry of the server's table, whose
  page has one more reference, and leaves the old descriptor as it was; a seek through the new one moves the old one too.
\<close>

theorem dup_shares:
  assumes "client_ok c" "file_fd md c old i f" "unat new < MAXFD" "\<not> page_present (index2fd new) c"
    "\<not> no_table c (PDX (index2fd new))" "\<not> page_present (index2data old) c"
  shows "\<exists>c'. dup devs old new c = Some (new, c') \<and> client_ok c' \<and> file_fd md c' old i f \<and> file_fd md c' new i f \<and>
    page_refs (srv c') (PGNUM (fd_page i)) = page_refs (srv c) (PGNUM (fd_page i)) + 1 \<and>
    (\<forall>off. \<exists>c2. seek new off c' = Some (0, c2) \<and> cl_ld32 (fd_offset (index2fd old)) c2 = Some off)"
proof -
  obtain c' where c': "dup devs old new c = Some (new, c')"
    "c' = c\<lparr>srv := (srv c)\<lparr>page_refs := (page_refs (srv c))(PGNUM (fd_page i) := page_refs (srv c) (PGNUM (fd_page i)) + 1)\<rparr>,
       c_pages := (c_pages c)(PGNUM (index2fd new) \<mapsto> Server (PGNUM (fd_page i)))\<rparr>"
    using dup_maps [OF assms] by blast
  note fd = file_fdD [OF assms(2)]
  have none: "c_pages c (PGNUM (index2fd new)) = None" using assms(4) by (simp add: page_present_def)
  have v: "view (srv c') = view (srv c)" by (simp add: c'(2) view_def disk_byte_def cong: if_cong)
  have "fs_ok (srv c)" using assms(1) by (simp add: client_ok_def)
  then have ok: "fs_ok (srv c')" by (rule fs_ok_outside) (simp_all add: v, simp_all add: c'(2))
  have "own c' a = own c a" for a using none by (auto simp: own_def c'(2))
  moreover have "frames_inj c'" using assms(1) by (auto simp: client_ok_def frames_inj_def c'(2) split: if_splits)
  ultimately have cok: "client_ok c'" using assms(1) ok by (simp add: client_ok_def) (simp add: c'(2))
  have ne: "PGNUM (index2fd old) \<noteq> PGNUM (index2fd new)" using none fd(3) by auto
  have sv: "served (srv c') i f" using fd(4) by (auto simp: served_def pageref_def c'(2) split: if_splits)
  have "fd_field c' i x = fd_field c i x" for x by (simp add: fd_field_def v)
  then have old: "file_fd md c' old i f" and new: "file_fd md c' new i f"
    using assms(2,3) sv ne by (simp_all add: file_fd_def v) (simp_all add: c'(2))
  have "\<exists>c2. seek new off c' = Some (0, c2) \<and> cl_ld32 (fd_offset (index2fd old)) c2 = Some off" for off
  proof -
    obtain c2 where c2: "seek new off c' = Some (0, c2)" "keeps c' c2" "file_fd md c2 new i f" "fd_field c2 i 4 = off"
      using seek_rule [OF cok new, of off] by blast
    have "c_pages c2 (PGNUM (index2fd old)) = Some (Server (PGNUM (fd_page i)))"
      using keeps_pages(1) [OF c2(2)] old by (simp add: file_fd_def)
    then have "cl_ld32 (fd_offset (index2fd old)) c2 = Some off"
      using cl_ld32_fd [OF fd(2,1), of c2 4] c2(4) by (simp add: fd_offset_def)
    with c2(1) show ?thesis by blast
  qed
  moreover have "page_refs (srv c') (PGNUM (fd_page i)) = page_refs (srv c) (PGNUM (fd_page i)) + 1" by (simp add: c'(2))
  ultimately show ?thesis using c'(1) cok old new by blast
qed

theorem dup_shares_witness:
  "\<exists>c'. dup ex_devs 0 2 (ex_client O_RDWR ex_vol) = Some (2, c') \<and> file_fd O_RDWR c' 2 0 (blockaddr 3) \<and>
    (\<forall>off. \<exists>c2. seek 2 off c' = Some (0, c2) \<and> cl_ld32 (fd_offset (index2fd 0)) c2 = Some off)"
  using dup_shares [OF ex_client_ok [OF ex_base_vol, of O_RDWR] ex_client_fd [OF ex_base_vol, of O_RDWR, simplified], of 2 ex_devs]
  by (auto simp: page_present_def ex_client_pages index2fd_def index2data_def PGNUM_def) (auto simp: ex_client_def)

end
