(* ===== verification/FsFormat.thy ===== *)
theory FsFormat
  imports FsProps
begin

text \<open>
  The builder of disk images (\<open>fs/fsformat.c\<close>), which runs on the host.  The host's memory is one map from addresses to
  bytes; the image is mapped where the file server has its disk map, so that \<open>blockno\<close> is the program's \<open>blockof\<close> and the
  finished image is what the server sees.  A file is its name and its contents.  \<open>None\<close> is a panic or the usage message.
\<close>

section \<open>The program\<close>

record host =
  hm :: mem
  diskpos :: u32
  nblocks :: u32
  hsuper :: u32
  hbitmap :: u32

text \<open>\<open>struct Dir\<close>: the file of the directory, its entries, and their number.\<close>

record dir_buf =
  d_f :: u32
  d_ents :: u32
  d_n :: nat

text \<open>The macro \<open>ROUNDUP\<close> on unsigned numbers, and on an \<open>int\<close>, whose remainder has the sign of the dividend.\<close>

definition roundup :: "u32 \<Rightarrow> u32" where
  "roundup n = n - 1 + BLKSIZE - (n - 1) mod BLKSIZE"

definition roundup_int :: "int \<Rightarrow> int" where
  "roundup_int n = n - 1 + 4096 - (n - 1) smod 4096"

definition host_put :: "u32 \<Rightarrow> u8 list \<Rightarrow> mem \<Rightarrow> mem" where
  "host_put a bs m = (\<lambda>x. if unat (x - a) < length bs then bs ! unat (x - a) else m x)"

definition upd_mem :: "(mem \<Rightarrow> mem) \<Rightarrow> host \<Rightarrow> host" where
  "upd_mem g s = s\<lparr>hm := g (hm s)\<rparr>"

definition alloc :: "u32 \<Rightarrow> host \<Rightarrow> (u32 \<times> host) option" where
  "alloc bytes s =
     (let start = diskpos s; s = s\<lparr>diskpos := diskpos s + roundup bytes\<rparr>
      in if nblocks s \<le> blockno (diskpos s) then None else Some (start, s))"

definition opendisk :: "u32 \<Rightarrow> mem \<Rightarrow> host option" where
  "opendisk n m = (
     let m = (\<lambda>x. if x - DISKMAP < n * BLKSIZE then 0 else m x);
         s = \<lparr>hm = m, diskpos = DISKMAP, nblocks = n, hsuper = 0, hbitmap = 0\<rparr> in do {
       (p, s) \<leftarrow> alloc BLKSIZE s;
       (p, s) \<leftarrow> alloc BLKSIZE s;
       let s = s\<lparr>hsuper := p\<rparr>;
       let s = upd_mem (put32 p FS_MAGIC) s;
       let s = upd_mem (put32 (p + 4) n) s;
       let s = upd_mem (put32 (f_type (p + 8)) FTYPE_DIR) s;
       let s = upd_mem (host_put (p + 8) [0x2F, 0]) s;
       let k = (n + BLKBITSIZE - 1) div BLKBITSIZE;
       (p, s) \<leftarrow> alloc (k * BLKSIZE) s;
       let s = s\<lparr>hbitmap := p\<rparr>;
       Some (upd_mem (\<lambda>m. memset m p 0xFF (k * BLKSIZE)) s) })"

definition clear_bit :: "u32 \<Rightarrow> u32 \<Rightarrow> mem \<Rightarrow> mem" where
  "clear_bit b i m = put32 (b + 4 * (i div 32)) (get32 m (b + 4 * (i div 32)) AND NOT (push_bit (unat (i mod 32)) 1)) m"

definition finishdisk :: "host \<Rightarrow> host" where
  "finishdisk s = upd_mem (fold (\<lambda>i. clear_bit (hbitmap s) (of_nat i)) [0..<unat (blockno (diskpos s))]) s"

text \<open>\<open>n\<close> consecutive numbers from \<open>w\<close> on, stored as words from \<open>a\<close> on.\<close>

definition store_run :: "u32 \<Rightarrow> u32 \<Rightarrow> nat \<Rightarrow> mem \<Rightarrow> mem" where
  "store_run a w n = fold (\<lambda>i. put32 (a + 4 * of_nat i) (w + of_nat i)) [0..<n]"

definition finishfile :: "u32 \<Rightarrow> u32 \<Rightarrow> u32 \<Rightarrow> host \<Rightarrow> host option" where
  "finishfile f start len s = (
     let s = upd_mem (put32 (f_size f) len) s;
         n = unat (roundup len div BLKSIZE);
         s = upd_mem (store_run (f_direct f 0) start (min n 10)) s in
       if n < 10 then Some s
       else do {
         (ind, s) \<leftarrow> alloc BLKSIZE s;
         let s = upd_mem (put32 (f_indirect f) (blockno ind)) s;
         Some (upd_mem (store_run ind (start + 10) (n - 10)) s) })"

definition startdir :: "u32 \<Rightarrow> u32 \<Rightarrow> dir_buf" where
  "startdir f heap = \<lparr>d_f = f, d_ents = heap, d_n = 0\<rparr>"

definition diradd :: "dir_buf \<Rightarrow> u32 \<Rightarrow> u8 list \<Rightarrow> host \<Rightarrow> (u32 \<times> dir_buf \<times> host) option" where
  "diradd d type name s = (
     let out = d_ents d + 256 * of_nat (d_n d); d = d\<lparr>d_n := d_n d + 1\<rparr> in
       if 128 < d_n d then None
       else Some (out, d, upd_mem (put32 (f_type out) type) (upd_mem (host_put out (name @ [0])) s)))"

definition finishdir :: "dir_buf \<Rightarrow> host \<Rightarrow> host option" where
  "finishdir d s = (
     let sz = int (d_n d) * 256 in do {
       (start, s) \<leftarrow> alloc (word_of_int sz) s;
       let s = upd_mem (blit start (d_ents d) (word_of_int sz)) s;
       finishfile (d_f d) (blockno start) (word_of_int (roundup_int sz)) s })"

definition basename :: "u8 list \<Rightarrow> u8 list" where
  "basename name = rev (takeWhile (\<lambda>c. c \<noteq> 0x2F) (rev name))"

definition writefile :: "dir_buf \<Rightarrow> u8 list \<times> u8 list \<Rightarrow> host \<Rightarrow> (dir_buf \<times> host) option" where
  "writefile d file s = (case file of (name, data) \<Rightarrow>
     if 4235264 \<le> length data then None
     else do {
       (f, d, s) \<leftarrow> diradd d 0 (basename name) s;
       (start, s) \<leftarrow> alloc (of_nat (length data)) s;
       let s = upd_mem (host_put start data) s;
       s \<leftarrow> finishfile f (blockno start) (of_nat (length data)) s;
       Some (d, s) })"

fun writefiles :: "dir_buf \<Rightarrow> (u8 list \<times> u8 list) list \<Rightarrow> host \<Rightarrow> (dir_buf \<times> host) option" where
  "writefiles d [] s = Some (d, s)"
| "writefiles d (x # xs) s = do { (d, s) \<leftarrow> writefile d x s; writefiles d xs s }"

text \<open>\<open>main\<close>: \<open>heap\<close> is where \<open>malloc\<close> puts the entries, \<open>m\<close> the memory before.\<close>

definition fsformat :: "u32 \<Rightarrow> (u8 list \<times> u8 list) list \<Rightarrow> u32 \<Rightarrow> mem \<Rightarrow> host option" where
  "fsformat n files heap m =
     (if n < 2 \<or> 1024 < n then None
      else do {
        s \<leftarrow> opendisk n m;
        (d, s) \<leftarrow> writefiles (startdir (hsuper s + 8) heap) files s;
        s \<leftarrow> finishdir d s;
        Some (finishdisk s) })"

end
