(* ===== verification/MemNat.thy ===== *)
theory MemNat
  imports FsView
begin

text \<open>Memory read at natural numbers, so that regions are intervals and need no reasoning about wrap-around.\<close>

section \<open>Memory at natural numbers\<close>

definition byte_at :: "mem \<Rightarrow> nat \<Rightarrow> u8" where
  "byte_at v x = v (of_nat x)"

definition word_at :: "mem \<Rightarrow> nat \<Rightarrow> u32" where
  "word_at v x = get32 v (of_nat x)"

lemma of_nat_eq32: "x < 2 ^ 32 \<Longrightarrow> y < 2 ^ 32 \<Longrightarrow> (of_nat x :: u32) = of_nat y \<longleftrightarrow> x = y"
  by (metis unat_of_nat32)

lemma unat_diff32:
  assumes "x < 2 ^ 32" "a < 2 ^ 32"
  shows "unat (of_nat x - of_nat a :: u32) = (if a \<le> x then x - a else 2 ^ 32 + x - a)"
proof -
  have u: "unat (of_nat x :: u32) = x" "unat (of_nat a :: u32) = a"
    by (rule unat_of_nat32 [OF assms(1)], rule unat_of_nat32 [OF assms(2)])
  show ?thesis unfolding unat_sub_if_size u word_size by simp (simp add: add.commute)
qed

lemma word_at_cong: "(\<And>i. i < 4 \<Longrightarrow> byte_at v' (b' + i) = byte_at v (b + i)) \<Longrightarrow> word_at v' b' = word_at v b"
proof -
  assume e: "\<And>i. i < 4 \<Longrightarrow> byte_at v' (b' + i) = byte_at v (b + i)"
  show ?thesis using e [of 0] e [of 1] e [of 2] e [of 3] by (simp add: byte_at_def word_at_def get32_def add.commute)
qed

lemma byte_at_put32:
  assumes "a + 4 \<le> 2 ^ 32" "x < 2 ^ 32" "x < a \<or> a + 4 \<le> x"
  shows "byte_at (put32 (of_nat a) w v) x = byte_at v x"
proof -
  have "(of_nat x :: u32) \<noteq> of_nat (a + i)" if "i < 4" for i
    using of_nat_eq32 [of x "a + i"] assms that by auto
  from this [of 0] this [of 1] this [of 2] this [of 3] show ?thesis
    by (simp add: byte_at_def put32_def put4_def add.commute)
qed

lemma word_at_put32:
  assumes "a + 4 \<le> 2 ^ 32" "b + 4 \<le> 2 ^ 32" "b + 4 \<le> a \<or> a + 4 \<le> b"
  shows "word_at (put32 (of_nat a) w v) b = word_at v b"
  by (rule word_at_cong, rule byte_at_put32) (use assms in auto)

lemma word_at_put32_same [simp]: "word_at (put32 (of_nat a) w v) a = w"
  by (simp add: word_at_def)

end
