(* ===== verification/FsImage.thy ===== *)
theory FsImage
  imports FsFormat MemNat UstringProps
begin

text \<open>
  The image that \<open>fsformat\<close> builds: what every step stores and what it leaves alone, and that the finished image satisfies what
  the file server assumes of a disk.
\<close>

section \<open>Stores\<close>

text \<open>The address of a block of the disk.\<close>

definition dsk :: "nat \<Rightarrow> nat" where
  "dsk b = 0x10000000 + 4096 * b"

lemma byte_at_host_put:
  assumes "a + length bs \<le> 2 ^ 32" "x < 2 ^ 32" "a < 2 ^ 32"
  shows "byte_at (host_put (of_nat a) bs v) x = (if a \<le> x \<and> x < a + length bs then bs ! (x - a) else byte_at v x)"
  using assms by (auto simp: byte_at_def host_put_def unat_diff32)

lemma byte_at_blit:
  assumes "d + n \<le> 2 ^ 32" "x < 2 ^ 32" "d < 2 ^ 32" "n < 2 ^ 32"
  shows "byte_at (blit (of_nat d) (of_nat a) (of_nat n) v) x = (if d \<le> x \<and> x < d + n then byte_at v (a + (x - d)) else byte_at v x)"
proof -
  have n: "unat (of_nat n :: u32) = n" using assms(4) by (simp add: unat_of_nat32)
  have "(of_nat (a + (x - d)) :: u32) = of_nat a + (of_nat x - of_nat d)" if "d \<le> x"
    using that by (simp add: of_nat_diff)
  then show ?thesis using assms n by (auto simp: byte_at_def blit_def word_less_nat_alt unat_diff32 add_diff_eq simp del: of_nat_add)
qed

section \<open>Runs of words\<close>

lemma store_run_Suc: "store_run a w (Suc n) m = put32 (a + 4 * of_nat n) (w + of_nat n) (store_run a w n m)"
  by (simp add: store_run_def)

lemma store_run_0 [simp]: "store_run a w 0 m = m"
  by (simp add: store_run_def)

lemma store_run_next: "store_run (of_nat a) w (Suc n) m = put32 (of_nat (a + 4 * n)) (w + of_nat n) (store_run (of_nat a) w n m)"
  by (simp add: store_run_Suc)

lemma byte_at_store_run:
  "a + 4 * n \<le> 2 ^ 32 \<Longrightarrow> x < 2 ^ 32 \<Longrightarrow> x < a \<or> a + 4 * n \<le> x \<Longrightarrow> byte_at (store_run (of_nat a) w n v) x = byte_at v x"
proof (induction n)
  case (Suc n)
  have "byte_at (store_run (of_nat a) w (Suc n) v) x = byte_at (store_run (of_nat a) w n v) x"
    unfolding store_run_next by (rule byte_at_put32) (use Suc.prems in auto)
  also have "\<dots> = byte_at v x" by (rule Suc.IH) (use Suc.prems in auto)
  finally show ?case .
qed simp

lemma word_at_store_run:
  "a + 4 * n \<le> 2 ^ 32 \<Longrightarrow> k < n \<Longrightarrow> word_at (store_run (of_nat a) w n v) (a + 4 * k) = w + of_nat k"
proof (induction n)
  case (Suc n)
  show ?case
  proof (cases "k = n")
    case True
    then show ?thesis by (simp only: store_run_next word_at_put32_same)
  next
    case False
    have "word_at (store_run (of_nat a) w (Suc n) v) (a + 4 * k) = word_at (store_run (of_nat a) w n v) (a + 4 * k)"
      unfolding store_run_next by (rule word_at_put32) (use Suc.prems False in auto)
    also have "\<dots> = w + of_nat k" by (rule Suc.IH) (use Suc.prems False in auto)
    finally show ?thesis .
  qed
qed simp

lemma word_at_store_run_other:
  "a + 4 * n \<le> 2 ^ 32 \<Longrightarrow> b + 4 \<le> 2 ^ 32 \<Longrightarrow> b + 4 \<le> a \<or> a + 4 * n \<le> b \<Longrightarrow>
     word_at (store_run (of_nat a) w n v) b = word_at v b"
  by (rule word_at_cong, rule byte_at_store_run) auto

section \<open>Sizes in blocks\<close>

definition blks :: "nat \<Rightarrow> nat" where
  "blks len = (len + 4095) div 4096"

text \<open>What a file occupies: its blocks, and the indirect block that follows them from ten blocks on.\<close>

definition extent :: "nat \<Rightarrow> nat" where
  "extent len = (if blks len < 10 then blks len else blks len + 1)"

lemma roundup_of_nat:
  assumes "len < 2 ^ 31"
  shows "roundup (of_nat len) = of_nat (4096 * blks len)"
proof (cases "len = 0")
  case True
  then show ?thesis by (simp add: roundup_def blks_def)
next
  case False
  define k where "k = len - 1"
  have k: "(of_nat len :: u32) - 1 = of_nat k" using False by (simp add: k_def)
  have kl: "k < 2 ^ 31" using assms by (simp add: k_def)
  have m: "(of_nat k :: u32) mod 0x1000 = of_nat (k mod 4096)"
    using kl by (simp add: word_unat_eq_iff unat_mod unat_of_nat32)
  have b: "4096 * blks len = 4096 + k - k mod 4096"
  proof -
    have "len + 4095 = 4096 + k" using False by (simp add: k_def)
    then have "blks len = 1 + k div 4096" by (simp add: blks_def)
    moreover have "k = 4096 * (k div 4096) + k mod 4096" by simp
    ultimately show ?thesis by linarith
  qed
  have "k mod 4096 \<le> 4096 + k" by (meson le_add2 le_trans mod_less_eq_dividend)
  then have "(of_nat (4096 + k - k mod 4096) :: u32) = of_nat k + 0x1000 - of_nat (k mod 4096)"
    by (simp only: of_nat_diff) (simp add: add.commute)
  then show ?thesis unfolding roundup_def k m b by simp
qed

lemma blockno_dsk: "b < 0xC0000 \<Longrightarrow> blockno (of_nat (dsk b)) = of_nat b"
proof -
  assume b: "b < 0xC0000"
  have "(of_nat (dsk b) :: u32) - 0x10000000 = of_nat (4096 * b)" by (simp add: dsk_def)
  moreover have "unat (of_nat (4096 * b) :: u32) = 4096 * b" "unat (of_nat b :: u32) = b"
    by (rule unat_of_nat32, use b in simp)+
  ultimately show ?thesis by (simp add: blockno_def word_unat_eq_iff unat_div)
qed

lemma alloc_ok:
  assumes "alloc (of_nat len) s = Some (p, s')" "diskpos s = of_nat (dsk q)" "nblocks s = of_nat n" "q \<le> n" "n \<le> 1024"
    "len \<le> 4235264"
  shows "p = of_nat (dsk q)" "s' = s\<lparr>diskpos := of_nat (dsk (q + blks len))\<rparr>" "q + blks len < n"
proof -
  have r: "(of_nat (dsk q) + of_nat (4096 * blks len) :: u32) = of_nat (dsk (q + blks len))"
    by (simp add: dsk_def algebra_simps)
  have bl: "blks len \<le> 1034" using assms(6) unfolding blks_def by linarith
  have e: "diskpos s + roundup (of_nat len) = of_nat (dsk (q + blks len))"
    using assms(2,6) r by (simp add: roundup_of_nat)
  have lt: "q + blks len < 0xC0000" using bl assms(4,5) by simp
  have u: "unat (of_nat (q + blks len) :: u32) = q + blks len" "unat (of_nat n :: u32) = n"
    by (rule unat_of_nat32, use lt assms(5) in simp)+
  have "p = diskpos s \<and> s' = s\<lparr>diskpos := of_nat (dsk (q + blks len))\<rparr> \<and> \<not> nblocks s \<le> of_nat (q + blks len)"
    using assms(1) unfolding alloc_def Let_def e by (simp add: blockno_dsk [OF lt] split: if_splits)
  then show "p = of_nat (dsk q)" "s' = s\<lparr>diskpos := of_nat (dsk (q + blks len))\<rparr>" "q + blks len < n"
    using assms(2,3) u unfolding word_le_nat_alt by auto
qed

section \<open>One file\<close>

text \<open>The memory after \<open>finishfile\<close> on the entry at \<open>e\<close>.\<close>

definition finished :: "nat \<Rightarrow> nat \<Rightarrow> nat \<Rightarrow> mem \<Rightarrow> mem" where
  "finished e st len v = (
     let n = blks len;
         v = store_run (of_nat (e + 136)) (of_nat st) (min n 10) (put32 (of_nat (e + 128)) (of_nat len) v)
     in if n < 10 then v
        else store_run (of_nat (dsk (st + n))) (of_nat (st + 10)) (n - 10) (put32 (of_nat (e + 176)) (of_nat (st + n)) v))"

lemma finishfile_ok:
  assumes f: "finishfile (of_nat e) (of_nat st) (of_nat len) s = Some s'"
    and s: "diskpos s = of_nat (dsk (st + blks len))" "nblocks s = of_nat n" "st + blks len < n" "n \<le> 1024" "len \<le> 4235264"
  shows "s' = s\<lparr>hm := finished e st len (hm s), diskpos := of_nat (dsk (st + extent len))\<rparr>" "st + extent len < n"
proof -
  let ?n = "blks len"
  have bl: "?n \<le> 1034" using s(5) unfolding blks_def by linarith
  have b: "unat (roundup (of_nat len) div 0x1000 :: u32) = ?n"
    using s(5) bl by (simp add: roundup_of_nat unat_div unat_of_nat32 del: of_nat_mult)
  have e: "f_size (of_nat e) = of_nat (e + 128)" "f_direct (of_nat e) 0 = of_nat (e + 136)" "f_indirect (of_nat e) = of_nat (e + 176)"
    by (simp_all add: f_size_def f_direct_def f_indirect_def add.commute)
  have w: "(of_nat st + 10 :: u32) = of_nat (st + 10)" by simp
  have "s' = s\<lparr>hm := finished e st len (hm s), diskpos := of_nat (dsk (st + extent len))\<rparr> \<and> st + extent len < n"
  proof (cases "?n < 10")
    case True
    then show ?thesis
      using f s(1,3) unfolding finishfile_def Let_def b e by (cases s) (auto simp: upd_mem_def finished_def extent_def)
  next
    case False
    then obtain p s2 where a: "alloc (of_nat 4096) (upd_mem (store_run (of_nat (e + 136)) (of_nat st) (min ?n 10))
        (upd_mem (put32 (of_nat (e + 128)) (of_nat len)) s)) = Some (p, s2)"
      and s': "s' = upd_mem (store_run p (of_nat (st + 10)) (?n - 10)) (upd_mem (put32 (of_nat (e + 176)) (blockno p)) s2)"
      using f unfolding finishfile_def Let_def b e w by (auto split: bind_splits)
    have one: "blks 4096 = 1" by (simp add: blks_def)
    note al = alloc_ok [OF a, of "st + ?n" n, unfolded one]
    have p: "p = of_nat (dsk (st + ?n))" by (rule al(1)) (use s in \<open>simp_all add: upd_mem_def\<close>)
    have s2: "s2 = (upd_mem (store_run (of_nat (e + 136)) (of_nat st) (min ?n 10))
        (upd_mem (put32 (of_nat (e + 128)) (of_nat len)) s))\<lparr>diskpos := of_nat (dsk (st + ?n + 1))\<rparr>"
      by (rule al(2)) (use s in \<open>simp_all add: upd_mem_def\<close>)
    have lt: "st + ?n + 1 < n" by (rule al(3)) (use s in \<open>simp_all add: upd_mem_def\<close>)
    have bp: "blockno p = of_nat (st + ?n)" unfolding p by (rule blockno_dsk) (use s in simp)
    have ex: "st + extent len = st + ?n + 1" using False by (simp add: extent_def)
    show ?thesis
      unfolding ex s' bp unfolding s2 p using False lt by (cases s) (simp add: upd_mem_def finished_def Let_def)
  qed
  then show "s' = s\<lparr>hm := finished e st len (hm s), diskpos := of_nat (dsk (st + extent len))\<rparr>" "st + extent len < n"
    by blast+
qed

lemma finished_other:
  assumes "e + 256 \<le> 2 ^ 32" "dsk (st + blks len) + 4096 \<le> 2 ^ 32" "len \<le> 4235264" "x < 2 ^ 32"
    "x < e + 128 \<or> e + 132 \<le> x" "x < e + 136 \<or> e + 180 \<le> x"
    "10 \<le> blks len \<Longrightarrow> x < dsk (st + blks len) \<or> dsk (st + blks len) + 4096 \<le> x"
  shows "byte_at (finished e st len v) x = byte_at v x"
proof -
  have bl: "blks len \<le> 1034" using assms(3) unfolding blks_def by linarith
  have 1: "byte_at (put32 (of_nat (e + 128)) (of_nat len) v) x = byte_at v x" for v
    by (rule byte_at_put32) (use assms in auto)
  have 2: "byte_at (store_run (of_nat (e + 136)) (of_nat st) k v) x = byte_at v x" if "k \<le> 10" for v k
    by (rule byte_at_store_run) (use assms that in auto)
  have 3: "byte_at (put32 (of_nat (e + 176)) (of_nat (st + blks len)) v) x = byte_at v x" for v
    by (rule byte_at_put32) (use assms in auto)
  have 4: "byte_at (store_run (of_nat (dsk (st + blks len))) (of_nat (st + 10)) (blks len - 10) v) x = byte_at v x" if "10 \<le> blks len" for v
    by (rule byte_at_store_run) (use assms(2,4) assms(7) [OF that] bl in auto)
  show ?thesis unfolding finished_def Let_def using 1 2 3 4 by (simp del: of_nat_add)
qed

text \<open>
  The entry at \<open>e\<close> describes the contents \<open>data\<close>, which lie from block \<open>st\<close> on, followed by the indirect block; with \<open>z\<close>,
  its unused block numbers are zero.
\<close>

definition laid :: "bool \<Rightarrow> mem \<Rightarrow> nat \<Rightarrow> nat \<Rightarrow> u8 list \<Rightarrow> bool" where
  "laid z v e st data \<longleftrightarrow> (let n = blks (length data) in
     word_at v (e + 128) = of_nat (length data) \<and>
     (\<forall>k < 10. k < n \<or> z \<longrightarrow> word_at v (e + 136 + 4 * k) = (if k < n then of_nat (st + k) else 0)) \<and>
     (10 \<le> n \<or> z \<longrightarrow> word_at v (e + 176) = (if n < 10 then 0 else of_nat (st + n))) \<and>
     (10 \<le> n \<longrightarrow> (\<forall>k < 1024. word_at v (dsk (st + n) + 4 * k) = (if k + 10 < n then of_nat (st + 10 + k) else 0))) \<and>
     (\<forall>i < length data. byte_at v (dsk st + i) = data ! i))"

lemma word_at_zero: "(\<And>i. i < 4 \<Longrightarrow> byte_at v (b + i) = 0) \<Longrightarrow> word_at v b = 0"
  using word_at_cong [of v b "\<lambda>_. 0" 0] by (simp add: byte_at_def word_at_def get32_def)

text \<open>The words that \<open>finishfile\<close> leaves behind.\<close>

lemma finished_words:
  assumes e: "e + 256 \<le> 2 ^ 32" "dsk (st + blks len) + 4096 \<le> 2 ^ 32" "len \<le> 4235264"
    and dis: "10 \<le> blks len \<Longrightarrow> e + 256 \<le> dsk (st + blks len) \<or> dsk (st + blks len) + 4096 \<le> e"
    and z: "\<And>i. z \<Longrightarrow> i < 44 \<Longrightarrow> byte_at v (e + 136 + i) = 0"
    and zi: "\<And>i. 10 \<le> blks len \<Longrightarrow> i < 4096 \<Longrightarrow> byte_at v (dsk (st + blks len) + i) = 0"
  defines "v' \<equiv> finished e st len v"
  shows "word_at v' (e + 128) = of_nat len"
    "k < 10 \<Longrightarrow> k < blks len \<or> z \<Longrightarrow> word_at v' (e + 136 + 4 * k) = (if k < blks len then of_nat (st + k) else 0)"
    "10 \<le> blks len \<or> z \<Longrightarrow> word_at v' (e + 176) = (if blks len < 10 then 0 else of_nat (st + blks len))"
    "10 \<le> blks len \<Longrightarrow> k < 1024 \<Longrightarrow> word_at v' (dsk (st + blks len) + 4 * k) = (if k + 10 < blks len then of_nat (st + 10 + k) else 0)"
proof -
  let ?n = "blks len"
  have bl: "?n \<le> 1034" using e(3) unfolding blks_def by linarith
  define v1 where "v1 = put32 (of_nat (e + 128)) (of_nat len) v"
  define v2 where "v2 = store_run (of_nat (e + 136)) (of_nat st) (min ?n 10) v1"
  define v3 where "v3 = (if ?n < 10 then v2 else put32 (of_nat (e + 176)) (of_nat (st + ?n)) v2)"
  have v': "v' = (if ?n < 10 then v3 else store_run (of_nat (dsk (st + ?n))) (of_nat (st + 10)) (?n - 10) v3)"
    unfolding v'_def finished_def Let_def v3_def v2_def v1_def by (simp del: of_nat_add)
  have last: "word_at v' b = word_at v3 b" if "b + 4 \<le> 2 ^ 32" "10 \<le> ?n \<Longrightarrow> b + 4 \<le> dsk (st + ?n) \<or> dsk (st + ?n) + 4 * (?n - 10) \<le> b" for b
    unfolding v' using word_at_store_run_other [of "dsk (st + ?n)" "?n - 10" b] that e(2) bl by (cases "?n < 10") auto
  have inner: "word_at v' b = word_at v3 b" if "e \<le> b" "b + 4 \<le> e + 256" for b
    by (rule last) (use that e(1) dis bl in auto)
  have ind: "word_at v3 b = word_at v2 b" if "b + 4 \<le> 2 ^ 32" "b + 4 \<le> e + 176 \<or> e + 180 \<le> b" for b
    unfolding v3_def using word_at_put32 [of "e + 176" b] that e(1) by auto
  have run: "word_at v2 b = word_at v1 b" if "b + 4 \<le> 2 ^ 32" "b + 4 \<le> e + 136 \<or> e + 136 + 4 * min ?n 10 \<le> b" for b
    unfolding v2_def by (rule word_at_store_run_other) (use that e(1) in auto)
  have one: "word_at v1 b = word_at v b" if "b + 4 \<le> 2 ^ 32" "b + 4 \<le> e + 128 \<or> e + 132 \<le> b" for b
    unfolding v1_def by (rule word_at_put32) (use that e(1) in auto)
  have zero: "word_at v (e + 136 + j) = 0" if "z" "j + 4 \<le> 44" for j
    by (rule word_at_zero) (use z [OF that(1), of "j + _"] that(2) in \<open>simp add: add.assoc\<close>)
  show "word_at v' (e + 128) = of_nat len"
    using inner [of "e + 128"] ind [of "e + 128"] run [of "e + 128"] e(1) unfolding v1_def by (simp del: of_nat_add)
  show "word_at v' (e + 136 + 4 * k) = (if k < ?n then of_nat (st + k) else 0)" if k: "k < 10" "k < ?n \<or> z"
  proof -
    have "word_at v' (e + 136 + 4 * k) = word_at v2 (e + 136 + 4 * k)"
      using inner [of "e + 136 + 4 * k"] ind [of "e + 136 + 4 * k"] k e(1) by simp
    also have "\<dots> = (if k < ?n then of_nat (st + k) else 0)"
    proof (cases "k < ?n")
      case True
      then show ?thesis unfolding v2_def using word_at_store_run [of "e + 136" "min ?n 10" k] k e(1) by simp
    next
      case False
      then show ?thesis using run [of "e + 136 + 4 * k"] one [of "e + 136 + 4 * k"] zero [of "4 * k"] k e(1) by auto
    qed
    finally show ?thesis .
  qed
  show "word_at v' (e + 176) = (if ?n < 10 then 0 else of_nat (st + ?n))" if z': "10 \<le> ?n \<or> z"
  proof (cases "?n < 10")
    case True
    then show ?thesis
      using inner [of "e + 176"] run [of "e + 176"] one [of "e + 176"] zero [of 40] e(1) z' unfolding v3_def
      by (simp add: add.commute)
  next
    case False
    then show ?thesis using inner [of "e + 176"] unfolding v3_def by (simp del: of_nat_add)
  qed
  show "word_at v' (dsk (st + ?n) + 4 * k) = (if k + 10 < ?n then of_nat (st + 10 + k) else 0)" if n: "10 \<le> ?n" and k: "k < 1024"
  proof (cases "k + 10 < ?n")
    case True
    then show ?thesis unfolding v' using word_at_store_run [of "dsk (st + ?n)" "?n - 10" k] e(2) bl n by (simp add: add.assoc)
  next
    case False
    have far: "b + 4 \<le> e \<or> e + 256 \<le> b" if "b = dsk (st + ?n) + 4 * k" for b using dis [OF n] k that by auto
    have "word_at v (dsk (st + ?n) + 4 * k) = 0"
      by (rule word_at_zero) (use zi [OF n, of "4 * k + _"] k in \<open>simp add: add.assoc\<close>)
    then show ?thesis
      using last [of "dsk (st + ?n) + 4 * k"] ind [of "dsk (st + ?n) + 4 * k"] run [of "dsk (st + ?n) + 4 * k"]
        one [of "dsk (st + ?n) + 4 * k"] far [OF refl] False k e(2) n by auto
  qed
qed

lemma finished_laid:
  assumes e: "e + 256 \<le> 2 ^ 32" "dsk (st + blks (length data)) + 4096 \<le> 2 ^ 32" "length data \<le> 4235264"
    and dis: "e + 256 \<le> dsk st \<or> dsk (st + extent (length data)) \<le> e"
    and z: "\<And>i. z \<Longrightarrow> i < 44 \<Longrightarrow> byte_at v (e + 136 + i) = 0"
    and zi: "\<And>i. 10 \<le> blks (length data) \<Longrightarrow> i < 4096 \<Longrightarrow> byte_at v (dsk (st + blks (length data)) + i) = 0"
    and d: "\<And>i. i < length data \<Longrightarrow> byte_at v (dsk st + i) = data ! i"
  shows "laid z (finished e st (length data) v) e st data"
proof -
  have dis': "e + 256 \<le> dsk (st + blks (length data)) \<or> dsk (st + blks (length data)) + 4096 \<le> e" if "10 \<le> blks (length data)"
    using dis that by (auto simp: extent_def dsk_def)
  have le: "length data \<le> 4096 * blks (length data)" unfolding blks_def by linarith
  have "byte_at (finished e st (length data) v) (dsk st + i) = byte_at v (dsk st + i)" if "i < length data" for i
    by (rule finished_other) (use e dis le that in \<open>auto simp: dsk_def extent_def split: if_splits\<close>)
  then show ?thesis
    unfolding laid_def Let_def using finished_words [OF e dis' z zi] d by simp
qed

text \<open>What a file consists of: its entry and its blocks.  A change elsewhere, or a move of the entry, keeps it.\<close>

lemma laid_move:
  assumes l: "laid z v e st data"
    and e: "\<And>i. i < 256 \<Longrightarrow> byte_at v' (e' + i) = byte_at v (e + i)"
    and b: "\<And>x. dsk st \<le> x \<Longrightarrow> x < dsk (st + extent (length data)) \<Longrightarrow> byte_at v' x = byte_at v x"
  shows "laid z v' e' st data"
proof -
  have f: "word_at v' (e' + j) = word_at v (e + j)" if "j + 4 \<le> 256" for j
    by (rule word_at_cong) (use e [of "j + _"] that in \<open>simp add: add.assoc\<close>)
  have le: "length data \<le> 4096 * blks (length data)" unfolding blks_def by linarith
  have i: "word_at v' (dsk (st + blks (length data)) + 4 * k) = word_at v (dsk (st + blks (length data)) + 4 * k)"
    if "10 \<le> blks (length data)" "k < 1024" for k
    by (rule word_at_cong, rule b) (use that in \<open>auto simp: dsk_def extent_def\<close>)
  have d: "byte_at v' (dsk st + i) = byte_at v (dsk st + i)" if "i < length data" for i
    by (rule b) (use that le in \<open>auto simp: dsk_def extent_def\<close>)
  have "word_at v' (e' + 136 + 4 * k) = word_at v (e + 136 + 4 * k)" if "k < 10" for k
    using f [of "136 + 4 * k"] that by (simp add: add.assoc)
  then show ?thesis using l f [of 128] f [of 176] i d unfolding laid_def Let_def by simp
qed

section \<open>Adding a file\<close>

text \<open>An entry with its name and its type, and the contents it describes.\<close>

definition built :: "bool \<Rightarrow> mem \<Rightarrow> nat \<Rightarrow> nat \<Rightarrow> u8 list \<times> u8 list \<Rightarrow> bool" where
  "built z v e st file \<longleftrightarrow> laid z v e st (snd file) \<and> word_at v (e + 132) = 0 \<and> length (basename (fst file)) < 128 \<and>
     (\<forall>i \<le> length (basename (fst file)). byte_at v (e + i) = (basename (fst file) @ [0]) ! i)"

lemma built_move:
  assumes "built z v e st file"
    and e: "\<And>i. i < 256 \<Longrightarrow> byte_at v' (e' + i) = byte_at v (e + i)"
    and "\<And>x. dsk st \<le> x \<Longrightarrow> x < dsk (st + extent (length (snd file))) \<Longrightarrow> byte_at v' x = byte_at v x"
  shows "built z v' e' st file"
proof -
  have "word_at v' (e' + 132) = word_at v (e + 132)"
    by (rule word_at_cong) (use e [of "132 + _"] in \<open>simp add: add.assoc\<close>)
  moreover have "laid z v' e' st (snd file)"
    by (rule laid_move [OF _ e assms(3)]) (use assms(1) in \<open>simp_all add: built_def\<close>)
  ultimately show ?thesis using assms(1) e by (auto simp: built_def)
qed

text \<open>The memory that \<open>writefile\<close> leaves behind.\<close>

definition written :: "nat \<Rightarrow> nat \<Rightarrow> u8 list \<times> u8 list \<Rightarrow> mem \<Rightarrow> mem" where
  "written e st file v = finished e st (length (snd file)) (host_put (of_nat (dsk st)) (snd file)
     (put32 (of_nat (e + 132)) 0 (host_put (of_nat e) (basename (fst file) @ [0]) v)))"

lemma writefile_ok:
  assumes w: "writefile d file s = Some (d', s')"
    and d: "d_ents d = of_nat heap" "e = heap + 256 * d_n d"
    and s: "diskpos s = of_nat (dsk q)" "nblocks s = of_nat n" "q < n" "n \<le> 1024"
  shows "d_n d < 128" "length (snd file) < 4235264" "d' = d\<lparr>d_n := d_n d + 1\<rparr>" "q + extent (length (snd file)) < n"
    "s' = s\<lparr>hm := written e q file (hm s), diskpos := of_nat (dsk (q + extent (length (snd file))))\<rparr>"
proof -
  obtain name data where f: "file = (name, data)" by (metis surj_pair)
  have out: "d_ents d + 256 * of_nat (d_n d) = of_nat e" "f_type (of_nat e) = of_nat (e + 132)"
    using d by (simp_all add: f_type_def add.commute)
  define v1 where "v1 = put32 (of_nat (e + 132)) 0 (host_put (of_nat e) (basename name @ [0]) (hm s))"
  obtain p s2 s3 where n: "d_n d < 128" and l: "length data < 4235264" and d': "d' = d\<lparr>d_n := d_n d + 1\<rparr>"
    and a: "alloc (of_nat (length data)) (s\<lparr>hm := v1\<rparr>) = Some (p, s2)"
    and ff: "finishfile (of_nat e) (blockno p) (of_nat (length data)) (upd_mem (host_put p data) s2) = Some s3" and s3: "s' = s3"
    using w unfolding writefile_def diradd_def f Let_def out v1_def
    by (auto simp: upd_mem_def simp del: of_nat_add split: bind_splits if_splits)
  note al = alloc_ok [OF a, of q n]
  have p: "p = of_nat (dsk q)" by (rule al(1)) (use s l in simp_all)
  have s2: "s2 = s\<lparr>hm := v1, diskpos := of_nat (dsk (q + blks (length data)))\<rparr>"
    using al(2) s l by simp
  have lt: "q + blks (length data) < n" by (rule al(3)) (use s l in simp_all)
  have bp: "blockno p = of_nat q" unfolding p by (rule blockno_dsk) (use s in simp)
  note fi = finishfile_ok [OF ff [unfolded bp], of n]
  have "s' = (upd_mem (host_put p data) s2)\<lparr>hm := finished e q (length data) (hm (upd_mem (host_put p data) s2)),
      diskpos := of_nat (dsk (q + extent (length data)))\<rparr>"
    unfolding s3 by (rule fi(1)) (use s l lt in \<open>simp_all add: s2 upd_mem_def\<close>)
  then show "s' = s\<lparr>hm := written e q file (hm s), diskpos := of_nat (dsk (q + extent (length (snd file))))\<rparr>"
    unfolding written_def s2 p f v1_def by (cases s) (simp add: upd_mem_def)
  show "q + extent (length (snd file)) < n"
    unfolding f snd_conv by (rule fi(2)) (use s l lt in \<open>simp_all add: s2 upd_mem_def\<close>)
  show "d_n d < 128" "length (snd file) < 4235264" "d' = d\<lparr>d_n := d_n d + 1\<rparr>" using n l d' f by simp_all
qed

text \<open>The room of a file: its entry, and the blocks from \<open>st\<close> on, within a disk of 1024 blocks.\<close>

definition file_room :: "nat \<Rightarrow> nat \<Rightarrow> nat \<Rightarrow> bool" where
  "file_room e st len \<longleftrightarrow> e + 256 \<le> 2 ^ 32 \<and> st + extent len < 1024 \<and> len < 4235264 \<and>
     (e + 256 \<le> dsk st \<or> dsk (st + extent len) \<le> e)"

lemma file_room_bounds:
  assumes "file_room e st len"
  shows "e + 256 \<le> 2 ^ 32" "dsk (st + blks len) + 4096 \<le> 2 ^ 32" "len \<le> 4235264" "dsk st + len \<le> dsk (st + extent len)"
    "dsk (st + extent len) \<le> 2 ^ 32" "10 \<le> blks len \<Longrightarrow> dsk (st + extent len) = dsk (st + blks len) + 4096"
proof -
  have "len \<le> 4096 * blks len" unfolding blks_def by linarith
  then show "e + 256 \<le> 2 ^ 32" "dsk (st + blks len) + 4096 \<le> 2 ^ 32" "len \<le> 4235264" "dsk st + len \<le> dsk (st + extent len)"
    "dsk (st + extent len) \<le> 2 ^ 32" "10 \<le> blks len \<Longrightarrow> dsk (st + extent len) = dsk (st + blks len) + 4096"
    using assms by (auto simp: file_room_def extent_def dsk_def split: if_splits)
qed

lemma written_other:
  assumes r: "file_room e st (length (snd file))" and nm: "length (basename (fst file)) < 128"
    and x: "x < 2 ^ 32" "x < e \<or> e + 256 \<le> x" "x < dsk st \<or> dsk (st + extent (length (snd file))) \<le> x"
  shows "byte_at (written e st file v) x = byte_at v x"
proof -
  note b = file_room_bounds [OF r]
  have le: "dsk st \<le> dsk (st + blks (length (snd file)))" by (simp add: dsk_def)
  have "byte_at (written e st file v) x = byte_at (host_put (of_nat (dsk st)) (snd file)
     (put32 (of_nat (e + 132)) 0 (host_put (of_nat e) (basename (fst file) @ [0]) v))) x"
    unfolding written_def by (rule finished_other) (use b x le in auto)
  also have "\<dots> = byte_at (put32 (of_nat (e + 132)) 0 (host_put (of_nat e) (basename (fst file) @ [0]) v)) x"
    by (subst byte_at_host_put) (use b x le in auto)
  also have "\<dots> = byte_at (host_put (of_nat e) (basename (fst file) @ [0]) v) x"
    by (rule byte_at_put32) (use b x in auto)
  also have "\<dots> = byte_at v x"
    by (subst byte_at_host_put) (use b x nm in auto)
  finally show ?thesis .
qed

text \<open>The memory of \<open>written\<close> before \<open>finishfile\<close>: the name, the type and the contents.\<close>

lemma before_finish:
  fixes v :: mem
  assumes r: "file_room e st (length (snd file))" and nm: "length (basename (fst file)) < 128"
  defines "u \<equiv> host_put (of_nat (dsk st)) (snd file) (put32 (of_nat (e + 132)) 0 (host_put (of_nat e) (basename (fst file) @ [0]) v))"
  shows "i < length (snd file) \<Longrightarrow> byte_at u (dsk st + i) = snd file ! i"
    "i \<le> length (basename (fst file)) \<Longrightarrow> byte_at u (e + i) = (basename (fst file) @ [0]) ! i"
    "word_at u (e + 132) = 0"
    "136 \<le> i \<Longrightarrow> i < 256 \<Longrightarrow> byte_at u (e + i) = byte_at v (e + i)"
    "dsk st + length (snd file) \<le> x \<Longrightarrow> x < dsk (st + extent (length (snd file))) \<Longrightarrow> byte_at u x = byte_at v x"
proof -
  note b = file_room_bounds [OF r]
  have a: "dsk st < 2 ^ 32" "dsk st + length (snd file) \<le> 2 ^ 32"
    using r b(4,5) by (auto simp: file_room_def dsk_def)
  have dis: "e + 256 \<le> dsk st \<or> dsk (st + extent (length (snd file))) \<le> e" using r by (simp add: file_room_def)
  have e1: "e + length (basename (fst file) @ [0]) \<le> 2 ^ 32" "e < 2 ^ 32" using b(1) nm by simp_all
  define v0 where "v0 = host_put (of_nat e) (basename (fst file) @ [0]) v"
  define v1 where "v1 = put32 (of_nat (e + 132)) 0 v0"
  have u: "u = host_put (of_nat (dsk st)) (snd file) v1" unfolding u_def v1_def v0_def ..
  have data: "byte_at u x = (if dsk st \<le> x \<and> x < dsk st + length (snd file) then snd file ! (x - dsk st) else byte_at v1 x)" if "x < 2 ^ 32" for x
    unfolding u by (rule byte_at_host_put [OF a(2) that a(1)])
  have type: "byte_at v1 x = byte_at v0 x" if "x < 2 ^ 32" "x < e + 132 \<or> e + 136 \<le> x" for x
    unfolding v1_def by (rule byte_at_put32) (use that b(1) in auto)
  have name: "byte_at v0 x = (if e \<le> x \<and> x < e + length (basename (fst file) @ [0]) then (basename (fst file) @ [0]) ! (x - e) else byte_at v x)"
    if "x < 2 ^ 32" for x
    unfolding v0_def by (rule byte_at_host_put [OF e1(1) that e1(2)])
  have ent: "byte_at u (e + i) = byte_at v1 (e + i)" if "i < 256" for i
    using data [of "e + i"] dis b(1,4) that by auto
  show "byte_at u (dsk st + i) = snd file ! i" if "i < length (snd file)"
    using data [of "dsk st + i"] that a by simp
  show "byte_at u (e + i) = (basename (fst file) @ [0]) ! i" if "i \<le> length (basename (fst file))"
    using ent [of i] type [of "e + i"] name [of "e + i"] that nm b(1) by simp
  show "word_at u (e + 132) = 0"
  proof -
    have "word_at u (e + 132) = word_at v1 (e + 132)"
      by (rule word_at_cong) (use ent [of "132 + _"] in \<open>simp add: add.assoc\<close>)
    then show ?thesis by (simp only: v1_def word_at_put32_same)
  qed
  show "byte_at u (e + i) = byte_at v (e + i)" if "136 \<le> i" "i < 256"
    using ent [of i] type [of "e + i"] name [of "e + i"] that nm b(1) by simp
  show "byte_at u x = byte_at v x" if x: "dsk st + length (snd file) \<le> x" "x < dsk (st + extent (length (snd file)))"
  proof -
    have far: "x < 2 ^ 32" "x < e \<or> e + 256 \<le> x" using x b(5) dis by auto
    then show ?thesis using data [of x] type [of x] name [of x] x(1) nm by auto
  qed
qed

lemma written_built:
  assumes r: "file_room e st (length (snd file))" and nm: "length (basename (fst file)) < 128"
    and z: "\<And>i. z \<Longrightarrow> i < 256 \<Longrightarrow> byte_at v (e + i) = 0"
    and zd: "\<And>x. dsk st \<le> x \<Longrightarrow> x < dsk (st + extent (length (snd file))) \<Longrightarrow> byte_at v x = 0"
  shows "built z (written e st file v) e st file"
proof -
  define u where "u = host_put (of_nat (dsk st)) (snd file) (put32 (of_nat (e + 132)) 0 (host_put (of_nat e) (basename (fst file) @ [0]) v))"
  note b = file_room_bounds [OF r]
  note bf = before_finish [OF r nm, where v = v, folded u_def]
  have dis: "e + 256 \<le> dsk st \<or> dsk (st + extent (length (snd file))) \<le> e" using r by (simp add: file_room_def)
  have le: "dsk st \<le> dsk (st + blks (length (snd file)))" by (simp add: dsk_def)
  have le': "length (snd file) \<le> 4096 * blks (length (snd file))" unfolding blks_def by linarith
  have w: "written e st file v = finished e st (length (snd file)) u" by (simp add: written_def u_def)
  have o: "byte_at (written e st file v) (e + i) = byte_at u (e + i)" if "i < 128 \<or> 132 \<le> i \<and> i < 136" for i
    unfolding w by (rule finished_other) (use b dis le that in auto)
  have "laid z (written e st file v) e st (snd file)"
    unfolding w
  proof (rule finished_laid [OF b(1-3) dis])
    show "byte_at u (e + 136 + i) = 0" if "z" "i < 44" for i
      using bf(4) [of "136 + i"] z [of "136 + i"] that by (simp add: add.assoc)
    show "byte_at u (dsk (st + blks (length (snd file))) + i) = 0" if "10 \<le> blks (length (snd file))" "i < 4096" for i
    proof -
      have "dsk st + length (snd file) \<le> dsk (st + blks (length (snd file)))" using le' by (simp add: dsk_def)
      then show ?thesis
        using bf(5) [of "dsk (st + blks (length (snd file))) + i"] zd [of "dsk (st + blks (length (snd file))) + i"] b(6) le that by simp
    qed
  qed (rule bf(1))
  moreover have "word_at (written e st file v) (e + 132) = 0"
  proof -
    have "word_at (written e st file v) (e + 132) = word_at u (e + 132)"
      by (rule word_at_cong) (use o [of "132 + _"] in \<open>simp add: add.assoc\<close>)
    then show ?thesis using bf(3) by simp
  qed
  ultimately show ?thesis using bf(2) o nm by (auto simp: built_def)
qed

section \<open>Adding all files\<close>

definition start :: "(u8 list \<times> u8 list) list \<Rightarrow> nat \<Rightarrow> nat" where
  "start files i = 3 + sum_list (map (\<lambda>f. extent (length (snd f))) (take i files))"

lemma start_Suc: "i < length files \<Longrightarrow> start files (Suc i) = start files i + extent (length (snd (files ! i)))"
  by (simp add: start_def take_Suc_conv_app_nth)

lemma start_0 [simp]: "start files 0 = 3"
  by (simp add: start_def)

lemma start_mono: "i \<le> j \<Longrightarrow> start files i \<le> start files j"
proof (induction rule: dec_induct)
  case (step j)
  show ?case
  proof (cases "j < length files")
    case True
    then show ?thesis using step.IH start_Suc [of j files] by simp
  next
    case False
    then show ?thesis using step.IH by (simp add: start_def)
  qed
qed simp

text \<open>The state after \<open>j\<close> files: they are built, the first three blocks are as in \<open>v0\<close>, and the rest is zero; with \<open>z\<close>, the unused entries are zero too.\<close>

definition stage :: "bool \<Rightarrow> nat \<Rightarrow> nat \<Rightarrow> mem \<Rightarrow> (u8 list \<times> u8 list) list \<Rightarrow> nat \<Rightarrow> host \<Rightarrow> bool" where
  "stage z heap n v0 files j s \<longleftrightarrow>
     diskpos s = of_nat (dsk (start files j)) \<and> start files j < n \<and> nblocks s = of_nat n \<and>
     hsuper s = of_nat (dsk 1) \<and> hbitmap s = of_nat (dsk 2) \<and>
     (\<forall>i < j. built z (hm s) (heap + 256 * i) (start files i) (files ! i)) \<and>
     (\<forall>x. z \<and> heap + 256 * j \<le> x \<and> x < heap + 32768 \<longrightarrow> byte_at (hm s) x = 0) \<and>
     (\<forall>x. dsk (start files j) \<le> x \<and> x < dsk n \<longrightarrow> byte_at (hm s) x = 0) \<and>
     (\<forall>x. dsk 0 \<le> x \<and> x < dsk 3 \<longrightarrow> byte_at (hm s) x = byte_at v0 x)"

definition heap_ok :: "nat \<Rightarrow> bool" where
  "heap_ok heap \<longleftrightarrow> heap + 32768 \<le> dsk 0 \<or> dsk 0xC0000 \<le> heap \<and> heap + 32768 \<le> 2 ^ 32"

lemma stage_step:
  assumes st: "stage z heap n v0 files j s" and j: "j < length files" and n: "n \<le> 1024" and h: "heap_ok heap"
    and nm: "length (basename (fst (files ! j))) < 128"
    and w: "writefile \<lparr>d_f = f, d_ents = of_nat heap, d_n = j\<rparr> (files ! j) s = Some (d', s')"
  shows "d' = \<lparr>d_f = f, d_ents = of_nat heap, d_n = Suc j\<rparr>" "stage z heap n v0 files (Suc j) s'" "j < 128"
proof -
  let ?q = "start files j" and ?e = "heap + 256 * j" and ?f = "files ! j"
  let ?x = "extent (length (snd ?f))"
  note s = st [unfolded stage_def]
  have wf: "j < 128" "length (snd ?f) < 4235264" "d' = \<lparr>d_f = f, d_ents = of_nat heap, d_n = Suc j\<rparr>" "?q + ?x < n"
    "s' = s\<lparr>hm := written ?e ?q ?f (hm s), diskpos := of_nat (dsk (?q + ?x))\<rparr>"
    using writefile_ok [OF w, of heap ?e ?q n] s n by simp_all
  show "d' = \<lparr>d_f = f, d_ents = of_nat heap, d_n = Suc j\<rparr>" "j < 128" by (fact wf(3), fact wf(1))
  have hp: "heap + 32768 \<le> 2 ^ 32" "heap + 32768 \<le> dsk 0 \<or> dsk 1024 \<le> heap" using h by (auto simp: heap_ok_def dsk_def)
  have q3: "3 \<le> ?q" by (simp add: start_def)
  have mono: "a \<le> b \<Longrightarrow> dsk a \<le> dsk b" for a b by (simp add: dsk_def)
  have dn: "dsk (?q + ?x) \<le> dsk 1024" "dsk 1024 \<le> 2 ^ 32" "dsk 3 \<le> dsk ?q" "dsk n \<le> dsk 1024" "dsk 0 \<le> dsk 3" "dsk ?q \<le> dsk (?q + ?x)"
    using wf(4) n q3 by (simp_all add: dsk_def)
  have r: "file_room ?e ?q (length (snd ?f))"
    unfolding file_room_def using wf hp n dn by auto
  have o: "byte_at (hm s') x = byte_at (hm s) x" if "x < 2 ^ 32" "x < ?e \<or> ?e + 256 \<le> x" "x < dsk ?q \<or> dsk (?q + ?x) \<le> x" for x
    unfolding wf(5) using written_other [OF r nm that] by simp
  have b: "built z (hm s') (heap + 256 * i) (start files i) (files ! i)" if i: "i < Suc j" for i
  proof (cases "i = j")
    case True
    have "built z (written ?e ?q ?f (hm s)) ?e ?q ?f"
    proof (rule written_built [OF r nm])
      show "byte_at (hm s) (?e + k) = 0" if "z" "k < 256" for k using s wf(1) that by auto
      show "byte_at (hm s) x = 0" if "dsk ?q \<le> x" "x < dsk (?q + ?x)" for x
        using s that mono [of "?q + ?x" n] wf(4) by auto
    qed
    then show ?thesis unfolding wf(5) True by simp
  next
    case False
    then have ij: "i < j" using i by simp
    have le: "start files i + extent (length (snd (files ! i))) \<le> ?q"
      using start_Suc [of i files] start_mono [of "Suc i" j files] ij j by simp
    have lo: "dsk 3 \<le> dsk (start files i)" by (simp add: dsk_def start_def)
    show ?thesis
    proof (rule built_move)
      show "built z (hm s) (heap + 256 * i) (start files i) (files ! i)" using s ij by blast
      show "byte_at (hm s') (heap + 256 * i + k) = byte_at (hm s) (heap + 256 * i + k)" if "k < 256" for k
        by (rule o) (use ij wf(1) that hp dn in auto)
      show "byte_at (hm s') x = byte_at (hm s) x"
        if "dsk (start files i) \<le> x" "x < dsk (start files i + extent (length (snd (files ! i))))" for x
        by (rule o) (use that mono [OF le] dn hp lo wf(1) in auto)
    qed
  qed
  have zh: "byte_at (hm s') x = 0" if "z" "heap + 256 * Suc j \<le> x" "x < heap + 32768" for x
  proof -
    have "byte_at (hm s') x = byte_at (hm s) x" by (rule o) (use that hp dn in auto)
    then show ?thesis using s that by auto
  qed
  have zd: "byte_at (hm s') x = 0" if "dsk (?q + ?x) \<le> x" "x < dsk n" for x
  proof -
    have "byte_at (hm s') x = byte_at (hm s) x" by (rule o) (use that hp dn wf(1) in auto)
    then show ?thesis using s that dn by auto
  qed
  have base: "byte_at (hm s') x = byte_at v0 x" if "dsk 0 \<le> x" "x < dsk 3" for x
  proof -
    have "byte_at (hm s') x = byte_at (hm s) x" by (rule o) (use that hp dn wf(1) in auto)
    then show ?thesis using s that by auto
  qed
  show "stage z heap n v0 files (Suc j) s'"
    unfolding stage_def start_Suc [OF j] using b zh zd base s wf(4) by (simp add: wf(5))
qed

lemma writefiles_ok:
  assumes "stage z heap n v0 (done_files @ files) (length done_files) s" "n \<le> 1024" "heap_ok heap"
    "\<And>x. x \<in> set files \<Longrightarrow> length (basename (fst x)) < 128"
    "writefiles \<lparr>d_f = f, d_ents = of_nat heap, d_n = length done_files\<rparr> files s = Some (d', s')" "length done_files \<le> 128"
  shows "d' = \<lparr>d_f = f, d_ents = of_nat heap, d_n = length (done_files @ files)\<rparr> \<and> length (done_files @ files) \<le> 128 \<and>
    stage z heap n v0 (done_files @ files) (length (done_files @ files)) s'"
  using assms(1,4,5,6)
proof (induction files arbitrary: done_files s)
  case Nil
  then show ?case by simp
next
  case (Cons x xs)
  let ?all = "done_files @ x # xs" and ?j = "length done_files"
  obtain d1 s1 where w: "writefile \<lparr>d_f = f, d_ents = of_nat heap, d_n = ?j\<rparr> x s = Some (d1, s1)"
    and ws: "writefiles d1 xs s1 = Some (d', s')"
    using Cons.prems(3) by (auto split: bind_splits)
  have x: "?all ! ?j = x" by simp
  note step = stage_step [OF Cons.prems(1) _ assms(2,3), unfolded x, OF _ _ w]
  have ih: "stage z heap n v0 ((done_files @ [x]) @ xs) (length (done_files @ [x])) s1" "d1 = \<lparr>d_f = f, d_ents = of_nat heap, d_n = length (done_files @ [x])\<rparr>"
    "length (done_files @ [x]) \<le> 128"
    using step Cons.prems(2) [of x] by simp_all
  show ?case
    using Cons.IH [OF ih(1) _ ws [unfolded ih(2)] ih(3)] Cons.prems(2) by simp
qed

section \<open>The empty disk\<close>

text \<open>The first three blocks of a disk: nothing, the super block with an empty root directory, and a bitmap of free blocks.\<close>

definition empty_disk :: "nat \<Rightarrow> mem \<Rightarrow> bool" where
  "empty_disk n v \<longleftrightarrow> word_at v (dsk 1) = FS_MAGIC \<and> word_at v (dsk 1 + 4) = of_nat n \<and> word_at v (dsk 1 + 8 + 132) = FTYPE_DIR \<and>
     byte_at v (dsk 1 + 8) = 0x2F \<and> byte_at v (dsk 1 + 8 + 1) = 0 \<and> (\<forall>i < 44. byte_at v (dsk 1 + 8 + 136 + i) = 0) \<and>
     (\<forall>i < 4096. byte_at v (dsk 2 + i) = 0xFF)"

lemma bitmap_blocks: "2 \<le> n \<Longrightarrow> n \<le> 1024 \<Longrightarrow> (of_nat n + 0x8000 - 1 :: u32) div 0x8000 = 1"
proof -
  assume n: "2 \<le> n" "n \<le> 1024"
  have "(of_nat n + 0x8000 - 1 :: u32) = of_nat (n + 0x7FFF)" by simp
  moreover have "unat (of_nat (n + 0x7FFF) :: u32) = n + 0x7FFF" by (rule unat_of_nat32) (use n in simp)
  moreover have "(n + 0x7FFF) div 0x8000 = 1" using n by (simp add: div_nat_eqI)
  ultimately show ?thesis by (simp add: word_unat_eq_iff unat_div)
qed

text \<open>The memory after \<open>opendisk\<close>.\<close>

definition opened :: "nat \<Rightarrow> mem \<Rightarrow> mem" where
  "opened n m = memset (host_put (of_nat (dsk 1 + 8)) [0x2F, 0] (put32 (of_nat (dsk 1 + 8 + 132)) FTYPE_DIR
     (put32 (of_nat (dsk 1 + 4)) (of_nat n) (put32 (of_nat (dsk 1)) FS_MAGIC
       (\<lambda>x. if x - 0x10000000 < of_nat n * 0x1000 then 0 else m x))))) (of_nat (dsk 2)) 0xFF 0x1000"

lemma opendisk_ok:
  assumes o: "opendisk (of_nat n) m = Some s" and n: "2 \<le> n" "n \<le> 1024"
  shows "3 < n" "s = \<lparr>hm = opened n m, diskpos = of_nat (dsk 3), nblocks = of_nat n, hsuper = of_nat (dsk 1), hbitmap = of_nat (dsk 2)\<rparr>"
proof -
  let ?m = "\<lambda>x. if x - 0x10000000 < of_nat n * 0x1000 then 0 else m x"
  define s0 where "s0 = \<lparr>hm = ?m, diskpos = 0x10000000, nblocks = of_nat n, hsuper = 0, hbitmap = 0\<rparr>"
  have d0: "diskpos s0 = of_nat (dsk 0)" "nblocks s0 = of_nat n" by (simp_all add: s0_def dsk_def)
  have one: "blks 4096 = 1" by (simp add: blks_def)
  note o' = o [unfolded opendisk_def Let_def bitmap_blocks [OF n], folded s0_def, simplified]
  from o' obtain p0 s1 where a0: "alloc (of_nat 4096) s0 = Some (p0, s1)"
    by (auto split: bind_splits)
  have s1: "s1 = s0\<lparr>diskpos := of_nat (dsk 1)\<rparr>"
    using alloc_ok [OF a0 d0, unfolded one] n by simp
  from o' a0 obtain p1 s2 where a1: "alloc (of_nat 4096) s1 = Some (p1, s2)"
    by (auto split: bind_splits)
  have d1: "diskpos s1 = of_nat (dsk 1)" "nblocks s1 = of_nat n" by (simp_all add: s1 d0)
  have s2: "p1 = of_nat (dsk 1)" "s2 = s1\<lparr>diskpos := of_nat (dsk 2)\<rparr>"
    using alloc_ok [OF a1 d1, unfolded one] n by (simp_all add: numeral_2_eq_2)
  define s3 where "s3 = \<lparr>hm = host_put (of_nat (dsk 1 + 8)) [0x2F, 0] (put32 (of_nat (dsk 1 + 8 + 132)) FTYPE_DIR
     (put32 (of_nat (dsk 1 + 4)) (of_nat n) (put32 (of_nat (dsk 1)) FS_MAGIC ?m))), diskpos = of_nat (dsk 2),
     nblocks = of_nat n, hsuper = of_nat (dsk 1), hbitmap = 0\<rparr>"
  have e3: "upd_mem (host_put (p1 + 8) [0x2F, 0]) (upd_mem (put32 (f_type (p1 + 8)) 1) (upd_mem (put32 (p1 + 4) (of_nat n))
      (upd_mem (put32 p1 0x4A0530AE) (s2\<lparr>hsuper := p1\<rparr>)))) = s3"
    by (simp add: s3_def s2 s1 s0_def upd_mem_def f_type_def add.commute)
  from o' a0 a1 e3 obtain p2 s4 where a2: "alloc (of_nat 4096) s3 = Some (p2, s4)"
    and s: "s = upd_mem (\<lambda>m. memset m p2 0xFF 0x1000) (s4\<lparr>hbitmap := p2\<rparr>)"
    by (auto split: bind_splits)
  have d3: "diskpos s3 = of_nat (dsk 2)" "nblocks s3 = of_nat n" by (simp_all add: s3_def)
  have s4: "p2 = of_nat (dsk 2)" "s4 = s3\<lparr>diskpos := of_nat (dsk 3)\<rparr>" "3 < n"
    using alloc_ok [OF a2 d3, unfolded one] n by (simp_all add: numeral_3_eq_3 numeral_2_eq_2)
  then show "3 < n" "s = \<lparr>hm = opened n m, diskpos = of_nat (dsk 3), nblocks = of_nat n, hsuper = of_nat (dsk 1), hbitmap = of_nat (dsk 2)\<rparr>"
    by (simp_all add: s upd_mem_def s3_def opened_def)
qed

lemma opened_bytes:
  assumes n: "3 < n" "n \<le> 1024"
  shows "empty_disk n (opened n m)" "dsk 3 \<le> x \<Longrightarrow> x < dsk n \<Longrightarrow> byte_at (opened n m) x = 0"
    "x < 2 ^ 32 \<Longrightarrow> x < dsk 0 \<or> dsk 1024 \<le> x \<Longrightarrow> byte_at (opened n m) x = byte_at m x"
proof -
  define v0 where "v0 = (\<lambda>x. if x - 0x10000000 < of_nat n * 0x1000 then 0 else m x)"
  define v1 where "v1 = put32 (of_nat (dsk 1)) FS_MAGIC v0"
  define v2 where "v2 = put32 (of_nat (dsk 1 + 4)) (of_nat n) v1"
  define v3 where "v3 = put32 (of_nat (dsk 1 + 8 + 132)) FTYPE_DIR v2"
  define v4 where "v4 = host_put (of_nat (dsk 1 + 8)) [0x2F, 0] v3"
  define v where "v = opened n m"
  have c: "(ucast (0xFF :: u32) :: u8) = 0xFF" by (simp add: word_unat_eq_iff unsigned_ucast_eq take_bit_eq_mod)
  have v: "v = (\<lambda>x. if unat (x - of_nat (dsk 2)) < 4096 then 0xFF else v4 x)"
    unfolding v_def opened_def memset_fills v4_def v3_def v2_def v1_def v0_def c by simp
  have len: "unat (of_nat n * 0x1000 :: u32) = n * 4096" using n by (simp add: unat_word_ariths unat_of_nat32)
  have z: "byte_at v0 x = (if dsk 0 \<le> x \<and> x < dsk n then 0 else byte_at m x)" if "x < 2 ^ 32" for x
    using unat_diff32 [OF that, of "0x10000000"] n that unfolding byte_at_def v0_def word_less_nat_alt len dsk_def by auto
  have b1: "byte_at v1 x = byte_at v0 x" if "x < 2 ^ 32" "x < dsk 1 \<or> dsk 1 + 4 \<le> x" for x
    unfolding v1_def by (rule byte_at_put32) (use that in \<open>simp_all add: dsk_def\<close>)
  have b2: "byte_at v2 x = byte_at v1 x" if "x < 2 ^ 32" "x < dsk 1 + 4 \<or> dsk 1 + 8 \<le> x" for x
    unfolding v2_def by (rule byte_at_put32) (use that in \<open>simp_all add: dsk_def\<close>)
  have b3: "byte_at v3 x = byte_at v2 x" if "x < 2 ^ 32" "x < dsk 1 + 8 + 132 \<or> dsk 1 + 8 + 136 \<le> x" for x
    unfolding v3_def by (rule byte_at_put32) (use that in \<open>simp_all add: dsk_def\<close>)
  have b4: "byte_at v4 x = (if x = dsk 1 + 8 then 0x2F else if x = dsk 1 + 9 then 0 else byte_at v3 x)" if "x < 2 ^ 32" for x
  proof -
    have "byte_at v4 x = (if dsk 1 + 8 \<le> x \<and> x < dsk 1 + 8 + length [0x2F :: u8, 0] then [0x2F, 0] ! (x - (dsk 1 + 8)) else byte_at v3 x)"
      unfolding v4_def by (rule byte_at_host_put) (use that in \<open>simp_all add: dsk_def\<close>)
    moreover have "x = dsk 1 + 8 \<or> x = dsk 1 + 9" if "dsk 1 + 8 \<le> x" "x < dsk 1 + 8 + 2" using that by linarith
    ultimately show ?thesis by auto
  qed
  have b5: "byte_at v x = (if dsk 2 \<le> x \<and> x < dsk 3 then 0xFF else byte_at v4 x)" if "x < 2 ^ 32" for x
    using unat_diff32 [OF that, of "dsk 2"] that unfolding byte_at_def v by (auto simp: dsk_def)
  note bytes = b5 b4 b3 b2 b1 z
  have w: "word_at v y = word_at v4 y" if "y + 4 \<le> dsk 2" for y
    by (rule word_at_cong) (use that b5 in \<open>simp add: dsk_def\<close>)
  have w4: "word_at v4 y = word_at v3 y" if "y + 4 \<le> dsk 2" "y + 4 \<le> dsk 1 + 8 \<or> dsk 1 + 10 \<le> y" for y
    by (rule word_at_cong) (use that b4 in \<open>auto simp: dsk_def\<close>)
  have "word_at v (dsk 1) = FS_MAGIC"
    using w [of "dsk 1"] w4 [of "dsk 1"] word_at_put32 [of "dsk 1 + 8 + 132" "dsk 1" _ v2] word_at_put32 [of "dsk 1 + 4" "dsk 1" _ v1]
    unfolding v3_def v2_def v1_def by (simp add: dsk_def word_at_def)
  moreover have "word_at v (dsk 1 + 4) = of_nat n"
    using w [of "dsk 1 + 4"] w4 [of "dsk 1 + 4"] word_at_put32 [of "dsk 1 + 8 + 132" "dsk 1 + 4" _ v2] word_at_put32_same [of "dsk 1 + 4" "of_nat n" v1]
    unfolding v3_def v2_def by (simp add: dsk_def)
  moreover have "word_at v (dsk 1 + 8 + 132) = FTYPE_DIR"
    using w [of "dsk 1 + 8 + 132"] w4 [of "dsk 1 + 8 + 132"] word_at_put32_same [of "dsk 1 + 8 + 132" FTYPE_DIR v2]
    unfolding v3_def by (simp add: dsk_def)
  moreover have "byte_at v (dsk 1 + 8) = 0x2F" "byte_at v (dsk 1 + 8 + 1) = 0" "\<And>i. i < 4096 \<Longrightarrow> byte_at v (dsk 2 + i) = 0xFF"
    using b5 b4 by (simp_all add: dsk_def)
  moreover have "byte_at v (dsk 1 + 8 + 136 + i) = 0" if "i < 44" for i
    using bytes [of "dsk 1 + 8 + 136 + i"] n that by (simp add: dsk_def)
  ultimately show "empty_disk n (opened n m)" unfolding empty_disk_def v_def by blast
  show "byte_at (opened n m) x = 0" if "dsk 3 \<le> x" "x < dsk n"
    using bytes [of x] that n unfolding v_def by (simp add: dsk_def)
  show "byte_at (opened n m) x = byte_at m x" if "x < 2 ^ 32" "x < dsk 0 \<or> dsk 1024 \<le> x"
    using bytes [of x] that n unfolding v_def by (auto simp: dsk_def)
qed

section \<open>The root directory\<close>

definition root_data :: "mem \<Rightarrow> nat \<Rightarrow> nat \<Rightarrow> u8 list" where
  "root_data v heap sz = map (\<lambda>i. if i < sz then byte_at v (heap + i) else 0) [0..<4096 * blks sz]"

lemma blks_full: "blks (4096 * k) = k"
  unfolding blks_def by linarith

lemma roundup_int_pos: "0 < k \<Longrightarrow> roundup_int (int k) = int (4096 * blks k)"
proof -
  assume k: "0 < k"
  then have i: "int k - 1 = int (k - 1)" by simp
  have "int (k - 1) smod 4096 = int (k - 1) mod 4096" by (cases "k = 1") (use k in \<open>auto simp: signed_modulo_int_def sgn_if\<close>)
  also have "\<dots> = int ((k - 1) mod 4096)" by (simp add: zmod_int)
  finally have m: "int (k - 1) smod 4096 = int ((k - 1) mod 4096)" .
  have "k + 4095 = 4096 + (k - 1)" using k by simp
  then have "blks k = 1 + (k - 1) div 4096" by (simp add: blks_def)
  moreover have "k - 1 = 4096 * ((k - 1) div 4096) + (k - 1) mod 4096" by simp
  ultimately show ?thesis unfolding roundup_int_def i m by linarith
qed

lemma finishdir_ok:
  assumes f: "finishdir d s = Some s'" and d: "d = \<lparr>d_f = of_nat r, d_ents = of_nat heap, d_n = k\<rparr>" "0 < k" "k \<le> 128"
    and s: "diskpos s = of_nat (dsk q)" "nblocks s = of_nat n" "q < n" "n \<le> 1024"
  shows "q + blks (256 * k) < n"
    "s' = s\<lparr>hm := finished r q (4096 * blks (256 * k)) (blit (of_nat (dsk q)) (of_nat heap) (of_nat (256 * k)) (hm s)),
       diskpos := of_nat (dsk (q + blks (256 * k)))\<rparr>"
proof -
  let ?sz = "256 * k" and ?b = "blks (256 * k)"
  have b8: "?b \<le> 8" using d(3) unfolding blks_def by linarith
  have x: "extent (4096 * ?b) = ?b" using b8 by (simp add: extent_def blks_full)
  have z: "int k * 256 = int ?sz" by simp
  have w: "word_of_int (roundup_int (int ?sz)) = (of_nat (4096 * ?b) :: u32)" "word_of_int (int ?sz) = (of_nat ?sz :: u32)"
    using roundup_int_pos [of ?sz] d(2) by (simp_all del: of_nat_mult)
  obtain p s1 where a: "alloc (of_nat ?sz) s = Some (p, s1)"
    and ff: "finishfile (of_nat r) (blockno p) (of_nat (4096 * ?b)) (upd_mem (blit p (of_nat heap) (of_nat ?sz)) s1) = Some s'"
    using f unfolding finishdir_def Let_def d(1) dir_buf.simps z w by (auto split: bind_splits)
  have al: "p = of_nat (dsk q)" "s1 = s\<lparr>diskpos := of_nat (dsk (q + ?b))\<rparr>" "q + ?b < n"
    using alloc_ok [OF a s(1,2)] s d(3) by simp_all
  have bp: "blockno p = of_nat q" unfolding al(1) by (rule blockno_dsk) (use s in simp)
  let ?s2 = "upd_mem (blit p (of_nat heap) (of_nat ?sz)) s1"
  have "s' = ?s2\<lparr>hm := finished r q (4096 * ?b) (hm ?s2), diskpos := of_nat (dsk (q + extent (4096 * ?b)))\<rparr>"
    by (rule finishfile_ok(1) [OF ff [unfolded bp], of n]) (use s al b8 in \<open>simp_all add: upd_mem_def blks_full\<close>)
  then show "q + ?b < n" "s' = s\<lparr>hm := finished r q (4096 * ?b) (blit (of_nat (dsk q)) (of_nat heap) (of_nat ?sz) (hm s)),
       diskpos := of_nat (dsk (q + ?b))\<rparr>"
    unfolding x al(1,2) using al(3) by (cases s, simp add: upd_mem_def)+
qed

text \<open>What the disk holds before the bitmap is finished.\<close>

definition laid_out :: "bool \<Rightarrow> nat \<Rightarrow> (u8 list \<times> u8 list) list \<Rightarrow> nat \<Rightarrow> u8 list \<Rightarrow> mem \<Rightarrow> bool" where
  "laid_out z n files q data v \<longleftrightarrow>
     word_at v (dsk 1) = FS_MAGIC \<and> word_at v (dsk 1 + 4) = of_nat n \<and> word_at v (dsk 1 + 8 + 132) = FTYPE_DIR \<and>
     byte_at v (dsk 1 + 8) = 0x2F \<and> byte_at v (dsk 1 + 8 + 1) = 0 \<and>
     length data = 4096 * blks (256 * length files) \<and> laid True v (dsk 1 + 8) q data \<and>
     (\<forall>i < length files. built z v (dsk q + 256 * i) (start files i) (files ! i))"

lemma finishdir_laid_out:
  assumes f: "finishdir \<lparr>d_f = of_nat (dsk 1 + 8), d_ents = of_nat heap, d_n = length files\<rparr> s = Some s'"
    and k: "0 < length files" "length files \<le> 128" and n: "n \<le> 1024" and h: "heap_ok heap"
    and st: "stage z heap n v0 files (length files) s" and v0: "empty_disk n v0"
  defines "q \<equiv> start files (length files)" and "b \<equiv> blks (256 * length files)"
  shows "laid_out z n files q (root_data (hm s) heap (256 * length files)) (hm s')" "q + b < n"
    "diskpos s' = of_nat (dsk (q + b))" "hbitmap s' = of_nat (dsk 2)" "i < 4096 \<Longrightarrow> byte_at (hm s') (dsk 2 + i) = 0xFF"
proof -
  let ?k = "length files"
  let ?data = "root_data (hm s) heap (256 * ?k)"
  note sd = st [unfolded stage_def, folded q_def]
  note fd = finishdir_ok [OF f refl k, of q n, folded b_def]
  have lt: "q + b < n" and s': "s' = s\<lparr>hm := finished (dsk 1 + 8) q (4096 * b) (blit (of_nat (dsk q)) (of_nat heap) (of_nat (256 * ?k)) (hm s)),
       diskpos := of_nat (dsk (q + b))\<rparr>"
    using fd sd n by blast+
  then show "q + b < n" "diskpos s' = of_nat (dsk (q + b))" "hbitmap s' = of_nat (dsk 2)" using sd by simp_all
  define u where "u = blit (of_nat (dsk q)) (of_nat heap) (of_nat (256 * ?k)) (hm s)"
  have hs': "hm s' = finished (dsk 1 + 8) q (4096 * b) u" unfolding s' u_def by simp
  have b: "1 \<le> b" "b \<le> 8" "256 * ?k \<le> 4096 * b" using k unfolding b_def blks_def by linarith+
  have q3: "3 \<le> q" by (simp add: q_def start_def)
  have hp: "heap + 32768 \<le> 2 ^ 32" "heap + 32768 \<le> dsk 0 \<or> dsk 1024 \<le> heap" using h by (auto simp: heap_ok_def dsk_def)
  have len: "length ?data = 4096 * b" by (simp add: root_data_def b_def)
  have x: "extent (4096 * b) = b" using b by (simp add: extent_def blks_full)
  have dn: "dsk (q + b) \<le> dsk 1024" "dsk 1024 \<le> 2 ^ 32" "dsk 3 \<le> dsk q" "dsk q + 4096 * b = dsk (q + b)" "dsk 1 + 264 \<le> dsk 2"
    "dsk 2 + 4096 = dsk 3" "dsk 0 \<le> dsk 1" "dsk (q + b) < dsk n" "dsk q < 2 ^ 32"
    using lt n q3 by (simp_all add: dsk_def)
  have blit: "byte_at u y = (if dsk q \<le> y \<and> y < dsk q + 256 * ?k then byte_at (hm s) (heap + (y - dsk q)) else byte_at (hm s) y)"
    if "y < 2 ^ 32" for y
    unfolding u_def by (rule byte_at_blit [OF _ that dn(9)]) (use dn b k in auto)
  have fin: "byte_at (hm s') y = byte_at u y" if "y < 2 ^ 32" "y < dsk 1 + 136 \<or> dsk 1 + 188 \<le> y \<or> dsk 1 + 140 \<le> y \<and> y < dsk 1 + 144" for y
    unfolding hs' by (rule finished_other) (use that dn b in \<open>auto simp: blks_full dsk_def\<close>)
  have far: "byte_at (hm s') y = byte_at (hm s) y" if "y < 2 ^ 32" "y < dsk q \<or> dsk q + 256 * ?k \<le> y"
      "y < dsk 1 + 136 \<or> dsk 1 + 188 \<le> y \<or> dsk 1 + 140 \<le> y \<and> y < dsk 1 + 144" for y
    using blit [OF that(1)] fin [OF that(1,3)] that(2) by auto
  have base: "byte_at (hm s') y = byte_at v0 y" if "dsk 0 \<le> y" "y < dsk 3" "y < dsk 1 + 136 \<or> dsk 1 + 188 \<le> y \<or> dsk 1 + 140 \<le> y \<and> y < dsk 1 + 144" for y
  proof -
    have "byte_at (hm s') y = byte_at (hm s) y" by (rule far) (use that dn in auto)
    then show ?thesis using sd that by simp
  qed
  have w: "word_at (hm s') y = word_at v0 y" if "dsk 1 \<le> y" "y + 4 \<le> dsk 1 + 136 \<or> y = dsk 1 + 140" for y
    by (rule word_at_cong, rule base) (use that dn in auto)
  note v0' = v0 [unfolded empty_disk_def]
  show "byte_at (hm s') (dsk 2 + i) = 0xFF" if "i < 4096" for i
    using base [of "dsk 2 + i"] v0' that dn by auto
  have laid: "laid True (hm s') (dsk 1 + 8) q ?data"
    unfolding hs' len [symmetric]
  proof (rule finished_laid)
    show "byte_at u (dsk 1 + 8 + 136 + i) = 0" if "i < 44" for i
    proof -
      have y: "dsk 0 \<le> dsk 1 + 8 + 136 + i" "dsk 1 + 8 + 136 + i < dsk 3" using that by (simp_all add: dsk_def)
      then have "byte_at u (dsk 1 + 8 + 136 + i) = byte_at (hm s) (dsk 1 + 8 + 136 + i)" using blit dn by simp
      then show ?thesis using sd y v0' that by simp
    qed
    show "byte_at u (dsk q + i) = ?data ! i" if "i < length ?data" for i
    proof -
      have "dsk q \<le> dsk q + i" "dsk q + i < dsk n" "dsk q + i < 2 ^ 32" using that len dn by simp_all
      then show ?thesis using blit [of "dsk q + i"] sd that len by (auto simp: root_data_def b_def)
    qed
  qed (use b len dn x in \<open>auto simp: blks_full dsk_def\<close>)
  have built: "built z (hm s') (dsk q + 256 * i) (start files i) (files ! i)" if i: "i < ?k" for i
  proof (rule built_move)
    show "built z (hm s) (heap + 256 * i) (start files i) (files ! i)" using sd i by blast
    show "byte_at (hm s') (dsk q + 256 * i + j) = byte_at (hm s) (heap + 256 * i + j)" if "j < 256" for j
    proof -
      have y: "dsk q + 256 * i + j < dsk q + 256 * ?k" using that i by linarith
      then have "dsk q + 256 * i + j < 2 ^ 32" using dn b by linarith
      with fin [of "dsk q + 256 * i + j"] blit [of "dsk q + 256 * i + j"] y dn show ?thesis by (simp add: add.assoc)
    qed
    show "byte_at (hm s') y = byte_at (hm s) y"
      if "dsk (start files i) \<le> y" "y < dsk (start files i + extent (length (snd (files ! i))))" for y
    proof -
      have "start files i + extent (length (snd (files ! i))) \<le> q"
        using start_Suc [OF i] start_mono [of "Suc i" ?k files] i by (simp add: q_def)
      then have "y < dsk q" "dsk 3 \<le> y" using that by (auto simp: dsk_def start_def)
      then show ?thesis using far [of y] dn by simp
    qed
  qed
  show "laid_out z n files q ?data (hm s')"
    unfolding laid_out_def using laid built len w [of "dsk 1"] w [of "dsk 1 + 4"] w [of "dsk 1 + 140"]
      base [of "dsk 1 + 8"] base [of "dsk 1 + 9"] v0' dn by (simp add: b_def add.commute)
qed

section \<open>The bitmap\<close>

lemma clear_bit_nat:
  "i < 32768 \<Longrightarrow> clear_bit (of_nat (dsk 2)) (of_nat i) v =
     put32 (of_nat (dsk 2 + 4 * (i div 32))) (word_at v (dsk 2 + 4 * (i div 32)) AND NOT (push_bit (i mod 32) 1)) v"
proof -
  assume i: "i < 32768"
  have "(of_nat i :: u32) div 32 = of_nat (i div 32)" "unat ((of_nat i :: u32) mod 32) = i mod 32"
    using i by (simp_all add: word_unat_eq_iff unat_div unat_mod unat_of_nat32)
  then show ?thesis by (simp add: clear_bit_def word_at_def)
qed

lemma clear_bits:
  defines "cleared \<equiv> \<lambda>c v. fold (\<lambda>i. clear_bit (of_nat (dsk 2)) (of_nat i)) [0..<c] v"
  assumes "c \<le> 32768"
  shows "w < 1024 \<Longrightarrow> j < 32 \<Longrightarrow> bit (word_at (cleared c v) (dsk 2 + 4 * w)) j \<longleftrightarrow> bit (word_at v (dsk 2 + 4 * w)) j \<and> c \<le> 32 * w + j"
    "x < 2 ^ 32 \<Longrightarrow> x < dsk 2 \<or> dsk 3 \<le> x \<Longrightarrow> byte_at (cleared c v) x = byte_at v x"
  using assms(2)
proof (induction c)
  case 0
  {
    case 1
    then show ?case by (simp add: cleared_def)
  next
    case 2
    then show ?case by (simp add: cleared_def)
  }
next
  case (Suc c)
  have step: "cleared (Suc c) v = put32 (of_nat (dsk 2 + 4 * (c div 32)))
      (word_at (cleared c v) (dsk 2 + 4 * (c div 32)) AND NOT (push_bit (c mod 32) 1)) (cleared c v)" if "Suc c \<le> 32768"
    using clear_bit_nat [of c "cleared c v"] that by (simp add: cleared_def)
  {
    case 1
    show ?case
    proof (cases "w = c div 32")
      case True
      have e: "word_at (cleared (Suc c) v) (dsk 2 + 4 * w) = word_at (cleared c v) (dsk 2 + 4 * w) AND NOT (push_bit (c mod 32) 1)"
        unfolding step [OF 1(3)] True by (rule word_at_put32_same)
      have ih: "bit (word_at (cleared c v) (dsk 2 + 4 * w)) j \<longleftrightarrow> bit (word_at v (dsk 2 + 4 * w)) j \<and> c \<le> 32 * w + j"
        by (rule Suc.IH(1)) (use 1 in simp_all)
      have s: "Suc c \<le> 32 * w + j \<longleftrightarrow> c \<le> 32 * w + j \<and> j \<noteq> c mod 32"
      proof -
        have "c = 32 * w + c mod 32" using True by simp
        then show ?thesis by linarith
      qed
      show ?thesis unfolding e s using ih 1(2) by (auto simp: bit_simps)
    next
      case False
      have "word_at (cleared (Suc c) v) (dsk 2 + 4 * w) = word_at (cleared c v) (dsk 2 + 4 * w)"
        unfolding step [OF 1(3)] by (rule word_at_put32) (use 1 False in \<open>auto simp: dsk_def\<close>)
      moreover have "Suc c \<le> 32 * w + j \<longleftrightarrow> c \<le> 32 * w + j"
      proof -
        have "c \<noteq> 32 * w + j" using 1(2) False by auto
        then show ?thesis by linarith
      qed
      ultimately show ?thesis using Suc.IH(1) 1 by simp
    qed
  next
    case 2
    have "byte_at (cleared (Suc c) v) x = byte_at (cleared c v) x"
    proof -
      have "4 * (c div 32) + 4 \<le> 4096" using 2(3) by simp
      then show ?thesis
        unfolding step [OF 2(3)] by (intro byte_at_put32) (use 2 in \<open>auto simp: dsk_def\<close>)
    qed
    then show ?case using Suc.IH(2) 2 by simp
  }
qed

lemma blockaddr_dsk: "blockaddr (of_nat b) = of_nat (dsk b)"
  by (simp add: blockaddr_def dsk_def)

lemma get32_ones: "(\<And>i. i < 4 \<Longrightarrow> byte_at v (a + i) = 0xFF) \<Longrightarrow> j < 32 \<Longrightarrow> bit (word_at v a) j"
proof -
  assume o: "\<And>i. i < 4 \<Longrightarrow> byte_at v (a + i) = 0xFF" and j: "j < 32"
  have "word_at v a = word_at (\<lambda>_. 0xFF) a" by (rule word_at_cong) (simp add: o, simp add: byte_at_def)
  also have "\<dots> = (0xFFFFFFFF :: u32)" by (simp add: word_at_def get32_def)
  also have "\<dots> = mask 32" by (simp add: mask_eq_exp_minus_1)
  finally show ?thesis using j by (simp add: bit_simps)
qed

text \<open>Which blocks of the finished image are free.\<close>

lemma image_bitmap:
  assumes d: "diskpos s = of_nat (dsk c)" "hbitmap s = of_nat (dsk 2)" "3 \<le> c" "c < n" "n \<le> 1024"
    and v: "word_at (hm s) (dsk 1 + 4) = of_nat n" "\<And>i. i < 4096 \<Longrightarrow> byte_at (hm s) (dsk 2 + i) = 0xFF"
  shows "nblk (hm (finishdisk s)) = of_nat n" "isfree (hm (finishdisk s)) b \<longleftrightarrow> c \<le> unat b \<and> unat b < n"
    "vol_ok (hm (finishdisk s))" "resv (hm (finishdisk s)) = 3"
    "x < 2 ^ 32 \<Longrightarrow> x < dsk 2 \<or> dsk 3 \<le> x \<Longrightarrow> byte_at (hm (finishdisk s)) x = byte_at (hm s) x"
proof -
  let ?v = "hm (finishdisk s)"
  have bc: "unat (of_nat c :: u32) = c" by (rule unat_of_nat32) (use d in simp)
  have bn: "blockno (diskpos s) = of_nat c" unfolding d(1) by (rule blockno_dsk) (use d in simp)
  have e: "?v = fold (\<lambda>i. clear_bit (of_nat (dsk 2)) (of_nat i)) [0..<c] (hm s)"
    by (simp add: finishdisk_def upd_mem_def bn bc d(2))
  have c: "c \<le> 32768" using d by simp
  show o: "byte_at ?v x = byte_at (hm s) x" if "x < 2 ^ 32" "x < dsk 2 \<or> dsk 3 \<le> x" for x
    unfolding e by (rule clear_bits(2) [OF c that])
  have "word_at ?v (dsk 1 + 4) = word_at (hm s) (dsk 1 + 4)"
    by (rule word_at_cong, rule o) (auto simp: dsk_def)
  then show n: "nblk ?v = of_nat n"
    unfolding v(1) nblk_def using blockaddr_dsk [of 1] by (simp add: word_at_def)
  have n': "unat (of_nat n :: u32) = n" by (rule unat_of_nat32) (use d in simp)
  have free: "isfree ?v b \<longleftrightarrow> c \<le> unat b \<and> unat b < n" for b
  proof (cases "unat b < n")
    case True
    have "(4 * (b div 32) :: u32) = of_nat (4 * (unat b div 32))"
      by (simp add: word_unat_eq_iff unat_bm_word) (use True d in \<open>simp add: unat_word_ariths unat_of_nat32\<close>)
    then have a: "bmaddr b = of_nat (dsk 2 + 4 * (unat b div 32))"
      unfolding bmaddr_def using blockaddr_dsk [of 2] by simp
    have "unat b div 32 < 1024" "unat b mod 32 < 32" using True d by simp_all
    note cb = clear_bits(1) [OF c this, of "hm s", folded e]
    have "bit (word_at (hm s) (dsk 2 + 4 * (unat b div 32))) (unat b mod 32)"
      by (rule get32_ones) (use v(2) [of "4 * (unat b div 32) + _"] True d in \<open>simp_all add: add.assoc\<close>)
    then have "bit (get32 ?v (bmaddr b)) (unat (b mod 32)) \<longleftrightarrow> c \<le> unat b"
      using cb unfolding a word_at_def unat_mod by simp
    then show ?thesis using True n n' by (simp add: isfree_def word_less_nat_alt)
  next
    case False
    then show ?thesis using n n' by (simp add: isfree_def word_less_nat_alt)
  qed
  then show "isfree ?v b \<longleftrightarrow> c \<le> unat b \<and> unat b < n" .
  show r: "resv ?v = 3" using d by (simp add: resv_def n n' div_nat_eqI)
  show "vol_ok ?v" unfolding vol_ok_def r free n using d n' by (simp add: word_le_nat_alt)
qed

end
