(* ===== verification/FsImageProps.thy ===== *)
theory FsImageProps
  imports FsImage
begin

text \<open>
  The image that \<open>fsformat\<close> builds, as the file server will see it: a well-formed volume whose root directory holds the files.
\<close>

section \<open>A file of the image in the server's terms\<close>

lemma blks_le: "len \<le> 4235264 \<Longrightarrow> blks len \<le> 1034"
  unfolding blks_def by linarith

lemma laid_fptr:
  assumes l: "laid z v e st data" and len: "length data \<le> 4235264" and st: "3 \<le> st" "st + extent (length data) < 1024"
  shows "unat k < blks (length data) \<or> z \<Longrightarrow> fptr v (of_nat e) k = (if unat k < blks (length data) then of_nat (st + unat k) else 0)"
    "10 \<le> blks (length data) \<or> z \<Longrightarrow> get32 v (f_indirect (of_nat e)) = (if blks (length data) < 10 then 0 else of_nat (st + blks (length data)))"
    "get32 v (f_size (of_nat e)) = of_nat (length data)"
proof -
  let ?n = "blks (length data)"
  note l' = l [unfolded laid_def Let_def]
  show sz: "get32 v (f_size (of_nat e)) = of_nat (length data)"
    using l' by (simp add: word_at_def f_size_def add.commute)
  show ind: "get32 v (f_indirect (of_nat e)) = (if ?n < 10 then 0 else of_nat (st + ?n))" if "10 \<le> ?n \<or> z"
    using l' that by (simp add: word_at_def f_indirect_def add.commute)
  have kk: "(of_nat (unat k) :: u32) = k" by simp
  show "fptr v (of_nat e) k = (if unat k < ?n then of_nat (st + unat k) else 0)" if kz: "unat k < ?n \<or> z"
  proof (cases "k < NDIRECT")
    case True
    then have k: "unat k < 10" by (simp add: word_less_nat_alt)
    have "f_direct (of_nat e) k = of_nat (e + 136 + 4 * unat k)"
      by (simp add: f_direct_def)
    moreover have "word_at v (e + 136 + 4 * unat k) = (if unat k < ?n then of_nat (st + unat k) else 0)"
      using l' k kz by blast
    ultimately show ?thesis
      using k True by (simp add: fptr_def has_slot_def slot_def word_at_def word_less_nat_alt del: of_nat_add)
  next
    case False
    then have k: "10 \<le> unat k" by (simp add: word_less_nat_alt)
    have iz: "10 \<le> ?n \<or> z" using k kz by linarith
    note ind = ind [OF iz]
    show ?thesis
    proof (cases "has_slot v (of_nat e) k")
      case h: True
      have nz: "10 \<le> ?n" and k2: "unat k < 1034" using h False ind by (auto simp: has_slot_def word_less_nat_alt split: if_splits)
      have "(of_nat (unat k - 10) :: u32) = k - 10" using k by (simp add: of_nat_diff)
      then have "slot v (of_nat e) k = of_nat (dsk (st + ?n) + 4 * (unat k - 10))"
        using False nz blockaddr_dsk [of "st + ?n"] by (simp add: slot_def ind)
      moreover have "word_at v (dsk (st + ?n) + 4 * (unat k - 10)) = (if unat k - 10 + 10 < ?n then of_nat (st + 10 + (unat k - 10)) else 0)"
        using l' nz k2 by simp
      ultimately have "get32 v (slot v (of_nat e) k) = (if unat k < ?n then of_nat (st + unat k) else 0)"
        using k by (simp add: word_at_def del: of_nat_add)
      then show ?thesis using h by (simp add: fptr_def)
    next
      case h: False
      have "\<not> unat k < ?n"
      proof
        assume "unat k < ?n"
        moreover from this have "10 \<le> ?n" "unat k < 1034" using k blks_le [OF len] by simp_all
        moreover have "(of_nat (st + ?n) :: u32) \<noteq> 0"
        proof -
          have "st + ?n < 2 ^ 32" using st(2) by (simp add: extent_def split: if_splits)
          then show ?thesis using unat_of_nat32 [of "st + ?n"] st(1) by auto
        qed
        ultimately show False using h ind by (simp add: has_slot_def word_less_nat_alt del: of_nat_add)
      qed
      then show ?thesis using h by (simp add: fptr_def)
    qed
  qed
qed

text \<open>A file outside its own blocks is well formed when its blocks are in use.\<close>

lemma laid_file_ok:
  assumes l: "laid True v e st data" and len: "length data \<le> 4235264" and st: "3 \<le> st" "st + extent (length data) \<le> c"
    and v: "nblk v = of_nat n" "n \<le> 1024" "c < n" "resv v = 3" "\<And>b. isfree v b \<longleftrightarrow> c \<le> unat b \<and> unat b < n"
    and e: "e = dsk b + x" "x + 256 \<le> 4096" "x mod 4 = 0" "b = 1 \<and> 8 \<le> x \<or> 3 \<le> b \<and> b < c" "b < st \<or> st + extent (length data) \<le> b"
  shows "file_ok v (of_nat e)"
proof -
  let ?n = "blks (length data)"
  have st2: "st + extent (length data) < 1024" using st v by simp
  note fp = laid_fptr [OF l len st(1) st2, simplified]
  have small: "unat (of_nat y :: u32) = y" if "y < 4096" for y by (rule unat_of_nat32) (use that in simp)
  have nx: "?n \<le> extent (length data)" "10 \<le> ?n \<Longrightarrow> extent (length data) = Suc ?n" by (simp_all add: extent_def)
  have used: "datab v (of_nat y)" if "3 \<le> y" "y < c" for y
    using v that small [of y] small [of n] by (simp add: datab_def word_less_nat_alt)
  have bl: "(of_nat b :: u32) < 0xC0000" using e(4) v small [of b] by (auto simp: word_less_nat_alt)
  have ea: "of_nat e = blockaddr (of_nat b) + of_nat x" unfolding e(1) blockaddr_dsk by simp
  have xs: "unat (of_nat x :: u32) < 4096" "unat (of_nat x :: u32) = x" using e(2) small [of x] by simp_all
  note bo = blockaddr_offset [OF bl xs(1), folded ea]
  have al: "(of_nat e :: u32) mod 4 = 0"
    unfolding ea by (rule blockaddr_aligned) (use e(3) xs in \<open>simp add: unat_aligned\<close>)
  have bs: "b < 4096" using e(4) v by auto
  have at: "file_at v (of_nat e)"
    unfolding file_at_def using bo al xs(2) e(2,4) used [of b] by auto
  have ind: "get32 v (f_indirect (of_nat e)) \<noteq> 0 \<Longrightarrow> 10 \<le> ?n \<and> get32 v (f_indirect (of_nat e)) = of_nat (st + ?n)"
    unfolding fp(2) by (auto split: if_splits)
  have ptr: "fptr v (of_nat e) k \<noteq> 0 \<Longrightarrow> unat k < ?n \<and> fptr v (of_nat e) k = of_nat (st + unat k)" for k
    unfolding fp(1) by (auto split: if_splits)
  have ne: "(of_nat y :: u32) \<noteq> of_nat z" if "y < 1024" "z < 4096" "y \<noteq> z" for y z
    using of_nat_eq32 [of y z] that by simp
  have p: "datab v (fptr v (of_nat e) k) \<and> fptr v (of_nat e) k \<noteq> blockno (of_nat e) \<and>
      fptr v (of_nat e) k \<noteq> get32 v (f_indirect (of_nat e))" if nz: "fptr v (of_nat e) k \<noteq> 0" for k
  proof -
    have k: "unat k < ?n" "fptr v (of_nat e) k = of_nat (st + unat k)" using ptr [OF nz] by auto
    have lt: "st + unat k < c" "st + unat k < 1024" "st + unat k \<noteq> b" using k(1) st st2 nx(1) e(5) by auto
    have "fptr v (of_nat e) k \<noteq> get32 v (f_indirect (of_nat e))"
    proof (cases "get32 v (f_indirect (of_nat e)) = 0")
      case False
      then show ?thesis unfolding k(2) using ind [OF False] ne [of "st + unat k" "st + ?n"] k(1) st2 nx by simp
    qed (use nz in simp)
    then show ?thesis
      using used [of "st + unat k"] ne [OF lt(2) bs lt(3)] lt st(1) bo(2) unfolding k(2) by simp
  qed
  have inj: "k = j" if "fptr v (of_nat e) k = fptr v (of_nat e) j" "fptr v (of_nat e) k \<noteq> 0" for k j
  proof -
    have "unat k < ?n" "unat j < ?n" "(of_nat (st + unat k) :: u32) = of_nat (st + unat j)"
      using ptr [of k] ptr [of j] that by auto
    then have "unat k = unat j"
      using of_nat_eq32 [of "st + unat k" "st + unat j"] st2 nx(1) by auto
    then show ?thesis by (simp add: word_unat_eq_iff)
  qed
  have i: "datab v (get32 v (f_indirect (of_nat e))) \<and> get32 v (f_indirect (of_nat e)) \<noteq> blockno (of_nat e)"
    if nz: "get32 v (f_indirect (of_nat e)) \<noteq> 0"
  proof -
    have k: "10 \<le> ?n" "get32 v (f_indirect (of_nat e)) = of_nat (st + ?n)" using ind [OF nz] by auto
    have lt: "st + ?n < c" "st + ?n < 1024" "st + ?n \<noteq> b" using nx(2) [OF k(1)] st st2 e(5) by auto
    show ?thesis unfolding k(2) using used [of "st + ?n"] ne [OF lt(2) bs lt(3)] lt st(1) bo(2) by simp
  qed
  show ?thesis unfolding file_ok_def using at p inj i by blast
qed

section \<open>The image\<close>

text \<open>The blocks of a file hold \<open>data\<close>; the entry at \<open>f\<close> has a name; the \<open>i\<close>-th entry of the root directory.\<close>

definition holds :: "mem \<Rightarrow> u32 \<Rightarrow> u8 list \<Rightarrow> bool" where
  "holds v f data \<longleftrightarrow> get32 v (f_size f) = of_nat (length data) \<and>
     (\<forall>j < length data. fptr v f (of_nat (j div 4096)) \<noteq> 0 \<and>
        v (blockaddr (fptr v f (of_nat (j div 4096))) + of_nat (j mod 4096)) = data ! j)"

definition named :: "mem \<Rightarrow> u32 \<Rightarrow> u8 list \<Rightarrow> bool" where
  "named v f name \<longleftrightarrow> (\<forall>j \<le> length name. v (f + of_nat j) = (name @ [0]) ! j)"

abbreviation (input) root_entry :: u32 where
  "root_entry \<equiv> blockaddr 1 + 8"

definition root_slot :: "mem \<Rightarrow> nat \<Rightarrow> u32" where
  "root_slot v i = blockaddr (fptr v root_entry (of_nat (i div 16))) + of_nat (256 * (i mod 16))"

text \<open>
  A well-formed volume of \<open>n\<close> blocks whose root directory has an entry for every file, in their order, with its name and its
  contents; the other entries of its blocks are unused, and no two files share a block.  This holds for any memory of the
  entries.  When it was zero, the entries describe nothing but their files, so every file is well formed.
\<close>

definition image_holds :: "u32 \<Rightarrow> (u8 list \<times> u8 list) list \<Rightarrow> mem \<Rightarrow> bool" where
  "image_holds n files v \<longleftrightarrow>
     get32 v (blockaddr 1) = FS_MAGIC \<and> nblk v = n \<and> vol_ok v \<and>
     file_ok v root_entry \<and> get32 v (f_type root_entry) = FTYPE_DIR \<and> named v root_entry [0x2F] \<and>
     unat (get32 v (f_size root_entry)) = 4096 * ((length files + 15) div 16) \<and>
     (\<forall>i < length files. get32 v (f_type (root_slot v i)) = 0 \<and>
        named v (root_slot v i) (basename (fst (files ! i))) \<and> holds v (root_slot v i) (snd (files ! i))) \<and>
     (\<forall>i < 16 * ((length files + 15) div 16). length files \<le> i \<longrightarrow> v (root_slot v i) = 0) \<and>
     (\<forall>i j k k'. i < j \<and> j < length files \<and> unat k < blks (length (snd (files ! i))) \<and> unat k' < blks (length (snd (files ! j))) \<longrightarrow>
        fptr v (root_slot v i) k \<noteq> fptr v (root_slot v j) k')"

definition image_of :: "u32 \<Rightarrow> (u8 list \<times> u8 list) list \<Rightarrow> mem \<Rightarrow> bool" where
  "image_of n files v \<longleftrightarrow> image_holds n files v \<and>
     (\<forall>i < length files. file_ok v (root_slot v i) \<and>
        (\<forall>k. fptr v (root_slot v i) k \<noteq> 0 \<longleftrightarrow> unat k < blks (length (snd (files ! i)))))"

lemma laid_holds:
  assumes l: "laid z v e st data" and len: "length data \<le> 4235264" and st: "3 \<le> st" "st + extent (length data) < 1024"
  shows "holds v (of_nat e) data"
proof -
  note fp = laid_fptr [OF assms]
  have "fptr v (of_nat e) (of_nat (j div 4096)) \<noteq> 0 \<and>
      v (blockaddr (fptr v (of_nat e) (of_nat (j div 4096))) + of_nat (j mod 4096)) = data ! j" if j: "j < length data" for j
  proof -
    have k: "j div 4096 < blks (length data)" using j unfolding blks_def by linarith
    then have lt: "st + j div 4096 < 1024" using st(2) by (simp add: extent_def split: if_splits)
    have u: "unat (of_nat (j div 4096) :: u32) = j div 4096" by (rule unat_of_nat32) (use lt in simp)
    have p: "fptr v (of_nat e) (of_nat (j div 4096)) = of_nat (st + j div 4096)" using fp(1) [of "of_nat (j div 4096)"] u k by simp
    have "(of_nat (st + j div 4096) :: u32) \<noteq> 0" using of_nat_eq32 [of "st + j div 4096" 0] lt st(1) by simp
    moreover have "(of_nat (dsk (st + j div 4096)) + of_nat (j mod 4096) :: u32) = of_nat (dsk st + j)"
    proof -
      have "dsk (st + j div 4096) + j mod 4096 = dsk st + j" by (simp add: dsk_def algebra_simps)
      then show ?thesis by (metis of_nat_add)
    qed
    ultimately show ?thesis
      using l j unfolding p blockaddr_dsk laid_def Let_def byte_at_def by simp
  qed
  then show ?thesis using fp(3) by (simp add: holds_def)
qed

text \<open>The bitmap does not touch what is laid out.\<close>

lemma laid_out_keep:
  assumes l: "laid_out z n files q data v" and q: "q = start files (length files)" and lt: "q + blks (256 * length files) < 1024"
    and k: "0 < length files" "length files \<le> 128"
    and o: "\<And>x. x < 2 ^ 32 \<Longrightarrow> x < dsk 2 \<or> dsk 3 \<le> x \<Longrightarrow> byte_at v' x = byte_at v x"
  shows "laid_out z n files q data v'"
proof -
  note l' = l [unfolded laid_out_def]
  have len: "length data = 4096 * blks (256 * length files)" using l' by blast
  have b8: "blks (256 * length files) \<le> 8" "1 \<le> blks (256 * length files)" "256 * length files \<le> 4096 * blks (256 * length files)"
    using k unfolding blks_def by linarith+
  have x: "extent (length data) = blks (256 * length files)" unfolding len using b8 by (simp add: extent_def blks_full)
  have q3: "3 \<le> q" by (simp add: q start_def)
  have dn: "dsk 3 \<le> dsk q" "dsk q + 4096 * blks (256 * length files) = dsk (q + blks (256 * length files))"
    "dsk (q + blks (256 * length files)) < 2 ^ 32" "dsk 1 + 4096 = dsk 2"
    using lt q3 by (simp_all add: dsk_def)
  have w: "word_at v' y = word_at v y" if "y + 4 \<le> dsk 2" for y
    by (rule word_at_cong, rule o) (use that dn in \<open>auto simp: dsk_def\<close>)
  have "laid True v' (dsk 1 + 8) q data"
  proof (rule laid_move)
    show "laid True v (dsk 1 + 8) q data" using l' by blast
    show "byte_at v' (dsk 1 + 8 + i) = byte_at v (dsk 1 + 8 + i)" if "i < 256" for i
      by (rule o) (use that in \<open>auto simp: dsk_def\<close>)
    show "byte_at v' y = byte_at v y" if "dsk q \<le> y" "y < dsk (q + extent (length data))" for y
      by (rule o) (use that dn x in auto)
  qed
  moreover have "built z v' (dsk q + 256 * i) (start files i) (files ! i)" if i: "i < length files" for i
  proof (rule built_move)
    show "built z v (dsk q + 256 * i) (start files i) (files ! i)" using l' i by blast
    show "byte_at v' (dsk q + 256 * i + j) = byte_at v (dsk q + 256 * i + j)" if "j < 256" for j
      by (rule o) (use that i dn b8 in auto)
    show "byte_at v' y = byte_at v y" if "dsk (start files i) \<le> y" "y < dsk (start files i + extent (length (snd (files ! i))))" for y
    proof -
      have "start files i + extent (length (snd (files ! i))) \<le> q"
        using start_Suc [OF i] start_mono [of "Suc i" "length files" files] i by (simp add: q)
      then have "y < dsk q" "dsk 3 \<le> y" using that by (auto simp: dsk_def start_def)
      then show ?thesis using o [of y] dn by simp
    qed
  qed
  moreover have "byte_at v' (dsk 1 + 8) = byte_at v (dsk 1 + 8)" "byte_at v' (dsk 1 + 8 + 1) = byte_at v (dsk 1 + 8 + 1)"
    by (rule o, simp_all add: dsk_def)+
  ultimately show ?thesis
    unfolding laid_out_def using l' w [of "dsk 1"] w [of "dsk 1 + 4"] w [of "dsk 1 + 8 + 132"] by (simp add: dsk_def)
qed

lemma dsk_slot: "dsk q + 256 * i = dsk (q + i div 16) + 256 * (i mod 16)"
proof -
  define a r where "a = i div 16" and "r = i mod 16"
  then have i: "i = a * 16 + r" by (simp only: div_mult_mod_eq)
  show ?thesis unfolding dsk_def a_def [symmetric] r_def [symmetric] by (simp add: i algebra_simps)
qed

lemma root_block: "k < 16 * m \<Longrightarrow> k div 16 < (m :: nat)"
  by (simp add: less_mult_imp_div_less)

lemma image_laid_out:
  assumes l: "laid_out z n files q data v" and q: "q = start files (length files)" "q + blks (256 * length files) = c"
    and k: "0 < length files" "length files \<le> 128" and big: "\<And>x. x \<in> set files \<Longrightarrow> length (snd x) \<le> 4235264"
    and un: "\<And>i. 256 * length files \<le> i \<Longrightarrow> i < length data \<Longrightarrow> data ! i = 0"
    and v: "nblk v = of_nat n" "n \<le> 1024" "c < n" "resv v = 3" "\<And>b. isfree v b \<longleftrightarrow> c \<le> unat b \<and> unat b < n" "vol_ok v"
  shows "image_holds (of_nat n) files v" "z \<Longrightarrow> image_of (of_nat n) files v"
proof -
  note l' = l [unfolded laid_out_def]
  let ?m = "blks (256 * length files)"
  have m: "?m = (length files + 15) div 16" 
  proof -
    have "(256 * length files + 4095) div (256 * 16) = (256 * length files + 4095) div 256 div 16" by (rule div_mult2_eq)
    moreover have "(256 * length files + 4095) div 256 = length files + 15" by simp
    ultimately show ?thesis by (simp add: blks_def)
  qed
  have len: "length data = 4096 * ?m" using l' by blast
  have b8: "?m \<le> 8" "1 \<le> ?m" "256 * length files \<le> 4096 * ?m" using k unfolding blks_def by linarith+
  have x: "extent (length data) = ?m" "blks (length data) = ?m" unfolding len using b8 by (simp_all add: extent_def blks_full)
  have q3: "3 \<le> q" by (simp add: q start_def)
  have root: "root_entry = of_nat (dsk 1 + 8)" using blockaddr_dsk [of 1] by simp
  have lr: "laid True v (dsk 1 + 8) q data" using l' by blast
  have dl: "length data \<le> 4235264" using len b8 by simp
  have q2: "q + extent (length data) < 1024" using x q v by simp
  note fr = laid_fptr [OF lr dl q3 q2, folded root, simplified]
  have rok: "file_ok v root_entry"
    unfolding root by (rule laid_file_ok [OF lr dl q3 _ v(1-5), of 1 8]) (use x q q3 in simp_all)
  have slot: "root_slot v i = of_nat (dsk q + 256 * i)" if i: "i < 16 * ?m" for i
  proof -
    have d: "i div 16 < ?m" by (rule root_block [OF i])
    have u: "unat (of_nat (i div 16) :: u32) = i div 16" by (rule unat_of_nat32) (use d b8 in simp)
    have "fptr v root_entry (of_nat (i div 16)) = of_nat (q + i div 16)"
      unfolding fr(1) u x using d by simp
    then show ?thesis unfolding root_slot_def dsk_slot [of q i] using blockaddr_dsk [of "q + i div 16"] by (metis of_nat_add)
  qed
  have le: "length files \<le> 16 * ?m" using b8(3) by simp
  have fs: "laid z v (dsk q + 256 * i) (start files i) (snd (files ! i)) \<and> length (snd (files ! i)) \<le> 4235264 \<and> 3 \<le> start files i \<and>
      start files i + extent (length (snd (files ! i))) \<le> q \<and> start files i + extent (length (snd (files ! i))) < 1024" if i: "i < length files" for i
  proof -
    have "start files i + extent (length (snd (files ! i))) \<le> q"
      using start_Suc [OF i] start_mono [of "Suc i" "length files" files] i by (simp add: q)
    then show ?thesis using l' i big [of "files ! i"] q2 by (simp add: built_def start_def)
  qed
  have fok: "(z \<longrightarrow> file_ok v (root_slot v i)) \<and> get32 v (f_type (root_slot v i)) = 0 \<and>
        named v (root_slot v i) (basename (fst (files ! i))) \<and> holds v (root_slot v i) (snd (files ! i))" if i: "i < length files" for i
  proof -
    have i': "i < 16 * ?m" using i le by simp
    note f = fs [OF i]
    have d: "i div 16 < ?m" by (rule root_block [OF i'])
    have "file_ok v (of_nat (dsk q + 256 * i))" if z
      by (rule laid_file_ok [OF _ _ _ _ v(1-5) dsk_slot]) (use f q d q3 that in \<open>auto simp: mod_mult_left_eq\<close>)
    moreover have "holds v (of_nat (dsk q + 256 * i)) (snd (files ! i))" by (rule laid_holds) (use f in auto)
    moreover have b: "built z v (dsk q + 256 * i) (start files i) (files ! i)" using l' i by blast
    then have "get32 v (f_type (of_nat (dsk q + 256 * i))) = 0" by (simp add: built_def word_at_def f_type_def add.commute)
    moreover have "named v (of_nat (dsk q + 256 * i)) (basename (fst (files ! i)))"
      using b unfolding built_def named_def byte_at_def by simp
    ultimately show ?thesis unfolding slot [OF i'] by blast
  qed
  have ptr: "fptr v (root_slot v i) a = (if unat a < blks (length (snd (files ! i))) then of_nat (start files i + unat a) else 0)"
    if i: "i < length files" "unat a < blks (length (snd (files ! i))) \<or> z" for i a
  proof -
    have i': "i < 16 * ?m" using i(1) le by simp
    show ?thesis unfolding slot [OF i'] by (rule laid_fptr(1) [OF _ _ _ _ i(2)]) (use fs [OF i(1)] in auto)
  qed
  have bx: "blks (length y) \<le> extent (length y)" for y :: "u8 list" by (simp add: extent_def)
  have un': "v (root_slot v i) = 0" if i: "i < 16 * ?m" "length files \<le> i" for i
  proof -
    have "256 * i < length data" using i(1) len by simp
    moreover from this have "byte_at v (dsk q + 256 * i) = data ! (256 * i)" using lr unfolding laid_def Let_def by blast
    ultimately show ?thesis using un [of "256 * i"] i(2) unfolding slot [OF i(1)] byte_at_def by simp
  qed
  have dis: "fptr v (root_slot v i) a \<noteq> fptr v (root_slot v j) a'"
    if ij: "i < j" "j < length files" and a: "unat a < blks (length (snd (files ! i)))" "unat a' < blks (length (snd (files ! j)))" for i j a a'
  proof -
    have i: "i < length files" using ij by simp
    have "start files i + unat a < start files j"
      using start_Suc [OF i] start_mono [of "Suc i" j files] ij(1) a(1) bx [of "snd (files ! i)"] by simp
    moreover have "start files j + unat a' < 1024" using fs [OF ij(2)] a(2) bx [of "snd (files ! j)"] by simp
    ultimately have "(of_nat (start files i + unat a) :: u32) \<noteq> of_nat (start files j + unat a')"
      using of_nat_eq32 [of "start files i + unat a" "start files j + unat a'"] by simp
    then show ?thesis using ptr [OF i, of a] ptr [OF ij(2), of a'] a by simp
  qed
  have nz: "fptr v (root_slot v i) a \<noteq> 0 \<longleftrightarrow> unat a < blks (length (snd (files ! i)))" if z "i < length files" for i a
  proof (cases "unat a < blks (length (snd (files ! i)))")
    case True
    have "start files i + unat a < 1024" "0 < start files i"
      using fs [OF that(2)] True bx [of "snd (files ! i)"] by simp_all
    then have "(of_nat (start files i + unat a) :: u32) \<noteq> 0" using of_nat_eq32 [of "start files i + unat a" 0] by simp
    then show ?thesis using ptr [OF that(2), of a] True by simp
  qed (use ptr [OF that(2), of a] that(1) in simp)
  have sz: "unat (get32 v (f_size root_entry)) = 4096 * ?m"
    unfolding fr(3) len by (rule unat_of_nat32) (use b8 in simp)
  have nm: "named v root_entry [0x2F]"
  proof -
    have "v (of_nat (dsk 1 + 8 + j)) = [0x2F, 0] ! j" if "j \<le> 1" for j
    proof -
      have "j = 0 \<or> j = 1" using that by auto
      then show ?thesis using l' unfolding byte_at_def by auto
    qed
    then show ?thesis unfolding named_def root of_nat_add [symmetric] by simp
  qed
  have "get32 v (blockaddr 1) = FS_MAGIC" "get32 v (f_type root_entry) = FTYPE_DIR"
    using l' blockaddr_dsk [of 1] by (simp_all add: word_at_def f_type_def root add.commute)
  then show h: "image_holds (of_nat n) files v"
    unfolding image_holds_def using v rok nm sz fok un' dis m by simp
  show "image_of (of_nat n) files v" if z
    unfolding image_of_def using h fok nz that by blast
qed

section \<open>When the program succeeds\<close>

lemma alloc_some:
  assumes "diskpos s = of_nat (dsk q)" "nblocks s = of_nat n" "q + blks len < n" "n \<le> 1024" "len \<le> 4235264"
  shows "\<exists>p s'. alloc (of_nat len) s = Some (p, s')"
proof -
  have e: "diskpos s + roundup (of_nat len) = of_nat (dsk (q + blks len))"
    using assms(1,5) by (simp add: roundup_of_nat dsk_def algebra_simps)
  have b: "blockno (of_nat (dsk (q + blks len))) = of_nat (q + blks len)" by (rule blockno_dsk) (use assms in simp)
  have u: "unat (of_nat (q + blks len) :: u32) = q + blks len" "unat (of_nat n :: u32) = n"
    by (rule unat_of_nat32, use assms(3,4) in simp)+
  have "\<not> nblocks s \<le> of_nat (q + blks len)" unfolding assms(2) word_le_nat_alt u using assms(3) by simp
  then show ?thesis unfolding alloc_def Let_def e by (simp add: b del: of_nat_add)
qed

lemma finishfile_some:
  assumes s: "diskpos s = of_nat (dsk (st + blks len))" "nblocks s = of_nat n" "st + extent len < n" "n \<le> 1024" "len \<le> 4235264"
  shows "\<exists>s'. finishfile (of_nat e) (of_nat st) (of_nat len) s = Some s'"
proof -
  let ?n = "blks len"
  have b: "unat (roundup (of_nat len) div 0x1000 :: u32) = ?n"
    using s(5) blks_le [OF s(5)] by (simp add: roundup_of_nat unat_div unat_of_nat32 del: of_nat_mult)
  show ?thesis
  proof (cases "?n < 10")
    case True
    then show ?thesis unfolding finishfile_def Let_def b by simp
  next
    case False
    have "blks 4096 = 1" by (simp add: blks_def)
    then have "\<exists>p t. alloc (of_nat 4096) u = Some (p, t)" if "diskpos u = diskpos s" "nblocks u = nblocks s" for u
      by (intro alloc_some [of _ "st + ?n" n]) (use that s False in \<open>simp_all add: extent_def\<close>)
    from this [of "upd_mem (store_run (f_direct (of_nat e) 0) (of_nat st) (min ?n 10)) (upd_mem (put32 (f_size (of_nat e)) (of_nat len)) s)"]
    obtain p t where "alloc (of_nat 4096) (upd_mem (store_run (f_direct (of_nat e) 0) (of_nat st) (min ?n 10))
        (upd_mem (put32 (f_size (of_nat e)) (of_nat len)) s)) = Some (p, t)" by (auto simp: upd_mem_def)
    then show ?thesis unfolding finishfile_def Let_def b using False by simp
  qed
qed

lemma writefile_some:
  assumes d: "d_n d < 128" "length (snd f) < 4235264"
    and s: "diskpos s = of_nat (dsk q)" "nblocks s = of_nat n" "q + extent (length (snd f)) < n" "n \<le> 1024"
  shows "\<exists>d' s'. writefile d f s = Some (d', s')"
proof -
  obtain name data where f: "f = (name, data)" by (metis surj_pair)
  let ?out = "d_ents d + 256 * of_nat (d_n d)"
  define s1 where "s1 = upd_mem (put32 (f_type ?out) 0) (upd_mem (host_put ?out (basename name @ [0])) s)"
  have a: "diradd d 0 (basename name) s = Some (?out, d\<lparr>d_n := d_n d + 1\<rparr>, s1)"
    using d(1) by (simp add: diradd_def Let_def s1_def)
  have d1: "diskpos s1 = of_nat (dsk q)" "nblocks s1 = of_nat n" using s by (simp_all add: s1_def upd_mem_def)
  have lt: "q + blks (length data) < n" using s(3) f by (simp add: extent_def split: if_splits)
  have l: "length data \<le> 4235264" using d(2) f by simp
  obtain p s2 where al: "alloc (of_nat (length data)) s1 = Some (p, s2)" using alloc_some [OF d1 lt s(4) l] by blast
  have s2: "p = of_nat (dsk q)" "s2 = s1\<lparr>diskpos := of_nat (dsk (q + blks (length data)))\<rparr>"
    using alloc_ok [OF al d1] lt s(4) l by simp_all
  have bp: "blockno p = of_nat q" unfolding s2 by (rule blockno_dsk) (use lt s(4) in simp)
  have o: "?out = of_nat (unat ?out)" by simp
  have "\<exists>s'. finishfile ?out (of_nat q) (of_nat (length data)) (upd_mem (host_put p data) s2) = Some s'"
    by (subst o, rule finishfile_some [of _ q _ n]) (use s(3,4) l f in \<open>simp_all add: s2 upd_mem_def d1\<close>)
  then show ?thesis unfolding writefile_def f using a al bp l d(2) f by auto
qed

lemma writefiles_some:
  assumes "length done_files + length files \<le> 128" "\<And>f. f \<in> set files \<Longrightarrow> length (snd f) < 4235264" "n \<le> 1024"
    "diskpos s = of_nat (dsk (start (done_files @ files) (length done_files)))" "nblocks s = of_nat n"
    "start (done_files @ files) (length (done_files @ files)) < n"
  shows "\<exists>d' s'. writefiles \<lparr>d_f = r, d_ents = of_nat heap, d_n = length done_files\<rparr> files s = Some (d', s')"
  using assms(1,2,4,5,6)
proof (induction files arbitrary: done_files s)
  case Nil
  then show ?case by simp
next
  case (Cons x xs)
  let ?all = "done_files @ x # xs" and ?j = "length done_files"
  have nx: "start ?all (Suc ?j) = start ?all ?j + extent (length (snd x))" by (subst start_Suc) simp_all
  moreover have "start ?all (Suc ?j) \<le> start ?all (length ?all)" by (rule start_mono) simp
  ultimately have lt: "start ?all ?j + extent (length (snd x)) < n" using Cons.prems(5) by simp
  have d: "d_n \<lparr>d_f = r, d_ents = of_nat heap, d_n = ?j\<rparr> < 128" "length (snd x) < 4235264" using Cons.prems(1,2) by simp_all
  obtain d1 s1 where w: "writefile \<lparr>d_f = r, d_ents = of_nat heap, d_n = ?j\<rparr> x s = Some (d1, s1)"
    using writefile_some [OF d Cons.prems(3,4) lt assms(3)] by blast
  have ok: "d1 = \<lparr>d_f = r, d_ents = of_nat heap, d_n = Suc ?j\<rparr>"
    "diskpos s1 = of_nat (dsk (start ?all ?j + extent (length (snd x))))" "nblocks s1 = of_nat n"
    using writefile_ok [OF w _ refl Cons.prems(3,4)] lt assms(3) Cons.prems(4) by simp_all
  have "\<exists>d' s'. writefiles \<lparr>d_f = r, d_ents = of_nat heap, d_n = length (done_files @ [x])\<rparr> xs s1 = Some (d', s')"
    by (rule Cons.IH) (use Cons.prems ok nx in simp_all)
  then show ?case using w ok(1) by auto
qed

lemma finishdir_some:
  assumes d: "d = \<lparr>d_f = of_nat r, d_ents = heap, d_n = k\<rparr>" "0 < k" "k \<le> 128"
    and s: "diskpos s = of_nat (dsk q)" "nblocks s = of_nat n" "q + blks (256 * k) < n" "n \<le> 1024"
  shows "\<exists>s'. finishdir d s = Some s'"
proof -
  let ?sz = "256 * k" and ?b = "blks (256 * k)"
  have b8: "?b \<le> 8" using d(3) unfolding blks_def by linarith
  have z: "int k * 256 = int ?sz" by simp
  have w: "word_of_int (roundup_int (int ?sz)) = (of_nat (4096 * ?b) :: u32)" "word_of_int (int ?sz) = (of_nat ?sz :: u32)"
    using roundup_int_pos [of ?sz] d(2) by (simp_all del: of_nat_mult)
  have sz: "?sz \<le> 4235264" using d(3) by simp
  obtain p s1 where a: "alloc (of_nat ?sz) s = Some (p, s1)" using alloc_some [OF s sz] by blast
  have s1: "p = of_nat (dsk q)" "s1 = s\<lparr>diskpos := of_nat (dsk (q + ?b))\<rparr>"
    using alloc_ok [OF a s(1,2)] s sz by simp_all
  have bp: "blockno p = of_nat q" unfolding s1 by (rule blockno_dsk) (use s in simp)
  have "\<exists>s'. finishfile (of_nat r) (of_nat q) (of_nat (4096 * ?b)) (upd_mem (blit p heap (of_nat ?sz)) s1) = Some s'"
    by (rule finishfile_some [of _ _ _ n]) (use s b8 in \<open>simp_all add: s1 upd_mem_def blks_full extent_def\<close>)
  then show ?thesis unfolding finishdir_def Let_def d(1) dir_buf.simps z w using a bp by simp
qed

lemma opendisk_some:
  assumes n: "3 < n" "n \<le> 1024"
  shows "\<exists>s. opendisk (of_nat n) m = Some s"
proof -
  have one: "blks 4096 = 1" by (simp add: blks_def)
  have some: "\<exists>p t. alloc (of_nat 4096) u = Some (p, t) \<and> p = of_nat (dsk q) \<and> t = u\<lparr>diskpos := of_nat (dsk (q + 1))\<rparr>"
    if u: "diskpos u = of_nat (dsk q)" "nblocks u = of_nat n" "q \<le> 2" for u q
  proof -
    have lt: "q + blks 4096 < n" using u n one by simp
    obtain p t where a: "alloc (of_nat 4096) u = Some (p, t)" using alloc_some [OF u(1,2) lt n(2)] by auto
    then show ?thesis using alloc_ok [OF a u(1,2)] u n one by simp
  qed
  have b: "(of_nat n + 0x8000 - 1 :: u32) div 0x8000 = 1" by (rule bitmap_blocks) (use n in simp_all)
  define s0 where "s0 = \<lparr>hm = (\<lambda>x. if x - 0x10000000 < of_nat n * 0x1000 then 0 else m x), diskpos = 0x10000000, nblocks = of_nat n, hsuper = 0, hbitmap = 0\<rparr>"
  have s0: "diskpos s0 = of_nat (dsk 0)" "nblocks s0 = of_nat n" by (simp_all add: s0_def dsk_def)
  obtain p t where a0: "alloc 0x1000 s0 = Some (p, t)" "t = s0\<lparr>diskpos := of_nat (dsk 1)\<rparr>" using some [OF s0] by auto
  obtain p1 t1 where a1: "alloc 0x1000 t = Some (p1, t1)" "t1 = t\<lparr>diskpos := of_nat (dsk 2)\<rparr>"
    using some [of t 1] a0(2) s0 by (auto simp: numeral_2_eq_2)
  have "\<exists>p t. alloc 0x1000 u = Some (p, t)" if "diskpos u = diskpos t1" "nblocks u = nblocks t1" for u
    using some [of u 2] that a1(2) a0(2) s0 by auto
  then obtain p2 t2 where "alloc 0x1000 (upd_mem (host_put (p1 + 8) [0x2F, 0]) (upd_mem (put32 (f_type (p1 + 8)) 1)
      (upd_mem (put32 (p1 + 4) (of_nat n)) (upd_mem (put32 p1 0x4A0530AE) (t1\<lparr>hsuper := p1\<rparr>))))) = Some (p2, t2)"
    by (fastforce simp: upd_mem_def)
  then show ?thesis
    unfolding opendisk_def Let_def b s0_def [symmetric] using a0(1) a1(1) by simp
qed

section \<open>The whole program\<close>

definition image_fits :: "nat \<Rightarrow> (u8 list \<times> u8 list) list \<Rightarrow> bool" where
  "image_fits n files \<longleftrightarrow> length files \<le> 128 \<and> (\<forall>f \<in> set files. length (snd f) < 4235264) \<and>
     3 + sum_list (map (\<lambda>f. extent (length (snd f))) files) + (length files + 15) div 16 < n"

lemma dir_blocks: "blks (256 * k) = (k + 15) div 16"
proof -
  have "(256 * k + 4095) div (256 * 16) = (256 * k + 4095) div 256 div 16" by (rule div_mult2_eq)
  moreover have "(256 * k + 4095) div 256 = k + 15" by simp
  ultimately show ?thesis by (simp add: blks_def)
qed

lemma image_fits_start: "image_fits n files \<longleftrightarrow> length files \<le> 128 \<and> (\<forall>f \<in> set files. length (snd f) < 4235264) \<and>
     start files (length files) + blks (256 * length files) < n"
  by (simp add: image_fits_def start_def dir_blocks)

lemma writefiles_sizes: "writefiles d files s = Some r \<Longrightarrow> \<forall>f \<in> set files. length (snd f) < 4235264"
proof (induction files arbitrary: d s)
  case (Cons x xs)
  then obtain d1 s1 where w: "writefile d x s = Some (d1, s1)" "writefiles d1 xs s1 = Some r" by (auto split: bind_splits)
  then have "length (snd x) < 4235264" unfolding writefile_def by (auto split: prod.splits if_splits)
  then show ?case using Cons.IH [OF w(2)] by simp
qed simp

lemma root_data_unused: "256 * k \<le> i \<Longrightarrow> i < length (root_data v heap (256 * k)) \<Longrightarrow> root_data v heap (256 * k) ! i = 0"
  by (simp add: root_data_def)

text \<open>The first stage: an opened disk; the memory that \<open>malloc\<close> returned is zero or not.\<close>

definition zeroed :: "nat \<Rightarrow> mem \<Rightarrow> bool" where
  "zeroed heap m \<longleftrightarrow> (\<forall>x. heap \<le> x \<and> x < heap + 32768 \<longrightarrow> byte_at m x = 0)"

lemma zeroed_if: "zeroed heap m \<longrightarrow> zeroed heap m" ..

lemma opened_stage:
  assumes o: "opendisk (of_nat n) m = Some s" and n: "2 \<le> n" "n \<le> 1024" and h: "heap_ok heap"
    and zero: "z \<longrightarrow> zeroed heap m"
  shows "stage z heap n (opened n m) files 0 s" "3 < n" "empty_disk n (opened n m)" "hsuper s + 8 = of_nat (dsk 1 + 8)"
proof -
  note oo = opendisk_ok [OF o n]
  show "3 < n" by (rule oo(1))
  note ob = opened_bytes [OF oo(1) n(2)]
  show "empty_disk n (opened n m)" by (rule ob(1))
  show "hsuper s + 8 = of_nat (dsk 1 + 8)" unfolding oo(2) by simp
  have hz: "byte_at (opened n m) x = 0" if z "heap \<le> x" "x < heap + 32768" for x
  proof -
    have "x < 2 ^ 32" "x < dsk 0 \<or> dsk 1024 \<le> x" using h that by (auto simp: heap_ok_def dsk_def)
    then show ?thesis using ob(3) zero that by (simp add: zeroed_def)
  qed
  show "stage z heap n (opened n m) files 0 s"
    unfolding stage_def using oo ob(2) hz by simp
qed

lemma fsformat_some:
  assumes f: "fsformat (of_nat n) files (of_nat heap) m = Some s" and n: "2 \<le> n" "n \<le> 1024" and files: "files \<noteq> []" and h: "heap_ok heap"
    and names: "\<And>f. f \<in> set files \<Longrightarrow> length (basename (fst f)) < 128"
  shows "image_fits n files" "image_holds (of_nat n) files (hm s)" "zeroed heap m \<Longrightarrow> image_of (of_nat n) files (hm s)"
proof -
  let ?k = "length files" and ?q = "start files (length files)"
  have guard: "\<not> (of_nat n < (2 :: u32) \<or> 1024 < (of_nat n :: u32))"
    using n unat_of_nat32 [of n] by (simp add: word_less_nat_alt)
  obtain s0 d s1 s2 where o: "opendisk (of_nat n) m = Some s0"
    and w: "writefiles (startdir (hsuper s0 + 8) (of_nat heap)) files s0 = Some (d, s1)"
    and fd: "finishdir d s1 = Some s2" and s: "s = finishdisk s2"
    using f guard unfolding fsformat_def by (auto split: bind_splits)
  note st0 = opened_stage(1) [OF o n h zeroed_if, of files] opened_stage(2-4) [OF o n h zeroed_if]
  have w': "writefiles \<lparr>d_f = of_nat (dsk 1 + 8), d_ents = of_nat heap, d_n = 0\<rparr> files s0 = Some (d, s1)"
    using w by (simp only: startdir_def st0(4))
  have "d = \<lparr>d_f = of_nat (dsk 1 + 8), d_ents = of_nat heap, d_n = ?k\<rparr> \<and> ?k \<le> 128 \<and> stage (zeroed heap m) heap n (opened n m) files ?k s1"
    using writefiles_ok [of "zeroed heap m" heap n "opened n m" "[]" files s0 "of_nat (dsk 1 + 8)" d s1] st0(1) n(2) h names w' by simp
  then have d: "d = \<lparr>d_f = of_nat (dsk 1 + 8), d_ents = of_nat heap, d_n = ?k\<rparr>" and k: "?k \<le> 128"
    and st: "stage (zeroed heap m) heap n (opened n m) files ?k s1" by blast+
  have k0: "0 < ?k" using files by simp
  note lo = finishdir_laid_out [OF fd [unfolded d] k0 k n(2) h st st0(3)]
  have big: "length (snd x) < 4235264" if "x \<in> set files" for x using writefiles_sizes [OF w] that by blast
  show "image_fits n files" unfolding image_fits_start using k big lo(2) by blast
  let ?c = "?q + blks (256 * ?k)"
  have c3: "3 \<le> ?c" by (simp add: start_def)
  have nb: "word_at (hm s2) (dsk 1 + 4) = of_nat n" using lo(1) unfolding laid_out_def by blast
  note bm = image_bitmap [OF lo(3,4) c3 lo(2) n(2) nb lo(5), folded s]
  have "?c < 1024" using lo(2) n(2) by simp
  from laid_out_keep [OF lo(1) refl this k0 k bm(5)]
  have keep: "laid_out (zeroed heap m) n files ?q (root_data (hm s1) heap (256 * ?k)) (hm s)" .
  have big': "length (snd x) \<le> 4235264" if "x \<in> set files" for x using big [OF that] by simp
  note img = image_laid_out [OF keep refl refl k0 k big' root_data_unused bm(1) n(2) lo(2) bm(4) bm(2) bm(3)]
  show "image_holds (of_nat n) files (hm s)" by (rule img(1))
  show "image_of (of_nat n) files (hm s)" if z: "zeroed heap m" by (rule img(2)) (use z in auto)
qed

lemma fsformat_fits:
  assumes fits: "image_fits n files" and n: "2 \<le> n" "n \<le> 1024" and files: "files \<noteq> []" and h: "heap_ok heap"
    and names: "\<And>f. f \<in> set files \<Longrightarrow> length (basename (fst f)) < 128"
  shows "\<exists>s. fsformat (of_nat n) files (of_nat heap) m = Some s"
proof -
  let ?k = "length files"
  have guard: "\<not> (of_nat n < (2 :: u32) \<or> 1024 < (of_nat n :: u32))"
    using n unat_of_nat32 [of n] by (simp add: word_less_nat_alt)
  note fits' = fits [unfolded image_fits_start]
  have n3: "3 < n" using fits' by (simp add: start_def)
  obtain s0 where o: "opendisk (of_nat n) m = Some s0" using opendisk_some [OF n3 n(2)] by blast
  note st0 = opened_stage(1) [OF o n h zeroed_if, of files] opened_stage(2-4) [OF o n h zeroed_if]
  have "\<exists>d s1. writefiles \<lparr>d_f = of_nat (dsk 1 + 8), d_ents = of_nat heap, d_n = length ([] :: (u8 list \<times> u8 list) list)\<rparr> files s0 = Some (d, s1)"
    by (rule writefiles_some [of "[]" _ n]) (use fits' st0(1) n(2) in \<open>auto simp: stage_def\<close>)
  then obtain d s1 where w': "writefiles \<lparr>d_f = of_nat (dsk 1 + 8), d_ents = of_nat heap, d_n = 0\<rparr> files s0 = Some (d, s1)"
    by auto
  then have w: "writefiles (startdir (hsuper s0 + 8) (of_nat heap)) files s0 = Some (d, s1)"
    by (simp only: startdir_def st0(4))
  have d: "d = \<lparr>d_f = of_nat (dsk 1 + 8), d_ents = of_nat heap, d_n = ?k\<rparr>" "stage (zeroed heap m) heap n (opened n m) files ?k s1"
    using writefiles_ok [of "zeroed heap m" heap n "opened n m" "[]" files s0 "of_nat (dsk 1 + 8)" d s1] st0(1) n(2) h names w' by simp_all
  obtain s2 where "finishdir d s1 = Some s2"
    using finishdir_some [OF d(1), of s1 "start files ?k" n] d(2) fits' files n(2) by (auto simp: stage_def)
  then show ?thesis unfolding fsformat_def using guard o w by auto
qed

text \<open>
  Without files the size of the directory is rounded up in \<open>int\<close>, to 4096: the root directory gets the block after the bitmap,
  which is not taken.
\<close>

lemma finishdir_empty:
  assumes f: "finishdir \<lparr>d_f = of_nat r, d_ents = h, d_n = 0\<rparr> s = Some s'"
    and s: "diskpos s = of_nat (dsk q)" "nblocks s = of_nat n" "q < n" "n \<le> 1024" and r: "r + 256 \<le> 2 ^ 32"
  shows "diskpos s' = diskpos s" "word_at (hm s') (r + 136) = of_nat q"
proof -
  have ri: "roundup_int 0 = 4096" by (simp add: roundup_int_def signed_modulo_int_def)
  have nb: "unat (roundup 4096 div 0x1000 :: u32) = 1"
    using roundup_of_nat [of 4096] by (simp add: blks_def)
  obtain p s1 where a: "alloc (of_nat 0) s = Some (p, s1)"
    and ff: "finishfile (of_nat r) (blockno p) 4096 (upd_mem (blit p h 0) s1) = Some s'"
    using f unfolding finishdir_def Let_def dir_buf.simps by (auto simp: ri split: bind_splits)
  have al: "p = of_nat (dsk q)" "s1 = s"
    using alloc_ok [OF a s(1,2)] s by (simp_all add: blks_def)
  have bp: "blockno p = of_nat q" unfolding al(1) by (rule blockno_dsk) (use s in simp)
  have d: "f_direct (of_nat r) 0 = of_nat (r + 136)" by (simp add: f_direct_def add.commute)
  have s': "s' = upd_mem (store_run (of_nat (r + 136)) (of_nat q) 1) (upd_mem (put32 (f_size (of_nat r)) 4096) (upd_mem (blit p h 0) s))"
    using ff unfolding finishfile_def Let_def nb bp al(2) d by simp
  show "diskpos s' = diskpos s" unfolding s' by (simp add: upd_mem_def)
  show "word_at (hm s') (r + 136) = of_nat q"
    unfolding s' using word_at_store_run [of "r + 136" 1 0] r by (simp add: upd_mem_def)
qed

text \<open>
  C29: when the files fit, \<open>fsformat\<close> builds a well-formed volume whose root directory has every file, in order, with its name
  and its contents, in blocks of its own; and when they do not fit it stops.  There is at least one file, the names are shorter
  than 128 bytes, and the memory that \<open>malloc\<close> returns for the directory lies outside the image.  If that memory is zero, the
  entries of the files name no other blocks than their own, and every file is well formed.
\<close>

theorem fsformat_image:
  assumes "2 \<le> n" "n \<le> 1024" "files \<noteq> []" "heap_ok heap"
    and "\<And>f. f \<in> set files \<Longrightarrow> length (basename (fst f)) < 128"
  shows "if image_fits n files
     then \<exists>s. fsformat (of_nat n) files (of_nat heap) m = Some s \<and> image_holds (of_nat n) files (hm s) \<and>
       (zeroed heap m \<longrightarrow> image_of (of_nat n) files (hm s))
     else fsformat (of_nat n) files (of_nat heap) m = None"
proof (cases "image_fits n files")
  case True
  then obtain s where "fsformat (of_nat n) files (of_nat heap) m = Some s" using fsformat_fits [OF True assms] by blast
  then show ?thesis using True fsformat_some(2,3) [OF _ assms] by auto
next
  case False
  then have "fsformat (of_nat n) files (of_nat heap) m \<noteq> Some s" for s
    using fsformat_some(1) [OF _ assms, where s = s and m = m] by blast
  then show ?thesis using False by (cases "fsformat (of_nat n) files (of_nat heap) m") auto
qed

text \<open>
  Two files on a disk of 64 blocks: \<open>a/motd\<close> with two bytes, and one of 50000 zeros that needs an indirect block, with a memory
  that is not zero and one that is.
\<close>

abbreviation (input) ex_files :: "(u8 list \<times> u8 list) list" where
  "ex_files \<equiv> [([0x61, 0x2F, 0x6D], [0x68, 0x69]), ([0x7A], replicate 50000 0)]"

theorem fsformat_image_witness:
  "(\<exists>s. fsformat 64 ex_files 0x400000 (\<lambda>_. 0xAA) = Some s \<and> image_holds 64 ex_files (hm s)) \<and>
   (\<exists>s. fsformat 64 ex_files 0x400000 (\<lambda>_. 0) = Some s \<and> image_of 64 ex_files (hm s))"
proof -
  have f: "image_fits 64 ex_files" by (simp add: image_fits_def extent_def blks_def)
  have z: "zeroed 0x400000 (\<lambda>_. 0)" by (simp add: zeroed_def byte_at_def)
  have "if image_fits 64 ex_files
     then \<exists>s. fsformat (of_nat 64) ex_files (of_nat 0x400000) m = Some s \<and> image_holds (of_nat 64) ex_files (hm s) \<and>
       (zeroed 0x400000 m \<longrightarrow> image_of (of_nat 64) ex_files (hm s))
     else fsformat (of_nat 64) ex_files (of_nat 0x400000) m = None" for m
    by (rule fsformat_image) (auto simp: heap_ok_def dsk_def basename_def)
  from this [of "\<lambda>_. 0xAA"] this [of "\<lambda>_. 0"] f z show ?thesis by auto
qed

end
